(* ===== verification/Prelude.thy ===== *)
theory Prelude
  imports Main "HOL-Library.AList" "HOL-Library.Word" "HOL-Library.Product_Lexorder"
begin

section \<open>Shared vocabulary of the development\<close>

text \<open>
  What every component uses: the exceptions the program raises, the state-and-exception
  monad its methods are written in, insertion-ordered dictionaries, and the integer helpers
  of \<open>vllm/utils.py\<close>.

  A method of a Python object is a function from the object's state to an outcome and the
  state it leaves behind: \<open>Inl e\<close> when it raises \<open>e\<close>, \<open>Inr x\<close> when it returns \<open>x\<close>. The
  state survives an exception, as the object's fields do.
\<close>

subsection \<open>Collections of facts\<close>

named_theorems ok_simps \<open>inversion of a method call that returned\<close>
named_theorems run_simps \<open>evaluation of a method call\<close>
named_theorems inv_intros \<open>operations keep their component's invariant\<close>

subsection \<open>Exceptions and the state-and-exception monad\<close>

datatype exn =
    AssertionError
  | ValueError
  | TypeError
  | KeyError
  | IndexError
  | AttributeError
  | RuntimeError
  | NotImplementedError
  | NoFreeBlocksError
  | OverflowError
  | StructError
  | ZeroDivisionError

type_synonym ('s, 'a) st = "'s \<Rightarrow> (exn + 'a) \<times> 's"

definition retM :: "'a \<Rightarrow> ('s, 'a) st" where
  "retM x = (\<lambda>s. (Inr x, s))"

definition raiseM :: "exn \<Rightarrow> ('s, 'a) st" where
  "raiseM e = (\<lambda>s. (Inl e, s))"

definition bindM :: "('s, 'a) st \<Rightarrow> ('a \<Rightarrow> ('s, 'b) st) \<Rightarrow> ('s, 'b) st" where
  "bindM m k = (\<lambda>s. case m s of (Inl e, t) \<Rightarrow> (Inl e, t) | (Inr x, t) \<Rightarrow> k x t)"

definition thenM :: "('s, unit) st \<Rightarrow> ('s, 'b) st \<Rightarrow> ('s, 'b) st" where
  "thenM m n = bindM m (\<lambda>_. n)"

text \<open>\<open>getM f k\<close> reads \<open>f\<close> of the state and goes on with it; \<open>modM\<close> writes the state.\<close>

definition getM :: "('s \<Rightarrow> 'a) \<Rightarrow> ('a \<Rightarrow> ('s, 'b) st) \<Rightarrow> ('s, 'b) st" where
  "getM f k = (\<lambda>s. k (f s) s)"

definition modM :: "('s \<Rightarrow> 's) \<Rightarrow> ('s, unit) st" where
  "modM f = (\<lambda>s. (Inr (), f s))"

definition assertM :: "bool \<Rightarrow> ('s, unit) st" where
  "assertM b = (if b then retM () else raiseM AssertionError)"

text \<open>A guard that raises \<open>e\<close>: \<open>if bad: raise e\<close>.\<close>

definition guardM :: "bool \<Rightarrow> exn \<Rightarrow> ('s, unit) st" where
  "guardM bad e = (if bad then raiseM e else retM ())"

text \<open>A lookup that raises \<open>e\<close> when the key is missing, and a pure computation that may raise.\<close>

definition fromM :: "exn \<Rightarrow> 'a option \<Rightarrow> ('s, 'a) st" where
  "fromM e r = (case r of None \<Rightarrow> raiseM e | Some x \<Rightarrow> retM x)"

definition liftM :: "exn + 'a \<Rightarrow> ('s, 'a) st" where
  "liftM r = (\<lambda>s. (r, s))"

text \<open>\<open>zoomM\<close> runs a method of a field's object inside the object that holds it.\<close>

definition zoomM :: "('s \<Rightarrow> 't) \<Rightarrow> ('t \<Rightarrow> 's \<Rightarrow> 's) \<Rightarrow> ('t, 'a) st \<Rightarrow> ('s, 'a) st" where
  "zoomM get put m = (\<lambda>s. case m (get s) of (r, t) \<Rightarrow> (r, put t s))"

text \<open>\<open>try: m except e: handler\<close>; the state keeps what \<open>m\<close> did before it raised.\<close>

definition catchM :: "('s, 'a) st \<Rightarrow> exn \<Rightarrow> ('s, 'a) st \<Rightarrow> ('s, 'a) st" where
  "catchM m e handler = (\<lambda>s. case m s of
     (Inl e', t) \<Rightarrow> if e' = e then handler t else (Inl e', t)
   | (Inr x, t) \<Rightarrow> (Inr x, t))"

text \<open>\<open>for x in xs: body\<close>, and the list comprehension \<open>[f x for x in xs]\<close>.\<close>

fun forM :: "'x list \<Rightarrow> ('x \<Rightarrow> ('s, unit) st) \<Rightarrow> ('s, unit) st" where
  "forM [] f = retM ()"
| "forM (x # xs) f = thenM (f x) (forM xs f)"

fun mapM :: "'x list \<Rightarrow> ('x \<Rightarrow> ('s, 'y) st) \<Rightarrow> ('s, 'y list) st" where
  "mapM [] f = retM []"
| "mapM (x # xs) f = bindM (f x) (\<lambda>y. bindM (mapM xs f) (\<lambda>ys. retM (y # ys)))"

subsection \<open>Evaluation and inversion of the monad\<close>

lemma retM_run [run_simps]: "retM x s = (Inr x, s)"
  by (simp add: retM_def)

lemma raiseM_run [run_simps]: "raiseM e s = (Inl e, s)"
  by (simp add: raiseM_def)

lemma bindM_run [run_simps]:
  "bindM m k s = (case m s of (Inl e, t) \<Rightarrow> (Inl e, t) | (Inr x, t) \<Rightarrow> k x t)"
  by (simp add: bindM_def)

lemma thenM_run [run_simps]:
  "thenM m n s = (case m s of (Inl e, t) \<Rightarrow> (Inl e, t) | (Inr x, t) \<Rightarrow> n t)"
  by (simp add: thenM_def bindM_def)

text \<open>One step of a run whose first call is known to return.\<close>

lemma bindM_step: "m s = (Inr x, t) \<Longrightarrow> bindM m k s = k x t"
  by (simp add: bindM_def)

lemma thenM_step: "m s = (Inr x, t) \<Longrightarrow> thenM m n s = n t"
  by (simp add: thenM_def bindM_def)

lemma bindM_goes: "m s = (Inr x, t) \<Longrightarrow> k x t = r \<Longrightarrow> bindM m k s = r"
  by (simp add: bindM_def)

lemma thenM_goes: "m s = (Inr x, t) \<Longrightarrow> n t = r \<Longrightarrow> thenM m n s = r"
  by (simp add: thenM_def bindM_def)

lemma getM_run [run_simps]: "getM f k s = k (f s) s"
  by (simp add: getM_def)

lemma modM_run [run_simps]: "modM f s = (Inr (), f s)"
  by (simp add: modM_def)

lemma assertM_run [run_simps]: "assertM b s = (if b then Inr () else Inl AssertionError, s)"
  by (simp add: assertM_def retM_def raiseM_def)

lemma guardM_run [run_simps]: "guardM bad e s = (if bad then Inl e else Inr (), s)"
  by (simp add: guardM_def retM_def raiseM_def)

lemma fromM_run [run_simps]:
  "fromM e r s = (case r of None \<Rightarrow> Inl e | Some x \<Rightarrow> Inr x, s)"
  by (cases r) (simp_all add: fromM_def retM_def raiseM_def)

lemma liftM_run [run_simps]: "liftM r s = (r, s)"
  by (simp add: liftM_def)

lemma zoomM_run [run_simps]:
  "zoomM get put m s = (case m (get s) of (r, t) \<Rightarrow> (r, put t s))"
  by (simp add: zoomM_def)

lemma catchM_run [run_simps]:
  "catchM m e handler s = (case m s of
     (Inl e', t) \<Rightarrow> if e' = e then handler t else (Inl e', t)
   | (Inr x, t) \<Rightarrow> (Inr x, t))"
  by (simp add: catchM_def)

lemma retM_ok [ok_simps]: "retM x s = (Inr y, t) \<longleftrightarrow> y = x \<and> t = s"
  by (auto simp: retM_def)

lemma raiseM_ok [ok_simps]: "raiseM e s = (Inr y, t) \<longleftrightarrow> False"
  by (simp add: raiseM_def)

lemma bindM_ok [ok_simps]:
  "bindM m k s = (Inr y, t) \<longleftrightarrow> (\<exists>x u. m s = (Inr x, u) \<and> k x u = (Inr y, t))"
  by (auto simp: bindM_def split: prod.splits sum.splits)

lemma thenM_ok [ok_simps]:
  "thenM m n s = (Inr y, t) \<longleftrightarrow> (\<exists>u. m s = (Inr (), u) \<and> n u = (Inr y, t))"
  by (auto simp: thenM_def bindM_def split: prod.splits sum.splits)

lemma getM_ok [ok_simps]: "getM f k s = (Inr y, t) \<longleftrightarrow> k (f s) s = (Inr y, t)"
  by (simp add: getM_def)

lemma modM_ok [ok_simps]: "modM f s = (Inr y, t) \<longleftrightarrow> t = f s"
  by (auto simp: modM_def)

lemma assertM_ok [ok_simps]: "assertM b s = (Inr y, t) \<longleftrightarrow> b \<and> t = s"
  by (auto simp: assertM_def retM_def raiseM_def)

lemma guardM_ok [ok_simps]: "guardM bad e s = (Inr y, t) \<longleftrightarrow> \<not> bad \<and> t = s"
  by (auto simp: guardM_def retM_def raiseM_def)

lemma fromM_ok [ok_simps]: "fromM e r s = (Inr y, t) \<longleftrightarrow> r = Some y \<and> t = s"
  by (auto simp: fromM_def retM_def raiseM_def split: option.splits)

lemma liftM_ok [ok_simps]: "liftM r s = (Inr y, t) \<longleftrightarrow> r = Inr y \<and> t = s"
  by (auto simp: liftM_def)

lemma zoomM_ok [ok_simps]:
  "zoomM get put m s = (Inr y, t) \<longleftrightarrow> (\<exists>u. m (get s) = (Inr y, u) \<and> t = put u s)"
  by (auto simp: zoomM_def split: prod.splits)

lemma catchM_ok [ok_simps]:
  "catchM m e handler s = (Inr y, t) \<longleftrightarrow>
     m s = (Inr y, t) \<or> (\<exists>u. m s = (Inl e, u) \<and> handler u = (Inr y, t))"
  by (auto simp: catchM_def split: prod.splits sum.splits)

text \<open>A loop keeps what its body keeps.\<close>

lemma forM_inv:
  assumes "forM xs f s = (Inr (), t)" and "I s"
    and "\<And>x u v. x \<in> set xs \<Longrightarrow> I u \<Longrightarrow> f x u = (Inr (), v) \<Longrightarrow> I v"
  shows "I t"
  using assms
proof (induction xs arbitrary: s)
  case Nil
  then show ?case by (simp add: ok_simps)
next
  case (Cons x xs)
  from Cons.prems(1) obtain u where u: "f x s = (Inr (), u)" "forM xs f u = (Inr (), t)"
    by (auto simp: ok_simps)
  have "I u" using Cons.prems(2,3) u(1) by auto
  then show ?case using Cons.IH [OF u(2)] Cons.prems(3) by auto
qed

lemma forM_append: "forM (xs @ ys) f = thenM (forM xs f) (forM ys f)"
  by (induction xs) (auto simp: fun_eq_iff run_simps split: sum.splits prod.splits)

text \<open>The counter of a loop that ignores it.\<close>

lemma mapM_map: "mapM (map g xs) f = mapM xs (f \<circ> g)"
  by (induction xs) simp_all

lemma mapM_const_Suc:
  "mapM [0..<Suc n] (\<lambda>_. m) = bindM m (\<lambda>y. bindM (mapM [0..<n] (\<lambda>_. m)) (\<lambda>ys. retM (y # ys)))"
proof -
  have "[0..<Suc n] = 0 # map Suc [0..<n]"
    by (simp add: map_Suc_upt upt_conv_Cons del: upt_Suc)
  then show ?thesis by (simp add: mapM_map comp_def del: upt_Suc)
qed

text \<open>A loop whose body only reads leaves the state as it was.\<close>

lemma mapM_frame:
  assumes "mapM xs f s = (r, t)" and "\<And>x u q v. f x u = (q, v) \<Longrightarrow> v = u"
  shows "t = s"
  using assms(1)
proof (induction xs arbitrary: s r t)
  case Nil
  then show ?case by (simp add: run_simps)
next
  case (Cons x xs)
  obtain q u where q: "f x s = (q, u)" by (cases "f x s")
  then have "u = s" by (rule assms(2))
  obtain p v where p: "mapM xs f s = (p, v)" by (cases "mapM xs f s")
  then have "v = s" by (rule Cons.IH)
  with Cons.prems q p \<open>u = s\<close> show ?case
    by (auto simp: run_simps split: sum.splits)
qed

lemma mapM_length: "mapM xs f s = (Inr ys, t) \<Longrightarrow> length ys = length xs"
  by (induction xs arbitrary: s ys) (auto simp: ok_simps)

subsection \<open>Operations that keep a property of the state\<close>

text \<open>
  \<open>preserves P m\<close>: when \<open>m\<close> returns, \<open>P\<close> still holds. The rules follow the structure of a
  method, so \<open>intro inv_intros\<close> reduces it to the primitive calls it makes.
\<close>

definition preserves :: "('s \<Rightarrow> bool) \<Rightarrow> ('s, 'a) st \<Rightarrow> bool" where
  "preserves P m \<longleftrightarrow> (\<forall>s y t. P s \<longrightarrow> m s = (Inr y, t) \<longrightarrow> P t)"

lemma preservesI: "(\<And>s y t. P s \<Longrightarrow> m s = (Inr y, t) \<Longrightarrow> P t) \<Longrightarrow> preserves P m"
  by (simp add: preserves_def)

lemma preservesD: "preserves P m \<Longrightarrow> P s \<Longrightarrow> m s = (Inr y, t) \<Longrightarrow> P t"
  by (auto simp: preserves_def)

lemma preserves_ret [inv_intros]: "preserves P (retM x)"
  by (auto simp: preserves_def ok_simps)

lemma preserves_raise [inv_intros]: "preserves P (raiseM e)"
  by (auto simp: preserves_def ok_simps)

lemma preserves_bind [inv_intros]:
  "preserves P m \<Longrightarrow> (\<And>x. preserves P (k x)) \<Longrightarrow> preserves P (bindM m k)"
  unfolding preserves_def bindM_ok by blast

lemma preserves_then [inv_intros]:
  "preserves P m \<Longrightarrow> preserves P n \<Longrightarrow> preserves P (thenM m n)"
  unfolding preserves_def thenM_ok by blast

lemma preserves_get [inv_intros]: "(\<And>x. preserves P (k x)) \<Longrightarrow> preserves P (getM f k)"
  unfolding preserves_def getM_ok by blast

lemma preserves_mod: "(\<And>s. P s \<Longrightarrow> P (f s)) \<Longrightarrow> preserves P (modM f)"
  unfolding preserves_def modM_ok by blast

lemma preserves_assert [inv_intros]: "preserves P (assertM b)"
  unfolding preserves_def assertM_ok by blast

lemma preserves_guard [inv_intros]: "preserves P (guardM b e)"
  unfolding preserves_def guardM_ok by blast

lemma preserves_from [inv_intros]: "preserves P (fromM e r)"
  unfolding preserves_def fromM_ok by blast

lemma preserves_lift [inv_intros]: "preserves P (liftM r)"
  unfolding preserves_def liftM_ok by blast

lemma preserves_if [inv_intros]:
  "preserves P m \<Longrightarrow> preserves P n \<Longrightarrow> preserves P (if b then m else n)"
  by simp

lemma preserves_option [inv_intros]:
  "preserves P m \<Longrightarrow> (\<And>x. preserves P (k x)) \<Longrightarrow> preserves P (case r of None \<Rightarrow> m | Some x \<Rightarrow> k x)"
  by (cases r) simp_all

lemma preserves_list [inv_intros]:
  "preserves P m \<Longrightarrow> (\<And>x xs. preserves P (k x xs))
    \<Longrightarrow> preserves P (case l of [] \<Rightarrow> m | x # xs \<Rightarrow> k x xs)"
  by (cases l) simp_all

lemma preserves_prod [inv_intros]:
  "(\<And>x y. preserves P (k x y)) \<Longrightarrow> preserves P (case p of (x, y) \<Rightarrow> k x y)"
  by (cases p) simp

lemma preserves_for [inv_intros]:
  "(\<And>x. preserves P (f x)) \<Longrightarrow> preserves P (forM xs f)"
  by (induction xs) (auto intro: inv_intros)

lemma preserves_mapM [inv_intros]:
  "(\<And>x. preserves P (f x)) \<Longrightarrow> preserves P (mapM xs f)"
  by (induction xs) (auto intro: inv_intros)

lemma preserves_zoom:
  "(\<And>s y u. P s \<Longrightarrow> m (get s) = (Inr y, u) \<Longrightarrow> P (put u s)) \<Longrightarrow> preserves P (zoomM get put m)"
  unfolding preserves_def zoomM_ok by blast

subsection \<open>Insertion-ordered dictionaries\<close>

text \<open>
  A Python \<open>dict\<close> or \<open>OrderedDict\<close> is an association list in insertion order: assigning to a
  present key keeps its place, assigning to a new key appends, deleting closes the gap.
\<close>

type_synonym ('k, 'v) dict = "('k \<times> 'v) list"

abbreviation dict_get :: "('k, 'v) dict \<Rightarrow> 'k \<Rightarrow> 'v option" where
  "dict_get \<equiv> map_of"

abbreviation dict_set :: "'k \<Rightarrow> 'v \<Rightarrow> ('k, 'v) dict \<Rightarrow> ('k, 'v) dict" where
  "dict_set \<equiv> AList.update"

abbreviation dict_del :: "'k \<Rightarrow> ('k, 'v) dict \<Rightarrow> ('k, 'v) dict" where
  "dict_del \<equiv> AList.delete"

abbreviation dict_keys :: "('k, 'v) dict \<Rightarrow> 'k set" where
  "dict_keys d \<equiv> fst ` set d"

definition dict_ok :: "('k, 'v) dict \<Rightarrow> bool" where
  "dict_ok d \<longleftrightarrow> distinct (map fst d)"

lemma dict_ok_Nil [simp]: "dict_ok []"
  by (simp add: dict_ok_def)

lemma dict_ok_set [simp]: "dict_ok d \<Longrightarrow> dict_ok (dict_set k v d)"
  by (simp add: dict_ok_def distinct_update)

lemma dict_ok_del [simp]: "dict_ok d \<Longrightarrow> dict_ok (dict_del k d)"
  by (simp add: dict_ok_def distinct_delete)

lemma dict_get_set [simp]: "dict_get (dict_set k v d) = (dict_get d)(k \<mapsto> v)"
  by (simp add: update_conv')

lemma dict_get_del [simp]: "dict_get (dict_del k d) = (dict_get d)(k := None)"
  by (simp add: delete_conv')

lemma dict_keys_dom: "dict_keys d = dom (dict_get d)"
  by (simp add: dom_map_of_conv_image_fst)

lemma dict_keys_iff: "k \<in> dict_keys d \<longleftrightarrow> dict_get d k \<noteq> None"
  by (metis domIff dict_keys_dom)

lemma dict_get_in: "dict_get d k = Some v \<Longrightarrow> (k, v) \<in> set d"
  by (rule map_of_SomeD)

lemma dict_in_get: "dict_ok d \<Longrightarrow> (k, v) \<in> set d \<Longrightarrow> dict_get d k = Some v"
  by (simp add: dict_ok_def)

lemma dict_set_new: "dict_get d k = None \<Longrightarrow> dict_set k v d = d @ [(k, v)]"
  by (induction d) (auto split: if_splits)

lemma dict_len: "dict_ok d \<Longrightarrow> length d = card (dict_keys d)"
  by (metis dict_ok_def distinct_card length_map set_map)

lemma dict_len_set:
  "dict_ok d \<Longrightarrow> length (dict_set k v d) = (if k \<in> dict_keys d then length d else Suc (length d))"
  by (induction d) (auto simp: dict_ok_def)

lemma dict_len_del:
  "dict_ok d \<Longrightarrow> k \<in> dict_keys d \<Longrightarrow> Suc (length (dict_del k d)) = length d"
proof (induction d)
  case Nil
  then show ?case by simp
next
  case (Cons p d)
  show ?case
  proof (cases "fst p = k")
    case True
    with Cons.prems have "k \<notin> dict_keys d" by (auto simp: dict_ok_def)
    then have "dict_del k d = d" by (simp add: delete_idem image_iff)
    with True show ?thesis by simp
  next
    case False
    with Cons show ?thesis by (auto simp: dict_ok_def)
  qed
qed

subsection \<open>Integer helpers and slices\<close>

text \<open>
  \<open>cdiv a b = -(a // -b)\<close>; Python's \<open>//\<close> rounds towards minus infinity, as \<open>div\<close> on \<open>int\<close>
  does. \<open>chunk_list\<close> yields the successive slices of \<open>chunk_size\<close> elements; \<open>range\<close> refuses a
  step of zero, which no caller passes, and the model yields nothing there.
\<close>

definition cdiv :: "int \<Rightarrow> int \<Rightarrow> int" where
  "cdiv a b = - (a div (- b))"

function chunk_list :: "'a list \<Rightarrow> nat \<Rightarrow> 'a list list" where
  "chunk_list xs n = (if xs = [] \<or> n = 0 then [] else take n xs # chunk_list (drop n xs) n)"
  by pat_completeness auto
termination
  by (relation "measure (\<lambda>(xs, n). length xs)") auto

declare chunk_list.simps [simp del]

lemma chunk_list_Nil [simp]: "chunk_list [] n = []"
  by (simp add: chunk_list.simps)

lemma chunk_list_step:
  "xs \<noteq> [] \<Longrightarrow> 0 < n \<Longrightarrow> chunk_list xs n = take n xs # chunk_list (drop n xs) n"
  by (simp add: chunk_list.simps [of xs n])

lemma concat_chunk_list: "0 < n \<Longrightarrow> concat (chunk_list xs n) = xs"
proof (induction xs n rule: chunk_list.induct)
  case (1 xs n)
  then show ?case by (cases "xs = []") (simp_all add: chunk_list_step)
qed

lemma cdiv_nat:
  assumes "0 < b"
  shows "cdiv (int a) (int b) = int ((a + b - 1) div b)"
proof -
  let ?q = "int a div int b" and ?r = "int a mod int b"
  have eq: "int a = ?q * int b + ?r" by simp
  have r: "0 \<le> ?r" "?r < int b" using assms by simp_all
  have "cdiv (int a) (int b) = (if ?r = 0 then ?q else ?q + 1)"
    using assms by (simp add: cdiv_def zdiv_zminus2_eq_if)
  moreover have "int ((a + b - 1) div b) = (int a + int b - 1) div int b"
    using assms by (simp add: zdiv_int of_nat_diff)
  moreover have "(int a + int b - 1) div int b = (if ?r = 0 then ?q else ?q + 1)"
  proof -
    have "int a + int b - 1 = (?q + 1) * int b + (?r - 1)"
      using eq by (simp add: algebra_simps)
    also have "\<dots> div int b = ?q + 1 + (?r - 1) div int b"
      using assms by (simp add: add.commute)
    also have "(?r - 1) div int b = (if ?r = 0 then -1 else 0)"
    proof (cases "?r = 0")
      case True
      then show ?thesis using assms by (simp add: div_eq_minus1)
    next
      case False
      with r have "0 \<le> ?r - 1" "?r - 1 < int b" by linarith+
      then have "(?r - 1) div int b = 0" by (rule div_pos_pos_trivial)
      with False show ?thesis by simp
    qed
    finally show ?thesis by simp
  qed
  ultimately show ?thesis by simp
qed

end
