(* ===== verification/EvictorV2.thy ===== *)
theory EvictorV2
  imports Prelude
begin

section \<open>Eviction policies (\<open>vllm/core/evictor_v2.py\<close>)\<close>

text \<open>
  The two evictors a prefix-caching allocator can hold: \<open>LRUEvictor\<close>, a scan of an ordered
  table, and \<open>FrequencyAwareEvictor\<close>, a binary heap with generations and lazy invalidation.
  A content hash is an \<open>int\<close> (\<open>hash(...)\<close>) or a byte string; times are integers, since the
  code only compares them. A \<open>heapq\<close> list is represented by its ascending order: \<open>heappop\<close>
  returns its least element, \<open>heappush\<close> inserts, \<open>heapify\<close> sorts.
\<close>

type_synonym block_id = nat
type_synonym py_time = int
type_synonym byte = "8 word"

datatype content_hash = PyInt int | PyBytes "byte list"

datatype EvictionPolicy = LRU | FREQUENCY_AWARE

record BlockMetaData =
  md_content_hash :: content_hash
  md_num_hashed_tokens :: int
  md_last_accessed :: py_time

subsection \<open>The least-recently-used evictor\<close>

record LRUEvictor =
  lru_free_table :: "(block_id, BlockMetaData) dict"

definition lru_init :: LRUEvictor where
  "lru_init = \<lparr>lru_free_table = []\<rparr>"

definition lru_contains :: "block_id \<Rightarrow> LRUEvictor \<Rightarrow> bool" where
  "lru_contains b s \<longleftrightarrow> dict_get (lru_free_table s) b \<noteq> None"

text \<open>The loop of \<open>evict\<close>: the entry held so far, and the entries still to visit.\<close>

fun lru_scan :: "block_id \<times> BlockMetaData \<Rightarrow> (block_id, BlockMetaData) dict
    \<Rightarrow> block_id \<times> BlockMetaData" where
  "lru_scan e [] = e"
| "lru_scan e (p # ps) =
     (if md_last_accessed (snd e) < md_last_accessed (snd p) then e
      else if md_num_hashed_tokens (snd e) < md_num_hashed_tokens (snd p) then lru_scan p ps
      else lru_scan e ps)"

definition lru_evict :: "(LRUEvictor, block_id \<times> content_hash) st" where
  "lru_evict = getM lru_free_table (\<lambda>tab.
     case tab of
       [] \<Rightarrow> raiseM ValueError
     | e # rest \<Rightarrow>
         (let (i, m) = lru_scan e rest in
          thenM (modM (\<lambda>s. s\<lparr>lru_free_table := dict_del i tab\<rparr>))
                (retM (i, md_content_hash m))))"

definition lru_add :: "block_id \<Rightarrow> content_hash \<Rightarrow> int \<Rightarrow> py_time \<Rightarrow> (LRUEvictor, unit) st" where
  "lru_add b h n la = modM (\<lambda>s. s\<lparr>lru_free_table :=
     dict_set b \<lparr>md_content_hash = h, md_num_hashed_tokens = n, md_last_accessed = la\<rparr>
       (lru_free_table s)\<rparr>)"

definition lru_update :: "block_id \<Rightarrow> py_time \<Rightarrow> (LRUEvictor, unit) st" where
  "lru_update b la = getM lru_free_table (\<lambda>tab.
     bindM (fromM KeyError (dict_get tab b)) (\<lambda>m.
     modM (\<lambda>s. s\<lparr>lru_free_table := dict_set b (m\<lparr>md_last_accessed := la\<rparr>) tab\<rparr>)))"

definition lru_remove :: "block_id \<Rightarrow> (LRUEvictor, unit) st" where
  "lru_remove b = getM lru_free_table (\<lambda>tab.
     thenM (guardM (dict_get tab b = None) ValueError)
           (modM (\<lambda>s. s\<lparr>lru_free_table := dict_del b tab\<rparr>)))"

definition lru_num_blocks :: "LRUEvictor \<Rightarrow> nat" where
  "lru_num_blocks s = length (lru_free_table s)"

subsection \<open>The frequency-aware evictor\<close>

text \<open>A heap entry: frequency, last access, negated hashed tokens, block, generation.\<close>

type_synonym heap_entry = "int \<times> py_time \<times> int \<times> block_id \<times> nat"

record FrequencyAwareEvictor =
  fa_free_table :: "(block_id, BlockMetaData) dict"
  frequency_by_hash :: "(content_hash, int) dict"
  fa_heap :: "heap_entry list"
  fa_generations :: "(block_id, nat) dict"
  fa_next_generation :: nat

definition fa_init :: FrequencyAwareEvictor where
  "fa_init = \<lparr>fa_free_table = [], frequency_by_hash = [], fa_heap = [], fa_generations = [],
     fa_next_generation = 0\<rparr>"

fun fa_validate_content_hash :: "content_hash \<Rightarrow> bool" where
  "fa_validate_content_hash (PyInt n) = False"
| "fa_validate_content_hash (PyBytes bs) = (length bs = 32)"

definition fa_contains :: "block_id \<Rightarrow> FrequencyAwareEvictor \<Rightarrow> bool" where
  "fa_contains b s \<longleftrightarrow> dict_get (fa_free_table s) b \<noteq> None"

definition fa_heap_key :: "block_id \<Rightarrow> BlockMetaData \<Rightarrow> nat
    \<Rightarrow> (FrequencyAwareEvictor, heap_entry) st" where
  "fa_heap_key b m g = getM frequency_by_hash (\<lambda>freq.
     bindM (fromM KeyError (dict_get freq (md_content_hash m))) (\<lambda>f.
     retM (f, md_last_accessed m, - md_num_hashed_tokens m, b, g)))"

definition heappush :: "heap_entry \<Rightarrow> heap_entry list \<Rightarrow> heap_entry list" where
  "heappush = insort"

definition fa_push :: "block_id \<Rightarrow> (FrequencyAwareEvictor, unit) st" where
  "fa_push b =
     thenM (modM (\<lambda>s. s\<lparr>fa_next_generation := fa_next_generation s + 1\<rparr>)) (
     getM fa_next_generation (\<lambda>g.
     thenM (modM (\<lambda>s. s\<lparr>fa_generations := dict_set b g (fa_generations s)\<rparr>)) (
     getM fa_free_table (\<lambda>tab.
     bindM (fromM KeyError (dict_get tab b)) (\<lambda>m.
     bindM (fa_heap_key b m g) (\<lambda>k.
     modM (\<lambda>s. s\<lparr>fa_heap := heappush k (fa_heap s)\<rparr>)))))))"

text \<open>\<open>_COMPACTION_FACTOR\<close> is 2 and \<open>_COMPACTION_SLACK\<close> is 1.\<close>

definition fa_compact_if_needed :: "(FrequencyAwareEvictor, unit) st" where
  "fa_compact_if_needed = getM fa_free_table (\<lambda>tab. getM fa_heap (\<lambda>heap.
     if length heap \<le> 2 * length tab + 1 then retM ()
     else bindM (mapM tab (\<lambda>(b, m). getM fa_generations (\<lambda>gens.
            bindM (fromM KeyError (dict_get gens b)) (\<lambda>g. fa_heap_key b m g)))) (\<lambda>keys.
          modM (\<lambda>s. s\<lparr>fa_heap := sort keys\<rparr>))))"

text \<open>
  The loop of \<open>evict\<close>: pop; skip an entry whose block is gone or whose generation is old;
  push an entry back when its frequency is out of date; else evict its block. What gets
  smaller is the heap plus the number of entries with an out-of-date frequency.
\<close>

fun fa_outdated :: "FrequencyAwareEvictor \<Rightarrow> heap_entry \<Rightarrow> bool" where
  "fa_outdated s (f, la, nh, b, g) =
     (case dict_get (fa_free_table s) b of
        None \<Rightarrow> False
      | Some m \<Rightarrow> dict_get (fa_generations s) b = Some g
          \<and> dict_get (frequency_by_hash s) (md_content_hash m) \<noteq> Some f)"

lemma length_filter_insort: "length (filter P (insort x xs)) = length (filter P (x # xs))"
  by (induction xs) auto

lemma fa_outdated_heap [simp]: "fa_outdated (s\<lparr>fa_heap := h\<rparr>) = fa_outdated s"
  by (rule ext) (auto split: option.splits)

function fa_evict_loop :: "(FrequencyAwareEvictor, block_id \<times> content_hash) st" where
  "fa_evict_loop s =
     (case fa_heap s of
        [] \<Rightarrow> raiseM RuntimeError s
      | (f, la, nh, b, g) # rest \<Rightarrow>
          (case dict_get (fa_free_table s) b of
             None \<Rightarrow> fa_evict_loop (s\<lparr>fa_heap := rest\<rparr>)
           | Some m \<Rightarrow>
               if dict_get (fa_generations s) b \<noteq> Some g
               then fa_evict_loop (s\<lparr>fa_heap := rest\<rparr>)
               else
                 (case dict_get (frequency_by_hash s) (md_content_hash m) of
                    None \<Rightarrow> raiseM KeyError (s\<lparr>fa_heap := rest\<rparr>)
                  | Some cur \<Rightarrow>
                      if cur \<noteq> f
                      then fa_evict_loop (s\<lparr>fa_heap := heappush
                             (cur, md_last_accessed m, - md_num_hashed_tokens m, b, g) rest\<rparr>)
                      else thenM (modM (\<lambda>t. t\<lparr>fa_free_table := dict_del b (fa_free_table t),
                                            fa_generations := dict_del b (fa_generations t)\<rparr>))
                             (thenM fa_compact_if_needed (retM (b, md_content_hash m)))
                             (s\<lparr>fa_heap := rest\<rparr>))))"
  by pat_completeness auto
termination
  by (relation "measure (\<lambda>s. length (fa_heap s) + length (filter (fa_outdated s) (fa_heap s)))")
    (auto simp: heappush_def length_filter_insort)

declare fa_evict_loop.simps [simp del]

definition fa_evict :: "(FrequencyAwareEvictor, block_id \<times> content_hash) st" where
  "fa_evict = getM fa_free_table (\<lambda>tab.
     thenM (guardM (tab = []) ValueError) fa_evict_loop)"

definition fa_add :: "block_id \<Rightarrow> content_hash \<Rightarrow> int \<Rightarrow> py_time
    \<Rightarrow> (FrequencyAwareEvictor, unit) st" where
  "fa_add b h n la =
     thenM (guardM (\<not> fa_validate_content_hash h) ValueError) (
     thenM (modM (\<lambda>s. s\<lparr>frequency_by_hash := dict_set h
              ((case dict_get (frequency_by_hash s) h of None \<Rightarrow> 0 | Some f \<Rightarrow> f) + 1)
              (frequency_by_hash s)\<rparr>)) (
     thenM (modM (\<lambda>s. s\<lparr>fa_free_table := dict_set b
              \<lparr>md_content_hash = h, md_num_hashed_tokens = n, md_last_accessed = la\<rparr>
              (fa_free_table s)\<rparr>)) (
     thenM (fa_push b) fa_compact_if_needed)))"

definition fa_update :: "block_id \<Rightarrow> py_time \<Rightarrow> (FrequencyAwareEvictor, unit) st" where
  "fa_update b la = getM fa_free_table (\<lambda>tab.
     bindM (fromM KeyError (dict_get tab b)) (\<lambda>m.
     thenM (modM (\<lambda>s. s\<lparr>fa_free_table := dict_set b (m\<lparr>md_last_accessed := la\<rparr>) tab\<rparr>)) (
     thenM (fa_push b) fa_compact_if_needed)))"

definition fa_remove :: "block_id \<Rightarrow> (FrequencyAwareEvictor, unit) st" where
  "fa_remove b = getM fa_free_table (\<lambda>tab.
     thenM (guardM (dict_get tab b = None) ValueError) (
     thenM (modM (\<lambda>s. s\<lparr>fa_free_table := dict_del b tab\<rparr>)) (
     getM fa_generations (\<lambda>gens.
     bindM (fromM KeyError (dict_get gens b)) (\<lambda>_.
     thenM (modM (\<lambda>s. s\<lparr>fa_generations := dict_del b gens\<rparr>)) fa_compact_if_needed)))))"

definition fa_num_blocks :: "FrequencyAwareEvictor \<Rightarrow> nat" where
  "fa_num_blocks s = length (fa_free_table s)"

subsection \<open>The heap stays small\<close>

text \<open>Compaction bounds the heap by twice the table plus one, whatever the state was.\<close>

definition fa_heap_bounded :: "FrequencyAwareEvictor \<Rightarrow> bool" where
  "fa_heap_bounded s \<longleftrightarrow> length (fa_heap s) \<le> 2 * length (fa_free_table s) + 1"

lemma fa_compact_ok:
  assumes "fa_compact_if_needed s = (Inr (), t)"
  shows "fa_free_table t = fa_free_table s" and "frequency_by_hash t = frequency_by_hash s"
    and "fa_generations t = fa_generations s" and "fa_next_generation t = fa_next_generation s"
    and "fa_heap_bounded t"
proof -
  let ?key = "\<lambda>(b, m). getM fa_generations (\<lambda>gens.
      bindM (fromM KeyError (dict_get gens b)) (\<lambda>g. fa_heap_key b m g))"
  have frame: "u = s" if "mapM (fa_free_table s) ?key s = (Inr ks, u)" for ks u
    using that by (rule mapM_frame) (auto simp: fa_heap_key_def run_simps split: option.splits)
  consider "t = s" "length (fa_heap s) \<le> 2 * length (fa_free_table s) + 1"
    | ks where "mapM (fa_free_table s) ?key s = (Inr ks, s)" "t = s\<lparr>fa_heap := sort ks\<rparr>"
    using assms frame
    by (fastforce simp: fa_compact_if_needed_def ok_simps split: if_splits)
  then show "fa_free_table t = fa_free_table s" "frequency_by_hash t = frequency_by_hash s"
    "fa_generations t = fa_generations s" "fa_next_generation t = fa_next_generation s"
    "fa_heap_bounded t"
    by (cases; auto simp: fa_heap_bounded_def dest: mapM_length)+
qed

subsection \<open>The invariant of the frequency-aware evictor\<close>

definition fa_frequency :: "FrequencyAwareEvictor \<Rightarrow> BlockMetaData \<Rightarrow> int" where
  "fa_frequency s m =
     (case dict_get (frequency_by_hash s) (md_content_hash m) of None \<Rightarrow> 0 | Some f \<Rightarrow> f)"

text \<open>What eviction is meant to minimise, lexicographically.\<close>

definition fa_priority :: "FrequencyAwareEvictor \<Rightarrow> block_id \<Rightarrow> BlockMetaData
    \<Rightarrow> int \<times> py_time \<times> int \<times> block_id" where
  "fa_priority s b m =
     (fa_frequency s m, md_last_accessed m, - md_num_hashed_tokens m, b)"

text \<open>
  Every cached block has a current generation and an entry of that generation whose fields
  are the block's, its frequency perhaps an older, smaller one.
\<close>

definition fa_table_inv :: "FrequencyAwareEvictor \<Rightarrow> bool" where
  "fa_table_inv s \<longleftrightarrow>
     dict_ok (fa_free_table s) \<and> dict_ok (fa_generations s) \<and>
     (\<forall>b. dict_get (fa_generations s) b = None \<longleftrightarrow> dict_get (fa_free_table s) b = None) \<and>
     (\<forall>b m. dict_get (fa_free_table s) b = Some m \<longrightarrow>
        dict_get (frequency_by_hash s) (md_content_hash m) \<noteq> None) \<and>
     (\<forall>b g. dict_get (fa_generations s) b = Some g \<longrightarrow> g \<le> fa_next_generation s)"

definition fa_heap_inv :: "FrequencyAwareEvictor \<Rightarrow> heap_entry list \<Rightarrow> bool" where
  "fa_heap_inv s h \<longleftrightarrow> sorted h \<and>
     (\<forall>f la nh b g. (f, la, nh, b, g) \<in> set h \<longrightarrow> g \<le> fa_next_generation s) \<and>
     (\<forall>f la nh b g m. (f, la, nh, b, g) \<in> set h \<longrightarrow> dict_get (fa_free_table s) b = Some m \<longrightarrow>
        dict_get (fa_generations s) b = Some g \<longrightarrow>
        la = md_last_accessed m \<and> nh = - md_num_hashed_tokens m) \<and>
     (\<forall>b m g. dict_get (fa_free_table s) b = Some m \<longrightarrow> dict_get (fa_generations s) b = Some g \<longrightarrow>
        (\<exists>f. f \<le> fa_frequency s m \<and>
           (f, md_last_accessed m, - md_num_hashed_tokens m, b, g) \<in> set h))"

definition fa_inv :: "FrequencyAwareEvictor \<Rightarrow> bool" where
  "fa_inv s \<longleftrightarrow> fa_table_inv s \<and> fa_heap_inv s (fa_heap s)"

lemma fa_inv_init: "fa_inv fa_init"
  by (simp add: fa_inv_def fa_table_inv_def fa_heap_inv_def fa_init_def)

lemma fa_table_inv_heap [simp]: "fa_table_inv (s\<lparr>fa_heap := h\<rparr>) = fa_table_inv s"
  by (simp add: fa_table_inv_def)

lemma fa_frequency_heap [simp]: "fa_frequency (s\<lparr>fa_heap := h\<rparr>) = fa_frequency s"
  by (rule ext) (simp add: fa_frequency_def)

lemma fa_heap_inv_heap [simp]: "fa_heap_inv (s\<lparr>fa_heap := h\<rparr>) h' = fa_heap_inv s h'"
  by (simp add: fa_heap_inv_def)

text \<open>Dropping an entry of no cached block, or of an old generation, loses nothing.\<close>

lemma fa_heap_inv_drop:
  assumes "fa_heap_inv s ((f, la, nh, b, g) # h)"
    and "\<And>m. dict_get (fa_free_table s) b = Some m \<Longrightarrow> dict_get (fa_generations s) b \<noteq> Some g"
  shows "fa_heap_inv s h"
  using assms by (fastforce simp: fa_heap_inv_def)

lemma fa_heap_inv_repush:
  assumes "fa_heap_inv s ((f, la, nh, b, g) # h)" and "dict_get (fa_free_table s) b = Some m"
    and "dict_get (fa_generations s) b = Some g"
    and "dict_get (frequency_by_hash s) (md_content_hash m) = Some cur"
  shows "fa_heap_inv s
    (heappush (cur, md_last_accessed m, - md_num_hashed_tokens m, b, g) h)"
  unfolding fa_heap_inv_def heappush_def
proof (intro conjI allI impI)
  let ?e = "(cur, md_last_accessed m, - md_num_hashed_tokens m, b, g)"
  show "sorted (insort ?e h)"
    using assms(1) by (simp add: fa_heap_inv_def sorted_insort)
  show "g' \<le> fa_next_generation s" if "(f', la', nh', b', g') \<in> set (insort ?e h)" for f' la' nh' b' g'
    using assms(1) that by (auto simp: fa_heap_inv_def set_insort_key)
  fix f' la' nh' b' g' m'
  assume "(f', la', nh', b', g') \<in> set (insort ?e h)" "dict_get (fa_free_table s) b' = Some m'"
    "dict_get (fa_generations s) b' = Some g'"
  then show "la' = md_last_accessed m'" "nh' = - md_num_hashed_tokens m'"
    using assms by (auto simp: fa_heap_inv_def set_insort_key)
next
  let ?e = "(cur, md_last_accessed m, - md_num_hashed_tokens m, b, g)"
  fix b' m' g'
  assume live: "dict_get (fa_free_table s) b' = Some m'" "dict_get (fa_generations s) b' = Some g'"
  show "\<exists>f'. f' \<le> fa_frequency s m' \<and>
      (f', md_last_accessed m', - md_num_hashed_tokens m', b', g') \<in> set (insort ?e h)"
  proof (cases "b' = b")
    case True
    with live assms show ?thesis
      by (auto simp: set_insort_key fa_frequency_def intro: exI [where x = cur])
  next
    case False
    with live assms(1) show ?thesis by (fastforce simp: fa_heap_inv_def set_insort_key)
  qed
qed

text \<open>Rebuilding the heap from the table gives the invariant, and never raises.\<close>

lemma fa_frequency_defined:
  assumes "fa_table_inv s" and "dict_get (fa_free_table s) b = Some m"
  shows "dict_get (frequency_by_hash s) (md_content_hash m) = Some (fa_frequency s m)"
proof -
  from assms have "dict_get (frequency_by_hash s) (md_content_hash m) \<noteq> None"
    by (auto simp: fa_table_inv_def)
  then show ?thesis by (auto simp: fa_frequency_def)
qed

lemma fa_generation_defined:
  assumes "fa_table_inv s" and "dict_get (fa_free_table s) b = Some m"
  obtains g where "dict_get (fa_generations s) b = Some g"
proof -
  from assms have "dict_get (fa_generations s) b \<noteq> None" by (simp add: fa_table_inv_def)
  then show ?thesis using that by blast
qed

definition fa_key :: "FrequencyAwareEvictor \<Rightarrow> block_id \<times> BlockMetaData \<Rightarrow> heap_entry" where
  "fa_key s p = (fa_frequency s (snd p), md_last_accessed (snd p),
     - md_num_hashed_tokens (snd p), fst p, the (dict_get (fa_generations s) (fst p)))"

lemma fa_keys_mapM:
  assumes "fa_table_inv s" and "set xs \<subseteq> set (fa_free_table s)"
  shows "mapM xs (\<lambda>(b, m). getM fa_generations (\<lambda>gens.
      bindM (fromM KeyError (dict_get gens b)) (\<lambda>g. fa_heap_key b m g))) s
    = (Inr (map (fa_key s) xs), s)"
  using assms(2)
proof (induction xs)
  case Nil
  then show ?case by (simp add: run_simps)
next
  case (Cons p xs)
  obtain b m where p: "p = (b, m)" by (cases p)
  with Cons.prems assms(1) have get: "dict_get (fa_free_table s) b = Some m"
    by (auto simp: fa_table_inv_def dict_in_get)
  with assms(1) obtain g where "dict_get (fa_generations s) b = Some g"
    by (rule fa_generation_defined)
  with Cons p fa_frequency_defined [OF assms(1) get] show ?case
    by (simp add: run_simps fa_heap_key_def fa_key_def)
qed

lemma fa_heap_inv_rebuild:
  assumes "fa_table_inv s"
  shows "fa_heap_inv s (sort (map (fa_key s) (fa_free_table s)))"
  unfolding fa_heap_inv_def
proof (intro conjI allI impI)
  show "sorted (sort (map (fa_key s) (fa_free_table s)))" by simp
next
  fix f la nh b g
  assume "(f, la, nh, b, g) \<in> set (sort (map (fa_key s) (fa_free_table s)))"
  then obtain m where m: "(b, m) \<in> set (fa_free_table s)" and
      g: "g = the (dict_get (fa_generations s) b)"
    and eq: "la = md_last_accessed m" "nh = - md_num_hashed_tokens m"
    by (auto simp: fa_key_def)
  from m assms have get: "dict_get (fa_free_table s) b = Some m"
    by (auto simp: fa_table_inv_def dict_in_get)
  with assms obtain g' where "dict_get (fa_generations s) b = Some g'"
    by (rule fa_generation_defined)
  with assms g show "g \<le> fa_next_generation s" by (auto simp: fa_table_inv_def)
  fix m'
  assume "dict_get (fa_free_table s) b = Some m'"
  with get eq show "la = md_last_accessed m'" "nh = - md_num_hashed_tokens m'" by simp_all
next
  fix b m g
  assume live: "dict_get (fa_free_table s) b = Some m" "dict_get (fa_generations s) b = Some g"
  from live(1) have "(b, m) \<in> set (fa_free_table s)" by (rule dict_get_in)
  with live(2) show "\<exists>f. f \<le> fa_frequency s m \<and> (f, md_last_accessed m, - md_num_hashed_tokens m, b, g)
      \<in> set (sort (map (fa_key s) (fa_free_table s)))"
    by (intro exI [where x = "fa_frequency s m"]) (force simp: fa_key_def)
qed

text \<open>What compaction does not touch.\<close>

definition fa_same_table :: "FrequencyAwareEvictor \<Rightarrow> FrequencyAwareEvictor \<Rightarrow> bool" where
  "fa_same_table s t \<longleftrightarrow> fa_free_table t = fa_free_table s
     \<and> frequency_by_hash t = frequency_by_hash s \<and> fa_generations t = fa_generations s
     \<and> fa_next_generation t = fa_next_generation s"

lemma fa_compact_inv:
  assumes "fa_inv s"
  obtains t where "fa_compact_if_needed s = (Inr (), t)" and "fa_inv t" and "fa_same_table s t"
proof (cases "length (fa_heap s) \<le> 2 * length (fa_free_table s) + 1")
  case True
  with assms that [of s] show ?thesis
    by (simp add: fa_compact_if_needed_def run_simps fa_same_table_def)
next
  case False
  from assms have tab: "fa_table_inv s" by (simp add: fa_inv_def)
  have "fa_compact_if_needed s
      = (Inr (), s\<lparr>fa_heap := sort (map (fa_key s) (fa_free_table s))\<rparr>)"
    using False fa_keys_mapM [OF tab subset_refl]
    by (simp add: fa_compact_if_needed_def run_simps)
  moreover have "fa_inv (s\<lparr>fa_heap := sort (map (fa_key s) (fa_free_table s))\<rparr>)"
    using tab fa_heap_inv_rebuild [OF tab] by (simp add: fa_inv_def)
  ultimately show ?thesis using that by (simp add: fa_same_table_def)
qed

text \<open>Evicting or removing a block keeps the invariant: its entries become stale.\<close>

definition fa_without :: "block_id \<Rightarrow> FrequencyAwareEvictor \<Rightarrow> FrequencyAwareEvictor" where
  "fa_without b s = s\<lparr>fa_free_table := dict_del b (fa_free_table s),
     fa_generations := dict_del b (fa_generations s)\<rparr>"

lemma fa_frequency_without [simp]: "fa_frequency (fa_without b s) = fa_frequency s"
  by (rule ext) (simp add: fa_frequency_def fa_without_def)

lemma fa_inv_without:
  assumes "fa_table_inv s" and "sorted h"
    and "\<And>f la nh b g. (f, la, nh, b, g) \<in> set h \<Longrightarrow> g \<le> fa_next_generation s"
    and "\<And>f la nh b' g m. (f, la, nh, b', g) \<in> set h \<Longrightarrow> dict_get (fa_free_table s) b' = Some m \<Longrightarrow>
        dict_get (fa_generations s) b' = Some g \<Longrightarrow>
        la = md_last_accessed m \<and> nh = - md_num_hashed_tokens m"
    and "\<And>b' m g. b' \<noteq> b \<Longrightarrow> dict_get (fa_free_table s) b' = Some m \<Longrightarrow>
        dict_get (fa_generations s) b' = Some g \<Longrightarrow>
        \<exists>f. f \<le> fa_frequency s m \<and>
           (f, md_last_accessed m, - md_num_hashed_tokens m, b', g) \<in> set h"
  shows "fa_inv (fa_without b (s\<lparr>fa_heap := h\<rparr>))"
proof -
  have "fa_table_inv (fa_without b (s\<lparr>fa_heap := h\<rparr>))"
    using assms(1) by (auto simp: fa_table_inv_def fa_without_def split: if_splits)
  moreover have "fa_heap_inv (fa_without b (s\<lparr>fa_heap := h\<rparr>)) h"
    unfolding fa_heap_inv_def using assms(2-5)
    by (auto simp: fa_without_def fa_frequency_def split: if_splits)
  ultimately show ?thesis by (simp add: fa_inv_def fa_without_def)
qed

subsection \<open>Eviction returns the block of least priority\<close>

definition fa_evicts :: "FrequencyAwareEvictor \<Rightarrow> block_id \<Rightarrow> BlockMetaData
    \<Rightarrow> FrequencyAwareEvictor \<Rightarrow> bool" where
  "fa_evicts s b m t \<longleftrightarrow>
     dict_get (fa_free_table s) b = Some m \<and>
     (\<forall>b' m'. dict_get (fa_free_table s) b' = Some m' \<longrightarrow> fa_priority s b m \<le> fa_priority s b' m') \<and>
     fa_free_table t = dict_del b (fa_free_table s) \<and>
     frequency_by_hash t = frequency_by_hash s \<and> fa_inv t \<and> fa_heap_bounded t"

lemma fa_evicts_heap [simp]: "fa_evicts (s\<lparr>fa_heap := h\<rparr>) = fa_evicts s"
  by (intro ext) (simp add: fa_evicts_def fa_priority_def)

text \<open>The head of the heap, when its fields are up to date, is the least priority.\<close>

lemma fa_heap_invD:
  assumes "fa_heap_inv s h" and "(f, la, nh, b, g) \<in> set h"
    and "dict_get (fa_free_table s) b = Some m" and "dict_get (fa_generations s) b = Some g"
  shows "la = md_last_accessed m" and "nh = - md_num_hashed_tokens m"
  using assms by (simp_all add: fa_heap_inv_def)

lemma fa_head_least:
  assumes inv: "fa_table_inv s" "fa_heap_inv s ((f, la, nh, b, g) # h)"
    and live: "dict_get (fa_free_table s) b = Some m" "dict_get (fa_generations s) b = Some g"
    and f: "f = fa_frequency s m"
    and other: "dict_get (fa_free_table s) b' = Some m'"
  shows "fa_priority s b m \<le> fa_priority s b' m'"
proof -
  note eq = fa_heap_invD [OF inv(2) list.set_intros(1) live]
  obtain g' where g': "dict_get (fa_generations s) b' = Some g'"
    using inv(1) other by (rule fa_generation_defined)
  with inv(2) other obtain f' where f': "f' \<le> fa_frequency s m'"
    and mem: "(f', md_last_accessed m', - md_num_hashed_tokens m', b', g')
        \<in> set ((f, la, nh, b, g) # h)"
    unfolding fa_heap_inv_def by blast
  have "sorted ((f, la, nh, b, g) # h)"
    using inv(2) by (simp only: fa_heap_inv_def)
  then have "\<forall>y \<in> set ((f, la, nh, b, g) # h). (f, la, nh, b, g) \<le> y"
    by (simp only: sorted_wrt.simps list.set ball_simps order_refl simp_thms) (erule conjunct1)
  then have "(f, la, nh, b, g) \<le> (f', md_last_accessed m', - md_num_hashed_tokens m', b', g')"
    using mem by (rule bspec)
  with f f' eq show ?thesis
    by (simp add: fa_priority_def less_eq_prod_def) linarith
qed

lemma fa_evict_head:
  assumes inv: "fa_table_inv s" "fa_heap_inv s ((f, la, nh, b, g) # h)"
    and live: "dict_get (fa_free_table s) b = Some m" "dict_get (fa_generations s) b = Some g"
    and f: "f = fa_frequency s m"
  obtains t where "thenM fa_compact_if_needed (retM (b, md_content_hash m))
      (fa_without b (s\<lparr>fa_heap := h\<rparr>)) = (Inr (b, md_content_hash m), t)"
    and "fa_evicts s b m t"
proof -
  have "fa_inv (fa_without b (s\<lparr>fa_heap := h\<rparr>))"
  proof (rule fa_inv_without)
    show "fa_table_inv s" by (rule inv(1))
    show "sorted h" using inv(2) by (simp add: fa_heap_inv_def)
  next
    fix f' la' nh' b' g'
    assume "(f', la', nh', b', g') \<in> set h"
    then have mem: "(f', la', nh', b', g') \<in> set ((f, la, nh, b, g) # h)" by simp
    then show "g' \<le> fa_next_generation s" using inv(2) unfolding fa_heap_inv_def by blast
    fix m'
    assume "dict_get (fa_free_table s) b' = Some m'" "dict_get (fa_generations s) b' = Some g'"
    with mem show "la' = md_last_accessed m' \<and> nh' = - md_num_hashed_tokens m'"
      using inv(2) unfolding fa_heap_inv_def by meson
  next
    fix b' m' g'
    assume "b' \<noteq> b" and "dict_get (fa_free_table s) b' = Some m'"
      "dict_get (fa_generations s) b' = Some g'"
    moreover from this inv(2) obtain f' where "f' \<le> fa_frequency s m'"
      "(f', md_last_accessed m', - md_num_hashed_tokens m', b', g') \<in> set ((f, la, nh, b, g) # h)"
      unfolding fa_heap_inv_def by blast
    ultimately show "\<exists>f'. f' \<le> fa_frequency s m' \<and>
        (f', md_last_accessed m', - md_num_hashed_tokens m', b', g') \<in> set h"
      by auto
  qed
  then obtain t where t: "fa_compact_if_needed (fa_without b (s\<lparr>fa_heap := h\<rparr>)) = (Inr (), t)"
    "fa_inv t" "fa_same_table (fa_without b (s\<lparr>fa_heap := h\<rparr>)) t"
    by (rule fa_compact_inv)
  have "fa_evicts s b m t"
    using t fa_head_least [OF inv live f] live(1) fa_compact_ok(5) [OF t(1)]
    by (simp add: fa_evicts_def fa_same_table_def fa_without_def)
  with t(1) show ?thesis using that by (simp add: run_simps)
qed

lemma fa_evict_loop_least:
  assumes "fa_inv s" and "fa_free_table s \<noteq> []"
  shows "\<exists>b m t. fa_evict_loop s = (Inr (b, md_content_hash m), t) \<and> fa_evicts s b m t"
  using assms
proof (induction s rule: fa_evict_loop.induct)
  case (1 s)
  then have tab: "fa_table_inv s" and heap: "fa_heap_inv s (fa_heap s)"
    by (simp_all add: fa_inv_def)
  show ?case
  proof (cases "fa_heap s")
    case Nil
    from "1.prems"(2) obtain p d where "fa_free_table s = p # d"
      by (auto simp: neq_Nil_conv)
    then have "dict_get (fa_free_table s) (fst p) = Some (snd p)" by simp
    moreover from tab this obtain g where "dict_get (fa_generations s) (fst p) = Some g"
      by (rule fa_generation_defined)
    ultimately have False using heap Nil unfolding fa_heap_inv_def by fastforce
    then show ?thesis ..
  next
    case (Cons e h)
    obtain f la nh b g where e: "e = (f, la, nh, b, g)" by (cases e)
    note step = fa_evict_loop.simps [of s]
    note heap' = heap [unfolded Cons e]
    show ?thesis
    proof (cases "dict_get (fa_free_table s) b")
      case None
      have "fa_inv (s\<lparr>fa_heap := h\<rparr>)"
        using tab fa_heap_inv_drop [OF heap'] None by (simp add: fa_inv_def)
      then show ?thesis
        using "1.IH"(1) [OF Cons [unfolded e] refl refl refl refl None] "1.prems"(2) step Cons e None by simp
    next
      case (Some m)
      show ?thesis
      proof (cases "dict_get (fa_generations s) b = Some g")
        case False
        then have "fa_inv (s\<lparr>fa_heap := h\<rparr>)"
          using tab fa_heap_inv_drop [OF heap'] by (simp add: fa_inv_def)
        then show ?thesis
          using "1.IH"(2) [OF Cons [unfolded e] refl refl refl refl Some] "1.prems"(2) step Cons e Some False
          by simp
      next
        case gen: True
        note freq = fa_frequency_defined [OF tab Some]
        show ?thesis
        proof (cases "fa_frequency s m = f")
          case False
          have "fa_inv (s\<lparr>fa_heap := heappush
              (fa_frequency s m, md_last_accessed m, - md_num_hashed_tokens m, b, g) h\<rparr>)"
            using tab fa_heap_inv_repush [OF heap' Some gen freq] by (simp add: fa_inv_def)
          then show ?thesis
            using "1.IH"(3) [OF Cons [unfolded e] refl refl refl refl Some] "1.prems"(2) step Cons e Some gen freq
              False
            by simp
        next
          case True
          obtain t where "thenM fa_compact_if_needed (retM (b, md_content_hash m))
              (fa_without b (s\<lparr>fa_heap := h\<rparr>)) = (Inr (b, md_content_hash m), t)"
            and "fa_evicts s b m t"
            using tab heap' Some gen True [symmetric] by (rule fa_evict_head)
          then show ?thesis
            using step Cons e Some gen freq True
            by (auto simp: thenM_run modM_run fa_without_def)
        qed
      qed
    qed
  qed
qed

subsection \<open>Adding, updating and removing keep the invariant\<close>

text \<open>The invariant for every block but the one about to be pushed.\<close>

definition fa_inv_but :: "block_id \<Rightarrow> FrequencyAwareEvictor \<Rightarrow> bool" where
  "fa_inv_but b s \<longleftrightarrow>
     dict_ok (fa_free_table s) \<and> dict_ok (fa_generations s) \<and> sorted (fa_heap s) \<and>
     (\<forall>b'. b' \<noteq> b \<longrightarrow>
        (dict_get (fa_generations s) b' = None \<longleftrightarrow> dict_get (fa_free_table s) b' = None)) \<and>
     (\<forall>b' m. dict_get (fa_free_table s) b' = Some m \<longrightarrow>
        dict_get (frequency_by_hash s) (md_content_hash m) \<noteq> None) \<and>
     (\<forall>b' g. dict_get (fa_generations s) b' = Some g \<longrightarrow> g \<le> fa_next_generation s) \<and>
     (\<forall>f la nh b' g. (f, la, nh, b', g) \<in> set (fa_heap s) \<longrightarrow> g \<le> fa_next_generation s) \<and>
     (\<forall>f la nh b' g m. b' \<noteq> b \<longrightarrow> (f, la, nh, b', g) \<in> set (fa_heap s) \<longrightarrow>
        dict_get (fa_free_table s) b' = Some m \<longrightarrow> dict_get (fa_generations s) b' = Some g \<longrightarrow>
        la = md_last_accessed m \<and> nh = - md_num_hashed_tokens m) \<and>
     (\<forall>b' m g. b' \<noteq> b \<longrightarrow> dict_get (fa_free_table s) b' = Some m \<longrightarrow>
        dict_get (fa_generations s) b' = Some g \<longrightarrow>
        (\<exists>f. f \<le> fa_frequency s m \<and>
           (f, md_last_accessed m, - md_num_hashed_tokens m, b', g) \<in> set (fa_heap s)))"

text \<open>The entry a push adds, and the state it leaves.\<close>

definition fa_new_entry :: "block_id \<Rightarrow> BlockMetaData \<Rightarrow> FrequencyAwareEvictor \<Rightarrow> heap_entry" where
  "fa_new_entry b m s = (fa_frequency s m, md_last_accessed m, - md_num_hashed_tokens m, b,
     fa_next_generation s + 1)"

definition fa_pushed :: "block_id \<Rightarrow> BlockMetaData \<Rightarrow> FrequencyAwareEvictor
    \<Rightarrow> FrequencyAwareEvictor" where
  "fa_pushed b m s = s\<lparr>fa_next_generation := fa_next_generation s + 1,
     fa_generations := dict_set b (fa_next_generation s + 1) (fa_generations s),
     fa_heap := heappush (fa_new_entry b m s) (fa_heap s)\<rparr>"

lemma fa_pushed_simps [simp]:
  "fa_free_table (fa_pushed b m s) = fa_free_table s"
  "frequency_by_hash (fa_pushed b m s) = frequency_by_hash s"
  "fa_next_generation (fa_pushed b m s) = fa_next_generation s + 1"
  "fa_generations (fa_pushed b m s) = dict_set b (fa_next_generation s + 1) (fa_generations s)"
  "fa_heap (fa_pushed b m s) = heappush (fa_new_entry b m s) (fa_heap s)"
  "fa_frequency (fa_pushed b m s) = fa_frequency s"
  by (simp_all add: fa_pushed_def fa_frequency_def fun_eq_iff)

lemma in_heappush: "e \<in> set (heappush k h) \<longleftrightarrow> e = k \<or> e \<in> set h"
  by (simp add: heappush_def set_insort_key)

lemma fa_inv_butD:
  assumes "fa_inv_but b s"
  shows "dict_ok (fa_free_table s)" and "dict_ok (fa_generations s)" and "sorted (fa_heap s)"
    and "b' \<noteq> b \<Longrightarrow> dict_get (fa_generations s) b' = None \<longleftrightarrow> dict_get (fa_free_table s) b' = None"
    and "dict_get (fa_free_table s) b' = Some m \<Longrightarrow>
        dict_get (frequency_by_hash s) (md_content_hash m) \<noteq> None"
    and "dict_get (fa_generations s) b' = Some g \<Longrightarrow> g \<le> fa_next_generation s"
    and "(f, la, nh, b', g) \<in> set (fa_heap s) \<Longrightarrow> g \<le> fa_next_generation s"
  using assms unfolding fa_inv_but_def by blast+

lemma fa_push_run:
  assumes "fa_inv_but b s" and "dict_get (fa_free_table s) b = Some m"
  shows "fa_push b s = (Inr (), fa_pushed b m s)"
proof -
  from fa_inv_butD(5) [OF assms]
  have "dict_get (frequency_by_hash s) (md_content_hash m) = Some (fa_frequency s m)"
    by (auto simp: fa_frequency_def)
  with assms(2) show ?thesis
    by (simp add: fa_push_def fa_heap_key_def fa_pushed_def fa_new_entry_def run_simps)
qed

lemma fa_pushed_table_inv:
  assumes "fa_inv_but b s" and "dict_get (fa_free_table s) b = Some m"
  shows "fa_table_inv (fa_pushed b m s)"
  unfolding fa_table_inv_def
proof (intro conjI allI impI)
  fix b'
  show "(dict_get (fa_generations (fa_pushed b m s)) b' = None)
      = (dict_get (fa_free_table (fa_pushed b m s)) b' = None)"
    using fa_inv_butD(4) [OF assms(1), of b'] assms(2) by (cases "b' = b") simp_all
next
  fix b' g
  assume "dict_get (fa_generations (fa_pushed b m s)) b' = Some g"
  then show "g \<le> fa_next_generation (fa_pushed b m s)"
    using fa_inv_butD(6) [OF assms(1), of b' g] by (cases "b' = b") simp_all
qed (use fa_inv_butD [OF assms(1)] in simp_all)

lemma fa_pushed_heap_inv:
  assumes "fa_inv_but b s" and "dict_get (fa_free_table s) b = Some m"
  shows "fa_heap_inv (fa_pushed b m s) (heappush (fa_new_entry b m s) (fa_heap s))"
  unfolding fa_heap_inv_def fa_pushed_simps
proof (intro conjI allI impI)
  show "sorted (heappush (fa_new_entry b m s) (fa_heap s))"
    using fa_inv_butD(3) [OF assms(1)] by (simp add: heappush_def sorted_insort)
next
  fix f la nh b' g
  assume mem: "(f, la, nh, b', g) \<in> set (heappush (fa_new_entry b m s) (fa_heap s))"
  then show "g \<le> fa_next_generation s + 1"
    using fa_inv_butD(7) [OF assms(1), of f la nh b' g]
    by (auto simp: in_heappush fa_new_entry_def)
  fix m'
  assume live: "dict_get (fa_free_table s) b' = Some m'"
    "dict_get (dict_set b (fa_next_generation s + 1) (fa_generations s)) b' = Some g"
  have "la = md_last_accessed m' \<and> nh = - md_num_hashed_tokens m'"
  proof (cases "(f, la, nh, b', g) = fa_new_entry b m s")
    case True
    then show ?thesis using live assms(2) by (simp add: fa_new_entry_def)
  next
    case False
    with mem have old: "(f, la, nh, b', g) \<in> set (fa_heap s)" by (simp only: in_heappush) blast
    from fa_inv_butD(7) [OF assms(1) this] have "g \<le> fa_next_generation s" .
    with live(2) have "b' \<noteq> b" by auto
    moreover from this live(2) have "dict_get (fa_generations s) b' = Some g" by simp
    ultimately show ?thesis using old live(1) assms(1) unfolding fa_inv_but_def by blast
  qed
  then show "la = md_last_accessed m'" "nh = - md_num_hashed_tokens m'" by simp_all
next
  fix b' m' g
  assume live: "dict_get (fa_free_table s) b' = Some m'"
    "dict_get (dict_set b (fa_next_generation s + 1) (fa_generations s)) b' = Some g"
  show "\<exists>f. f \<le> fa_frequency s m' \<and> (f, md_last_accessed m', - md_num_hashed_tokens m', b', g)
      \<in> set (heappush (fa_new_entry b m s) (fa_heap s))"
  proof (cases "b' = b")
    case True
    with live assms(2) show ?thesis by (auto simp: in_heappush fa_new_entry_def)
  next
    case False
    with live(2) have "dict_get (fa_generations s) b' = Some g" by simp
    with False live(1) assms(1) obtain f where "f \<le> fa_frequency s m'"
      "(f, md_last_accessed m', - md_num_hashed_tokens m', b', g) \<in> set (fa_heap s)"
      unfolding fa_inv_but_def by blast
    then show ?thesis by (simp only: in_heappush) blast
  qed
qed

lemma fa_push_inv:
  assumes "fa_inv_but b s" and "dict_get (fa_free_table s) b = Some m"
  obtains t where "fa_push b s = (Inr (), t)" and "fa_inv t"
    and "fa_free_table t = fa_free_table s" and "frequency_by_hash t = frequency_by_hash s"
  using fa_push_run [OF assms] fa_pushed_table_inv [OF assms] fa_pushed_heap_inv [OF assms] that
  by (simp add: fa_inv_def)

lemma fa_inv_but_add:
  assumes "fa_inv s"
  shows "fa_inv_but b (s\<lparr>frequency_by_hash := dict_set h
      ((case dict_get (frequency_by_hash s) h of None \<Rightarrow> 0 | Some f \<Rightarrow> f) + 1) (frequency_by_hash s),
      fa_free_table := dict_set b \<lparr>md_content_hash = h, md_num_hashed_tokens = n,
        md_last_accessed = la\<rparr> (fa_free_table s)\<rparr>)" (is "fa_inv_but b ?t")
proof -
  have mono: "fa_frequency s m \<le> fa_frequency ?t m" for m
    by (auto simp: fa_frequency_def split: option.splits)
  have live: "\<exists>f. f \<le> fa_frequency ?t m \<and>
      (f, md_last_accessed m, - md_num_hashed_tokens m, b', g) \<in> set (fa_heap s)"
    if "dict_get (fa_free_table s) b' = Some m" "dict_get (fa_generations s) b' = Some g" for b' m g
  proof -
    from assms that obtain f where "f \<le> fa_frequency s m"
      "(f, md_last_accessed m, - md_num_hashed_tokens m, b', g) \<in> set (fa_heap s)"
      unfolding fa_inv_def fa_heap_inv_def by blast
    with mono [of m] show ?thesis by (blast intro: order_trans)
  qed
  show ?thesis
    unfolding fa_inv_but_def
    using assms live by (simp add: fa_inv_def fa_table_inv_def fa_heap_inv_def)
qed

lemma fa_inv_but_update:
  assumes "fa_inv s" and "dict_get (fa_free_table s) b = Some m"
  shows "fa_inv_but b (s\<lparr>fa_free_table := dict_set b (m\<lparr>md_last_accessed := la\<rparr>)
    (fa_free_table s)\<rparr>)" (is "fa_inv_but b ?t")
proof -
  have same: "fa_frequency ?t = fa_frequency s" by (rule ext) (simp add: fa_frequency_def)
  show ?thesis
    unfolding fa_inv_but_def same
    using assms by (simp add: fa_inv_def fa_table_inv_def fa_heap_inv_def)
qed

lemma fa_add_inv:
  assumes "fa_inv s" and "fa_validate_content_hash h"
  obtains t where "fa_add b h n la s = (Inr (), t)" and "fa_inv t"
    and "fa_free_table t = dict_set b \<lparr>md_content_hash = h, md_num_hashed_tokens = n,
          md_last_accessed = la\<rparr> (fa_free_table s)"
proof -
  let ?s = "s\<lparr>frequency_by_hash := dict_set h
      ((case dict_get (frequency_by_hash s) h of None \<Rightarrow> 0 | Some f \<Rightarrow> f) + 1) (frequency_by_hash s),
      fa_free_table := dict_set b \<lparr>md_content_hash = h, md_num_hashed_tokens = n,
        md_last_accessed = la\<rparr> (fa_free_table s)\<rparr>"
  have "dict_get (fa_free_table ?s) b = Some \<lparr>md_content_hash = h, md_num_hashed_tokens = n,
      md_last_accessed = la\<rparr>" by simp
  with fa_inv_but_add [OF assms(1)] obtain u where u: "fa_push b ?s = (Inr (), u)" "fa_inv u"
    "fa_free_table u = fa_free_table ?s"
    by (rule fa_push_inv)
  obtain t where "fa_compact_if_needed u = (Inr (), t)" "fa_inv t" "fa_same_table u t"
    using u(2) by (rule fa_compact_inv)
  with u assms(2) that show ?thesis
    by (simp add: fa_add_def run_simps fa_same_table_def)
qed

lemma fa_update_inv:
  assumes "fa_inv s" and "dict_get (fa_free_table s) b = Some m"
  obtains t where "fa_update b la s = (Inr (), t)" and "fa_inv t"
    and "fa_free_table t = dict_set b (m\<lparr>md_last_accessed := la\<rparr>) (fa_free_table s)"
proof -
  let ?s = "s\<lparr>fa_free_table := dict_set b (m\<lparr>md_last_accessed := la\<rparr>) (fa_free_table s)\<rparr>"
  have "dict_get (fa_free_table ?s) b = Some (m\<lparr>md_last_accessed := la\<rparr>)" by simp
  with fa_inv_but_update [OF assms] obtain u where u: "fa_push b ?s = (Inr (), u)" "fa_inv u"
    "fa_free_table u = fa_free_table ?s"
    by (rule fa_push_inv)
  obtain t where "fa_compact_if_needed u = (Inr (), t)" "fa_inv t" "fa_same_table u t"
    using u(2) by (rule fa_compact_inv)
  with u assms(2) that show ?thesis
    by (simp add: fa_update_def run_simps fa_same_table_def)
qed

lemma fa_remove_inv:
  assumes "fa_inv s" and "dict_get (fa_free_table s) b \<noteq> None"
  obtains t where "fa_remove b s = (Inr (), t)" and "fa_inv t"
    and "fa_free_table t = dict_del b (fa_free_table s)"
proof -
  have tab: "fa_table_inv s" and heap: "fa_heap_inv s (fa_heap s)"
    using assms(1) by (simp_all add: fa_inv_def)
  have "fa_inv (fa_without b (s\<lparr>fa_heap := fa_heap s\<rparr>))"
    using tab by (rule fa_inv_without) (use heap in \<open>auto simp: fa_heap_inv_def\<close>)
  then have "fa_inv (fa_without b s)" by (simp add: fa_without_def)
  then obtain t where t: "fa_compact_if_needed (fa_without b s) = (Inr (), t)" "fa_inv t"
    "fa_same_table (fa_without b s) t"
    by (rule fa_compact_inv)
  from assms(2) obtain m where "dict_get (fa_free_table s) b = Some m" by blast
  with tab obtain g where "dict_get (fa_generations s) b = Some g"
    by (rule fa_generation_defined)
  with t assms(2) that show ?thesis
    by (simp add: fa_remove_def run_simps fa_same_table_def fa_without_def)
qed

subsection \<open>Order of the LRU evictor\<close>

text \<open>
  The scan's result is in the table; when the table is in order of access, it is a least
  recently used block and, among those, one with the most hashed tokens.
\<close>

lemma lru_scan_in: "lru_scan e ps \<in> set (e # ps)"
  by (induction e ps rule: lru_scan.induct) auto

definition lru_before :: "block_id \<times> BlockMetaData \<Rightarrow> block_id \<times> BlockMetaData \<Rightarrow> bool" where
  "lru_before p q \<longleftrightarrow> md_last_accessed (snd p) < md_last_accessed (snd q)
     \<or> md_last_accessed (snd p) = md_last_accessed (snd q)
        \<and> md_num_hashed_tokens (snd q) \<le> md_num_hashed_tokens (snd p)"

definition lru_in_order :: "LRUEvictor \<Rightarrow> bool" where
  "lru_in_order s \<longleftrightarrow> sorted (map (md_last_accessed \<circ> snd) (lru_free_table s))"

lemma lru_scan_least:
  "sorted (map (md_last_accessed \<circ> snd) (e # ps)) \<Longrightarrow> q \<in> set (e # ps) \<Longrightarrow>
   lru_before (lru_scan e ps) q"
proof (induction e ps arbitrary: q rule: lru_scan.induct)
  case (1 e)
  then show ?case by (simp add: lru_before_def)
next
  case (2 e p ps)
  consider "md_last_accessed (snd e) < md_last_accessed (snd p)"
    | "\<not> md_last_accessed (snd e) < md_last_accessed (snd p)"
      "md_num_hashed_tokens (snd e) < md_num_hashed_tokens (snd p)"
    | "\<not> md_last_accessed (snd e) < md_last_accessed (snd p)"
      "\<not> md_num_hashed_tokens (snd e) < md_num_hashed_tokens (snd p)"
    by blast
  then show ?case
  proof cases
    case 1
    with 2(3,4) show ?thesis by (auto simp: lru_before_def)
  next
    case 2
    note scan = this
    have p: "lru_before (lru_scan p ps) q'" if "q' \<in> set (p # ps)" for q'
      using "2.IH"(1) [OF scan] "2.prems"(1) that by simp
    show ?thesis
    proof (cases "q = e")
      case True
      with p [of p] scan "2.prems"(1) show ?thesis by (auto simp: lru_before_def)
    next
      case False
      with p "2.prems"(2) scan show ?thesis by simp
    qed
  next
    case 3
    note scan = this
    from scan "2.prems"(1) have same: "md_last_accessed (snd e) = md_last_accessed (snd p)" by simp
    have e: "lru_before (lru_scan e ps) q'" if "q' \<in> set (e # ps)" for q'
      using "2.IH"(2) [OF scan] "2.prems"(1) that by simp
    show ?thesis
    proof (cases "q = p")
      case True
      with e [of e] scan same show ?thesis by (auto simp: lru_before_def)
    next
      case False
      with e "2.prems"(2) scan show ?thesis by auto
    qed
  qed
qed

lemma lru_evict_run:
  assumes "lru_free_table s = e # rest"
  shows "lru_evict s = (Inr (fst (lru_scan e rest), md_content_hash (snd (lru_scan e rest))),
    s\<lparr>lru_free_table := dict_del (fst (lru_scan e rest)) (lru_free_table s)\<rparr>)"
  using assms by (simp add: lru_evict_def run_simps case_prod_beta)

text \<open>Adding a block no earlier than the newest one keeps the order.\<close>

lemma lru_add_in_order:
  assumes "lru_in_order s" and "dict_get (lru_free_table s) b = None"
    and "\<forall>p \<in> set (lru_free_table s). md_last_accessed (snd p) \<le> la"
  shows "lru_in_order (snd (lru_add b h n la s))"
proof -
  from assms(1,3) show ?thesis
    by (simp add: lru_in_order_def lru_add_def run_simps sorted_append dict_set_new [OF assms(2)])
qed

subsection \<open>The evictor an allocator holds\<close>

datatype Evictor = LRUE LRUEvictor | FAE FrequencyAwareEvictor

text \<open>A method call on it goes to the class of the object.\<close>

fun ev_call :: "(LRUEvictor, 'a) st \<Rightarrow> (FrequencyAwareEvictor, 'a) st \<Rightarrow> (Evictor, 'a) st" where
  "ev_call m n (LRUE s) = (case m s of (r, t) \<Rightarrow> (r, LRUE t))"
| "ev_call m n (FAE s) = (case n s of (r, t) \<Rightarrow> (r, FAE t))"

fun ev_contains :: "block_id \<Rightarrow> Evictor \<Rightarrow> bool" where
  "ev_contains b (LRUE s) = lru_contains b s"
| "ev_contains b (FAE s) = fa_contains b s"

definition ev_evict :: "(Evictor, block_id \<times> content_hash) st" where
  "ev_evict = ev_call lru_evict fa_evict"

definition ev_add :: "block_id \<Rightarrow> content_hash \<Rightarrow> int \<Rightarrow> py_time \<Rightarrow> (Evictor, unit) st" where
  "ev_add b h n la = ev_call (lru_add b h n la) (fa_add b h n la)"

definition ev_update :: "block_id \<Rightarrow> py_time \<Rightarrow> (Evictor, unit) st" where
  "ev_update b la = ev_call (lru_update b la) (fa_update b la)"

definition ev_remove :: "block_id \<Rightarrow> (Evictor, unit) st" where
  "ev_remove b = ev_call (lru_remove b) (fa_remove b)"

fun ev_num_blocks :: "Evictor \<Rightarrow> nat" where
  "ev_num_blocks (LRUE s) = lru_num_blocks s"
| "ev_num_blocks (FAE s) = fa_num_blocks s"

text \<open>\<open>None\<close> stands for an argument that is not a policy.\<close>

fun make_evictor :: "EvictionPolicy option \<Rightarrow> exn + Evictor" where
  "make_evictor (Some LRU) = Inr (LRUE lru_init)"
| "make_evictor (Some FREQUENCY_AWARE) = Inr (FAE fa_init)"
| "make_evictor None = Inl ValueError"

subsection \<open>Reading the policy from the environment\<close>

text \<open>\<open>str.strip\<close> and \<open>str.lower\<close> on text of Latin-1 characters.\<close>

definition py_isspace :: "char \<Rightarrow> bool" where
  "py_isspace c \<longleftrightarrow> (of_char c :: nat) \<in> {9, 10, 11, 12, 13, 28, 29, 30, 31, 32, 133, 160}"

definition py_strip :: "string \<Rightarrow> string" where
  "py_strip s = rev (dropWhile py_isspace (rev (dropWhile py_isspace s)))"

definition py_lower_char :: "char \<Rightarrow> char" where
  "py_lower_char c = (let n = (of_char c :: nat) in
     if 65 \<le> n \<and> n \<le> 90 \<or> 192 \<le> n \<and> n \<le> 222 \<and> n \<noteq> 215 then char_of (n + 32) else c)"

definition py_lower :: "string \<Rightarrow> string" where
  "py_lower s = map py_lower_char s"

definition eviction_policy_from_env :: "(string \<rightharpoonup> string) \<Rightarrow> exn + EvictionPolicy" where
  "eviction_policy_from_env environ =
     (let v = py_lower (py_strip (case environ ''BI100_KV_EVICTION_POLICY'' of
                 None \<Rightarrow> ''lru'' | Some x \<Rightarrow> x)) in
      if v = ''lru'' then Inr LRU
      else if v = ''frequency'' then Inr FREQUENCY_AWARE
      else Inl ValueError)"

subsection \<open>The contract of an evictor\<close>

text \<open>
  What the prefix-caching allocator relies on: an evictor is a finite map from free blocks to
  content hashes, from which \<open>evict\<close> removes some entry. Which one is the policy's business.
\<close>

locale evictor_contract =
  fixes contains :: "block_id \<Rightarrow> 's \<Rightarrow> bool"
    and evict :: "('s, block_id \<times> content_hash) st"
    and add :: "block_id \<Rightarrow> content_hash \<Rightarrow> int \<Rightarrow> py_time \<Rightarrow> ('s, unit) st"
    and update :: "block_id \<Rightarrow> py_time \<Rightarrow> ('s, unit) st"
    and remove :: "block_id \<Rightarrow> ('s, unit) st"
    and num_blocks :: "'s \<Rightarrow> nat"
    and table :: "'s \<Rightarrow> block_id \<rightharpoonup> content_hash"
    and inv :: "'s \<Rightarrow> bool"
    and accepts :: "'s \<Rightarrow> content_hash \<Rightarrow> bool"
  assumes contains_iff: "inv s \<Longrightarrow> contains b s \<longleftrightarrow> table s b \<noteq> None"
    and finite_table: "inv s \<Longrightarrow> finite (dom (table s))"
    and num_blocks_card: "inv s \<Longrightarrow> num_blocks s = card (dom (table s))"
    and evict_empty: "inv s \<Longrightarrow> table s = Map.empty \<Longrightarrow> evict s = (Inl ValueError, s)"
    and evict_some: "inv s \<Longrightarrow> table s \<noteq> Map.empty \<Longrightarrow>
          \<exists>b h t. evict s = (Inr (b, h), t) \<and> table s b = Some h \<and> inv t
            \<and> table t = (table s)(b := None) \<and> accepts t = accepts s"
    and add_ok: "inv s \<Longrightarrow> accepts s h \<Longrightarrow>
          \<exists>t. add b h n la s = (Inr (), t) \<and> inv t \<and> table t = (table s)(b \<mapsto> h)
            \<and> accepts t = accepts s"
    and add_refused: "inv s \<Longrightarrow> \<not> accepts s h \<Longrightarrow> add b h n la s = (Inl ValueError, s)"
    and update_ok: "inv s \<Longrightarrow> table s b \<noteq> None \<Longrightarrow>
          \<exists>t. update b la s = (Inr (), t) \<and> inv t \<and> table t = table s \<and> accepts t = accepts s"
    and update_missing: "inv s \<Longrightarrow> table s b = None \<Longrightarrow> update b la s = (Inl KeyError, s)"
    and remove_ok: "inv s \<Longrightarrow> table s b \<noteq> None \<Longrightarrow>
          \<exists>t. remove b s = (Inr (), t) \<and> inv t \<and> table t = (table s)(b := None)
            \<and> accepts t = accepts s"
    and remove_missing: "inv s \<Longrightarrow> table s b = None \<Longrightarrow> remove b s = (Inl ValueError, s)"
begin

lemma empty_iff: "inv s \<Longrightarrow> num_blocks s = 0 \<longleftrightarrow> table s = Map.empty"
  by (simp add: num_blocks_card finite_table)

lemma evict_returns: "inv s \<Longrightarrow> 0 < num_blocks s \<Longrightarrow>
    \<exists>b h t. evict s = (Inr (b, h), t) \<and> table s b = Some h \<and> inv t
      \<and> table t = (table s)(b := None) \<and> num_blocks t = num_blocks s - 1"
proof -
  assume inv: "inv s" and pos: "0 < num_blocks s"
  then have "table s \<noteq> Map.empty" using empty_iff [OF inv] by simp
  with inv obtain b h t where t: "evict s = (Inr (b, h), t)" "table s b = Some h" "inv t"
    "table t = (table s)(b := None)"
    using evict_some by blast
  have "dom (table t) = dom (table s) - {b}" using t(4) by auto
  moreover have "b \<in> dom (table s)" using t(2) by auto
  ultimately have "num_blocks t = num_blocks s - 1"
    using inv t(3) by (simp add: num_blocks_card finite_table)
  with t show ?thesis by blast
qed

text \<open>
  Evicting again and again drains the table: \<open>n\<close> evictions return \<open>n\<close> different blocks, as
  long as the table has them.
\<close>

lemma drain:
  "inv s \<Longrightarrow> n \<le> num_blocks s \<Longrightarrow>
   \<exists>bs t. mapM [0..<n] (\<lambda>_. evict) s = (Inr bs, t) \<and> inv t \<and> distinct (map fst bs)
     \<and> (\<forall>(b, h) \<in> set bs. table s b = Some h)
     \<and> dom (table t) = dom (table s) - fst ` set bs \<and> num_blocks t = num_blocks s - n"
proof (induction n arbitrary: s)
  case 0
  then show ?case by (simp add: run_simps)
next
  case (Suc n)
  from Suc.prems obtain b h u where u: "evict s = (Inr (b, h), u)" "table s b = Some h" "inv u"
    "table u = (table s)(b := None)" "num_blocks u = num_blocks s - 1"
    using evict_returns [of s] by auto
  then have "n \<le> num_blocks u" using Suc.prems by simp
  from Suc.IH [OF u(3) this] obtain bs t where t: "mapM [0..<n] (\<lambda>_. evict) u = (Inr bs, t)" "inv t"
    "distinct (map fst bs)" "\<forall>(b, h) \<in> set bs. table u b = Some h"
    "dom (table t) = dom (table u) - fst ` set bs" "num_blocks t = num_blocks u - n"
    by blast
  have "mapM [0..<Suc n] (\<lambda>_. evict) s = (Inr ((b, h) # bs), t)"
    using u(1) t(1) mapM_const_Suc [of n evict] by (simp add: run_simps)
  moreover have "b \<notin> fst ` set bs" using t(4) u(4) by auto
  moreover have "\<forall>(b', h') \<in> set bs. table s b' = Some h'"
    using t(4) u(4) by (auto split: if_splits)
  moreover have "dom (table t) = dom (table s) - fst ` set ((b, h) # bs)"
    using t(5) u(4) by auto
  ultimately show ?case using t u by auto
qed

end

subsection \<open>Both evictors, and their sum, keep the contract\<close>

definition hash_table :: "(block_id, BlockMetaData) dict \<Rightarrow> block_id \<rightharpoonup> content_hash" where
  "hash_table d = (\<lambda>b. map_option md_content_hash (dict_get d b))"

lemma hash_table_simps [simp]:
  "hash_table [] = Map.empty"
  "hash_table (dict_del b d) = (hash_table d)(b := None)"
  "hash_table (dict_set b m d) = (hash_table d)(b \<mapsto> md_content_hash m)"
  by (auto simp: hash_table_def fun_eq_iff)

lemma hash_table_dom: "dom (hash_table d) = dict_keys d"
  by (auto simp: hash_table_def dict_keys_dom)

lemma hash_table_get: "hash_table d b = None \<longleftrightarrow> dict_get d b = None"
  by (simp add: hash_table_def)

lemma hash_table_empty: "hash_table d = Map.empty \<longleftrightarrow> d = []"
proof
  assume "hash_table d = Map.empty"
  then have "dict_keys d = {}" using hash_table_dom [of d] by simp
  then show "d = []" by simp
qed simp

lemma hash_table_touch [simp]:
  "dict_get d b = Some m \<Longrightarrow> (hash_table d)(b \<mapsto> md_content_hash m) = hash_table d"
  by (auto simp: hash_table_def fun_eq_iff)

definition lru_table :: "LRUEvictor \<Rightarrow> block_id \<rightharpoonup> content_hash" where
  "lru_table s = hash_table (lru_free_table s)"

definition lru_inv :: "LRUEvictor \<Rightarrow> bool" where
  "lru_inv s \<longleftrightarrow> dict_ok (lru_free_table s)"

definition fa_table :: "FrequencyAwareEvictor \<Rightarrow> block_id \<rightharpoonup> content_hash" where
  "fa_table s = hash_table (fa_free_table s)"

lemma lru_evict_some:
  assumes "lru_inv s" and "lru_table s \<noteq> Map.empty"
  shows "\<exists>b h t. lru_evict s = (Inr (b, h), t) \<and> lru_table s b = Some h \<and> lru_inv t
    \<and> lru_table t = (lru_table s)(b := None)"
proof -
  from assms(2) obtain e rest where tab: "lru_free_table s = e # rest"
    by (auto simp: lru_table_def hash_table_empty neq_Nil_conv)
  obtain b m where scan: "lru_scan e rest = (b, m)" by (cases "lru_scan e rest")
  with lru_scan_in [of e rest] tab assms(1) have "dict_get (lru_free_table s) b = Some m"
    by (metis dict_in_get lru_inv_def)
  with lru_evict_run [OF tab] scan assms(1) show ?thesis
    by (auto simp: lru_table_def lru_inv_def hash_table_def fun_eq_iff)
qed

interpretation lru: evictor_contract lru_contains lru_evict lru_add lru_update lru_remove
  lru_num_blocks lru_table lru_inv "\<lambda>_ _. True"
proof (unfold_locales, goal_cases)
  case (5 s)
  then show ?case using lru_evict_some by blast
next
  case (8 s b la)
  then show ?case
    by (auto simp: lru_update_def lru_table_def lru_inv_def run_simps hash_table_get)
qed (auto simp: lru_contains_def lru_table_def lru_inv_def lru_num_blocks_def lru_evict_def
      lru_add_def lru_update_def lru_remove_def run_simps hash_table_dom hash_table_get dict_len
      hash_table_empty)

lemma fa_evict_some:
  assumes "fa_inv s" and "fa_table s \<noteq> Map.empty"
  shows "\<exists>b h t. fa_evict s = (Inr (b, h), t) \<and> fa_table s b = Some h \<and> fa_inv t
    \<and> fa_table t = (fa_table s)(b := None)"
proof -
  from assms(2) have "fa_free_table s \<noteq> []" by (simp add: fa_table_def hash_table_empty)
  with fa_evict_loop_least [OF assms(1) this] show ?thesis
    by (auto simp: fa_evict_def run_simps fa_evicts_def fa_table_def hash_table_def fun_eq_iff)
qed

lemma fa_inv_ok: "fa_inv s \<Longrightarrow> dict_ok (fa_free_table s)"
  by (simp add: fa_inv_def fa_table_inv_def)

lemma fa_add_ok:
  assumes "fa_inv s" and "fa_validate_content_hash h"
  shows "\<exists>t. fa_add b h n la s = (Inr (), t) \<and> fa_inv t \<and> fa_table t = (fa_table s)(b \<mapsto> h)"
  using assms by (rule fa_add_inv [where b = b and n = n and la = la]) (simp add: fa_table_def)

lemma fa_update_ok:
  assumes "fa_inv s" and "fa_table s b \<noteq> None"
  shows "\<exists>t. fa_update b la s = (Inr (), t) \<and> fa_inv t \<and> fa_table t = fa_table s"
proof -
  from assms(2) obtain m where m: "dict_get (fa_free_table s) b = Some m"
    by (auto simp: fa_table_def hash_table_def)
  show ?thesis
    using assms(1) m by (rule fa_update_inv [where la = la]) (simp add: fa_table_def m)
qed

lemma fa_remove_ok:
  assumes "fa_inv s" and "fa_table s b \<noteq> None"
  shows "\<exists>t. fa_remove b s = (Inr (), t) \<and> fa_inv t \<and> fa_table t = (fa_table s)(b := None)"
proof -
  from assms(2) have "dict_get (fa_free_table s) b \<noteq> None" by (simp add: fa_table_def hash_table_get)
  with assms(1) show ?thesis by (rule fa_remove_inv) (simp add: fa_table_def)
qed

interpretation fa: evictor_contract fa_contains fa_evict fa_add fa_update fa_remove
  fa_num_blocks fa_table fa_inv "\<lambda>_. fa_validate_content_hash"
proof (unfold_locales, goal_cases)
  case (5 s)
  then show ?case using fa_evict_some by blast
next
  case (6 s h b n la)
  then show ?case using fa_add_ok by blast
next
  case (8 s b la)
  then show ?case using fa_update_ok by blast
next
  case (10 s b)
  then show ?case using fa_remove_ok by blast
qed (auto simp: fa_contains_def fa_table_def fa_num_blocks_def fa_evict_def
      fa_add_def fa_update_def fa_remove_def run_simps hash_table_dom hash_table_get dict_len
      hash_table_empty fa_inv_ok)

text \<open>The object an allocator holds keeps it too, whichever class it is of.\<close>

fun ev_table :: "Evictor \<Rightarrow> block_id \<rightharpoonup> content_hash" where
  "ev_table (LRUE s) = lru_table s"
| "ev_table (FAE s) = fa_table s"

fun ev_inv :: "Evictor \<Rightarrow> bool" where
  "ev_inv (LRUE s) = lru_inv s"
| "ev_inv (FAE s) = fa_inv s"

fun ev_accepts :: "Evictor \<Rightarrow> content_hash \<Rightarrow> bool" where
  "ev_accepts (LRUE s) h = True"
| "ev_accepts (FAE s) h = fa_validate_content_hash h"

lemma ev_accepts_LRUE [simp]: "ev_accepts (LRUE s) = (\<lambda>_. True)"
  by (rule ext) simp

lemma ev_accepts_FAE [simp]: "ev_accepts (FAE s) = fa_validate_content_hash"
  by (rule ext) simp

interpretation ev: evictor_contract ev_contains ev_evict ev_add ev_update ev_remove
  ev_num_blocks ev_table ev_inv ev_accepts
proof (unfold_locales, goal_cases)
  case (1 s b)
  then show ?case by (cases s) (simp_all add: lru.contains_iff fa.contains_iff)
next
  case (2 s)
  then show ?case by (cases s) (simp_all add: lru.finite_table fa.finite_table)
next
  case (3 s)
  then show ?case by (cases s) (simp_all add: lru.num_blocks_card fa.num_blocks_card)
next
  case (4 s)
  then show ?case by (cases s) (simp_all add: ev_evict_def lru.evict_empty fa.evict_empty)
next
  case (5 s)
  then show ?case
    using lru.evict_some fa.evict_some by (cases s) (fastforce simp: ev_evict_def)+
next
  case (6 s h b n la)
  then show ?case
    using lru.add_ok [where b = b and h = h and n = n and la = la]
      fa.add_ok [where b = b and h = h and n = n and la = la]
    by (cases s) (fastforce simp: ev_add_def)+
next
  case (7 s h b n la)
  then show ?case by (cases s) (simp_all add: ev_add_def fa.add_refused)
next
  case (8 s b la)
  then show ?case
    using lru.update_ok [where b = b and la = la] fa.update_ok [where b = b and la = la]
    by (cases s) (fastforce simp: ev_update_def)+
next
  case (9 s b la)
  then show ?case by (cases s) (simp_all add: ev_update_def lru.update_missing fa.update_missing)
next
  case (10 s b)
  then show ?case
    using lru.remove_ok [where b = b] fa.remove_ok [where b = b]
    by (cases s) (fastforce simp: ev_remove_def)+
next
  case (11 s b)
  then show ?case by (cases s) (simp_all add: ev_remove_def lru.remove_missing fa.remove_missing)
qed

lemma make_evictor_inv: "make_evictor p = Inr e \<Longrightarrow> ev_inv e \<and> ev_table e = Map.empty"
  by (cases p rule: make_evictor.cases)
    (use fa_inv_init in \<open>auto simp: lru_inv_def lru_table_def lru_init_def fa_table_def fa_init_def\<close>)

subsection \<open>Histories of the frequency-aware evictor\<close>

text \<open>
  A history is any sequence of calls, refused ones included: a call that raises leaves the
  object as it was.
\<close>

datatype ev_op =
    EvAdd block_id content_hash int py_time
  | EvUpdate block_id py_time
  | EvRemove block_id
  | EvEvict

fun fa_apply :: "FrequencyAwareEvictor \<Rightarrow> ev_op \<Rightarrow> FrequencyAwareEvictor" where
  "fa_apply s (EvAdd b h n la) = snd (fa_add b h n la s)"
| "fa_apply s (EvUpdate b la) = snd (fa_update b la s)"
| "fa_apply s (EvRemove b) = snd (fa_remove b s)"
| "fa_apply s EvEvict = snd (fa_evict s)"

definition fa_history :: "ev_op list \<Rightarrow> FrequencyAwareEvictor" where
  "fa_history ops = foldl fa_apply fa_init ops"

lemma fa_apply_inv: "fa_inv s \<Longrightarrow> fa_inv (fa_apply s p)"
proof (cases p)
  case (EvAdd b h n la)
  assume "fa_inv s"
  then show ?thesis
    using fa.add_ok [of s h b n la] fa.add_refused [of s h b n la] EvAdd
    by (cases "fa_validate_content_hash h") auto
next
  case (EvUpdate b la)
  assume "fa_inv s"
  then show ?thesis
    using fa.update_ok [of s b la] fa.update_missing [of s b la] EvUpdate
    by (cases "fa_table s b = None") auto
next
  case (EvRemove b)
  assume "fa_inv s"
  then show ?thesis
    using fa.remove_ok [of s b] fa.remove_missing [of s b] EvRemove
    by (cases "fa_table s b = None") auto
next
  case EvEvict
  assume "fa_inv s"
  then show ?thesis
    using fa.evict_some [of s] fa.evict_empty [of s] EvEvict
    by (cases "fa_table s = Map.empty") auto
qed

lemma fa_history_snoc: "fa_history (ops @ [p]) = fa_apply (fa_history ops) p"
  by (simp add: fa_history_def)

lemma fa_history_inv: "fa_inv (fa_history ops)"
  by (induction ops rule: rev_induct)
    (simp_all add: fa_history_snoc fa_apply_inv fa_inv_init [folded fa_history_def], 
     simp add: fa_history_def fa_inv_init)

lemma fa_evict_returns_least:
  assumes "fa_inv s" and "fa_free_table s \<noteq> []"
  shows "\<exists>b m t. fa_evict s = (Inr (b, md_content_hash m), t) \<and> fa_evicts s b m t"
  using fa_evict_loop_least [OF assms] assms(2) by (simp add: fa_evict_def run_simps)

text \<open>Every call that returns has compacted; one that raises has changed nothing.\<close>

lemma fa_evict_bounded:
  assumes "fa_inv s" and "fa_evict s = (Inr r, t)"
  shows "fa_heap_bounded t"
proof -
  have "fa_free_table s \<noteq> []" using assms(2) by (auto simp: fa_evict_def ok_simps)
  with fa_evict_returns_least [OF assms(1)] assms(2) show ?thesis by (auto simp: fa_evicts_def)
qed

lemma fa_add_bounded: "fa_add b h n la s = (Inr (), t) \<Longrightarrow> fa_heap_bounded t"
  by (auto simp: fa_add_def ok_simps dest: fa_compact_ok(5))

lemma fa_update_bounded: "fa_update b la s = (Inr (), t) \<Longrightarrow> fa_heap_bounded t"
  by (auto simp: fa_update_def ok_simps dest: fa_compact_ok(5))

lemma fa_remove_bounded: "fa_remove b s = (Inr (), t) \<Longrightarrow> fa_heap_bounded t"
  by (auto simp: fa_remove_def ok_simps dest: fa_compact_ok(5))

lemmas fa_bounded = fa_evict_bounded fa_add_bounded fa_update_bounded fa_remove_bounded

lemma fa_apply_bounded:
  assumes "fa_inv s" and "fa_heap_bounded s"
  shows "fa_heap_bounded (fa_apply s p)"
proof (cases p)
  case (EvAdd b h n la)
  then show ?thesis
    using assms fa.add_ok [of s h b n la] fa.add_refused [of s h b n la]
    by (cases "fa_validate_content_hash h") (auto dest: fa_bounded)
next
  case (EvUpdate b la)
  then show ?thesis
    using assms fa.update_ok [of s b la] fa.update_missing [of s b la]
    by (cases "fa_table s b = None") (auto dest: fa_bounded)
next
  case (EvRemove b)
  then show ?thesis
    using assms fa.remove_ok [of s b] fa.remove_missing [of s b]
    by (cases "fa_table s b = None") (auto dest: fa_bounded)
next
  case EvEvict
  then show ?thesis
    using assms fa.evict_some [of s] fa.evict_empty [of s]
    by (cases "fa_table s = Map.empty") (auto dest: fa_bounded)
qed

subsection \<open>Properties\<close>

text \<open>
  C23. Whatever calls came before, \<open>FrequencyAwareEvictor.evict\<close> on a non-empty table returns:
  it never runs out of heap entries. It returns a cached block with its content hash, and
  that block is least in (frequency of its content, last access, fewest hashed tokens first
  negated, block id) among all cached blocks; it leaves the table and the content frequencies
  otherwise unchanged. The heap's stale and out-of-date entries never show.
\<close>

theorem frequency_evict_least_priority:
  assumes "fa_free_table (fa_history ops) \<noteq> []"
  shows "\<exists>b m t. fa_evict (fa_history ops) = (Inr (b, md_content_hash m), t)
    \<and> dict_get (fa_free_table (fa_history ops)) b = Some m
    \<and> (\<forall>b' m'. dict_get (fa_free_table (fa_history ops)) b' = Some m' \<longrightarrow>
          fa_priority (fa_history ops) b m \<le> fa_priority (fa_history ops) b' m')
    \<and> fa_free_table t = dict_del b (fa_free_table (fa_history ops))
    \<and> frequency_by_hash t = frequency_by_hash (fa_history ops)"
  using fa_evict_returns_least [OF fa_history_inv assms] unfolding fa_evicts_def by blast

definition ex_hash :: "byte \<Rightarrow> content_hash" where
  "ex_hash x = PyBytes (replicate 32 x)"

definition ex_ops :: "ev_op list" where
  "ex_ops = [EvAdd 7 (ex_hash 1) 4 10, EvAdd 8 (ex_hash 2) 8 11, EvAdd 9 (ex_hash 1) 2 12]"

theorem frequency_evict_least_priority_witness:
  "\<exists>b m t. fa_evict (fa_history ex_ops) = (Inr (b, md_content_hash (m :: BlockMetaData)), t)
    \<and> dict_get (fa_free_table (fa_history ex_ops)) b = Some m
    \<and> (\<forall>b' m'. dict_get (fa_free_table (fa_history ex_ops)) b' = Some m' \<longrightarrow>
          fa_priority (fa_history ex_ops) b m \<le> fa_priority (fa_history ex_ops) b' m')
    \<and> fa_free_table t = dict_del b (fa_free_table (fa_history ex_ops))
    \<and> frequency_by_hash t = frequency_by_hash (fa_history ex_ops)"
proof (rule frequency_evict_least_priority)
  show "fa_free_table (fa_history ex_ops) \<noteq> []"
    by (simp add: ex_ops_def fa_history_def fa_init_def fa_add_def fa_push_def fa_heap_key_def
        fa_compact_if_needed_def heappush_def ex_hash_def run_simps)
qed

text \<open>
  C24. The heap of the frequency-aware evictor never holds more than twice as many entries as
  there are cached blocks, plus one, after any history of calls.
\<close>

theorem frequency_heap_bounded:
  "length (fa_heap (fa_history ops)) \<le> 2 * length (fa_free_table (fa_history ops)) + 1"
proof -
  have "fa_heap_bounded (fa_history ops)"
  proof (induction ops rule: rev_induct)
    case Nil
    show ?case by (simp add: fa_history_def fa_init_def fa_heap_bounded_def)
  next
    case (snoc p ops)
    then show ?case
      by (simp add: fa_history_snoc fa_apply_bounded fa_history_inv)
  qed
  then show ?thesis by (simp add: fa_heap_bounded_def)
qed

text \<open>
  C25. \<open>LRUEvictor.evict\<close> on a non-empty table in order of last access returns a block whose
  last access is least and, among the blocks accessed then, one with the most hashed tokens,
  with its content hash, and removes just that block.
\<close>

theorem lru_evict_least_recent:
  assumes "dict_ok (lru_free_table s)" and "lru_in_order s" and "lru_free_table s \<noteq> []"
  shows "\<exists>b m t. lru_evict s = (Inr (b, md_content_hash m), t)
    \<and> dict_get (lru_free_table s) b = Some m
    \<and> (\<forall>b' m'. dict_get (lru_free_table s) b' = Some m' \<longrightarrow>
          md_last_accessed m < md_last_accessed m'
          \<or> md_last_accessed m = md_last_accessed m'
            \<and> md_num_hashed_tokens m' \<le> md_num_hashed_tokens m)
    \<and> lru_free_table t = dict_del b (lru_free_table s)"
proof -
  from assms(3) obtain e rest where tab: "lru_free_table s = e # rest"
    by (auto simp: neq_Nil_conv)
  obtain b m where scan: "lru_scan e rest = (b, m)" by (cases "lru_scan e rest")
  have "dict_get (lru_free_table s) b = Some m"
    using lru_scan_in [of e rest] scan tab assms(1) by (metis dict_in_get)
  moreover have "lru_before (b, m) (b', m')"
    if "dict_get (lru_free_table s) b' = Some m'" for b' m'
    using lru_scan_least [of e rest "(b', m')"] dict_get_in [OF that] assms(2) scan tab
    by (simp add: lru_in_order_def)
  ultimately show ?thesis
    using lru_evict_run [OF tab] scan by (fastforce simp: lru_before_def)
qed

definition ex_lru :: LRUEvictor where
  "ex_lru = \<lparr>lru_free_table =
     [(3, \<lparr>md_content_hash = PyInt 30, md_num_hashed_tokens = 4, md_last_accessed = 1\<rparr>),
      (5, \<lparr>md_content_hash = PyInt 50, md_num_hashed_tokens = 8, md_last_accessed = 1\<rparr>),
      (4, \<lparr>md_content_hash = PyInt 40, md_num_hashed_tokens = 9, md_last_accessed = 2\<rparr>)]\<rparr>"

theorem lru_evict_least_recent_witness:
  "\<exists>b m t. lru_evict ex_lru = (Inr (b, md_content_hash (m :: BlockMetaData)), t)
    \<and> dict_get (lru_free_table ex_lru) b = Some m
    \<and> (\<forall>b' m'. dict_get (lru_free_table ex_lru) b' = Some m' \<longrightarrow>
          md_last_accessed m < md_last_accessed m'
          \<or> md_last_accessed m = md_last_accessed m'
            \<and> md_num_hashed_tokens m' \<le> md_num_hashed_tokens m)
    \<and> lru_free_table t = dict_del b (lru_free_table ex_lru)"
  by (rule lru_evict_least_recent) (simp_all add: ex_lru_def dict_ok_def lru_in_order_def)

text \<open>
  An example. \<open>LRUEvictor.update\<close> changes a block's access time and leaves its place in the table, so
  a later \<open>evict\<close> can return the block used last: after adding block 1 at time 1 and block 2
  at time 2 and marking block 1 as accessed at time 3, block 1 is the one evicted.
\<close>

theorem lru_update_loses_order:
  "fst (bindM (lru_add 1 (PyInt 10) 16 1) (\<lambda>_. bindM (lru_add 2 (PyInt 20) 16 2) (\<lambda>_.
     bindM (lru_update 1 3) (\<lambda>_. lru_evict))) lru_init) = Inr (1, PyInt 10)"
  by (simp add: lru_add_def lru_update_def lru_evict_def lru_init_def run_simps)

text \<open>
  C26. Draining the evictor an allocator holds, whichever policy it follows: with \<open>n\<close> blocks or
  more in it, \<open>n\<close> calls of \<open>evict\<close> return \<open>n\<close> different blocks that were in it, each with the
  hash it was added with, and leave \<open>n\<close> blocks fewer.
\<close>

theorem evictor_drain:
  assumes "ev_inv e" and "n \<le> ev_num_blocks e"
  shows "\<exists>bs e'. mapM [0..<n] (\<lambda>_. ev_evict) e = (Inr bs, e') \<and> length bs = n
    \<and> distinct (map fst bs) \<and> (\<forall>(b, h) \<in> set bs. ev_table e b = Some h)
    \<and> ev_inv e' \<and> ev_num_blocks e' = ev_num_blocks e - n"
proof -
  obtain bs e' where run: "mapM [0..<n] (\<lambda>_. ev_evict) e = (Inr bs, e')" "ev_inv e'"
    "distinct (map fst bs)" "\<forall>(b, h) \<in> set bs. ev_table e b = Some h"
    "ev_num_blocks e' = ev_num_blocks e - n"
    using ev.drain [OF assms] by blast
  have "length bs = n" using mapM_length [OF run(1)] by simp
  with run show ?thesis by blast
qed

theorem evictor_drain_witness:
  "\<exists>bs e'. mapM [0..<2] (\<lambda>_. ev_evict) (FAE (fa_history ex_ops)) = (Inr bs, e')
    \<and> length bs = 2 \<and> distinct (map fst bs)
    \<and> (\<forall>(b, h) \<in> set bs. ev_table (FAE (fa_history ex_ops)) b = Some h)
    \<and> ev_inv e' \<and> ev_num_blocks e' = ev_num_blocks (FAE (fa_history ex_ops)) - 2"
proof (rule evictor_drain)
  show "2 \<le> ev_num_blocks (FAE (fa_history ex_ops))"
    by (simp add: ex_ops_def fa_history_def fa_init_def fa_add_def fa_push_def fa_heap_key_def
        fa_compact_if_needed_def heappush_def ex_hash_def run_simps fa_num_blocks_def)
  show "ev_inv (FAE (fa_history ex_ops))"
    by (simp add: fa_history_inv)
qed

end
