(* ===== verification/CpuKvCache.thy ===== *)
theory CpuKvCache
  imports EvictorV2
begin

section \<open>The content index of the CPU cache tier (\<open>vllm/core/block/cpu_kv_content_cache.py\<close>)\<close>

text \<open>
  The scheduler keeps a map between content hashes and the slots of the workers' pinned CPU
  cache, and collects, over one scheduling step, the copies the workers shall make: loads
  (H2D, from a CPU slot to a GPU block) and stores (D2H, from a GPU block to a CPU slot).
  \<open>CpuKvContentCache\<close> is the class's state; a \<open>set\<close> is a set, an \<open>OrderedDict\<close> without values
  is the list of its keys, the heap of free slots is its ascending list. The invariant of the
  class is \<open>ck_inv\<close>; the step protocol is the relation \<open>ck_step\<close> on worlds that also hold the
  contents of the two memories.
\<close>

subsection \<open>The selector\<close>

text \<open>\<open>source.get("BI100_CPU_KV_OFFLOAD", "0")\<close>: only the strings 0 and 1 are accepted.\<close>

definition cpu_kv_offload_enabled :: "(string \<rightharpoonup> string) \<Rightarrow> exn + bool" where
  "cpu_kv_offload_enabled source =
     (let v = (case source ''BI100_CPU_KV_OFFLOAD'' of None \<Rightarrow> ''0'' | Some v \<Rightarrow> v) in
      if v = ''0'' then Inr False else if v = ''1'' then Inr True else Inl RuntimeError)"

subsection \<open>State\<close>

text \<open>An argument that should be a block number: an \<open>int\<close>, a \<open>bool\<close>, or something else.\<close>

datatype py_arg = ArgInt int | ArgBool bool | ArgOther

record CpuKvContentCache =
  ck_capacity :: int
  hash_to_slot :: "(content_hash, int) dict"
  slot_to_hash :: "(int, content_hash) dict"
  ready_slots :: "int set"
  ck_lru :: "int list"
  free_slots :: "int list"
  step_slots_in_use :: "int set"
  step_load_slots :: "int set"
  step_h2d :: "(int, int) dict"
  step_d2h :: "(int, int) dict"
  deferred_d2h :: "(int, content_hash) dict"
  deferred_hashes :: "content_hash set"
  pending_ready_slots :: "int set"
  ck_hits :: nat
  ck_misses :: nat
  ck_stores :: nat
  deduplicated_stores :: nat
  ck_evictions :: nat
  skipped_stores :: nat

type_synonym 'a ck = "(CpuKvContentCache, 'a) st"

definition ck_init :: "int \<Rightarrow> exn + CpuKvContentCache" where
  "ck_init capacity =
     (if capacity \<le> 0 then Inl ValueError
      else Inr \<lparr>ck_capacity = capacity, hash_to_slot = [], slot_to_hash = [], ready_slots = {},
        ck_lru = [], free_slots = [0..capacity - 1], step_slots_in_use = {},
        step_load_slots = {}, step_h2d = [], step_d2h = [], deferred_d2h = [],
        deferred_hashes = {}, pending_ready_slots = {}, ck_hits = 0, ck_misses = 0,
        ck_stores = 0, deduplicated_stores = 0, ck_evictions = 0, skipped_stores = 0\<rparr>)"

subsection \<open>Operations\<close>

fun ck_hash_valid :: "content_hash \<Rightarrow> bool" where
  "ck_hash_valid (PyInt i) = False"
| "ck_hash_valid (PyBytes bs) = (length bs = 32)"

definition validate_hash :: "content_hash \<Rightarrow> unit ck" where
  "validate_hash h = guardM (\<not> ck_hash_valid h) ValueError"

fun validate_block_id :: "py_arg \<Rightarrow> int ck" where
  "validate_block_id (ArgInt i) = (if i < 0 then raiseM ValueError else retM i)"
| "validate_block_id (ArgBool b) = raiseM TypeError"
| "validate_block_id ArgOther = raiseM TypeError"

definition ck_touch :: "int \<Rightarrow> unit ck" where
  "ck_touch slot = modM (\<lambda>s. s\<lparr>ck_lru := filter (\<lambda>x. x \<noteq> slot) (ck_lru s) @ [slot]\<rparr>)"

definition select_store_slot :: "int option ck" where
  "select_store_slot = getM free_slots (\<lambda>free.
     case free of
       slot # rest \<Rightarrow> thenM (modM (\<lambda>s. s\<lparr>free_slots := rest\<rparr>)) (retM (Some slot))
     | [] \<Rightarrow> getM ck_lru (\<lambda>lru. getM step_slots_in_use (\<lambda>used.
         retM (List.find (\<lambda>slot. slot \<notin> used) lru))))"

text \<open>The first half of \<open>_commit_store\<close>: forget the content the slot had.\<close>

definition ck_forget_old :: "int \<Rightarrow> unit ck" where
  "ck_forget_old slot = getM (\<lambda>s. dict_get (slot_to_hash s) slot) (\<lambda>old.
     case old of
       None \<Rightarrow> retM ()
     | Some old_hash \<Rightarrow>
         getM step_slots_in_use (\<lambda>used.
         thenM (guardM (slot \<in> used) RuntimeError)
        (getM hash_to_slot (\<lambda>h2s.
         thenM (guardM (dict_get h2s old_hash = None) KeyError)
               (modM (\<lambda>s. s\<lparr>hash_to_slot := dict_del old_hash h2s,
                  ready_slots := ready_slots s - {slot},
                  ck_evictions := ck_evictions s + 1\<rparr>))))))"

definition commit_store :: "content_hash \<Rightarrow> int \<Rightarrow> int \<Rightarrow> unit ck" where
  "commit_store h gpu_block slot =
     thenM (ck_forget_old slot)
    (getM step_h2d (\<lambda>h2d. getM step_d2h (\<lambda>d2h.
     thenM (guardM (slot \<in> dict_keys h2d) RuntimeError)
    (thenM (guardM (slot \<in> snd ` set d2h) RuntimeError)
    (thenM (modM (\<lambda>s. s\<lparr>hash_to_slot := dict_set h slot (hash_to_slot s),
         slot_to_hash := dict_set slot h (slot_to_hash s),
         ready_slots := ready_slots s - {slot},
         step_slots_in_use := insert slot (step_slots_in_use s),
         step_d2h := dict_set gpu_block slot (step_d2h s)\<rparr>))
    (thenM (ck_touch slot)
           (modM (\<lambda>s. s\<lparr>ck_stores := ck_stores s + 1\<rparr>))))))))"

definition begin_step :: "unit ck" where
  "begin_step =
     getM (\<lambda>s. step_slots_in_use s \<noteq> {} \<or> step_h2d s \<noteq> [] \<or> step_d2h s \<noteq> []
        \<or> deferred_d2h s \<noteq> [] \<or> deferred_hashes s \<noteq> {}) (\<lambda>undrained.
     thenM (guardM undrained RuntimeError)
           (modM (\<lambda>s. s\<lparr>ready_slots := ready_slots s \<union> pending_ready_slots s,
              pending_ready_slots := {}\<rparr>)))"

definition require_step_started :: "unit ck" where
  "require_step_started =
     getM pending_ready_slots (\<lambda>pending. guardM (pending \<noteq> {}) RuntimeError)"

text \<open>The lookup of \<open>claim_load\<close> that counts as a hit: a resident, ready slot.\<close>

definition ck_ready_slot :: "CpuKvContentCache \<Rightarrow> content_hash \<Rightarrow> int option" where
  "ck_ready_slot s h = (case dict_get (hash_to_slot s) h of
     None \<Rightarrow> None
   | Some slot \<Rightarrow> if slot \<in> ready_slots s then Some slot else None)"

definition claim_load :: "content_hash \<Rightarrow> int option ck" where
  "claim_load h =
     thenM (validate_hash h)
    (thenM require_step_started
    (getM (\<lambda>s. ck_ready_slot s h) (\<lambda>r.
     case r of
       None \<Rightarrow> thenM (modM (\<lambda>s. s\<lparr>ck_misses := ck_misses s + 1\<rparr>)) (retM None)
     | Some slot \<Rightarrow>
         getM step_slots_in_use (\<lambda>used.
         thenM (guardM (slot \<in> used) RuntimeError)
        (thenM (modM (\<lambda>s. s\<lparr>step_slots_in_use := insert slot (step_slots_in_use s),
             step_load_slots := insert slot (step_load_slots s)\<rparr>))
        (thenM (ck_touch slot)
        (thenM (modM (\<lambda>s. s\<lparr>ck_hits := ck_hits s + 1\<rparr>))
               (retM (Some slot)))))))))"

text \<open>Both \<open>set.remove\<close> calls raise \<open>KeyError\<close> on a missing element.\<close>

definition cancel_load :: "content_hash \<Rightarrow> py_arg \<Rightarrow> unit ck" where
  "cancel_load h slot_arg =
     thenM (validate_hash h)
    (bindM (validate_block_id slot_arg) (\<lambda>slot.
     getM (\<lambda>s. dict_get (hash_to_slot s) h) (\<lambda>r.
     thenM (guardM (r \<noteq> Some slot) RuntimeError)
    (getM step_h2d (\<lambda>h2d.
     thenM (guardM (slot \<in> dict_keys h2d) RuntimeError)
    (getM step_slots_in_use (\<lambda>used.
     thenM (guardM (slot \<notin> used) RuntimeError)
    (thenM (modM (\<lambda>s. s\<lparr>step_slots_in_use := step_slots_in_use s - {slot}\<rparr>))
    (getM step_load_slots (\<lambda>loads.
     thenM (guardM (slot \<notin> loads) KeyError)
           (modM (\<lambda>s. s\<lparr>step_load_slots := step_load_slots s - {slot}\<rparr>))))))))))))"

definition stage_load :: "content_hash \<Rightarrow> py_arg \<Rightarrow> py_arg \<Rightarrow> unit ck" where
  "stage_load h slot_arg gpu_arg =
     thenM (validate_hash h)
    (bindM (validate_block_id slot_arg) (\<lambda>slot.
     bindM (validate_block_id gpu_arg) (\<lambda>gpu_block.
     getM (\<lambda>s. dict_get (hash_to_slot s) h) (\<lambda>r.
     thenM (guardM (r \<noteq> Some slot) RuntimeError)
    (getM ready_slots (\<lambda>ready.
     thenM (guardM (slot \<notin> ready) RuntimeError)
    (getM step_slots_in_use (\<lambda>used.
     thenM (guardM (slot \<notin> used) RuntimeError)
    (getM step_h2d (\<lambda>h2d.
     thenM (guardM (slot \<in> dict_keys h2d) RuntimeError)
    (thenM (guardM (gpu_block \<in> snd ` set h2d) RuntimeError)
    (getM step_d2h (\<lambda>d2h.
     thenM (guardM (slot \<in> snd ` set d2h) RuntimeError)
           (modM (\<lambda>s. s\<lparr>step_h2d := dict_set slot gpu_block h2d\<rparr>)))))))))))))))"

definition stage_store :: "content_hash \<Rightarrow> py_arg \<Rightarrow> bool ck" where
  "stage_store h gpu_arg =
     thenM (validate_hash h)
    (bindM (validate_block_id gpu_arg) (\<lambda>gpu_block.
     thenM require_step_started
    (getM (\<lambda>s. dict_get (hash_to_slot s) h) (\<lambda>r.
     getM deferred_hashes (\<lambda>dh.
     if r \<noteq> None \<or> h \<in> dh then
       thenM (case r of None \<Rightarrow> retM () | Some slot \<Rightarrow> ck_touch slot)
      (thenM (modM (\<lambda>s. s\<lparr>deduplicated_stores := deduplicated_stores s + 1\<rparr>))
             (retM False))
     else
       getM step_d2h (\<lambda>d2h. getM deferred_d2h (\<lambda>deferred.
       thenM (guardM (gpu_block \<in> dict_keys d2h \<or> gpu_block \<in> dict_keys deferred) RuntimeError)
      (getM free_slots (\<lambda>free.
       case free of
         slot # rest \<Rightarrow>
           thenM (modM (\<lambda>s. s\<lparr>free_slots := rest\<rparr>))
          (thenM (commit_store h gpu_block slot) (retM True))
       | [] \<Rightarrow>
           thenM (modM (\<lambda>s. s\<lparr>deferred_d2h := dict_set gpu_block h (deferred_d2h s),
                deferred_hashes := insert h (deferred_hashes s)\<rparr>))
                 (retM True))))))))))"

text \<open>One round of the loop of \<open>_resolve_deferred_stores\<close>, and the method.\<close>

definition resolve_one :: "int \<times> content_hash \<Rightarrow> unit ck" where
  "resolve_one p = bindM select_store_slot (\<lambda>r.
     case r of
       None \<Rightarrow> modM (\<lambda>s. s\<lparr>skipped_stores := skipped_stores s + 1\<rparr>)
     | Some slot \<Rightarrow> commit_store (snd p) (fst p) slot)"

definition resolve_deferred_stores :: "unit ck" where
  "resolve_deferred_stores =
     thenM (getM step_load_slots (\<lambda>loads. getM deferred_d2h (\<lambda>deferred.
       if loads \<noteq> {}
       then modM (\<lambda>s. s\<lparr>skipped_stores := skipped_stores s + length deferred\<rparr>)
       else forM deferred resolve_one)))
    (modM (\<lambda>s. s\<lparr>deferred_d2h := [], deferred_hashes := {}\<rparr>))"

definition drain_step :: "((int \<times> int) list \<times> (int \<times> int) list) ck" where
  "drain_step =
     thenM resolve_deferred_stores
    (getM step_h2d (\<lambda>h2d. getM step_d2h (\<lambda>d2h.
     getM step_slots_in_use (\<lambda>used. getM step_load_slots (\<lambda>loads.
     thenM (guardM (dict_keys h2d \<union> snd ` set d2h \<noteq> used) RuntimeError)
    (thenM (guardM (dict_keys h2d \<inter> snd ` set d2h \<noteq> {}) RuntimeError)
    (thenM (guardM (dict_keys h2d \<noteq> loads) RuntimeError)
    (thenM (modM (\<lambda>s. s\<lparr>pending_ready_slots := pending_ready_slots s \<union> snd ` set d2h,
         step_h2d := [], step_d2h := [], step_slots_in_use := {}, step_load_slots := {}\<rparr>))
           (retM (sort h2d, sort d2h))))))))))"

definition resident_slot :: "content_hash \<Rightarrow> int option ck" where
  "resident_slot h = thenM (validate_hash h) (getM hash_to_slot (\<lambda>d. retM (dict_get d h)))"

definition ck_is_ready :: "content_hash \<Rightarrow> bool ck" where
  "ck_is_ready h = thenM (validate_hash h) (getM (\<lambda>s. ck_ready_slot s h) (\<lambda>r. retM (r \<noteq> None)))"

definition resident_count :: "CpuKvContentCache \<Rightarrow> nat" where
  "resident_count s = length (hash_to_slot s)"

subsection \<open>The invariant\<close>

text \<open>
  \<open>ck_index_inv\<close>: the two maps are inverse to each other, and the slots of the cache are the
  resident ones, in the order of their last use, and the free ones.
  \<open>ck_step_inv\<close>: the slots in use are the claimed sources and the staged destinations, which
  are different slots; a source is ready and a destination is not.
  \<open>ck_defer_inv\<close>: stores are deferred only when no slot is free, and are of content that is
  not resident.
\<close>

definition ck_index_inv :: "CpuKvContentCache \<Rightarrow> bool" where
  "ck_index_inv s \<longleftrightarrow> dict_ok (hash_to_slot s) \<and> dict_ok (slot_to_hash s) \<and>
     (\<forall>h slot. dict_get (hash_to_slot s) h = Some slot \<longleftrightarrow> dict_get (slot_to_hash s) slot = Some h) \<and>
     sorted (free_slots s) \<and> distinct (free_slots s) \<and>
     dict_keys (slot_to_hash s) \<inter> set (free_slots s) = {} \<and>
     dict_keys (slot_to_hash s) \<union> set (free_slots s) = {0..<ck_capacity s} \<and>
     distinct (ck_lru s) \<and> set (ck_lru s) = dict_keys (slot_to_hash s)"

definition ck_step_inv :: "CpuKvContentCache \<Rightarrow> bool" where
  "ck_step_inv s \<longleftrightarrow> dict_ok (step_h2d s) \<and> dict_ok (step_d2h s) \<and>
     distinct (map snd (step_h2d s)) \<and> distinct (map snd (step_d2h s)) \<and>
     step_slots_in_use s = step_load_slots s \<union> snd ` set (step_d2h s) \<and>
     step_load_slots s \<inter> snd ` set (step_d2h s) = {} \<and>
     dict_keys (step_h2d s) \<subseteq> step_load_slots s \<and> step_load_slots s \<subseteq> ready_slots s \<and>
     ready_slots s \<inter> snd ` set (step_d2h s) = {} \<and> ready_slots s \<inter> pending_ready_slots s = {} \<and>
     ready_slots s \<union> pending_ready_slots s \<union> snd ` set (step_d2h s) \<subseteq> dict_keys (slot_to_hash s) \<and>
     (pending_ready_slots s = {} \<or> step_slots_in_use s = {})"

definition ck_defer_inv :: "CpuKvContentCache \<Rightarrow> bool" where
  "ck_defer_inv s \<longleftrightarrow> dict_ok (deferred_d2h s) \<and> distinct (map snd (deferred_d2h s)) \<and>
     deferred_hashes s = snd ` set (deferred_d2h s) \<and>
     (deferred_d2h s = [] \<or> free_slots s = []) \<and>
     (deferred_d2h s = [] \<or> pending_ready_slots s = {}) \<and>
     deferred_hashes s \<inter> dict_keys (hash_to_slot s) = {} \<and>
     dict_keys (deferred_d2h s) \<inter> dict_keys (step_d2h s) = {}"

definition ck_inv :: "CpuKvContentCache \<Rightarrow> bool" where
  "ck_inv s \<longleftrightarrow> ck_index_inv s \<and> ck_step_inv s \<and> ck_defer_inv s"

lemma ck_init_inv: "ck_init n = Inr s \<Longrightarrow> ck_inv s"
  by (auto simp: ck_init_def ck_inv_def ck_index_inv_def ck_step_inv_def ck_defer_inv_def
      split: if_splits)

text \<open>The state a commit leaves.\<close>

definition ck_committed :: "content_hash \<Rightarrow> int \<Rightarrow> int \<Rightarrow> CpuKvContentCache \<Rightarrow> CpuKvContentCache" where
  "ck_committed h g slot s =
     s\<lparr>hash_to_slot := dict_set h slot (case dict_get (slot_to_hash s) slot of
          None \<Rightarrow> hash_to_slot s | Some old \<Rightarrow> dict_del old (hash_to_slot s)),
       slot_to_hash := dict_set slot h (slot_to_hash s),
       ready_slots := ready_slots s - {slot},
       ck_lru := filter (\<lambda>x. x \<noteq> slot) (ck_lru s) @ [slot],
       step_slots_in_use := insert slot (step_slots_in_use s),
       step_d2h := dict_set g slot (step_d2h s),
       ck_stores := ck_stores s + 1,
       ck_evictions := ck_evictions s + (if dict_get (slot_to_hash s) slot = None then 0 else 1)\<rparr>"

lemma ck_committed_simps [simp]:
  "ck_capacity (ck_committed h g slot s) = ck_capacity s"
  "hash_to_slot (ck_committed h g slot s) = dict_set h slot (case dict_get (slot_to_hash s) slot of
     None \<Rightarrow> hash_to_slot s | Some old \<Rightarrow> dict_del old (hash_to_slot s))"
  "slot_to_hash (ck_committed h g slot s) = dict_set slot h (slot_to_hash s)"
  "ready_slots (ck_committed h g slot s) = ready_slots s - {slot}"
  "ck_lru (ck_committed h g slot s) = filter (\<lambda>x. x \<noteq> slot) (ck_lru s) @ [slot]"
  "free_slots (ck_committed h g slot s) = free_slots s"
  "step_slots_in_use (ck_committed h g slot s) = insert slot (step_slots_in_use s)"
  "step_load_slots (ck_committed h g slot s) = step_load_slots s"
  "step_h2d (ck_committed h g slot s) = step_h2d s"
  "step_d2h (ck_committed h g slot s) = dict_set g slot (step_d2h s)"
  "deferred_d2h (ck_committed h g slot s) = deferred_d2h s"
  "deferred_hashes (ck_committed h g slot s) = deferred_hashes s"
  "pending_ready_slots (ck_committed h g slot s) = pending_ready_slots s"
  by (simp_all add: ck_committed_def)

lemma ck_forget_old_run:
  assumes "slot \<notin> step_slots_in_use s"
    and "\<And>h. dict_get (slot_to_hash s) slot = Some h \<Longrightarrow> dict_get (hash_to_slot s) h = Some slot"
  shows "ck_forget_old slot s = (Inr (), case dict_get (slot_to_hash s) slot of
     None \<Rightarrow> s
   | Some old \<Rightarrow> s\<lparr>hash_to_slot := dict_del old (hash_to_slot s),
       ready_slots := ready_slots s - {slot}, ck_evictions := ck_evictions s + 1\<rparr>)"
  using assms by (cases "dict_get (slot_to_hash s) slot") (simp_all add: ck_forget_old_def run_simps)

lemma commit_store_run:
  assumes "slot \<notin> step_slots_in_use s" "slot \<notin> dict_keys (step_h2d s)"
    "slot \<notin> snd ` set (step_d2h s)"
    and "\<And>h. dict_get (slot_to_hash s) slot = Some h \<Longrightarrow> dict_get (hash_to_slot s) h = Some slot"
  shows "commit_store h g slot s = (Inr (), ck_committed h g slot s)"
proof (cases "dict_get (slot_to_hash s) slot")
  case None
  with assms ck_forget_old_run [OF assms(1,4)] show ?thesis
    by (simp add: commit_store_def run_simps ck_touch_def ck_committed_def)
next
  case (Some old)
  with assms ck_forget_old_run [OF assms(1,4)] show ?thesis
    by (simp add: commit_store_def run_simps ck_touch_def ck_committed_def)
qed

lemma dict_set_keys: "dict_keys (dict_set k v d) = insert k (dict_keys d)"
  by (simp add: dict_keys_dom)

lemma dict_del_keys: "dict_keys (dict_del k d) = dict_keys d - {k}"
  by (simp add: dict_keys_dom)

lemma ck_commit_index:
  assumes "ck_index_inv s" and "h \<notin> dict_keys (hash_to_slot s)"
    and "free_slots s = slot # rest \<or> free_slots s = rest \<and> slot \<in> dict_keys (slot_to_hash s)"
  shows "ck_index_inv (ck_committed h g slot (s\<lparr>free_slots := rest\<rparr>))"
proof -
  have slot: "slot \<in> {0..<ck_capacity s}" using assms(1,3) unfolding ck_index_inv_def by auto
  have hn: "dict_get (hash_to_slot s) h = None" using assms(2) by (simp add: dict_keys_iff)
  have bij: "dict_get (hash_to_slot s) h' = Some sl \<longleftrightarrow> dict_get (slot_to_hash s) sl = Some h'" for h' sl
    using assms(1) by (simp add: ck_index_inv_def)
  let ?t = "ck_committed h g slot (s\<lparr>free_slots := rest\<rparr>)"
  have 1: "dict_ok (hash_to_slot ?t) \<and> dict_ok (slot_to_hash ?t)"
    using assms(1) by (auto simp: ck_index_inv_def split: option.split)
  have 2: "dict_get (hash_to_slot ?t) h' = Some sl \<longleftrightarrow> dict_get (slot_to_hash ?t) sl = Some h'" for h' sl
    using bij [of h' sl] bij [of h slot] bij [of h' slot] bij [of h sl] hn
    by (auto split: option.split if_splits)
  let ?R = "dict_keys (slot_to_hash s)"
  from assms(1) have R: "?R \<inter> set (free_slots s) = {}" "?R \<union> set (free_slots s) = {0..<ck_capacity s}"
    and f: "sorted (free_slots s)" "distinct (free_slots s)"
    and l: "distinct (ck_lru s)" "set (ck_lru s) = ?R"
    unfolding ck_index_inv_def by blast+
  have 3: "sorted rest" "distinct rest" "insert slot ?R \<inter> set rest = {}"
      "insert slot ?R \<union> set rest = {0..<ck_capacity s}"
    using assms(3) f R by auto
  have 4: "distinct (filter (\<lambda>x. x \<noteq> slot) (ck_lru s) @ [slot])"
      "set (filter (\<lambda>x. x \<noteq> slot) (ck_lru s) @ [slot]) = insert slot ?R"
    using l by auto
  have 5: "free_slots ?t = rest" "ck_capacity ?t = ck_capacity s"
      "ck_lru ?t = filter (\<lambda>x. x \<noteq> slot) (ck_lru s) @ [slot]"
      "dict_keys (slot_to_hash ?t) = insert slot ?R"
    by (simp_all add: dict_set_keys)
  show ?thesis unfolding ck_index_inv_def 5 using 1 2 3 4 by blast
qed

lemma ck_commit_step:
  assumes "ck_step_inv s" and "slot \<notin> step_slots_in_use s" and "pending_ready_slots s = {}"
    and "g \<notin> dict_keys (step_d2h s)"
  shows "ck_step_inv (ck_committed h g slot (s\<lparr>free_slots := rest\<rparr>))"
proof -
  let ?t = "ck_committed h g slot (s\<lparr>free_slots := rest\<rparr>)" and ?D = "snd ` set (step_d2h s)"
  have "dict_get (step_d2h s) g = None" using assms(4) by (simp add: dict_keys_iff)
  then have d: "step_d2h ?t = step_d2h s @ [(g, slot)]" by (simp add: dict_set_new)
  have ok: "dict_ok (step_d2h ?t)" using assms(1) by (simp add: ck_step_inv_def)
  have o: "step_h2d ?t = step_h2d s" "step_load_slots ?t = step_load_slots s"
    "step_slots_in_use ?t = insert slot (step_slots_in_use s)"
    "ready_slots ?t = ready_slots s - {slot}" "pending_ready_slots ?t = {}"
    "dict_keys (slot_to_hash ?t) = insert slot (dict_keys (slot_to_hash s))"
    "snd ` set (step_d2h ?t) = insert slot ?D"
    using d assms(3) by (simp_all add: dict_set_keys)
  have u: "step_slots_in_use s = step_load_slots s \<union> ?D" using assms(1) by (simp add: ck_step_inv_def)
  have dd: "distinct (map snd (step_d2h ?t))"
    unfolding d using assms(1,2) u by (auto simp: ck_step_inv_def)
  from assms(1) have i: "dict_ok (step_h2d s)" "distinct (map snd (step_h2d s))"
    "step_load_slots s \<inter> ?D = {}" "dict_keys (step_h2d s) \<subseteq> step_load_slots s"
    "step_load_slots s \<subseteq> ready_slots s" "ready_slots s \<inter> ?D = {}"
    "ready_slots s \<union> pending_ready_slots s \<union> ?D \<subseteq> dict_keys (slot_to_hash s)"
    unfolding ck_step_inv_def by simp_all
  have n: "slot \<notin> step_load_slots s" "slot \<notin> ?D" using assms(2) u by auto
  show ?thesis unfolding ck_step_inv_def o
  proof (intro conjI)
    show "insert slot (step_slots_in_use s) = step_load_slots s \<union> insert slot ?D" using u by blast
    show "step_load_slots s \<inter> insert slot ?D = {}" using i(3) n by blast
    show "step_load_slots s \<subseteq> ready_slots s - {slot}" using i(5) n by blast
    show "(ready_slots s - {slot}) \<inter> insert slot ?D = {}" using i(6) by blast
    show "ready_slots s - {slot} \<union> {} \<union> insert slot ?D \<subseteq> insert slot (dict_keys (slot_to_hash s))"
      using i(7) by blast
  qed (use i ok dd in simp_all)
qed

text \<open>
  The contents of the memories. \<open>cpu slot\<close> and \<open>gpu block\<close> name the content that is held; a
  ready or pending slot holds what the index says, and so does the GPU block of a staged store.
\<close>

definition ck_stored :: "(int \<rightharpoonup> content_hash) \<Rightarrow> (int \<rightharpoonup> content_hash) \<Rightarrow> CpuKvContentCache \<Rightarrow> bool" where
  "ck_stored cpu gpu s \<longleftrightarrow>
     (\<forall>slot \<in> ready_slots s \<union> pending_ready_slots s. cpu slot = dict_get (slot_to_hash s) slot) \<and>
     (\<forall>p \<in> set (step_d2h s). gpu (fst p) = dict_get (slot_to_hash s) (snd p))"

lemma ck_commit_stored:
  assumes "ck_stored cpu gpu s" "ck_step_inv s" and "slot \<notin> step_slots_in_use s"
    and "pending_ready_slots s = {}" and "g \<notin> dict_keys (step_d2h s)" and "gpu g = Some h"
  shows "ck_stored cpu gpu (ck_committed h g slot (s\<lparr>free_slots := rest\<rparr>))"
proof -
  have "dict_get (step_d2h s) g = None" using assms(5) by (simp add: dict_keys_iff)
  then have d: "dict_set g slot (step_d2h s) = step_d2h s @ [(g, slot)]" by (simp add: dict_set_new)
  have "slot \<notin> snd ` set (step_d2h s)" using assms(2,3) by (auto simp: ck_step_inv_def)
  then show ?thesis using assms unfolding ck_stored_def by (auto simp: d rev_image_eqI)
qed

text \<open>The loop over the deferred stores: what holds before each round.\<close>

definition ck_loop :: "(int \<rightharpoonup> content_hash) \<Rightarrow> (int \<rightharpoonup> content_hash) \<Rightarrow> (int, content_hash) dict
    \<Rightarrow> CpuKvContentCache \<Rightarrow> bool" where
  "ck_loop cpu gpu ds s \<longleftrightarrow> ck_index_inv s \<and> ck_step_inv s \<and> ck_stored cpu gpu s \<and>
     step_load_slots s = {} \<and> pending_ready_slots s = {} \<and>
     dict_ok ds \<and> distinct (map snd ds) \<and> snd ` set ds \<inter> dict_keys (hash_to_slot s) = {} \<and>
     dict_keys ds \<inter> dict_keys (step_d2h s) = {} \<and> (\<forall>p \<in> set ds. gpu (fst p) = Some (snd p))"

lemma ck_index_get:
  "ck_index_inv s \<Longrightarrow> dict_get (slot_to_hash s) slot = Some h \<Longrightarrow> dict_get (hash_to_slot s) h = Some slot"
  unfolding ck_index_inv_def by blast

lemma ck_step_used:
  assumes "ck_step_inv s"
  shows "step_slots_in_use s = step_load_slots s \<union> snd ` set (step_d2h s)"
    and "dict_keys (step_h2d s) \<subseteq> step_load_slots s"
    and "step_slots_in_use s \<subseteq> dict_keys (slot_to_hash s)"
proof -
  let ?D = "snd ` set (step_d2h s)"
  from assms have i: "step_slots_in_use s = step_load_slots s \<union> ?D"
    "dict_keys (step_h2d s) \<subseteq> step_load_slots s" "step_load_slots s \<subseteq> ready_slots s"
    "ready_slots s \<union> pending_ready_slots s \<union> ?D \<subseteq> dict_keys (slot_to_hash s)"
    unfolding ck_step_inv_def by simp_all
  show "step_slots_in_use s = step_load_slots s \<union> ?D" by (rule i(1))
  show "dict_keys (step_h2d s) \<subseteq> step_load_slots s" by (rule i(2))
  show "step_slots_in_use s \<subseteq> dict_keys (slot_to_hash s)"
    unfolding i(1) using i(3,4) by blast
qed

text \<open>The counters are not part of the invariant.\<close>

lemma ck_inv_counters [simp]:
  "ck_index_inv (s\<lparr>skipped_stores := n\<rparr>) = ck_index_inv s"
  "ck_step_inv (s\<lparr>skipped_stores := n\<rparr>) = ck_step_inv s"
  "ck_defer_inv (s\<lparr>skipped_stores := n\<rparr>) = ck_defer_inv s"
  "ck_stored cpu gpu (s\<lparr>skipped_stores := n\<rparr>) = ck_stored cpu gpu s"
  "ck_index_inv (s\<lparr>deduplicated_stores := n\<rparr>) = ck_index_inv s"
  "ck_step_inv (s\<lparr>deduplicated_stores := n\<rparr>) = ck_step_inv s"
  "ck_defer_inv (s\<lparr>deduplicated_stores := n\<rparr>) = ck_defer_inv s"
  "ck_stored cpu gpu (s\<lparr>deduplicated_stores := n\<rparr>) = ck_stored cpu gpu s"
  "ck_index_inv (s\<lparr>ck_misses := n\<rparr>) = ck_index_inv s"
  "ck_step_inv (s\<lparr>ck_misses := n\<rparr>) = ck_step_inv s"
  "ck_defer_inv (s\<lparr>ck_misses := n\<rparr>) = ck_defer_inv s"
  "ck_stored cpu gpu (s\<lparr>ck_misses := n\<rparr>) = ck_stored cpu gpu s"
  by (simp_all add: ck_index_inv_def ck_step_inv_def ck_defer_inv_def ck_stored_def)

lemma commit_store_inv_run:
  assumes "ck_index_inv s" "ck_step_inv s" "slot \<notin> step_slots_in_use s"
  shows "commit_store h g slot (s\<lparr>free_slots := rest\<rparr>)
     = (Inr (), ck_committed h g slot (s\<lparr>free_slots := rest\<rparr>))"
proof (rule commit_store_run)
  show "slot \<notin> dict_keys (step_h2d (s\<lparr>free_slots := rest\<rparr>))"
    and "slot \<notin> snd ` set (step_d2h (s\<lparr>free_slots := rest\<rparr>))"
    using assms(3) ck_step_used(1,2) [OF assms(2)] by auto
qed (use assms(3) ck_index_get [OF assms(1)] in simp_all)

lemma ck_free_unused:
  assumes "ck_index_inv s" "ck_step_inv s" "slot \<in> set (free_slots s)"
  shows "slot \<notin> step_slots_in_use s"
  using assms(1,3) ck_step_used(3) [OF assms(2)] unfolding ck_index_inv_def by blast

text \<open>A slot that is selected is not in use, and was free or is resident.\<close>

lemma select_store_slot_run:
  assumes "ck_index_inv s" "ck_step_inv s"
  obtains "select_store_slot s = (Inr None, s)"
      "dict_keys (slot_to_hash s) \<subseteq> step_slots_in_use s" "free_slots s = []"
  | slot rest where "select_store_slot s = (Inr (Some slot), s\<lparr>free_slots := rest\<rparr>)"
      "slot \<notin> step_slots_in_use s"
      "free_slots s = slot # rest \<or> free_slots s = rest \<and> slot \<in> dict_keys (slot_to_hash s)"
proof (cases "free_slots s")
  case (Cons slot rest)
  then show ?thesis using that(2) [of slot rest] ck_free_unused [OF assms]
    by (simp add: select_store_slot_def run_simps)
next
  case Nil
  have l: "set (ck_lru s) = dict_keys (slot_to_hash s)" using assms(1) by (simp add: ck_index_inv_def)
  show ?thesis
  proof (cases "List.find (\<lambda>slot. slot \<notin> step_slots_in_use s) (ck_lru s)")
    case None
    then show ?thesis using that(1) Nil l
      by (auto simp: select_store_slot_def run_simps find_None_iff)
  next
    case (Some slot)
    then have "slot \<notin> step_slots_in_use s" "slot \<in> set (ck_lru s)"
      by (auto simp: find_Some_iff)
    then show ?thesis using that(2) [of slot "[]"] Nil Some l
      by (simp add: select_store_slot_def run_simps)
  qed
qed

lemma resolve_one_loop:
  assumes "ck_loop cpu gpu (p # ds) s"
  obtains t where "resolve_one p s = (Inr (), t)" "ck_loop cpu gpu ds t"
proof -
  obtain g h where p: "p = (g, h)" by (cases p)
  have b: "\<forall>q \<in> set (p # ds). gpu (fst q) = Some (snd q)"
    using assms unfolding ck_loop_def by blast
  from assms have i: "ck_index_inv s" "ck_step_inv s" "ck_stored cpu gpu s"
    and e: "step_load_slots s = {}" "pending_ready_slots s = {}"
    and ds': "dict_ok (p # ds)" "distinct (map snd (p # ds))"
    and d': "snd ` set (p # ds) \<inter> dict_keys (hash_to_slot s) = {}"
      "dict_keys (p # ds) \<inter> dict_keys (step_d2h s) = {}"
    by (simp_all only: ck_loop_def)
  have sets: "snd ` set (p # ds) = insert h (snd ` set ds)" "dict_keys (p # ds) = insert g (dict_keys ds)"
    by (simp_all add: p)
  have ds: "dict_ok ds" "distinct (map snd ds)" "h \<notin> snd ` set ds" "g \<notin> dict_keys ds"
    using ds' by (simp_all add: dict_ok_def p)
  have b': "\<forall>q \<in> set ds. gpu (fst q) = Some (snd q)" "gpu g = Some h"
    using b by (simp_all add: p)
  have d: "snd ` set ds \<inter> dict_keys (hash_to_slot s) = {}" "h \<notin> dict_keys (hash_to_slot s)"
      "dict_keys ds \<inter> dict_keys (step_d2h s) = {}" "g \<notin> dict_keys (step_d2h s)"
    using d' unfolding sets by blast+
  show ?thesis
  proof (cases rule: select_store_slot_run [OF i(1,2)])
    case 1
    have "ck_loop cpu gpu ds (s\<lparr>skipped_stores := skipped_stores s + 1\<rparr>)"
      using i e ds(1,2) b'(1) d(1,3) by (simp add: ck_loop_def)
    moreover have "resolve_one p s = (Inr (), s\<lparr>skipped_stores := skipped_stores s + 1\<rparr>)"
      using 1(1) by (simp add: resolve_one_def run_simps)
    ultimately show ?thesis using that by blast
  next
    case (2 slot rest)
    let ?t = "ck_committed h g slot (s\<lparr>free_slots := rest\<rparr>)"
    have run: "resolve_one p s = (Inr (), ?t)"
      using 2(1) commit_store_inv_run [OF i(1,2) 2(2)] by (simp add: resolve_one_def run_simps p)
    have k: "dict_keys (step_d2h ?t) = insert g (dict_keys (step_d2h s))"
      "dict_keys (hash_to_slot ?t) \<subseteq> insert h (dict_keys (hash_to_slot s))"
      by (simp_all add: dict_set_keys dict_del_keys Diff_subset subset_insertI2 split: option.split)
    have "ck_loop cpu gpu ds ?t"
      unfolding ck_loop_def
    proof (intro conjI)
      show "ck_index_inv ?t" by (rule ck_commit_index [OF i(1) d(2) 2(3)])
      show "ck_step_inv ?t" by (rule ck_commit_step [OF i(2) 2(2) e(2) d(4)])
      show "ck_stored cpu gpu ?t" by (rule ck_commit_stored [OF i(3,2) 2(2) e(2) d(4) b'(2)])
      show "snd ` set ds \<inter> dict_keys (hash_to_slot ?t) = {}" using k(2) d(1) ds(3) by blast
      show "dict_keys ds \<inter> dict_keys (step_d2h ?t) = {}" unfolding k(1) using d(3) ds(4) by blast
    qed (use e ds b' in simp_all)
    then show ?thesis using that run by blast
  qed
qed

lemma resolve_loop:
  "ck_loop cpu gpu ds s \<Longrightarrow> \<exists>t. forM ds resolve_one s = (Inr (), t) \<and> ck_loop cpu gpu [] t"
proof (induction ds arbitrary: s)
  case Nil
  then show ?case by (simp add: run_simps)
next
  case (Cons p ds)
  from resolve_one_loop [OF Cons.prems] obtain u where
    "resolve_one p s = (Inr (), u)" "ck_loop cpu gpu ds u" .
  then show ?case using Cons.IH [of u] by (auto simp: run_simps)
qed

text \<open>The invariant together with what the memories hold.\<close>

definition ck_holds :: "(int \<rightharpoonup> content_hash) \<Rightarrow> (int \<rightharpoonup> content_hash) \<Rightarrow> CpuKvContentCache \<Rightarrow> bool" where
  "ck_holds cpu gpu s \<longleftrightarrow> ck_index_inv s \<and> ck_step_inv s \<and> ck_defer_inv s \<and> ck_stored cpu gpu s \<and>
     (\<forall>p \<in> set (deferred_d2h s). gpu (fst p) = Some (snd p))"

lemma ck_holdsD:
  assumes "ck_holds cpu gpu s"
  shows "ck_index_inv s" and "ck_step_inv s" and "ck_defer_inv s" and "ck_stored cpu gpu s"
    and "\<forall>p \<in> set (deferred_d2h s). gpu (fst p) = Some (snd p)"
  using assms unfolding ck_holds_def by blast+


lemma ck_touch_index:
  assumes "ck_index_inv s" and "slot \<in> dict_keys (slot_to_hash s)"
  shows "ck_index_inv (s\<lparr>ck_lru := filter (\<lambda>x. x \<noteq> slot) (ck_lru s) @ [slot]\<rparr>)"
proof -
  have l: "distinct (ck_lru s)" "set (ck_lru s) = dict_keys (slot_to_hash s)"
    using assms(1) unfolding ck_index_inv_def by blast+
  have 1: "distinct (filter (\<lambda>x. x \<noteq> slot) (ck_lru s) @ [slot])" using l by simp
  have 2: "set (filter (\<lambda>x. x \<noteq> slot) (ck_lru s) @ [slot]) = dict_keys (slot_to_hash s)"
    using l(2) assms(2) by auto
  from assms(1) show ?thesis unfolding ck_index_inv_def using 1 2 by (simp del: distinct_append set_append)
qed

lemma ck_lru_other [simp]:
  "ck_step_inv (s\<lparr>ck_lru := l\<rparr>) = ck_step_inv s"
  "ck_defer_inv (s\<lparr>ck_lru := l\<rparr>) = ck_defer_inv s"
  "ck_stored cpu gpu (s\<lparr>ck_lru := l\<rparr>) = ck_stored cpu gpu s"
  by (simp_all add: ck_step_inv_def ck_defer_inv_def ck_stored_def)

lemma begin_step_holds:
  assumes "ck_holds cpu gpu s" and "begin_step s = (r, t)"
  shows "ck_holds cpu gpu t"
proof (cases r)
  case (Inl e)
  with assms show ?thesis by (simp add: begin_step_def run_simps split: if_splits)
next
  case (Inr u)
  with assms(2) have e: "step_slots_in_use s = {}" "step_h2d s = []" "step_d2h s = []"
    "deferred_d2h s = []" "deferred_hashes s = {}"
    and t: "t = s\<lparr>ready_slots := ready_slots s \<union> pending_ready_slots s, pending_ready_slots := {}\<rparr>"
    by (auto simp: begin_step_def run_simps split: if_splits)
  have l: "step_load_slots s = {}" using ck_step_used(1) [OF ck_holdsD(2) [OF assms(1)]] e(1) by simp
  have i: "ck_index_inv t" using ck_holdsD(1) [OF assms(1)] by (simp add: t ck_index_inv_def)
  have sub: "ready_slots s \<union> pending_ready_slots s \<subseteq> dict_keys (slot_to_hash s)"
    using ck_holdsD(2) [OF assms(1)] unfolding ck_step_inv_def by blast
  have s: "ck_step_inv t" using sub by (simp add: t ck_step_inv_def e l)
  have d: "ck_defer_inv t" by (simp add: t ck_defer_inv_def e)
  have c: "ck_stored cpu gpu t" using ck_holdsD(4) [OF assms(1)] by (simp add: t ck_stored_def e)
  show ?thesis using i s d c by (simp add: ck_holds_def t e)
qed

lemma ck_ready_slotD:
  "ck_ready_slot s h = Some slot \<Longrightarrow> dict_get (hash_to_slot s) h = Some slot \<and> slot \<in> ready_slots s"
  by (auto simp: ck_ready_slot_def split: option.splits if_splits)

definition ck_claimed :: "int \<Rightarrow> CpuKvContentCache \<Rightarrow> CpuKvContentCache" where
  "ck_claimed slot s = s\<lparr>step_slots_in_use := insert slot (step_slots_in_use s),
     step_load_slots := insert slot (step_load_slots s),
     ck_lru := filter (\<lambda>x. x \<noteq> slot) (ck_lru s) @ [slot], ck_hits := ck_hits s + 1\<rparr>"

lemma claim_load_run:
  "claim_load h s =
     (if \<not> ck_hash_valid h then (Inl ValueError, s)
      else if pending_ready_slots s \<noteq> {} then (Inl RuntimeError, s)
      else case ck_ready_slot s h of
        None \<Rightarrow> (Inr None, s\<lparr>ck_misses := ck_misses s + 1\<rparr>)
      | Some slot \<Rightarrow> if slot \<in> step_slots_in_use s then (Inl RuntimeError, s)
          else (Inr (Some slot), ck_claimed slot s))"
  by (simp add: claim_load_def validate_hash_def require_step_started_def ck_touch_def
      ck_claimed_def run_simps split: option.split)

lemma ck_claimed_holds:
  assumes "ck_holds cpu gpu s" and "slot \<in> ready_slots s" and "pending_ready_slots s = {}"
  shows "ck_holds cpu gpu (ck_claimed slot s)"
proof -
  note s = ck_holdsD [OF assms(1)]
  let ?D = "snd ` set (step_d2h s)"
  from s(2) have i: "dict_ok (step_h2d s)" "dict_ok (step_d2h s)" "distinct (map snd (step_h2d s))"
    "distinct (map snd (step_d2h s))" "step_slots_in_use s = step_load_slots s \<union> ?D"
    "step_load_slots s \<inter> ?D = {}" "dict_keys (step_h2d s) \<subseteq> step_load_slots s"
    "step_load_slots s \<subseteq> ready_slots s" "ready_slots s \<inter> ?D = {}"
    "ready_slots s \<inter> pending_ready_slots s = {}"
    "ready_slots s \<union> pending_ready_slots s \<union> ?D \<subseteq> dict_keys (slot_to_hash s)"
    unfolding ck_step_inv_def by simp_all
  have k: "slot \<in> dict_keys (slot_to_hash s)" using i(11) assms(2) by blast
  have "ck_index_inv (ck_claimed slot s)"
    using ck_touch_index [OF s(1) k] by (simp add: ck_claimed_def ck_index_inv_def)
  moreover have "ck_step_inv (ck_claimed slot s)"
  proof -
    have "insert slot (step_slots_in_use s) = insert slot (step_load_slots s) \<union> ?D" using i(5) by blast
    moreover have "insert slot (step_load_slots s) \<inter> ?D = {}" using i(6,9) assms(2) by blast
    moreover have "dict_keys (step_h2d s) \<subseteq> insert slot (step_load_slots s)" using i(7) by blast
    moreover have "insert slot (step_load_slots s) \<subseteq> ready_slots s" using i(8) assms(2) by blast
    ultimately show ?thesis using i(1-4,9-11) assms(3)
      unfolding ck_step_inv_def by (simp add: ck_claimed_def)
  qed
  moreover have "ck_defer_inv (ck_claimed slot s) = ck_defer_inv s"
    and "ck_stored cpu gpu (ck_claimed slot s) = ck_stored cpu gpu s"
    by (simp_all add: ck_claimed_def ck_stored_def ck_defer_inv_def)
  ultimately show ?thesis using s(3-5) by (simp add: ck_holds_def) (simp add: ck_claimed_def)
qed

lemma claim_load_holds:
  assumes "ck_holds cpu gpu s" and "claim_load h s = (r, t)"
  shows "ck_holds cpu gpu t"
proof (cases "pending_ready_slots s = {}")
  case True
  show ?thesis
  proof (cases "ck_ready_slot s h")
    case None
    have "ck_holds cpu gpu (s\<lparr>ck_misses := ck_misses s + 1\<rparr>)"
      using assms(1) by (simp add: ck_holds_def)
    with None assms show ?thesis by (auto simp: claim_load_run split: if_splits)
  next
    case (Some slot)
    show ?thesis using assms ck_claimed_holds [OF assms(1) _ True, of slot] ck_ready_slotD [OF Some]
      by (simp add: claim_load_run Some split: if_splits)
  qed
next
  case False
  with assms show ?thesis by (simp add: claim_load_run split: if_splits)
qed

lemma ck_step_invD:
  assumes "ck_step_inv s"
  shows "dict_ok (step_h2d s)" and "dict_ok (step_d2h s)" and "distinct (map snd (step_h2d s))"
    and "distinct (map snd (step_d2h s))"
    and "step_slots_in_use s = step_load_slots s \<union> snd ` set (step_d2h s)"
    and "step_load_slots s \<inter> snd ` set (step_d2h s) = {}"
    and "dict_keys (step_h2d s) \<subseteq> step_load_slots s"
    and "step_load_slots s \<subseteq> ready_slots s" and "ready_slots s \<inter> snd ` set (step_d2h s) = {}"
    and "ready_slots s \<inter> pending_ready_slots s = {}"
    and "ready_slots s \<union> pending_ready_slots s \<union> snd ` set (step_d2h s) \<subseteq> dict_keys (slot_to_hash s)"
    and "pending_ready_slots s = {} \<or> step_slots_in_use s = {}"
  using assms unfolding ck_step_inv_def by argo+

lemma validate_block_id_ok [ok_simps]:
  "validate_block_id a s = (Inr i, t) \<longleftrightarrow> a = ArgInt i \<and> 0 \<le> i \<and> t = s"
  by (cases a) (auto simp: raiseM_def retM_def)

lemma validate_block_id_state: "validate_block_id a s = (r, t) \<Longrightarrow> t = s"
  by (cases a) (auto simp: raiseM_def retM_def split: if_splits)

lemma cancel_load_run:
  assumes "ck_hash_valid h" "0 \<le> slot"
  shows "cancel_load h (ArgInt slot) s =
     (if dict_get (hash_to_slot s) h \<noteq> Some slot \<or> slot \<in> dict_keys (step_h2d s)
         \<or> slot \<notin> step_slots_in_use s then (Inl RuntimeError, s)
      else if slot \<notin> step_load_slots s
        then (Inl KeyError, s\<lparr>step_slots_in_use := step_slots_in_use s - {slot}\<rparr>)
      else (Inr (), s\<lparr>step_slots_in_use := step_slots_in_use s - {slot},
              step_load_slots := step_load_slots s - {slot}\<rparr>))"
  using assms by (simp add: cancel_load_def validate_hash_def run_simps retM_def)

text \<open>Outside the checks on the arguments' types, a call does nothing but raise.\<close>

lemma cancel_load_args:
  assumes "cancel_load h a s = (r, t)"
  shows "t = s \<or> (\<exists>slot. a = ArgInt slot \<and> 0 \<le> slot \<and> ck_hash_valid h)"
proof (cases a)
  case (ArgInt i)
  then show ?thesis using assms
    by (auto simp: cancel_load_def validate_hash_def run_simps raiseM_def split: if_splits)
qed (use assms in \<open>auto simp: cancel_load_def validate_hash_def run_simps split: if_splits\<close>)

lemma ck_cancelled_step:
  assumes "ck_step_inv s" and "slot \<in> step_load_slots s" and "slot \<notin> dict_keys (step_h2d s)"
  shows "ck_step_inv (s\<lparr>step_slots_in_use := step_slots_in_use s - {slot},
     step_load_slots := step_load_slots s - {slot}\<rparr>)"
proof -
  let ?D = "snd ` set (step_d2h s)"
  note i = ck_step_invD [OF assms(1)]
  have 1: "step_slots_in_use s - {slot} = (step_load_slots s - {slot}) \<union> ?D" using i(5,6) assms(2) by blast
  have 2: "(step_load_slots s - {slot}) \<inter> ?D = {}" using i(6) by blast
  have 3: "dict_keys (step_h2d s) \<subseteq> step_load_slots s - {slot}" using i(7) assms(3) by blast
  have 4: "step_load_slots s - {slot} \<subseteq> ready_slots s" using i(8) by blast
  have 5: "pending_ready_slots s = {} \<or> step_slots_in_use s - {slot} = {}" using i(12) by blast
  show ?thesis using 1 2 3 4 5 i(1-4,9-11) unfolding ck_step_inv_def by simp
qed

lemma cancel_load_holds:
  assumes "ck_holds cpu gpu s" and "cancel_load h a s = (r, t)" and "r \<noteq> Inl KeyError"
  shows "ck_holds cpu gpu t"
proof (cases "t = s")
  case False
  then obtain slot where a: "a = ArgInt slot" "0 \<le> slot" "ck_hash_valid h"
    using cancel_load_args [OF assms(2)] by blast
  with assms(2,3) False have c: "slot \<in> step_load_slots s" "slot \<notin> dict_keys (step_h2d s)"
    and t: "t = s\<lparr>step_slots_in_use := step_slots_in_use s - {slot},
              step_load_slots := step_load_slots s - {slot}\<rparr>"
    by (auto simp: cancel_load_run split: if_splits)
  note s = ck_holdsD [OF assms(1)]
  have "ck_index_inv t = ck_index_inv s" "ck_defer_inv t = ck_defer_inv s"
    "ck_stored cpu gpu t = ck_stored cpu gpu s" "deferred_d2h t = deferred_d2h s"
    by (simp_all add: t ck_index_inv_def ck_defer_inv_def ck_stored_def)
  then show ?thesis using s ck_cancelled_step [OF s(2) c] by (simp add: ck_holds_def t)
qed (use assms in simp)

lemma stage_load_run:
  assumes "ck_hash_valid h" "0 \<le> slot" "0 \<le> g"
  shows "stage_load h (ArgInt slot) (ArgInt g) s =
     (if dict_get (hash_to_slot s) h \<noteq> Some slot \<or> slot \<notin> ready_slots s
         \<or> slot \<notin> step_slots_in_use s \<or> slot \<in> dict_keys (step_h2d s)
         \<or> g \<in> snd ` set (step_h2d s) \<or> slot \<in> snd ` set (step_d2h s)
      then (Inl RuntimeError, s)
      else (Inr (), s\<lparr>step_h2d := dict_set slot g (step_h2d s)\<rparr>))"
  using assms by (simp add: stage_load_def validate_hash_def run_simps retM_def)

lemma stage_load_args:
  assumes "stage_load h a b s = (r, t)"
  shows "t = s \<or> (\<exists>slot g. a = ArgInt slot \<and> b = ArgInt g \<and> 0 \<le> slot \<and> 0 \<le> g \<and> ck_hash_valid h)"
proof (cases "ck_hash_valid h \<and> (\<exists>slot. a = ArgInt slot \<and> 0 \<le> slot)")
  case True
  then show ?thesis using assms
    by (cases b) (auto simp: stage_load_def validate_hash_def run_simps raiseM_def retM_def split: if_splits)
next
  case False
  then show ?thesis using assms
    by (cases a) (auto simp: stage_load_def validate_hash_def run_simps raiseM_def split: if_splits)
qed

lemma stage_load_holds:
  assumes "ck_holds cpu gpu s" and "stage_load h a b s = (r, t)"
  shows "ck_holds cpu gpu t"
proof (cases "t = s")
  case False
  then obtain slot g where a: "a = ArgInt slot" "b = ArgInt g" "0 \<le> slot" "0 \<le> g" "ck_hash_valid h"
    using stage_load_args [OF assms(2)] by blast
  with assms(2) False have c: "slot \<in> ready_slots s" "slot \<in> step_slots_in_use s"
      "slot \<notin> dict_keys (step_h2d s)" "g \<notin> snd ` set (step_h2d s)" "slot \<notin> snd ` set (step_d2h s)"
    and t: "t = s\<lparr>step_h2d := dict_set slot g (step_h2d s)\<rparr>"
    by (auto simp: stage_load_run split: if_splits)
  note s = ck_holdsD [OF assms(1)]
  have n: "dict_get (step_h2d s) slot = None" using c(3) by (simp add: dict_keys_iff)
  have o: "ck_index_inv t = ck_index_inv s" "ck_defer_inv t = ck_defer_inv s"
    "ck_stored cpu gpu t = ck_stored cpu gpu s" "deferred_d2h t = deferred_d2h s"
    by (simp_all add: t ck_index_inv_def ck_defer_inv_def ck_stored_def)
  have l: "slot \<in> step_load_slots s" using c(2,5) ck_step_used(1) [OF s(2)] by blast
  have k: "dict_keys (step_h2d t) = insert slot (dict_keys (step_h2d s))"
    by (simp add: t dict_set_keys)
  have d: "distinct (map snd (step_h2d t))" "dict_ok (step_h2d t)"
    using c(4) s(2) n by (simp_all add: t dict_set_new ck_step_inv_def dict_ok_def)
      (metis n dict_keys_iff image_eqI fst_conv)+
  have e: "step_d2h t = step_d2h s" "step_slots_in_use t = step_slots_in_use s"
    "step_load_slots t = step_load_slots s" "ready_slots t = ready_slots s"
    "pending_ready_slots t = pending_ready_slots s" "slot_to_hash t = slot_to_hash s"
    by (simp_all add: t)
  have sub: "insert slot (dict_keys (step_h2d s)) \<subseteq> step_load_slots s"
    using l ck_step_used(2) [OF s(2)] by blast
  have "ck_step_inv t"
    unfolding ck_step_inv_def e k using d sub ck_step_invD [OF s(2)] by blast
  then show ?thesis using s o by (simp add: ck_holds_def)
qed (use assms in simp)

lemma ck_defer_invD:
  assumes "ck_defer_inv s"
  shows "dict_ok (deferred_d2h s)" and "distinct (map snd (deferred_d2h s))"
    and "deferred_hashes s = snd ` set (deferred_d2h s)"
    and "deferred_d2h s = [] \<or> free_slots s = []"
    and "deferred_d2h s = [] \<or> pending_ready_slots s = {}"
    and "deferred_hashes s \<inter> dict_keys (hash_to_slot s) = {}"
    and "dict_keys (deferred_d2h s) \<inter> dict_keys (step_d2h s) = {}"
  using assms unfolding ck_defer_inv_def by argo+

text \<open>A store of content that is resident or already deferred is counted, and drops nothing.\<close>

definition ck_dedup :: "content_hash \<Rightarrow> CpuKvContentCache \<Rightarrow> CpuKvContentCache" where
  "ck_dedup h s = (case dict_get (hash_to_slot s) h of
       None \<Rightarrow> s | Some slot \<Rightarrow> s\<lparr>ck_lru := filter (\<lambda>x. x \<noteq> slot) (ck_lru s) @ [slot]\<rparr>)
     \<lparr>deduplicated_stores := deduplicated_stores s + 1\<rparr>"

definition ck_deferred :: "content_hash \<Rightarrow> int \<Rightarrow> CpuKvContentCache \<Rightarrow> CpuKvContentCache" where
  "ck_deferred h g s = s\<lparr>deferred_d2h := dict_set g h (deferred_d2h s),
     deferred_hashes := insert h (deferred_hashes s)\<rparr>"

lemma ck_deferred_simps [simp]:
  "hash_to_slot (ck_deferred h g s) = hash_to_slot s"
  "free_slots (ck_deferred h g s) = free_slots s"
  "pending_ready_slots (ck_deferred h g s) = pending_ready_slots s"
  "step_d2h (ck_deferred h g s) = step_d2h s"
  "deferred_d2h (ck_deferred h g s) = dict_set g h (deferred_d2h s)"
  "deferred_hashes (ck_deferred h g s) = insert h (deferred_hashes s)"
  "ck_index_inv (ck_deferred h g s) = ck_index_inv s"
  "ck_step_inv (ck_deferred h g s) = ck_step_inv s"
  "ck_stored cpu gpu (ck_deferred h g s) = ck_stored cpu gpu s"
  by (simp_all add: ck_deferred_def ck_index_inv_def ck_step_inv_def ck_stored_def)

lemma stage_store_run:
  assumes "ck_holds cpu gpu s" "ck_hash_valid h" "0 \<le> g" "pending_ready_slots s = {}"
  shows "stage_store h (ArgInt g) s =
     (if h \<in> dict_keys (hash_to_slot s) \<union> deferred_hashes s then (Inr False, ck_dedup h s)
      else if g \<in> dict_keys (step_d2h s) \<union> dict_keys (deferred_d2h s) then (Inl RuntimeError, s)
      else case free_slots s of
        slot # rest \<Rightarrow> (Inr True, ck_committed h g slot (s\<lparr>free_slots := rest\<rparr>))
      | [] \<Rightarrow> (Inr True, ck_deferred h g s))"
proof -
  note s = ck_holdsD [OF assms(1)]
  show ?thesis
  proof (cases "free_slots s")
    case Nil
    then show ?thesis using assms(2-4)
      by (simp add: stage_store_def validate_hash_def require_step_started_def run_simps retM_def
          ck_touch_def ck_dedup_def ck_deferred_def dict_keys_iff split: option.split)
  next
    case (Cons slot rest)
    then have "slot \<notin> step_slots_in_use s" using ck_free_unused [OF s(1,2)] by simp
    from commit_store_inv_run [OF s(1,2) this] Cons assms(2-4) show ?thesis
      by (simp add: stage_store_def validate_hash_def require_step_started_def run_simps retM_def
          ck_touch_def ck_dedup_def ck_deferred_def dict_keys_iff split: option.split)
  qed
qed

lemma stage_store_args:
  assumes "stage_store h a s = (r, t)"
  shows "t = s \<or> (\<exists>g. a = ArgInt g \<and> 0 \<le> g \<and> ck_hash_valid h \<and> pending_ready_slots s = {})"
proof (cases a)
  case (ArgInt i)
  then show ?thesis using assms
    by (simp add: stage_store_def validate_hash_def require_step_started_def run_simps raiseM_def
        retM_def split: if_splits)
qed (use assms in \<open>auto simp: stage_store_def validate_hash_def run_simps split: if_splits\<close>)

lemma ck_dedup_holds:
  assumes "ck_holds cpu gpu s"
  shows "ck_holds cpu gpu (ck_dedup h s)"
proof (cases "dict_get (hash_to_slot s) h")
  case None
  then show ?thesis using assms by (simp add: ck_dedup_def ck_holds_def)
next
  case (Some slot)
  note s = ck_holdsD [OF assms(1)]
  have "dict_get (slot_to_hash s) slot = Some h" using Some s(1) unfolding ck_index_inv_def by blast
  then have "slot \<in> dict_keys (slot_to_hash s)" by (simp add: dict_keys_iff)
  from ck_touch_index [OF s(1) this] s Some show ?thesis by (simp add: ck_dedup_def ck_holds_def)
qed

lemma ck_deferred_holds:
  assumes "ck_holds cpu gpu s" "gpu g = Some h" "free_slots s = []" "pending_ready_slots s = {}"
    "h \<notin> dict_keys (hash_to_slot s)" "h \<notin> deferred_hashes s"
    "g \<notin> dict_keys (step_d2h s)" "g \<notin> dict_keys (deferred_d2h s)"
  shows "ck_holds cpu gpu (ck_deferred h g s)"
proof -
  note s = ck_holdsD [OF assms(1)] and d = ck_defer_invD [OF ck_holdsD(3) [OF assms(1)]]
  have n: "dict_get (deferred_d2h s) g = None" using assms(8) by (simp add: dict_keys_iff)
  have k: "dict_keys (deferred_d2h (ck_deferred h g s)) = insert g (dict_keys (deferred_d2h s))"
    by (simp add: dict_set_keys)
  have "ck_defer_inv (ck_deferred h g s)"
    unfolding ck_defer_inv_def k
  proof (intro conjI)
    show "dict_ok (deferred_d2h (ck_deferred h g s))" using d(1) by simp
    show "distinct (map snd (deferred_d2h (ck_deferred h g s)))"
      using d(2,3) assms(6) n by (simp add: dict_set_new)
    show "deferred_hashes (ck_deferred h g s) = snd ` set (deferred_d2h (ck_deferred h g s))"
      using d(3) n by (simp add: dict_set_new)
    show "deferred_hashes (ck_deferred h g s) \<inter> dict_keys (hash_to_slot (ck_deferred h g s)) = {}"
      using d(6) assms(5) by simp
    show "insert g (dict_keys (deferred_d2h s)) \<inter> dict_keys (step_d2h (ck_deferred h g s)) = {}"
      using d(7) assms(7) by simp
  qed (use assms(3,4) in simp_all)
  then show ?thesis using s n assms(2) by (simp add: ck_holds_def dict_set_new)
qed

lemma ck_store_now_holds:
  assumes "ck_holds cpu gpu s" "gpu g = Some h" "free_slots s = slot # rest"
    "pending_ready_slots s = {}" "h \<notin> dict_keys (hash_to_slot s)" "g \<notin> dict_keys (step_d2h s)"
  shows "ck_holds cpu gpu (ck_committed h g slot (s\<lparr>free_slots := rest\<rparr>))"
proof -
  note s = ck_holdsD [OF assms(1)] and d = ck_defer_invD [OF ck_holdsD(3) [OF assms(1)]]
  have e: "deferred_d2h s = []" "deferred_hashes s = {}" using d(3,4) assms(3) by auto
  have u: "slot \<notin> step_slots_in_use s" using ck_free_unused [OF s(1,2)] assms(3) by simp
  let ?t = "ck_committed h g slot (s\<lparr>free_slots := rest\<rparr>)"
  have "ck_index_inv ?t" using ck_commit_index [OF s(1) assms(5)] assms(3) by blast
  moreover have "ck_step_inv ?t" by (rule ck_commit_step [OF s(2) u assms(4,6)])
  moreover have "ck_stored cpu gpu ?t" by (rule ck_commit_stored [OF s(4,2) u assms(4,6,2)])
  moreover have "ck_defer_inv ?t" using e by (simp add: ck_defer_inv_def)
  ultimately show ?thesis using e by (simp add: ck_holds_def)
qed

lemma stage_store_holds:
  assumes "ck_holds cpu gpu s" and "stage_store h (ArgInt g) s = (r, t)" and "gpu g = Some h"
  shows "ck_holds cpu gpu t"
proof (cases "t = s")
  case False
  then have c: "0 \<le> g" "ck_hash_valid h" "pending_ready_slots s = {}"
    using stage_store_args [OF assms(2)] by auto
  note run = stage_store_run [OF assms(1) c(2,1,3)]
  show ?thesis
  proof (cases "h \<in> dict_keys (hash_to_slot s) \<union> deferred_hashes s")
    case True
    then have "t = ck_dedup h s" using assms(2) run by simp
    then show ?thesis using ck_dedup_holds [OF assms(1)] by simp
  next
    case h: False
    show ?thesis
    proof (cases "g \<in> dict_keys (step_d2h s) \<union> dict_keys (deferred_d2h s)")
      case True
      then show ?thesis using assms(2) run h False by simp
    next
      case g: False
      show ?thesis
      proof (cases "free_slots s")
        case Nil
        then have "t = ck_deferred h g s" using assms(2) run h g by simp
        then show ?thesis using ck_deferred_holds [OF assms(1,3) Nil c(3)] h g by blast
      next
        case (Cons slot rest)
        then have "t = ck_committed h g slot (s\<lparr>free_slots := rest\<rparr>)" using assms(2) run h g by simp
        then show ?thesis using ck_store_now_holds [OF assms(1,3) Cons c(3)] h g by blast
      qed
    qed
  qed
qed (use assms in simp)

subsection \<open>Draining a step\<close>

lemma ck_loop_start:
  assumes "ck_holds cpu gpu s" and "step_load_slots s = {}" and "deferred_d2h s \<noteq> []"
  shows "ck_loop cpu gpu (deferred_d2h s) s"
proof -
  note s = ck_holdsD [OF assms(1)] and d = ck_defer_invD [OF ck_holdsD(3) [OF assms(1)]]
  have "pending_ready_slots s = {}" using d(5) assms(3) by blast
  then show ?thesis using s(1,2,4,5) d(1,2,6,7) assms(2) unfolding ck_loop_def d(3) by argo
qed

text \<open>Clearing the deferred stores.\<close>

lemma ck_clear_holds:
  assumes "ck_index_inv s" "ck_step_inv s" "ck_stored cpu gpu s"
  shows "ck_holds cpu gpu (s\<lparr>deferred_d2h := [], deferred_hashes := {}\<rparr>)"
proof -
  let ?t = "s\<lparr>deferred_d2h := [], deferred_hashes := {}\<rparr>"
  have "ck_index_inv ?t = ck_index_inv s" "ck_step_inv ?t = ck_step_inv s"
    "ck_stored cpu gpu ?t = ck_stored cpu gpu s" "ck_defer_inv ?t"
    by (simp_all add: ck_index_inv_def ck_step_inv_def ck_stored_def ck_defer_inv_def)
  then show ?thesis using assms by (simp add: ck_holds_def)
qed

text \<open>Committing stores does not touch the loads of the step, nor the content of a slot in use.\<close>

definition ck_same_loads :: "CpuKvContentCache \<Rightarrow> CpuKvContentCache \<Rightarrow> bool" where
  "ck_same_loads s t \<longleftrightarrow> step_h2d t = step_h2d s \<and> step_load_slots t = step_load_slots s \<and>
     (\<forall>slot \<in> step_load_slots s. dict_get (slot_to_hash t) slot = dict_get (slot_to_hash s) slot) \<and>
     set (step_d2h s) \<subseteq> set (step_d2h t)"

lemma commit_store_d2h_mono:
  assumes "commit_store h g slot s = (Inr (), t)" "g \<notin> dict_keys (step_d2h s)"
  shows "set (step_d2h s) \<subseteq> set (step_d2h t) \<and> step_h2d t = step_h2d s
    \<and> step_load_slots t = step_load_slots s"
proof -
  have "dict_get (step_d2h s) g = None" using assms(2) by (simp add: dict_keys_iff)
  then show ?thesis using assms(1)
    by (auto simp: commit_store_def ck_forget_old_def ck_touch_def ok_simps dict_set_new
        split: option.splits)
qed

lemma resolve_loop_loads:
  "ck_loop cpu gpu ds s \<Longrightarrow> forM ds resolve_one s = (Inr (), t) \<Longrightarrow> ck_same_loads s t"
proof (induction ds arbitrary: s)
  case Nil
  then show ?case by (simp add: run_simps ck_same_loads_def)
next
  case (Cons p ds)
  from resolve_one_loop [OF Cons.prems(1)] obtain u where
    u: "resolve_one p s = (Inr (), u)" "ck_loop cpu gpu ds u" .
  with Cons.prems(2) have "forM ds resolve_one u = (Inr (), t)" by (simp add: run_simps)
  from Cons.IH [OF u(2) this] have IH: "ck_same_loads u t" .
  have l: "step_load_slots s = {}" and g: "fst p \<notin> dict_keys (step_d2h s)"
    using Cons.prems(1) unfolding ck_loop_def by auto
  obtain r v where sel: "select_store_slot s = (Inr r, v)" and k: "(case r of
       None \<Rightarrow> modM (\<lambda>s. s\<lparr>skipped_stores := skipped_stores s + 1\<rparr>)
     | Some slot \<Rightarrow> commit_store (snd p) (fst p) slot) v = (Inr (), u)"
    using u(1) by (auto simp: resolve_one_def ok_simps)
  have v: "step_d2h v = step_d2h s" "step_h2d v = step_h2d s" "step_load_slots v = step_load_slots s"
    using sel by (auto simp: select_store_slot_def ok_simps split: list.splits)
  have "set (step_d2h s) \<subseteq> set (step_d2h u) \<and> step_h2d u = step_h2d s
      \<and> step_load_slots u = step_load_slots s"
  proof (cases r)
    case None
    then show ?thesis using k v by (simp add: ok_simps)
  next
    case (Some slot)
    then show ?thesis using commit_store_d2h_mono [of "snd p" "fst p" slot v u] k v g by simp
  qed
  then show ?case using IH l unfolding ck_same_loads_def by auto
qed

lemma resolve_deferred_stores_run:
  assumes "ck_holds cpu gpu s"
  obtains t where "resolve_deferred_stores s = (Inr (), t)" "ck_holds cpu gpu t"
    "ck_same_loads s t" "deferred_d2h t = []"
proof -
  note s = ck_holdsD [OF assms] and goal = that
  define clear where "clear = (\<lambda>s. s\<lparr>deferred_d2h := [], deferred_hashes := {}\<rparr> :: CpuKvContentCache)"
  have same: "ck_same_loads s (clear u)" if "ck_same_loads s u" for u
    using that by (simp add: clear_def ck_same_loads_def)
  have fin: thesis if "resolve_deferred_stores s = (Inr (), clear u)" "ck_index_inv u" "ck_step_inv u"
      "ck_stored cpu gpu u" "ck_same_loads s u" for u
    using that(1) same [OF that(5)] ck_clear_holds [OF that(2-4)] goal [of "clear u"]
    by (simp add: clear_def)
  show thesis
  proof (cases "step_load_slots s = {} \<and> deferred_d2h s \<noteq> []")
    case True
    from resolve_loop [OF ck_loop_start [OF assms]] True obtain u where
      u: "forM (deferred_d2h s) resolve_one s = (Inr (), u)" "ck_loop cpu gpu [] u" by blast
    show thesis
    proof (rule fin)
      show "resolve_deferred_stores s = (Inr (), clear u)"
        using u(1) True by (simp add: resolve_deferred_stores_def run_simps clear_def)
      show "ck_same_loads s u"
        using resolve_loop_loads [OF ck_loop_start [OF assms] u(1)] True by blast
    qed (use u(2) in \<open>unfold ck_loop_def, argo+\<close>)
  next
    case False
    define u where "u = (if step_load_slots s \<noteq> {}
      then s\<lparr>skipped_stores := skipped_stores s + length (deferred_d2h s)\<rparr> else s)"
    show thesis
    proof (rule fin)
      show "resolve_deferred_stores s = (Inr (), clear u)"
        using False by (auto simp: resolve_deferred_stores_def run_simps clear_def u_def)
      show "ck_same_loads s u" by (simp add: u_def ck_same_loads_def)
    qed (use s in \<open>simp_all add: u_def\<close>)
  qed
qed

definition ck_drained :: "CpuKvContentCache \<Rightarrow> CpuKvContentCache" where
  "ck_drained s = s\<lparr>pending_ready_slots := pending_ready_slots s \<union> snd ` set (step_d2h s),
     step_h2d := [], step_d2h := [], step_slots_in_use := {}, step_load_slots := {}\<rparr>"

text \<open>A drain raises exactly when a claimed load was neither staged nor cancelled.\<close>

lemma drain_step_run:
  assumes "ck_holds cpu gpu s"
  obtains u where "ck_holds cpu gpu u" "ck_same_loads s u" "deferred_d2h u = []"
    "drain_step s = (if dict_keys (step_h2d s) = step_load_slots s
       then (Inr (sort (step_h2d u), sort (step_d2h u)), ck_drained u) else (Inl RuntimeError, u))"
proof -
  from resolve_deferred_stores_run [OF assms] obtain u where
    u: "resolve_deferred_stores s = (Inr (), u)" "ck_holds cpu gpu u" "ck_same_loads s u"
      "deferred_d2h u = []" .
  note i = ck_step_invD [OF ck_holdsD(2) [OF u(2)]]
  let ?D = "snd ` set (step_d2h u)"
  have l: "step_h2d u = step_h2d s" "step_load_slots u = step_load_slots s"
    using u(3) by (simp_all add: ck_same_loads_def)
  have a: "dict_keys (step_h2d s) \<union> ?D = step_slots_in_use u \<longleftrightarrow> dict_keys (step_h2d s) = step_load_slots s"
    using i(5,6,7) unfolding l by blast
  have b: "dict_keys (step_h2d s) \<inter> ?D = {}" using i(6,7) unfolding l by blast
  have "drain_step s = (if dict_keys (step_h2d s) = step_load_slots s
       then (Inr (sort (step_h2d u), sort (step_d2h u)), ck_drained u) else (Inl RuntimeError, u))"
    using u(1) a b
    by (cases "dict_keys (step_h2d s) = step_load_slots s")
      (simp_all add: drain_step_def run_simps ck_drained_def l)
  with that u show thesis by blast
qed

subsection \<open>The step protocol over the two memories\<close>

text \<open>
  The worker executes the stores of a step before its loads (\<open>execute_worker\<close> of
  \<open>vllm/worker/worker.py\<close>): \<open>copy_out\<close> writes CPU slots from GPU blocks, \<open>copy_in\<close> writes GPU
  blocks from CPU slots.
\<close>

definition copy_out :: "(int \<times> int) list \<Rightarrow> (int \<rightharpoonup> content_hash) \<Rightarrow> (int \<rightharpoonup> content_hash)
    \<Rightarrow> (int \<rightharpoonup> content_hash)" where
  "copy_out m gpu cpu = foldl (\<lambda>c p. c(snd p := gpu (fst p))) cpu m"

definition copy_in :: "(int \<times> int) list \<Rightarrow> (int \<rightharpoonup> content_hash) \<Rightarrow> (int \<rightharpoonup> content_hash)
    \<Rightarrow> (int \<rightharpoonup> content_hash)" where
  "copy_in m cpu gpu = foldl (\<lambda>g p. g(snd p := cpu (fst p))) gpu m"

lemma foldl_upd_other: "k \<notin> snd ` set m \<Longrightarrow> foldl (\<lambda>c p. c(snd p := f (fst p))) c m k = c k"
  by (induction m arbitrary: c) auto

lemma foldl_upd_in:
  "distinct (map snd m) \<Longrightarrow> p \<in> set m \<Longrightarrow> foldl (\<lambda>c p. c(snd p := f (fst p))) c m (snd p) = f (fst p)"
proof (induction m arbitrary: c)
  case (Cons q m)
  show ?case
  proof (cases "p = q")
    case True
    have "snd q \<notin> snd ` set m" using Cons.prems(1) by simp
    from foldl_upd_other [OF this, of f "c(snd q := f (fst q))"] show ?thesis
      unfolding True foldl_Cons by (simp only: fun_upd_same)
  next
    case False
    with Cons.prems have "distinct (map snd m)" "p \<in> set m" by auto
    from Cons.IH [OF this] show ?thesis by (simp only: foldl_Cons)
  qed
qed simp

lemma distinct_map_sort [simp]: "distinct (map f (sort m)) = distinct (map f m)"
  by (simp add: distinct_map)

type_synonym ck_world =
  "CpuKvContentCache \<times> (int \<rightharpoonup> content_hash) \<times> (int \<rightharpoonup> content_hash)"

text \<open>
  One call of the scheduler, or the execution of a drained step. \<open>stage_store\<close> is called with
  the hash of the content the GPU block holds. After the copies the model runs and writes GPU
  blocks; it does so only when no copy is waiting. A cancellation that raises \<open>KeyError\<close> is not
  a step: \<open>cancel_load_of_store\<close> below shows what it does.
\<close>

inductive ck_step :: "ck_world \<Rightarrow> ck_world \<Rightarrow> bool" where
  ck_begin: "begin_step s = (r, t) \<Longrightarrow> ck_step (s, cpu, gpu) (t, cpu, gpu)"
| ck_claim: "claim_load h s = (r, t) \<Longrightarrow> ck_step (s, cpu, gpu) (t, cpu, gpu)"
| ck_cancel: "cancel_load h a s = (r, t) \<Longrightarrow> r \<noteq> Inl KeyError \<Longrightarrow> ck_step (s, cpu, gpu) (t, cpu, gpu)"
| ck_load: "stage_load h a b s = (r, t) \<Longrightarrow> ck_step (s, cpu, gpu) (t, cpu, gpu)"
| ck_store: "gpu g = Some h \<Longrightarrow> stage_store h (ArgInt g) s = (r, t)
    \<Longrightarrow> ck_step (s, cpu, gpu) (t, cpu, gpu)"
| ck_drain: "drain_step s = (Inr (hin, hout), t) \<Longrightarrow> cpu' = copy_out hout gpu cpu
    \<Longrightarrow> ck_step (s, cpu, gpu) (t, cpu', copy_in hin cpu' gpu)"
| ck_drain_fails: "drain_step s = (Inl e, t) \<Longrightarrow> ck_step (s, cpu, gpu) (t, cpu, gpu)"
| ck_compute: "step_d2h s = [] \<Longrightarrow> deferred_d2h s = [] \<Longrightarrow> ck_step (s, cpu, gpu) (s, cpu, gpu')"

inductive ck_reachable :: "int \<Rightarrow> ck_world \<Rightarrow> bool" for n where
  ck_start: "ck_init n = Inr s \<Longrightarrow> ck_reachable n (s, cpu, gpu)"
| ck_next: "ck_reachable n w \<Longrightarrow> ck_step w w' \<Longrightarrow> ck_reachable n w'"

lemma ck_drained_simps [simp]:
  "ck_capacity (ck_drained u) = ck_capacity u" "hash_to_slot (ck_drained u) = hash_to_slot u"
  "slot_to_hash (ck_drained u) = slot_to_hash u" "ready_slots (ck_drained u) = ready_slots u"
  "step_d2h (ck_drained u) = []" "step_h2d (ck_drained u) = []"
  "step_slots_in_use (ck_drained u) = {}" "step_load_slots (ck_drained u) = {}"
  "pending_ready_slots (ck_drained u) = pending_ready_slots u \<union> snd ` set (step_d2h u)"
  "deferred_d2h (ck_drained u) = deferred_d2h u" "deferred_hashes (ck_drained u) = deferred_hashes u"
  "ck_index_inv (ck_drained u) = ck_index_inv u"
  by (simp_all add: ck_drained_def ck_index_inv_def)

lemma ck_drained_holds:
  assumes "ck_holds cpu gpu u" and "deferred_d2h u = []"
  shows "ck_holds (copy_out (sort (step_d2h u)) gpu cpu) gpu' (ck_drained u)"
proof -
  note s = ck_holdsD [OF assms(1)] and i = ck_step_invD [OF ck_holdsD(2) [OF assms(1)]]
  let ?D = "snd ` set (step_d2h u)" and ?cpu = "copy_out (sort (step_d2h u)) gpu cpu"
  have h: "deferred_hashes u = {}" using ck_defer_invD(3) [OF s(3)] assms(2) by simp
  have "ready_slots u \<inter> (pending_ready_slots u \<union> ?D) = {}" using i(9,10) by blast
  moreover have "ready_slots u \<union> (pending_ready_slots u \<union> ?D) \<subseteq> dict_keys (slot_to_hash u)"
    using i(11) by blast
  ultimately have st: "ck_step_inv (ck_drained u)" unfolding ck_step_inv_def ck_drained_simps by simp
  have "?cpu slot = dict_get (slot_to_hash u) slot"
    if "slot \<in> ready_slots u \<union> (pending_ready_slots u \<union> ?D)" for slot
  proof (cases "slot \<in> ?D")
    case True
    then obtain g where g: "(g, slot) \<in> set (step_d2h u)" by force
    then have "?cpu slot = gpu g"
      unfolding copy_out_def using foldl_upd_in [of "sort (step_d2h u)" "(g, slot)"] i(4) by simp
    then show ?thesis using s(4) g unfolding ck_stored_def by force
  next
    case False
    then have "?cpu slot = cpu slot" by (simp add: copy_out_def foldl_upd_other)
    then show ?thesis using s(4) that False unfolding ck_stored_def by auto
  qed
  then have "ck_stored ?cpu gpu' (ck_drained u)" by (simp add: ck_stored_def)
  with st h s(1) assms(2) show ?thesis by (simp add: ck_holds_def ck_defer_inv_def)
qed

fun ck_world_ok :: "ck_world \<Rightarrow> bool" where
  "ck_world_ok (s, cpu, gpu) = ck_holds cpu gpu s"

lemma ck_step_holds:
  assumes "ck_step w w'" and "ck_world_ok w"
  shows "ck_world_ok w'"
  using assms
proof (cases rule: ck_step.cases)
  case (ck_drain s hin hout t cpu' gpu cpu)
  with assms(2) have h: "ck_holds cpu gpu s" by simp
  from drain_step_run [OF h] obtain u where u: "ck_holds cpu gpu u" "deferred_d2h u = []"
    "drain_step s = (if dict_keys (step_h2d s) = step_load_slots s
       then (Inr (sort (step_h2d u), sort (step_d2h u)), ck_drained u) else (Inl RuntimeError, u))" by blast
  then show ?thesis using ck_drain ck_drained_holds [OF u(1,2)] by (simp split: if_splits)
next
  case (ck_drain_fails s e t cpu gpu)
  with assms(2) have h: "ck_holds cpu gpu s" by simp
  from drain_step_run [OF h] obtain u where u: "ck_holds cpu gpu u"
    "drain_step s = (if dict_keys (step_h2d s) = step_load_slots s
       then (Inr (sort (step_h2d u), sort (step_d2h u)), ck_drained u) else (Inl RuntimeError, u))" by blast
  then show ?thesis using ck_drain_fails by (simp split: if_splits)
next
  case (ck_compute s cpu gpu gpu')
  then show ?thesis using assms(2) by (simp add: ck_holds_def ck_stored_def)
next
  case ck_begin
  then show ?thesis using assms(2) begin_step_holds by simp
next
  case ck_claim
  then show ?thesis using assms(2) claim_load_holds by simp
next
  case ck_cancel
  then show ?thesis using assms(2) cancel_load_holds by simp
next
  case ck_load
  then show ?thesis using assms(2) stage_load_holds by simp
next
  case ck_store
  then show ?thesis using assms(2) stage_store_holds by simp
qed

lemma ck_init_holds: "ck_init n = Inr s \<Longrightarrow> ck_holds cpu gpu s"
  using ck_init_inv [of n s] by (auto simp: ck_holds_def ck_inv_def ck_stored_def ck_init_def split: if_splits)

lemma ck_reachable_ok: "ck_reachable n w \<Longrightarrow> ck_world_ok w"
  by (induction rule: ck_reachable.induct) (auto simp: ck_init_holds intro: ck_step_holds)

subsection \<open>What the class promises\<close>

lemma ck_reachable_inv:
  assumes "ck_reachable n (s, cpu, gpu)"
  shows "ck_holds cpu gpu s"
  using ck_reachable_ok [OF assms] by simp


text \<open>A state to try the properties on: block 7 is stored, then loaded while block 8 is stored.\<close>

definition ex_h :: "nat \<Rightarrow> content_hash" where
  "ex_h k = PyBytes (replicate 31 0 @ [of_nat k])"

definition ex_gpu :: "int \<rightharpoonup> content_hash" where
  "ex_gpu = [7 \<mapsto> ex_h 1, 8 \<mapsto> ex_h 2]"

definition ex_s0 :: CpuKvContentCache where "ex_s0 = projr (ck_init 2)"
definition ex_s1 :: CpuKvContentCache where "ex_s1 = snd (stage_store (ex_h 1) (ArgInt 7) ex_s0)"
definition ex_s2 :: CpuKvContentCache where "ex_s2 = snd (drain_step ex_s1)"
definition ex_s3 :: CpuKvContentCache where "ex_s3 = snd (begin_step ex_s2)"
definition ex_s4 :: CpuKvContentCache where "ex_s4 = snd (claim_load (ex_h 1) ex_s3)"
definition ex_s5 :: CpuKvContentCache where "ex_s5 = snd (stage_load (ex_h 1) (ArgInt 0) (ArgInt 9) ex_s4)"
definition ex_s6 :: CpuKvContentCache where "ex_s6 = snd (stage_store (ex_h 2) (ArgInt 8) ex_s5)"

lemma ex_h_neq [simp]: "ex_h 1 \<noteq> ex_h 2" "ex_h 2 \<noteq> ex_h 1" "ck_hash_valid (ex_h k)"
    "ex_h (Suc 0) \<noteq> ex_h 2" "ex_h 2 \<noteq> ex_h (Suc 0)"
  by (simp_all add: ex_h_def)

lemma ex_s0_eq: "ex_s0 = \<lparr>ck_capacity = 2, hash_to_slot = [], slot_to_hash = [], ready_slots = {},
        ck_lru = [], free_slots = [0, 1], step_slots_in_use = {},
        step_load_slots = {}, step_h2d = [], step_d2h = [], deferred_d2h = [],
        deferred_hashes = {}, pending_ready_slots = {}, ck_hits = 0, ck_misses = 0,
        ck_stores = 0, deduplicated_stores = 0, ck_evictions = 0, skipped_stores = 0\<rparr>"
  by (simp add: ex_s0_def ck_init_def upto.simps)

lemmas ck_ops = validate_hash_def require_step_started_def ck_touch_def run_simps retM_def
  commit_store_def ck_forget_old_def

lemma ex_s1_eq: "ex_s1 = \<lparr>ck_capacity = 2, hash_to_slot = [(ex_h 1, 0)], slot_to_hash = [(0, ex_h 1)],
        ready_slots = {}, ck_lru = [0], free_slots = [1], step_slots_in_use = {0},
        step_load_slots = {}, step_h2d = [], step_d2h = [(7, 0)], deferred_d2h = [],
        deferred_hashes = {}, pending_ready_slots = {}, ck_hits = 0, ck_misses = 0,
        ck_stores = 1, deduplicated_stores = 0, ck_evictions = 0, skipped_stores = 0\<rparr>"
  by (simp add: ex_s1_def ex_s0_eq stage_store_def ck_ops)

lemma ex_s2_run: "drain_step ex_s1 = (Inr ([], [(7, 0)]), ex_s2)"
  and ex_s3_eq: "ex_s3 = \<lparr>ck_capacity = 2, hash_to_slot = [(ex_h 1, 0)], slot_to_hash = [(0, ex_h 1)],
        ready_slots = {0}, ck_lru = [0], free_slots = [1], step_slots_in_use = {},
        step_load_slots = {}, step_h2d = [], step_d2h = [], deferred_d2h = [],
        deferred_hashes = {}, pending_ready_slots = {}, ck_hits = 0, ck_misses = 0,
        ck_stores = 1, deduplicated_stores = 0, ck_evictions = 0, skipped_stores = 0\<rparr>"
  by (simp_all add: ex_s3_def ex_s2_def begin_step_def ex_s1_eq drain_step_def resolve_deferred_stores_def ck_ops)

lemma ex_s6_eq: "ex_s6 = \<lparr>ck_capacity = 2, hash_to_slot = [(ex_h 1, 0), (ex_h 2, 1)],
        slot_to_hash = [(0, ex_h 1), (1, ex_h 2)],
        ready_slots = {0}, ck_lru = [0, 1], free_slots = [], step_slots_in_use = {0, 1},
        step_load_slots = {0}, step_h2d = [(0, 9)], step_d2h = [(8, 1)], deferred_d2h = [],
        deferred_hashes = {}, pending_ready_slots = {}, ck_hits = 1, ck_misses = 0,
        ck_stores = 2, deduplicated_stores = 0, ck_evictions = 0, skipped_stores = 0\<rparr>"
  by (simp add: ex_s6_def ex_s5_def ex_s4_def ex_s3_eq stage_load_def claim_load_def stage_store_def
      ck_ready_slot_def ck_ops) blast

lemma ex_drain: "drain_step ex_s6 = (Inr ([(0, 9)], [(8, 1)]), snd (drain_step ex_s6))"
  by (simp add: ex_s6_eq drain_step_def resolve_deferred_stores_def ck_ops insert_commute)

definition ex_cpu :: "int \<rightharpoonup> content_hash" where
  "ex_cpu = copy_out [(7, 0)] ex_gpu Map.empty"

lemma ex_reachable: "ck_reachable 2 (ex_s6, ex_cpu, ex_gpu)"
proof -
  have s0: "ck_init 2 = Inr ex_s0" by (simp add: ex_s0_def ck_init_def)
  have "ck_reachable 2 (ex_s0, Map.empty, ex_gpu)" by (rule ck_start [OF s0])
  then have "ck_reachable 2 (ex_s1, Map.empty, ex_gpu)"
    by (rule ck_next) (rule ck_store [of _ 7 "ex_h 1"], simp_all add: ex_gpu_def ex_s1_def prod_eq_iff)
  from ck_next [OF this ck_drain [OF ex_s2_run refl]]
  have "ck_reachable 2 (ex_s2, ex_cpu, ex_gpu)" by (simp add: ex_cpu_def copy_in_def)
  then have "ck_reachable 2 (ex_s3, ex_cpu, ex_gpu)"
    by (rule ck_next) (rule ck_begin, simp add: ex_s3_def prod_eq_iff)
  then have "ck_reachable 2 (ex_s4, ex_cpu, ex_gpu)"
    by (rule ck_next) (rule ck_claim, simp add: ex_s4_def prod_eq_iff)
  then have "ck_reachable 2 (ex_s5, ex_cpu, ex_gpu)"
    by (rule ck_next) (rule ck_load, simp add: ex_s5_def prod_eq_iff)
  then show ?thesis
    by (rule ck_next) (rule ck_store [of _ 8 "ex_h 2"], simp_all add: ex_gpu_def ex_s6_def prod_eq_iff)
qed

definition ck_transfers_ok :: "int \<Rightarrow> (int \<times> int) list \<Rightarrow> (int \<times> int) list \<Rightarrow> bool" where
  "ck_transfers_ok n hin hout \<longleftrightarrow> distinct (map fst hin) \<and> distinct (map snd hin) \<and>
     distinct (map fst hout) \<and> distinct (map snd hout) \<and> fst ` set hin \<inter> snd ` set hout = {} \<and>
     fst ` set hin \<union> snd ` set hout \<subseteq> {0..<n}"

text \<open>A drain that returned, in terms of the state whose stores are all committed.\<close>

lemma drain_step_cases:
  assumes "ck_holds cpu gpu s" and "drain_step s = (Inr (hin, hout), t)"
  obtains u where "ck_holds cpu gpu u" "ck_same_loads s u" "dict_keys (step_h2d s) = step_load_slots s"
    "hin = sort (step_h2d u)" "hout = sort (step_d2h u)" "t = ck_drained u" "deferred_d2h u = []"
proof -
  from drain_step_run [OF assms(1)] obtain u where "ck_holds cpu gpu u" "ck_same_loads s u"
    "deferred_d2h u = []" "drain_step s = (if dict_keys (step_h2d s) = step_load_slots s
       then (Inr (sort (step_h2d u), sort (step_d2h u)), ck_drained u) else (Inl RuntimeError, u))" .
  with assms(2) that show thesis by (simp split: if_splits)
qed

lemma ck_in_range:
  assumes "ck_holds cpu gpu s"
  shows "step_slots_in_use s \<subseteq> {0..<ck_capacity s}"
proof -
  note s = ck_holdsD [OF assms]
  have "dict_keys (slot_to_hash s) \<subseteq> {0..<ck_capacity s}" using s(1) unfolding ck_index_inv_def by blast
  then show ?thesis using ck_step_used(3) [OF s(2)] by blast
qed

lemma ck_drain_transfers:
  assumes "ck_holds cpu gpu s" and "drain_step s = (Inr (hin, hout), t)"
  shows "ck_transfers_ok (ck_capacity t) hin hout"
proof -
  from drain_step_cases [OF assms] obtain u where u: "ck_holds cpu gpu u"
    "hin = sort (step_h2d u)" "hout = sort (step_d2h u)" "t = ck_drained u" .
  note i = ck_step_invD [OF ck_holdsD(2) [OF u(1)]]
  have "dict_keys (step_h2d u) \<inter> snd ` set (step_d2h u) = {}" using i(6,7) by blast
  moreover have "dict_keys (step_h2d u) \<union> snd ` set (step_d2h u) \<subseteq> {0..<ck_capacity u}"
    using i(5,7) ck_in_range [OF u(1)] by blast
  ultimately show ?thesis using i(1-4) by (simp add: ck_transfers_ok_def u dict_ok_def)
qed

lemma ck_drain_delivers:
  assumes "ck_holds cpu gpu s" and "drain_step s = (Inr (hin, hout), t)" and "p \<in> set hin"
  shows "\<exists>h. dict_get (hash_to_slot s) h = Some (fst p) \<and>
    copy_in hin (copy_out hout gpu cpu) gpu (snd p) = Some h"
proof -
  from drain_step_cases [OF assms(1,2)] obtain u where u: "ck_holds cpu gpu u" "ck_same_loads s u"
    "hin = sort (step_h2d u)" "hout = sort (step_d2h u)" "t = ck_drained u" .
  note i = ck_step_invD [OF ck_holdsD(2) [OF u(1)]] and s = ck_holdsD [OF assms(1)]
  let ?slot = "fst p"
  have "p \<in> set (step_h2d u)" using assms(3) u(3) by simp
  then have "?slot \<in> dict_keys (step_h2d u)" by blast
  then have l: "?slot \<in> step_load_slots u" "?slot \<in> ready_slots u" using i(7,8) by blast+
  have n: "?slot \<notin> snd ` set hout" using l(1) i(6) u(4) by auto
  have same: "dict_get (slot_to_hash u) ?slot = dict_get (slot_to_hash s) ?slot"
    using u(2) l(1) unfolding ck_same_loads_def by auto
  have "?slot \<in> step_load_slots s" using l(1) u(2) unfolding ck_same_loads_def by auto
  then have "?slot \<in> dict_keys (slot_to_hash s)" using ck_step_used(1,3) [OF s(2)] by blast
  then obtain h where h: "dict_get (slot_to_hash s) ?slot = Some h" by (auto simp: dict_keys_iff)
  have "copy_out hout gpu cpu ?slot = cpu ?slot"
    unfolding copy_out_def by (rule foldl_upd_other [OF n])
  also have "\<dots> = Some h" using ck_holdsD(4) [OF u(1)] l(2) same h unfolding ck_stored_def by auto
  finally have c: "copy_out hout gpu cpu ?slot = Some h" .
  have "copy_in hin (copy_out hout gpu cpu) gpu (snd p) = copy_out hout gpu cpu ?slot"
    unfolding copy_in_def by (rule foldl_upd_in) (use i(3) u(3) assms(3) in simp_all)
  with c ck_index_get [OF s(1) h] show ?thesis by auto
qed

text \<open>
  C28. Whatever calls were made, the maps a drained step hands to the workers never use a slot
  both as the source of a load and as the destination of a store, name no source and no
  destination twice, and only slots of the cache.
\<close>
theorem cpu_kv_transfers_disjoint:
  assumes "ck_reachable n (s, cpu, gpu)" and "drain_step s = (Inr (hin, hout), t)"
  shows "ck_transfers_ok (ck_capacity t) hin hout"
  by (rule ck_drain_transfers [OF ck_reachable_inv [OF assms(1)] assms(2)])

theorem cpu_kv_transfers_disjoint_witness:
  "ck_transfers_ok (ck_capacity (snd (drain_step ex_s6))) [(0, 9)] [(8, 1)]"
  by (rule cpu_kv_transfers_disjoint [OF ex_reachable ex_drain])

text \<open>
  C27. Every load of a drained step delivers the content it is named for: the slot is the one
  the index holds for some hash, and after the workers executed the stores and the loads of
  the step the destination block holds the content of that hash.
\<close>
theorem cpu_kv_load_delivers:
  assumes "ck_reachable n (s, cpu, gpu)" and "drain_step s = (Inr (hin, hout), t)" and "p \<in> set hin"
  shows "\<exists>h. dict_get (hash_to_slot s) h = Some (fst p) \<and>
    copy_in hin (copy_out hout gpu cpu) gpu (snd p) = Some h"
  by (rule ck_drain_delivers [OF ck_reachable_inv [OF assms(1)] assms(2,3)])

theorem cpu_kv_load_delivers_witness:
  "\<exists>h. dict_get (hash_to_slot ex_s6) h = Some (fst (0 :: int, 9 :: int)) \<and>
    copy_in [(0, 9)] (copy_out [(8, 1)] ex_gpu ex_cpu) ex_gpu (snd (0 :: int, 9 :: int)) = Some h"
  by (rule cpu_kv_load_delivers [OF ex_reachable ex_drain]) simp

text \<open>
  C29. The index never lies: a hash that \<open>is_ready\<close> reports has its content in the slot that
  \<open>resident_slot\<close> returns, whatever was stored, evicted and loaded before.
\<close>
theorem cpu_kv_ready_content:
  assumes "ck_reachable n (s, cpu, gpu)" and "ck_is_ready h s = (Inr True, t)"
  shows "\<exists>slot. resident_slot h s = (Inr (Some slot), s) \<and> cpu slot = Some h"
proof -
  have h: "ck_holds cpu gpu s" by (rule ck_reachable_inv [OF assms(1)])
  have v: "ck_hash_valid h" and r: "ck_ready_slot s h \<noteq> None"
    using assms(2) by (auto simp: ck_is_ready_def validate_hash_def ok_simps)
  then obtain slot where slot: "dict_get (hash_to_slot s) h = Some slot" "slot \<in> ready_slots s"
    using ck_ready_slotD by blast
  have "dict_get (slot_to_hash s) slot = Some h"
    using ck_holdsD(1) [OF h] slot(1) unfolding ck_index_inv_def by blast
  then have "cpu slot = Some h" using ck_holdsD(4) [OF h] slot(2) unfolding ck_stored_def by auto
  with v slot(1) show ?thesis by (simp add: resident_slot_def validate_hash_def run_simps)
qed

theorem cpu_kv_ready_content_witness:
  "\<exists>slot. resident_slot (ex_h 1) ex_s6 = (Inr (Some slot), ex_s6) \<and> ex_cpu slot = Some (ex_h 1)"
  by (rule cpu_kv_ready_content [OF ex_reachable, of _ ex_s6])
    (simp add: ck_is_ready_def validate_hash_def run_simps ck_ready_slot_def ex_s6_eq)



lemma begin_after_drain:
  assumes "ck_holds cpu gpu u" and "deferred_d2h u = []"
  shows "begin_step (ck_drained u) = (Inr (), (ck_drained u)\<lparr>ready_slots :=
     ready_slots u \<union> (pending_ready_slots u \<union> snd ` set (step_d2h u)), pending_ready_slots := {}\<rparr>)"
  using ck_defer_invD(3) [OF ck_holdsD(3) [OF assms(1)]] assms(2)
  by (simp add: begin_step_def run_simps)

text \<open>
  C30. Round trip: content that is stored while a slot is free is copied out by the next drain,
  and the first claim of its hash in the following step returns the slot it was copied to.
\<close>
theorem cpu_kv_store_load_roundtrip:
  assumes "ck_reachable n (s, cpu, gpu)" and "gpu g = Some h" and "ck_hash_valid h" and "0 \<le> g"
    and "pending_ready_slots s = {}" and "free_slots s \<noteq> []"
    and "h \<notin> dict_keys (hash_to_slot s)" and "g \<notin> dict_keys (step_d2h s)"
    and "dict_keys (step_h2d s) = step_load_slots s"
  shows "\<exists>slot hin hout s1 s2 s3 s4. stage_store h (ArgInt g) s = (Inr True, s1) \<and>
    drain_step s1 = (Inr (hin, hout), s2) \<and> (g, slot) \<in> set hout \<and>
    begin_step s2 = (Inr (), s3) \<and> claim_load h s3 = (Inr (Some slot), s4)"
proof -
  have s: "ck_holds cpu gpu s" by (rule ck_reachable_inv [OF assms(1)])
  note d = ck_defer_invD [OF ck_holdsD(3) [OF s]]
  obtain slot rest where f: "free_slots s = slot # rest" using assms(6) by (cases "free_slots s") auto
  have e: "deferred_d2h s = []" "deferred_hashes s = {}" using d(3,4) assms(6) by auto
  let ?s1 = "ck_committed h g slot (s\<lparr>free_slots := rest\<rparr>)"
  have st: "stage_store h (ArgInt g) s = (Inr True, ?s1)"
    using stage_store_run [OF s assms(3-5)] assms(7,8) e f by simp
  have s1: "ck_holds cpu gpu ?s1" by (rule stage_store_holds [OF s st assms(2)])
  have g1: "(g, slot) \<in> set (step_d2h ?s1)"
    using assms(8) by (simp add: dict_keys_iff dict_set_new)
  from drain_step_run [OF s1] assms(9) obtain u where u: "ck_holds cpu gpu u" "ck_same_loads ?s1 u"
    "deferred_d2h u = []" "drain_step ?s1 = (Inr (sort (step_h2d u), sort (step_d2h u)), ck_drained u)"
    by auto
  have gu: "(g, slot) \<in> set (step_d2h u)" using g1 u(2) unfolding ck_same_loads_def by blast
  then have "dict_get (slot_to_hash u) slot = Some h"
    using ck_holdsD(4) [OF u(1)] assms(2) unfolding ck_stored_def by force
  then have h: "dict_get (hash_to_slot u) h = Some slot" by (rule ck_index_get [OF ck_holdsD(1) [OF u(1)]])
  have "slot \<in> snd ` set (step_d2h u)" using gu by force
  with h have "claim_load h ((ck_drained u)\<lparr>ready_slots := ready_slots u
       \<union> (pending_ready_slots u \<union> snd ` set (step_d2h u)), pending_ready_slots := {}\<rparr>)
     = (Inr (Some slot), ck_claimed slot ((ck_drained u)\<lparr>ready_slots := ready_slots u
       \<union> (pending_ready_slots u \<union> snd ` set (step_d2h u)), pending_ready_slots := {}\<rparr>))"
    using assms(3) by (simp add: claim_load_run ck_ready_slot_def)
  with st u(4) begin_after_drain [OF u(1,3)] gu show ?thesis by (metis set_sort)
qed

theorem cpu_kv_store_load_roundtrip_witness:
  "\<exists>slot hin hout s1 s2 s3 s4. stage_store (ex_h 2) (ArgInt 8) ex_s0 = (Inr True, s1) \<and>
    drain_step s1 = (Inr (hin, hout), s2) \<and> (8, slot) \<in> set hout \<and>
    begin_step s2 = (Inr (), s3) \<and> claim_load (ex_h 2) s3 = (Inr (Some slot), s4)"
proof (rule cpu_kv_store_load_roundtrip)
  show "ck_reachable 2 (ex_s0, Map.empty, ex_gpu)" by (rule ck_start) (simp add: ex_s0_def ck_init_def)
qed (simp_all add: ex_s0_eq ex_gpu_def)


end
