(* ===== verification/BlockCommon.thy ===== *)
theory BlockCommon
  imports EvictorV2 Complex_Main
begin

section \<open>Reference counts, block objects and their pool (\<open>vllm/core/block/common.py\<close>)\<close>

text \<open>
  The parts every block allocator is built from. A block object is mutable and shared (a block
  points to its predecessor, the pool reuses objects), so objects live in a heap \<open>objs\<close> and are
  named by addresses. \<open>Blk a\<close> is a reference to the object at \<open>a\<close>, \<open>NullB a\<close> to the
  \<open>NullBlock\<close> that wraps it. One record holds the fields of both block classes: \<open>b_prefix\<close> is
  \<open>None\<close> for a \<open>NaiveBlock\<close> and holds the further fields of a \<open>PrefixCachingBlock\<close>, whose
  inner \<open>NaiveBlock\<close> is the rest of the record. \<open>b_owner\<close> is the device of the allocator the
  object is bound to.
\<close>

datatype Device = CPU | GPU

datatype ref = Blk nat | NullB nat

text \<open>Reading an attribute through a reference: \<open>NullBlock\<close> delegates reads to its proxy.\<close>

fun addr :: "ref \<Rightarrow> nat" where
  "addr (Blk a) = a"
| "addr (NullB a) = a"

record PrefixPart =
  pb_cached_content_hash :: "int option"
  pb_cached_num_tokens_total :: int
  pb_computed :: bool
  pb_last_accessed :: py_time
  pb_extra_hash :: "int option"

record Block =
  b_token_ids :: "int list"
  b_block_size :: nat
  b_prev_block :: "ref option"
  b_block_id :: "block_id option"
  b_owner :: Device
  b_pool_id :: "nat option"
  b_prefix :: "PrefixPart option"

definition num_empty_slots :: "Block \<Rightarrow> int" where
  "num_empty_slots b = int (b_block_size b) - int (length (b_token_ids b))"

definition is_full :: "Block \<Rightarrow> bool" where
  "is_full b \<longleftrightarrow> num_empty_slots b = 0"

subsection \<open>Reference counts\<close>

type_synonym refcounts = "block_id \<rightharpoonup> int"

definition rc_init :: "block_id list \<Rightarrow> refcounts" where
  "rc_init ids = map_of (map (\<lambda>i. (i, 0)) ids)"

definition rc_incr :: "block_id \<Rightarrow> (refcounts, int) st" where
  "rc_incr i = getM (\<lambda>r. r i) (\<lambda>c.
     case c of
       None \<Rightarrow> raiseM AssertionError
     | Some n \<Rightarrow>
         thenM (assertM (0 \<le> n))
        (thenM (modM (\<lambda>r. r(i \<mapsto> n + 1)))
               (retM (n + 1))))"

definition rc_decr :: "block_id \<Rightarrow> (refcounts, int) st" where
  "rc_decr i = getM (\<lambda>r. r i) (\<lambda>c.
     case c of
       None \<Rightarrow> raiseM AssertionError
     | Some n \<Rightarrow>
         thenM (assertM (0 < n))
        (thenM (modM (\<lambda>r. r(i \<mapsto> n - 1)))
               (retM (n - 1))))"

definition rc_get :: "block_id \<Rightarrow> (refcounts, int) st" where
  "rc_get i = getM (\<lambda>r. r i) (fromM AssertionError)"

text \<open>The read-only view: the same counts, and writing raises.\<close>

definition ro_incr :: "block_id \<Rightarrow> (refcounts, int) st" where
  "ro_incr i = raiseM ValueError"

definition ro_decr :: "block_id \<Rightarrow> (refcounts, int) st" where
  "ro_decr i = raiseM ValueError"

definition ro_get :: "block_id \<Rightarrow> (refcounts, int) st" where
  "ro_get i = rc_get i"

subsection \<open>The part of an allocator that owns ids, objects and copies\<close>

text \<open>
  The state of \<open>NaiveBlockAllocator\<close> with the objects it shares: the heap of block objects,
  its reference counter, its copy-on-write tracker (\<open>copy_on_writes\<close>) and its \<open>BlockPool\<close> (the
  fields \<open>bp_\<close>; \<open>bp_prefix\<close> says which class \<open>create_block\<close> makes). The prefix-caching
  allocator extends this record, since it shares the pool and the counter of the naive
  allocator it holds.
\<close>

record NaiveAllocator =
  objs :: "Block list"
  free_block_indices :: "block_id list"
  all_block_indices :: "block_id set"
  refcounter :: refcounts
  a_block_size :: nat
  copy_on_writes :: "(block_id \<times> block_id) list"
  bp_block_size :: nat
  bp_pool_size :: nat
  bp_free_ids :: "nat list"
  bp_pool :: "nat list"
  bp_prefix :: bool
  bp_owner :: Device

type_synonym ('x, 'a) na = "('x NaiveAllocator_scheme, 'a) st"

definition refcounterM :: "(refcounts, 'a) st \<Rightarrow> ('x, 'a) na" where
  "refcounterM = zoomM refcounter (\<lambda>r s. s\<lparr>refcounter := r\<rparr>)"

abbreviation obj :: "nat \<Rightarrow> 'x NaiveAllocator_scheme \<Rightarrow> Block" where
  "obj a s \<equiv> objs s ! a"

definition mod_obj :: "nat \<Rightarrow> (Block \<Rightarrow> Block) \<Rightarrow> ('x, unit) na" where
  "mod_obj a f = modM (\<lambda>s. s\<lparr>objs := (objs s)[a := f (obj a s)]\<rparr>)"

text \<open>The \<open>block_id\<close> setter: \<open>NullBlock\<close> refuses it.\<close>

fun set_block_id :: "ref \<Rightarrow> block_id option \<Rightarrow> ('x, unit) na" where
  "set_block_id (Blk a) v = mod_obj a (\<lambda>b. b\<lparr>b_block_id := v\<rparr>)"
| "set_block_id (NullB a) v = raiseM ValueError"

subsection \<open>Copy-on-write tracking\<close>

definition cow_is_appendable :: "ref \<Rightarrow> ('x, bool) na" where
  "cow_is_appendable r = getM (\<lambda>s. b_block_id (obj (addr r) s)) (\<lambda>i.
     case i of
       None \<Rightarrow> retM True
     | Some i \<Rightarrow> bindM (refcounterM (ro_get i)) (\<lambda>n. retM (n \<le> 1)))"

definition record_cow :: "block_id option \<Rightarrow> block_id option \<Rightarrow> ('x, unit) na" where
  "record_cow src trg =
     bindM (fromM AssertionError src) (\<lambda>a.
     bindM (fromM AssertionError trg) (\<lambda>b.
     modM (\<lambda>s. s\<lparr>copy_on_writes := copy_on_writes s @ [(a, b)]\<rparr>)))"

definition clear_cows :: "('x, (block_id \<times> block_id) list) na" where
  "clear_cows = getM copy_on_writes (\<lambda>cows.
     thenM (modM (\<lambda>s. s\<lparr>copy_on_writes := []\<rparr>)) (retM cows))"

subsection \<open>Block objects\<close>

text \<open>\<open>NaiveBlock._append_token_ids_no_cow\<close> and \<open>NaiveBlock.__init__\<close>.\<close>

definition append_token_ids_no_cow :: "nat \<Rightarrow> int list \<Rightarrow> ('x, unit) na" where
  "append_token_ids_no_cow a ts =
     (if ts = [] then retM ()
      else thenM (getM (obj a) (\<lambda>b. assertM (int (length ts) \<le> num_empty_slots b)))
                 (mod_obj a (\<lambda>b. b\<lparr>b_token_ids := b_token_ids b @ ts\<rparr>)))"

definition naive_block_init :: "nat \<Rightarrow> ref option \<Rightarrow> int list \<Rightarrow> nat \<Rightarrow> Device \<Rightarrow> block_id option
    \<Rightarrow> ('x, unit) na" where
  "naive_block_init a prev ts bsize owner bid =
     thenM (mod_obj a (\<lambda>b. b\<lparr>b_token_ids := [], b_block_size := bsize, b_prev_block := prev,
              b_block_id := bid, b_owner := owner\<rparr>))
           (append_token_ids_no_cow a ts)"

text \<open>\<open>assert_prefix_caching_block_or_none\<close>: a \<open>NullBlock\<close> or a \<open>NaiveBlock\<close> fails.\<close>

definition prefix_block_or_none :: "Block list \<Rightarrow> ref option \<Rightarrow> bool" where
  "prefix_block_or_none os r \<longleftrightarrow> (case r of
     None \<Rightarrow> True
   | Some (Blk a) \<Rightarrow> b_prefix (os ! a) \<noteq> None
   | Some (NullB a) \<Rightarrow> False)"

definition num_tokens_total :: "Block \<Rightarrow> exn + int" where
  "num_tokens_total b = (case b_prefix b of
     None \<Rightarrow> Inl NotImplementedError
   | Some p \<Rightarrow> Inr (pb_cached_num_tokens_total p))"

definition update_num_tokens_total :: "nat \<Rightarrow> ('x, unit) na" where
  "update_num_tokens_total a = getM (obj a) (\<lambda>b.
     bindM (case b_prev_block b of
         None \<Rightarrow> retM 0
       | Some r \<Rightarrow> getM (obj (addr r)) (\<lambda>pb. liftM (num_tokens_total pb))) (\<lambda>prev_total.
     mod_obj a (\<lambda>b. b\<lparr>b_prefix := map_option (\<lambda>p. p\<lparr>pb_cached_num_tokens_total :=
       prev_total + int (length (b_token_ids b))\<rparr>) (b_prefix b)\<rparr>)))"

definition prefix_block_init :: "nat \<Rightarrow> ref option \<Rightarrow> int list \<Rightarrow> nat \<Rightarrow> Device \<Rightarrow> block_id option
    \<Rightarrow> int option \<Rightarrow> ('x, unit) na" where
  "prefix_block_init a prev ts bsize owner bid eh =
     thenM (getM objs (\<lambda>os. assertM (prefix_block_or_none os prev)))
    (thenM (mod_obj a (\<lambda>b. b\<lparr>b_prev_block := prev,
        b_prefix := Some \<lparr>pb_cached_content_hash = None, pb_cached_num_tokens_total = 0,
          pb_computed = False, pb_last_accessed = - 1, pb_extra_hash = eh\<rparr>\<rparr>))
    (thenM (naive_block_init a prev ts bsize owner bid)
           (update_num_tokens_total a)))"

text \<open>\<open>block.__init__\<close> of a pooled object, by its class; and the object \<open>create_block\<close> makes.\<close>

definition block_init :: "nat \<Rightarrow> ref option \<Rightarrow> int list \<Rightarrow> nat \<Rightarrow> Device \<Rightarrow> block_id option
    \<Rightarrow> int option \<Rightarrow> ('x, unit) na" where
  "block_init a prev ts bsize owner bid eh = getM (obj a) (\<lambda>b.
     case b_prefix b of
       None \<Rightarrow> naive_block_init a prev ts bsize owner bid
     | Some p \<Rightarrow> prefix_block_init a prev ts bsize owner bid eh)"

definition new_block :: "bool \<Rightarrow> nat \<Rightarrow> Device \<Rightarrow> Block" where
  "new_block prefix bsize owner = \<lparr>b_token_ids = [], b_block_size = bsize, b_prev_block = None,
     b_block_id = None, b_owner = owner, b_pool_id = None,
     b_prefix = (if prefix then Some \<lparr>pb_cached_content_hash = None, pb_cached_num_tokens_total = 0,
          pb_computed = False, pb_last_accessed = - 1, pb_extra_hash = None\<rparr> else None)\<rparr>"

subsection \<open>The pool of block objects\<close>

text \<open>One round of the loops of \<open>BlockPool.__init__\<close> and \<open>increase_pool\<close>.\<close>

definition bp_create :: "('x, unit) na" where
  "bp_create = modM (\<lambda>s. s\<lparr>
     objs := objs s @ [new_block (bp_prefix s) (bp_block_size s) (bp_owner s)],
     bp_pool := bp_pool s @ [length (objs s)]\<rparr>)"

definition bp_init :: "nat \<Rightarrow> ('x, unit) na" where
  "bp_init n =
     thenM (modM (\<lambda>s. s\<lparr>bp_pool_size := n, bp_free_ids := [0..<n], bp_pool := []\<rparr>))
           (forM [0..<n] (\<lambda>_. bp_create))"

definition increase_pool :: "('x, unit) na" where
  "increase_pool = getM bp_pool_size (\<lambda>cur.
     thenM (modM (\<lambda>s. s\<lparr>bp_pool_size := cur * 2, bp_free_ids := bp_free_ids s @ [cur..<cur * 2]\<rparr>))
           (forM [cur..<cur * 2] (\<lambda>_. bp_create)))"

definition init_block :: "ref option \<Rightarrow> int list \<Rightarrow> nat \<Rightarrow> block_id option \<Rightarrow> int option
    \<Rightarrow> ('x, ref) na" where
  "init_block prev ts bsize bid eh =
     thenM (getM bp_free_ids (\<lambda>free. if free = []
        then thenM increase_pool (getM bp_free_ids (\<lambda>free. assertM (free \<noteq> [])))
        else retM ()))
    (getM bp_free_ids (\<lambda>free.
     bindM (fromM IndexError (case free of [] \<Rightarrow> None | i # _ \<Rightarrow> Some i)) (\<lambda>i.
     thenM (modM (\<lambda>s. s\<lparr>bp_free_ids := tl free\<rparr>))
    (getM bp_pool (\<lambda>pool.
     bindM (fromM IndexError (if i < length pool then Some (pool ! i) else None)) (\<lambda>a.
     getM (obj a) (\<lambda>b.
     thenM (block_init a prev ts bsize (b_owner b) bid eh)
    (thenM (mod_obj a (\<lambda>b. b\<lparr>b_pool_id := Some i\<rparr>))
           (retM (Blk a))))))))))"

text \<open>A block that never came from a pool, and a \<open>NullBlock\<close>, have no \<open>pool_id\<close>.\<close>

fun free_block :: "ref \<Rightarrow> ('x, unit) na" where
  "free_block (Blk a) = getM (obj a) (\<lambda>b.
     bindM (fromM AttributeError (b_pool_id b)) (\<lambda>i.
     modM (\<lambda>s. s\<lparr>bp_free_ids := i # bp_free_ids s\<rparr>)))"
| "free_block (NullB a) = raiseM AttributeError"

subsection \<open>Lists of blocks with their ids\<close>

record BlockList =
  bl_blocks :: "ref list"
  bl_block_ids :: "block_id list"

definition bl_add_block_id :: "block_id option \<Rightarrow> (BlockList, unit) st" where
  "bl_add_block_id i = bindM (fromM AssertionError i) (\<lambda>i.
     modM (\<lambda>l. l\<lparr>bl_block_ids := bl_block_ids l @ [i]\<rparr>))"

definition bl_update_block_id :: "nat \<Rightarrow> block_id option \<Rightarrow> (BlockList, unit) st" where
  "bl_update_block_id k i = bindM (fromM AssertionError i) (\<lambda>i.
     thenM (getM bl_block_ids (\<lambda>ids. guardM (length ids \<le> k) IndexError))
           (modM (\<lambda>l. l\<lparr>bl_block_ids := (bl_block_ids l)[k := i]\<rparr>)))"

text \<open>\<open>ids\<close> is the attribute \<open>block_id\<close> of the blocks, in their order.\<close>

definition bl_update :: "(ref \<Rightarrow> block_id option) \<Rightarrow> ref list \<Rightarrow> (BlockList, unit) st" where
  "bl_update id_of blocks =
     thenM (modM (\<lambda>l. l\<lparr>bl_blocks := blocks, bl_block_ids := []\<rparr>))
           (forM blocks (\<lambda>r. bl_add_block_id (id_of r)))"

definition bl_append :: "(ref \<Rightarrow> block_id option) \<Rightarrow> ref \<Rightarrow> (BlockList, unit) st" where
  "bl_append id_of r =
     thenM (modM (\<lambda>l. l\<lparr>bl_blocks := bl_blocks l @ [r]\<rparr>)) (bl_add_block_id (id_of r))"

definition bl_getitem :: "nat \<Rightarrow> (BlockList, ref) st" where
  "bl_getitem k = getM bl_blocks (\<lambda>bs.
     fromM IndexError (if k < length bs then Some (bs ! k) else None))"

definition bl_setitem :: "(ref \<Rightarrow> block_id option) \<Rightarrow> nat \<Rightarrow> ref \<Rightarrow> (BlockList, unit) st" where
  "bl_setitem id_of k r =
     thenM (getM bl_blocks (\<lambda>bs. guardM (length bs \<le> k) IndexError))
    (thenM (modM (\<lambda>l. l\<lparr>bl_blocks := (bl_blocks l)[k := r]\<rparr>))
           (bl_update_block_id k (id_of r)))"

definition bl_len :: "BlockList \<Rightarrow> nat" where
  "bl_len l = length (bl_blocks l)"

definition bl_reset :: "(BlockList, unit) st" where
  "bl_reset = modM (\<lambda>l. l\<lparr>bl_blocks := [], bl_block_ids := []\<rparr>)"

subsection \<open>Hit rates\<close>

text \<open>Rates are rationals here: the model does not round them.\<close>

record CacheMetricData =
  num_completed_blocks :: nat
  completed_block_cache_hit_rate :: rat
  num_incompleted_block_queries :: nat
  num_incompleted_block_hit :: nat
  cm_block_size :: nat

definition cm_init :: CacheMetricData where
  "cm_init = \<lparr>num_completed_blocks = 0, completed_block_cache_hit_rate = 0,
     num_incompleted_block_queries = 0, num_incompleted_block_hit = 0, cm_block_size = 1000\<rparr>"

definition cm_query :: "bool \<Rightarrow> CacheMetricData \<Rightarrow> CacheMetricData" where
  "cm_query hit m =
     (let q = num_incompleted_block_queries m + 1;
          h = num_incompleted_block_hit m + (if hit then 1 else 0) in
      if q = cm_block_size m
      then m\<lparr>completed_block_cache_hit_rate :=
               (completed_block_cache_hit_rate m * of_nat (num_completed_blocks m)
                 + of_nat h / of_nat q) / of_nat (num_completed_blocks m + 1),
             num_incompleted_block_queries := 0, num_incompleted_block_hit := 0,
             num_completed_blocks := num_completed_blocks m + 1\<rparr>
      else m\<lparr>num_incompleted_block_queries := q, num_incompleted_block_hit := h\<rparr>)"

definition cm_get_hit_rate :: "CacheMetricData \<Rightarrow> rat" where
  "cm_get_hit_rate m =
     (let incomplete_ratio = of_nat (num_incompleted_block_queries m) / of_nat (cm_block_size m);
          total = of_nat (num_completed_blocks m) + incomplete_ratio;
          completed = (if num_completed_blocks m > 0
            then completed_block_cache_hit_rate m * of_nat (num_completed_blocks m) else 0);
          incompleted = (if num_incompleted_block_queries m > 0
            then of_nat (num_incompleted_block_hit m) / of_nat (num_incompleted_block_queries m)
                   * incomplete_ratio else 0) in
      if total = 0 then 0 else (completed + incompleted) / total)"

subsection \<open>The chain of a block\<close>

text \<open>
  The blocks from the first of the sequence to the given one. \<open>recurse\<close> follows \<open>prev_block\<close>; a
  chain longer than the number of objects is cyclic, where Python stops with a
  \<open>RecursionError\<close>, a \<open>RuntimeError\<close>.
\<close>

fun all_blocks_rec :: "nat \<Rightarrow> Block list \<Rightarrow> ref \<Rightarrow> exn + ref list" where
  "all_blocks_rec 0 os r = Inl RuntimeError"
| "all_blocks_rec (Suc n) os r =
     (case b_prev_block (os ! addr r) of
        None \<Rightarrow> Inr [r]
      | Some p \<Rightarrow> (case all_blocks_rec n os p of Inl e \<Rightarrow> Inl e | Inr rs \<Rightarrow> Inr (rs @ [r])))"

definition get_all_blocks_recursively :: "ref \<Rightarrow> ('x, ref list) na" where
  "get_all_blocks_recursively r = getM objs (\<lambda>os. liftM (all_blocks_rec (Suc (length os)) os r))"

subsection \<open>The pool never hands out an object in use\<close>

definition bp_ok :: "'x NaiveAllocator_scheme \<Rightarrow> bool" where
  "bp_ok s \<longleftrightarrow> length (bp_pool s) = bp_pool_size s \<and> distinct (bp_pool s) \<and>
     set (bp_pool s) \<subseteq> {0..<length (objs s)} \<and> distinct (bp_free_ids s) \<and>
     set (bp_free_ids s) \<subseteq> {0..<bp_pool_size s}"

definition in_use :: "'x NaiveAllocator_scheme \<Rightarrow> nat set" where
  "in_use s = (\<lambda>i. bp_pool s ! i) ` ({0..<bp_pool_size s} - set (bp_free_ids s))"

lemma bp_create_run: "bp_create s = (Inr (), s\<lparr>
     objs := objs s @ [new_block (bp_prefix s) (bp_block_size s) (bp_owner s)],
     bp_pool := bp_pool s @ [length (objs s)]\<rparr>)"
  by (simp add: bp_create_def run_simps)

lemma then_bp_create: "thenM bp_create n s = n (s\<lparr>
     objs := objs s @ [new_block (bp_prefix s) (bp_block_size s) (bp_owner s)],
     bp_pool := bp_pool s @ [length (objs s)]\<rparr>)"
  by (simp add: thenM_run bp_create_run)

lemma bp_create_loop:
  "forM xs (\<lambda>_. bp_create) s = (Inr (), s\<lparr>
     objs := objs s @ replicate (length xs) (new_block (bp_prefix s) (bp_block_size s) (bp_owner s)),
     bp_pool := bp_pool s @ [length (objs s)..<length (objs s) + length xs]\<rparr>)"
proof (induction xs arbitrary: s)
  case Nil
  then show ?case by (simp add: run_simps)
next
  case (Cons x xs)
  have "[n..<Suc (n + m)] = n # [Suc n..<Suc (n + m)]" for n m :: nat by (simp add: upt_conv_Cons)
  then show ?case by (simp add: then_bp_create Cons.IH del: upt_Suc)
qed

text \<open>The state after \<open>increase_pool\<close>.\<close>

definition bp_grown :: "'x NaiveAllocator_scheme \<Rightarrow> 'x NaiveAllocator_scheme" where
  "bp_grown s = s\<lparr>bp_pool_size := bp_pool_size s * 2,
     bp_free_ids := bp_free_ids s @ [bp_pool_size s..<bp_pool_size s * 2],
     objs := objs s @ replicate (bp_pool_size s) (new_block (bp_prefix s) (bp_block_size s) (bp_owner s)),
     bp_pool := bp_pool s @ [length (objs s)..<length (objs s) + bp_pool_size s]\<rparr>"

lemma increase_pool_run: "increase_pool s = (Inr (), bp_grown s)"
  by (simp add: increase_pool_def run_simps bp_create_loop bp_grown_def)

lemma bp_grown_ok:
  assumes "bp_ok s"
  shows "bp_ok (bp_grown s)" and "in_use (bp_grown s) = in_use s"
proof -
  from assms show "bp_ok (bp_grown s)"
    by (auto simp: bp_ok_def bp_grown_def)
  have "{0..<bp_pool_size s * 2} - (set (bp_free_ids s) \<union> {bp_pool_size s..<bp_pool_size s * 2})
      = {0..<bp_pool_size s} - set (bp_free_ids s)"
    by auto
  moreover have "(bp_pool s @ l) ! i = bp_pool s ! i" if "i \<in> {0..<bp_pool_size s} - set (bp_free_ids s)" for i l
    using assms that by (simp add: bp_ok_def nth_append)
  ultimately show "in_use (bp_grown s) = in_use s"
    by (simp add: in_use_def bp_grown_def)
qed

text \<open>Fields of the object a method may write, and what it leaves alone.\<close>

definition only_obj :: "nat \<Rightarrow> 'x NaiveAllocator_scheme \<Rightarrow> 'x NaiveAllocator_scheme \<Rightarrow> bool" where
  "only_obj a s t \<longleftrightarrow> (\<exists>b. t = s\<lparr>objs := (objs s)[a := b]\<rparr>)"

lemma only_obj_refl [simp]: "only_obj a s s"
  unfolding only_obj_def by (rule exI [of _ "objs s ! a"]) simp

lemma only_obj_trans [trans]: "only_obj a s t \<Longrightarrow> only_obj a t u \<Longrightarrow> only_obj a s u"
  unfolding only_obj_def by auto

lemma mod_obj_only: "mod_obj a f s = (r, t) \<Longrightarrow> only_obj a s t"
  by (auto simp: mod_obj_def run_simps only_obj_def)

lemma only_obj_bp: "only_obj a s t \<Longrightarrow> bp_ok t = bp_ok s" "only_obj a s t \<Longrightarrow> in_use t = in_use s"
  by (auto simp: only_obj_def bp_ok_def in_use_def)

lemma block_update_order:
  "b\<lparr>b_token_ids := ts, b_block_size := n, b_prev_block := p, b_block_id := i, b_owner := ow\<rparr>
    = b\<lparr>b_block_size := n, b_prev_block := p, b_block_id := i, b_owner := ow, b_token_ids := ts\<rparr>"
  for b :: Block
  by (cases b) simp

lemma naive_block_init_run:
  assumes "naive_block_init a prev ts bsize owner bid s = (Inr u, t)" and "a < length (objs s)"
  shows "length ts \<le> bsize \<and> t = s\<lparr>objs := (objs s)[a := (obj a s)\<lparr>b_block_size := bsize,
     b_prev_block := prev, b_block_id := bid, b_owner := owner, b_token_ids := ts\<rparr>]\<rparr>"
  using assms by (auto simp: naive_block_init_def append_token_ids_no_cow_def mod_obj_def ok_simps
      num_empty_slots_def block_update_order split: if_splits)

lemma naive_block_init_returns:
  assumes "length ts \<le> bsize" and "a < length (objs s)"
  shows "\<exists>t. naive_block_init a prev ts bsize owner bid s = (Inr (), t)"
  using assms by (simp add: naive_block_init_def append_token_ids_no_cow_def mod_obj_def run_simps
      num_empty_slots_def)

lemma update_num_tokens_total_only:
  "update_num_tokens_total a s = (Inr u, t) \<Longrightarrow> a < length (objs s) \<Longrightarrow>
     \<exists>n. t = s\<lparr>objs := (objs s)[a := (obj a s)\<lparr>b_prefix := map_option (\<lambda>p. p\<lparr>pb_cached_num_tokens_total := n\<rparr>)
        (b_prefix (obj a s))\<rparr>]\<rparr>"
  by (cases "b_prev_block (obj a s)") (auto simp: update_num_tokens_total_def ok_simps mod_obj_def)

text \<open>What \<open>__init__\<close> makes of a pooled object, whichever class it is of.\<close>

definition initialised :: "Block \<Rightarrow> ref option \<Rightarrow> int list \<Rightarrow> nat \<Rightarrow> block_id option \<Rightarrow> bool" where
  "initialised b prev ts bsize bid \<longleftrightarrow> b_token_ids b = ts \<and> b_block_size b = bsize \<and>
     b_prev_block b = prev \<and> b_block_id b = bid \<and> length ts \<le> bsize"

lemma block_init_run:
  assumes "block_init a prev ts bsize owner bid eh s = (Inr u, t)" and "a < length (objs s)"
  shows "only_obj a s t \<and> initialised (obj a t) prev ts bsize bid
    \<and> (b_prefix (obj a t) = None \<longleftrightarrow> b_prefix (obj a s) = None) \<and> b_owner (obj a t) = owner"
proof (cases "b_prefix (obj a s)")
  case None
  then have "naive_block_init a prev ts bsize owner bid s = (Inr u, t)"
    using assms(1) by (simp add: block_init_def run_simps)
  from naive_block_init_run [OF this assms(2)] None assms(2) show ?thesis
    by (auto simp: only_obj_def initialised_def)
next
  case (Some p)
  then have "prefix_block_init a prev ts bsize owner bid eh s = (Inr u, t)"
    using assms(1) by (simp add: block_init_def run_simps)
  then obtain v w where v: "v = s\<lparr>objs := (objs s)[a := (obj a s)\<lparr>b_prev_block := prev,
        b_prefix := Some \<lparr>pb_cached_content_hash = None, pb_cached_num_tokens_total = 0,
          pb_computed = False, pb_last_accessed = - 1, pb_extra_hash = eh\<rparr>\<rparr>]\<rparr>"
    and w: "naive_block_init a prev ts bsize owner bid v = (Inr (), w)"
    and t: "update_num_tokens_total a w = (Inr u, t)"
    by (auto simp: prefix_block_init_def ok_simps mod_obj_def)
  from v assms(2) have "a < length (objs v)" by simp
  from naive_block_init_run [OF w this] have w': "length ts \<le> bsize"
    "w = v\<lparr>objs := (objs v)[a := (obj a v)\<lparr>b_block_size := bsize,
     b_prev_block := prev, b_block_id := bid, b_owner := owner, b_token_ids := ts\<rparr>]\<rparr>" by auto
  then have "a < length (objs w)" using assms(2) v by simp
  from update_num_tokens_total_only [OF t this] w' v assms(2) Some show ?thesis
    by (auto simp: only_obj_def initialised_def)
qed

text \<open>What an operation on objects leaves alone.\<close>

definition same_ids :: "'x NaiveAllocator_scheme \<Rightarrow> 'x NaiveAllocator_scheme \<Rightarrow> bool" where
  "same_ids s t \<longleftrightarrow> free_block_indices t = free_block_indices s \<and>
     all_block_indices t = all_block_indices s \<and> refcounter t = refcounter s \<and>
     copy_on_writes t = copy_on_writes s \<and> a_block_size t = a_block_size s \<and> bp_prefix t = bp_prefix s \<and>
     bp_owner t = bp_owner s"

definition same_objs_but :: "nat \<Rightarrow> 'x NaiveAllocator_scheme \<Rightarrow> 'x NaiveAllocator_scheme \<Rightarrow> bool" where
  "same_objs_but a s t \<longleftrightarrow> length (objs s) \<le> length (objs t) \<and>
     (\<forall>x < length (objs s). x \<noteq> a \<longrightarrow> obj x t = obj x s)"

text \<open>Every object of the pool is of the class the pool makes, and bound to its allocator.\<close>

definition bp_kind :: "'x NaiveAllocator_scheme \<Rightarrow> bool" where
  "bp_kind s \<longleftrightarrow> (\<forall>a \<in> set (bp_pool s). (b_prefix (obj a s) \<noteq> None \<longleftrightarrow> bp_prefix s) \<and>
     b_owner (obj a s) = bp_owner s)"

lemma only_obj_same:
  "only_obj a s t \<Longrightarrow> same_ids s t" "only_obj a s t \<Longrightarrow> same_objs_but a s t"
  "only_obj a s t \<Longrightarrow> length (objs t) = length (objs s)"
  "only_obj a s t \<Longrightarrow> bp_free_ids t = bp_free_ids s" "only_obj a s t \<Longrightarrow> bp_pool t = bp_pool s"
  "only_obj a s t \<Longrightarrow> bp_pool_size t = bp_pool_size s"
  by (auto simp: only_obj_def same_ids_def same_objs_but_def)

lemma bp_grown_kind: "bp_ok s \<Longrightarrow> bp_kind s \<Longrightarrow> bp_kind (bp_grown s)"
  by (auto simp: bp_kind_def bp_ok_def bp_grown_def nth_append new_block_def)

lemma bp_grown_same: "same_ids s (bp_grown s)" "same_objs_but a s (bp_grown s)"
  by (auto simp: same_ids_def same_objs_but_def bp_grown_def nth_append)

text \<open>The pool with at least one free object that \<open>init_block\<close> takes the first of.\<close>

definition bp_ready :: "'x NaiveAllocator_scheme \<Rightarrow> 'x NaiveAllocator_scheme" where
  "bp_ready s = (if bp_free_ids s = [] then bp_grown s else s)"

lemma bp_ready:
  assumes "bp_ok s" and "0 < bp_pool_size s"
  shows "bp_ok (bp_ready s)" and "in_use (bp_ready s) = in_use s" and "bp_free_ids (bp_ready s) \<noteq> []"
    and "same_ids s (bp_ready s)" and "same_objs_but a s (bp_ready s)"
  using assms bp_grown_ok [OF assms(1)] bp_grown_same
  by (auto simp: bp_ready_def bp_grown_def same_ids_def same_objs_but_def)

text \<open>Taking the first free object.\<close>

definition bp_take :: "'x NaiveAllocator_scheme \<Rightarrow> 'x NaiveAllocator_scheme" where
  "bp_take s = (bp_ready s)\<lparr>bp_free_ids := tl (bp_free_ids (bp_ready s))\<rparr>"

definition bp_addr :: "'x NaiveAllocator_scheme \<Rightarrow> nat" where
  "bp_addr s = bp_pool (bp_ready s) ! hd (bp_free_ids (bp_ready s))"

lemma bp_take:
  assumes "bp_ok s" and "0 < bp_pool_size s"
  shows "bp_ok (bp_take s)" and "in_use (bp_take s) = insert (bp_addr s) (in_use s)"
    and "bp_addr s \<notin> in_use s" and "bp_addr s < length (objs (bp_take s))"
    and "hd (bp_free_ids (bp_ready s)) < length (bp_pool (bp_ready s))"
    and "bp_addr s \<in> set (bp_pool (bp_take s))"
proof -
  note r = bp_ready [OF assms]
  obtain i rest where f: "bp_free_ids (bp_ready s) = i # rest"
    using r(3) by (cases "bp_free_ids (bp_ready s)") auto
  let ?r = "bp_ready s"
  have ok: "length (bp_pool ?r) = bp_pool_size ?r" "distinct (bp_pool ?r)"
    "set (bp_pool ?r) \<subseteq> {0..<length (objs ?r)}" "distinct (i # rest)" "set (i # rest) \<subseteq> {0..<bp_pool_size ?r}"
    using r(1) f unfolding bp_ok_def by simp_all
  then have i: "i < bp_pool_size ?r" by simp
  show "hd (bp_free_ids ?r) < length (bp_pool ?r)" using i ok(1) f by simp
  have a: "bp_addr s = bp_pool ?r ! i" by (simp add: bp_addr_def f)
  then have a': "bp_addr s \<in> set (bp_pool ?r)" using i ok(1) by simp
  then show "bp_addr s \<in> set (bp_pool (bp_take s))" by (simp add: bp_take_def)
  show "bp_addr s < length (objs (bp_take s))" using a' ok(3) by (auto simp: bp_take_def)
  show "bp_ok (bp_take s)" using r(1) f by (auto simp: bp_ok_def bp_take_def)
  have eq: "{0..<bp_pool_size ?r} - set rest = insert i ({0..<bp_pool_size ?r} - set (i # rest))"
    using i ok(4) by auto
  have "in_use (bp_take s) = (\<lambda>k. bp_pool ?r ! k) ` ({0..<bp_pool_size ?r} - set rest)"
    by (simp add: in_use_def bp_take_def f)
  also have "\<dots> = insert (bp_addr s) (in_use ?r)" unfolding eq by (simp add: a in_use_def f)
  finally show "in_use (bp_take s) = insert (bp_addr s) (in_use s)" using r(2) by simp
  have k: "bp_pool ?r ! k \<noteq> bp_pool ?r ! i" if "k < bp_pool_size ?r" "k \<noteq> i" for k
    using that i ok(1,2) by (simp add: nth_eq_iff_index_eq)
  have "bp_pool ?r ! i \<notin> (\<lambda>k. bp_pool ?r ! k) ` ({0..<bp_pool_size ?r} - set (i # rest))"
  proof
    assume "bp_pool ?r ! i \<in> (\<lambda>k. bp_pool ?r ! k) ` ({0..<bp_pool_size ?r} - set (i # rest))"
    then obtain j where j: "bp_pool ?r ! i = bp_pool ?r ! j" "j \<in> {0..<bp_pool_size ?r} - set (i # rest)"
      by (rule imageE)
    from j(2) have "j < bp_pool_size ?r" "j \<noteq> i" by auto
    with k j(1) show False by metis
  qed
  then have "bp_addr s \<notin> in_use ?r" unfolding in_use_def f a .
  then show "bp_addr s \<notin> in_use s" using r(2) by simp
qed

lemma init_block_unfold:
  assumes "bp_ok s" and "0 < bp_pool_size s"
  shows "init_block prev ts bsize bid eh s =
    (case block_init (bp_addr s) prev ts bsize (b_owner (obj (bp_addr s) (bp_take s))) bid eh (bp_take s) of
       (Inl e, t) \<Rightarrow> (Inl e, t)
     | (Inr u, t) \<Rightarrow> (Inr (Blk (bp_addr s)), t\<lparr>objs := (objs t)[bp_addr s :=
         (obj (bp_addr s) t)\<lparr>b_pool_id := Some (hd (bp_free_ids (bp_ready s)))\<rparr>]\<rparr>))"
proof -
  note r = bp_ready [OF assms] and k = bp_take(5) [OF assms]
  obtain i rest where f: "bp_free_ids (bp_ready s) = i # rest"
    using r(3) by (cases "bp_free_ids (bp_ready s)") auto
  have "init_block prev ts bsize bid eh s =
    (getM bp_free_ids (\<lambda>free.
     bindM (fromM IndexError (case free of [] \<Rightarrow> None | i # _ \<Rightarrow> Some i)) (\<lambda>i.
     thenM (modM (\<lambda>s. s\<lparr>bp_free_ids := tl free\<rparr>))
    (getM bp_pool (\<lambda>pool.
     bindM (fromM IndexError (if i < length pool then Some (pool ! i) else None)) (\<lambda>a.
     getM (obj a) (\<lambda>b.
     thenM (block_init a prev ts bsize (b_owner b) bid eh)
    (thenM (mod_obj a (\<lambda>b. b\<lparr>b_pool_id := Some i\<rparr>))
           (retM (Blk a)))))))))) (bp_ready s)"
  proof (cases "bp_free_ids s = []")
    case True
    then have "bp_free_ids (bp_grown s) \<noteq> []" using r(3) by (simp add: bp_ready_def)
    then show ?thesis using True
      by (simp add: init_block_def thenM_run getM_run increase_pool_run assertM_run bp_ready_def)
  next
    case False
    then show ?thesis by (simp add: init_block_def thenM_run getM_run retM_run bp_ready_def)
  qed
  also have "\<dots> = (case block_init (bp_addr s) prev ts bsize (b_owner (obj (bp_addr s) (bp_take s))) bid eh (bp_take s) of
       (Inl e, t) \<Rightarrow> (Inl e, t)
     | (Inr u, t) \<Rightarrow> (Inr (Blk (bp_addr s)), t\<lparr>objs := (objs t)[bp_addr s :=
         (obj (bp_addr s) t)\<lparr>b_pool_id := Some (hd (bp_free_ids (bp_ready s)))\<rparr>]\<rparr>))"
    using k by (simp add: f getM_run bindM_run fromM_run thenM_run modM_run retM_run mod_obj_def bp_addr_def
        bp_take_def split: prod.split sum.split)
  finally show ?thesis .
qed

lemma init_block_run:
  assumes "init_block prev ts bsize bid eh s = (Inr r, t)" and "bp_ok s" and "0 < bp_pool_size s"
  obtains a where "r = Blk a" "a \<notin> in_use s" "in_use t = insert a (in_use s)" "bp_ok t"
    "a < length (objs t)" "same_ids s t" "same_objs_but a s t" "initialised (obj a t) prev ts bsize bid"
    "b_pool_id (obj a t) \<noteq> None" "bp_pool_size s \<le> bp_pool_size t"
proof -
  note k = bp_take [OF assms(2,3)] and rd = bp_ready [OF assms(2,3)]
  let ?a = "bp_addr s" and ?s1 = "bp_take s"
  from assms(1) obtain u v where v: "block_init ?a prev ts bsize (b_owner (obj ?a ?s1)) bid eh ?s1 = (Inr u, v)"
    and r: "r = Blk ?a" and t: "t = v\<lparr>objs := (objs v)[?a :=
         (obj ?a v)\<lparr>b_pool_id := Some (hd (bp_free_ids (bp_ready s)))\<rparr>]\<rparr>"
    unfolding init_block_unfold [OF assms(2,3)] by (auto split: prod.splits sum.splits)
  from block_init_run [OF v k(4)] have b: "only_obj ?a ?s1 v" "initialised (obj ?a v) prev ts bsize bid" by auto
  have t1: "only_obj ?a v t" by (auto simp: t only_obj_def)
  have st: "only_obj ?a ?s1 t" by (rule only_obj_trans [OF b(1) t1])
  have len: "?a < length (objs v)" using k(4) only_obj_same(3) [OF b(1)] by simp
  have s1: "same_ids s ?s1" "same_objs_but ?a s ?s1"
    using rd(4,5) by (auto simp: bp_take_def same_ids_def same_objs_but_def)
  show thesis
  proof (rule that [OF r k(3)])
    show "in_use t = insert ?a (in_use s)" using k(2) only_obj_bp(2) [OF st] by simp
    show "bp_ok t" using k(1) only_obj_bp(1) [OF st] by simp
    show "?a < length (objs t)" using len by (simp add: t)
    show "same_ids s t" using s1(1) only_obj_same(1) [OF st] unfolding same_ids_def by simp
    show "same_objs_but ?a s t" using s1(2) only_obj_same(2) [OF st] unfolding same_objs_but_def by simp
    show "initialised (obj ?a t) prev ts bsize bid" using b(2) len by (simp add: t initialised_def)
    show "b_pool_id (obj ?a t) \<noteq> None" using len by (simp add: t)
    show "bp_pool_size s \<le> bp_pool_size t"
      using only_obj_same(6) [OF st] by (simp add: bp_take_def bp_ready_def bp_grown_def)
  qed
qed

text \<open>With a pool of naive blocks, only too many tokens make \<open>init_block\<close> raise.\<close>

lemma init_block_returns:
  assumes "bp_ok s" and "0 < bp_pool_size s" and "bp_kind s" and "\<not> bp_prefix s" and "length ts \<le> bsize"
  shows "\<exists>r t. init_block prev ts bsize bid eh s = (Inr r, t)"
proof -
  note k = bp_take [OF assms(1,2)]
  have "bp_kind (bp_ready s)" using bp_grown_kind [OF assms(1,3)] assms(3) by (simp add: bp_ready_def)
  then have "bp_kind (bp_take s)" by (simp add: bp_kind_def bp_take_def)
  moreover have "bp_prefix (bp_take s) = bp_prefix s" by (simp add: bp_take_def bp_ready_def bp_grown_def)
  ultimately have "b_prefix (obj (bp_addr s) (bp_take s)) = None"
    using k(6) assms(4) unfolding bp_kind_def by auto
  moreover obtain v where "naive_block_init (bp_addr s) prev ts bsize
      (b_owner (obj (bp_addr s) (bp_take s))) bid (bp_take s) = (Inr (), v)"
    using naive_block_init_returns [OF assms(5) k(4)] by blast
  ultimately show ?thesis
    by (simp add: init_block_unfold [OF assms(1,2)] block_init_def getM_run)
qed

lemma free_block_run:
  assumes "free_block r s = (Inr u, t)" and "bp_ok s"
  obtains a i where "r = Blk a" "b_pool_id (obj a s) = Some i" "t = s\<lparr>bp_free_ids := i # bp_free_ids s\<rparr>"
  using assms by (cases r) (auto simp: ok_simps)

subsection \<open>The hit rate is exact\<close>

definition cm_counts :: "CacheMetricData \<Rightarrow> nat \<Rightarrow> nat \<Rightarrow> bool" where
  "cm_counts m tot hits \<longleftrightarrow>
     num_incompleted_block_queries m < cm_block_size m \<and>
     num_incompleted_block_hit m \<le> num_incompleted_block_queries m \<and>
     tot = num_completed_blocks m * cm_block_size m + num_incompleted_block_queries m \<and>
     of_nat hits = completed_block_cache_hit_rate m * of_nat (num_completed_blocks m * cm_block_size m)
       + (of_nat (num_incompleted_block_hit m) :: rat)"

lemma rate_fold:
  assumes "(0 :: rat) \<le> n" and "0 < b"
  shows "(r * n + h / b) / (n + 1) * ((n + 1) * b) = r * (n * b) + h"
proof -
  have "(r * n + h / b) / (n + 1) * ((n + 1) * b) = (r * n + h / b) * b"
    using assms(1) by (simp add: add_nonneg_pos)
  also have "\<dots> = r * (n * b) + h" using assms(2) by (simp add: algebra_simps)
  finally show ?thesis .
qed

lemma cm_query_counts:
  assumes "cm_counts m tot hits"
  shows "cm_counts (cm_query hit m) (Suc tot) (hits + (if hit then 1 else 0))"
proof (cases "num_incompleted_block_queries m + 1 = cm_block_size m")
  case True
  let ?n = "of_nat (num_completed_blocks m) :: rat" and ?b = "of_nat (cm_block_size m) :: rat"
    and ?r = "completed_block_cache_hit_rate m"
    and ?h = "of_nat (num_incompleted_block_hit m + (if hit then 1 else 0)) :: rat"
  have b: "0 < cm_block_size m" using assms by (simp add: cm_counts_def)
  have "(?r * ?n + ?h / ?b) / (?n + 1) * ((?n + 1) * ?b) = ?r * (?n * ?b) + ?h"
    by (rule rate_fold) (use b in simp_all)
  moreover have "(of_nat (hits + (if hit then 1 else 0)) :: rat) = ?r * (?n * ?b) + ?h"
    using assms by (simp add: cm_counts_def)
  ultimately show ?thesis using assms True b
    by (simp add: cm_counts_def cm_query_def Let_def algebra_simps)
next
  case False
  then show ?thesis using assms by (simp add: cm_counts_def cm_query_def Let_def)
qed

lemma cm_queries_counts:
  "cm_counts m tot hits \<Longrightarrow>
     cm_counts (fold cm_query qs m) (tot + length qs) (hits + length (filter id qs))"
proof (induction qs arbitrary: m tot hits)
  case (Cons q qs)
  from Cons.IH [OF cm_query_counts [OF Cons.prems], of q] show ?case by (cases q) simp_all
qed simp

lemma cm_hit_rate:
  assumes "cm_counts m tot hits" and "0 < tot"
  shows "cm_get_hit_rate m = of_nat hits / of_nat tot"
proof -
  let ?n = "of_nat (num_completed_blocks m) :: rat" and ?b = "of_nat (cm_block_size m) :: rat"
    and ?q = "of_nat (num_incompleted_block_queries m) :: rat"
    and ?h = "of_nat (num_incompleted_block_hit m) :: rat"
    and ?r = "completed_block_cache_hit_rate m"
  have b: "0 < ?b" using assms(1) by (simp add: cm_counts_def)
  have t: "of_nat tot = ?n * ?b + ?q" and h: "of_nat hits = ?r * (?n * ?b) + ?h"
    using assms(1) by (simp_all add: cm_counts_def)
  have pos: "0 < ?n * ?b + ?q" using assms(2) t by (metis of_nat_0_less_iff)
  then have nz: "?n + ?q / ?b \<noteq> 0" using b by (simp add: field_simps)
  have "(if num_incompleted_block_queries m > 0 then ?h / ?q * (?q / ?b) else 0) = ?h / ?b"
    using b assms(1) by (auto simp: cm_counts_def)
  moreover have "(if num_completed_blocks m > 0 then ?r * ?n else 0) = ?r * ?n" by simp
  ultimately have "cm_get_hit_rate m = (?r * ?n + ?h / ?b) / (?n + ?q / ?b)"
    using nz by (simp add: cm_get_hit_rate_def Let_def)
  also have "\<dots> = ((?r * ?n + ?h / ?b) * ?b) / ((?n + ?q / ?b) * ?b)" using b by simp
  also have "\<dots> = of_nat hits / of_nat tot" using b by (simp add: t h algebra_simps)
  finally show ?thesis .
qed

text \<open>
  The hit rate that \<open>CacheMetricData\<close> reports after any sequence of queries is exactly the
  number of hits over the number of queries, however many blocks of queries it has folded away.
\<close>
theorem cache_hit_rate_exact:
  assumes "0 < b" and "qs \<noteq> []"
  shows "cm_get_hit_rate (fold cm_query qs (cm_init\<lparr>cm_block_size := b\<rparr>))
    = of_nat (length (filter id qs)) / of_nat (length qs)"
proof -
  have "cm_counts (cm_init\<lparr>cm_block_size := b\<rparr>) 0 0"
    using assms(1) by (simp add: cm_counts_def cm_init_def)
  from cm_hit_rate [OF cm_queries_counts [OF this]] assms(2) show ?thesis by simp
qed

theorem cache_hit_rate_exact_witness:
  "cm_get_hit_rate (fold cm_query [True, False, True] (cm_init\<lparr>cm_block_size := 2\<rparr>))
    = of_nat (length (filter id [True, False, True])) / of_nat (length [True, False, True])"
  by (rule cache_hit_rate_exact) simp_all

text \<open>
  A pool of naive blocks always has an object to give, growing when it must, and never gives
  out one that is in use: \<open>init_block\<close> returns a new object, initialised as asked, the objects in
  use are left as they are, and no block id changes hands.
\<close>
theorem block_pool_gives_fresh:
  assumes "bp_ok s" and "0 < bp_pool_size s" and "bp_kind s" and "\<not> bp_prefix s"
    and "length ts \<le> bsize"
  shows "\<exists>a t. init_block prev ts bsize bid eh s = (Inr (Blk a), t) \<and> a \<notin> in_use s \<and>
    in_use t = insert a (in_use s) \<and> bp_ok t \<and> initialised (obj a t) prev ts bsize bid \<and>
    same_objs_but a s t \<and> same_ids s t"
proof -
  from init_block_returns [OF assms] obtain r t where run: "init_block prev ts bsize bid eh s = (Inr r, t)"
    by blast
  from init_block_run [OF run assms(1,2)] run show ?thesis by metis
qed

definition ex_pool :: NaiveAllocator where
  "ex_pool = snd (bp_init 1 \<lparr>objs = [], free_block_indices = [], all_block_indices = {},
     refcounter = Map.empty, a_block_size = 4, copy_on_writes = [], bp_block_size = 4,
     bp_pool_size = 0, bp_free_ids = [], bp_pool = [], bp_prefix = False, bp_owner = GPU\<rparr>)"

definition ex_pool_used :: NaiveAllocator where
  "ex_pool_used = snd (init_block None [1, 2] 4 (Some 0) None ex_pool)"

lemma ex_pool_used_eq: "ex_pool_used = \<lparr>objs = [\<lparr>b_token_ids = [1, 2], b_block_size = 4,
     b_prev_block = None, b_block_id = Some 0, b_owner = GPU, b_pool_id = Some 0, b_prefix = None\<rparr>],
     free_block_indices = [], all_block_indices = {}, refcounter = Map.empty, a_block_size = 4,
     copy_on_writes = [], bp_block_size = 4, bp_pool_size = 1, bp_free_ids = [], bp_pool = [0],
     bp_prefix = False, bp_owner = GPU\<rparr>"
  by (simp add: ex_pool_used_def ex_pool_def bp_init_def run_simps bp_create_def init_block_def
      block_init_def new_block_def naive_block_init_def mod_obj_def append_token_ids_no_cow_def
      num_empty_slots_def)

theorem block_pool_gives_fresh_witness:
  "\<exists>a t. init_block None [7] 4 (Some 5) None ex_pool_used = (Inr (Blk a), t) \<and> a \<notin> in_use ex_pool_used \<and>
    in_use t = insert a (in_use ex_pool_used) \<and> bp_ok t \<and> initialised (obj a t) None [7] 4 (Some 5) \<and>
    same_objs_but a ex_pool_used t \<and> same_ids ex_pool_used t"
  by (rule block_pool_gives_fresh) (simp_all add: ex_pool_used_eq bp_ok_def bp_kind_def)

end
