(* ===== verification/BlockSource.thy ===== *)
theory BlockSource
  imports BlockCommon
begin

section \<open>What a block table asks of an allocator\<close>

text \<open>
  The contract between a block table and the allocator of a device, whichever its class:
  \<open>imms\<close> allocates full blocks, \<open>mut\<close> an empty one, \<open>app\<close> writes tokens to a block \<open>mut\<close> just
  gave. \<open>blk s a\<close> is the object at \<open>a\<close>, \<open>used s\<close> the objects handed out, \<open>avail s\<close> the number
  of blocks that can be allocated, \<open>follows s p\<close> that a full block may follow \<open>p\<close>, \<open>linkable s p\<close>
  that an empty one may.
\<close>

text \<open>\<open>t\<close> has the new blocks \<open>rs\<close>, each with an id, besides the blocks of \<open>s\<close>, which are untouched.\<close>

definition adds_blocks :: "('s \<Rightarrow> nat \<Rightarrow> Block) \<Rightarrow> ('s \<Rightarrow> nat set) \<Rightarrow> 's \<Rightarrow> ref list \<Rightarrow> 's \<Rightarrow> bool" where
  "adds_blocks blk used s rs t \<longleftrightarrow> distinct rs \<and>
     (\<forall>r \<in> set rs. r = Blk (addr r) \<and> b_block_id (blk t (addr r)) \<noteq> None) \<and>
     addr ` set rs \<inter> used s = {} \<and> used t = used s \<union> addr ` set rs \<and>
     (\<forall>x \<in> used s. blk t x = blk s x)"

lemma adds_blocks_Nil [simp]: "adds_blocks blk used s [] s"
  by (simp add: adds_blocks_def)

lemma adds_blocks_trans:
  assumes "adds_blocks blk used s rs t" and "adds_blocks blk used t qs u"
  shows "adds_blocks blk used s (rs @ qs) u"
  using assms unfolding adds_blocks_def by (auto simp: image_Un)

text \<open>The tokens of blocks.\<close>

definition tokens_at :: "('s \<Rightarrow> nat \<Rightarrow> Block) \<Rightarrow> 's \<Rightarrow> ref list \<Rightarrow> int list list" where
  "tokens_at blk s rs = map (\<lambda>r. b_token_ids (blk s (addr r))) rs"

lemma tokens_at_keep:
  assumes "adds_blocks blk used t qs u" and "addr ` set rs \<subseteq> used t"
  shows "tokens_at blk u rs = tokens_at blk t rs"
  using assms by (auto simp: adds_blocks_def tokens_at_def)

locale block_source =
  fixes imms :: "ref option \<Rightarrow> int list list \<Rightarrow> ('s, ref list) st"
    and mut :: "ref option \<Rightarrow> ('s, ref) st"
    and app :: "ref \<Rightarrow> int list \<Rightarrow> ('s, unit) st"
    and inv :: "'s \<Rightarrow> bool"
    and blk :: "'s \<Rightarrow> nat \<Rightarrow> Block"
    and used :: "'s \<Rightarrow> nat set"
    and avail :: "'s \<Rightarrow> nat"
    and bsize :: "'s \<Rightarrow> nat"
    and follows :: "'s \<Rightarrow> ref option \<Rightarrow> bool"
    and linkable :: "'s \<Rightarrow> ref option \<Rightarrow> bool"
    and fresh :: "'s \<Rightarrow> ref \<Rightarrow> bool"
  assumes first_follows: "follows s None"
    and follows_linkable: "inv s \<Longrightarrow> follows s p \<Longrightarrow> linkable s p"
    and imms_ok: "inv s \<Longrightarrow> follows s p \<Longrightarrow> tss \<noteq> [] \<Longrightarrow> (\<forall>ts \<in> set tss. length ts = bsize s) \<Longrightarrow>
      length tss \<le> avail s \<Longrightarrow> 0 < bsize s \<Longrightarrow> \<exists>rs t. imms p tss s = (Inr rs, t) \<and> inv t \<and> bsize t = bsize s \<and>
        adds_blocks blk used s rs t \<and> tokens_at blk t rs = tss \<and> avail s \<le> avail t + length tss \<and>
        follows t (Some (last rs))"
    and mut_ok: "inv s \<Longrightarrow> linkable s p \<Longrightarrow> 0 < avail s \<Longrightarrow> 0 < bsize s \<Longrightarrow>
      \<exists>r t. mut p s = (Inr r, t) \<and> inv t \<and> bsize t = bsize s \<and> adds_blocks blk used s [r] t \<and>
        tokens_at blk t [r] = [[]] \<and> avail s \<le> Suc (avail t) \<and> fresh t r \<and> linkable t (Some r)"
    and app_ok: "inv s \<Longrightarrow> fresh s r \<Longrightarrow> length ts < bsize s \<Longrightarrow>
      \<exists>t. app r ts s = (Inr (), t) \<and> inv t \<and> bsize t = bsize s \<and> used t = used s \<and> avail t = avail s \<and>
        tokens_at blk t [r] = [ts] \<and> b_block_id (blk t (addr r)) = b_block_id (blk s (addr r)) \<and>
        (\<forall>x. x \<noteq> addr r \<longrightarrow> blk t x = blk s x)"
begin

lemma app_adds:
  assumes "adds_blocks blk used s [r] t" and "used u = used t"
    and "b_block_id (blk u (addr r)) = b_block_id (blk t (addr r))" and "\<forall>x. x \<noteq> addr r \<longrightarrow> blk u x = blk t x"
  shows "adds_blocks blk used s [r] u"
  using assms by (auto simp: adds_blocks_def) metis

end

end
