(* ===== verification/NaiveBlock.thy ===== *)
theory NaiveBlock
  imports BlockSource
begin

section \<open>The naive block allocator (\<open>vllm/core/block/naive_block.py\<close>)\<close>

text \<open>
  \<open>NaiveBlockAllocator\<close>: a free list of block ids, reference counts, copy-on-write, and forks
  that share ids; and \<open>NaiveBlock\<close>, the block class without prefix caching. The operations act
  on every record that extends \<open>NaiveAllocator\<close>, so that the prefix-caching allocator runs
  them on the part it shares with its hashless allocator. No caller passes \<open>_cow_target\<close>, so a
  block's copy-on-write target is the block itself.
\<close>

subsection \<open>Operations on ids\<close>

definition na_allocate_block_id :: "('x, block_id) na" where
  "na_allocate_block_id = getM free_block_indices (\<lambda>free.
     case free of
       [] \<Rightarrow> raiseM NoFreeBlocksError
     | i # rest \<Rightarrow>
         thenM (modM (\<lambda>s. s\<lparr>free_block_indices := rest\<rparr>))
        (bindM (refcounterM (rc_incr i)) (\<lambda>_. retM i)))"

text \<open>\<open>_free_block_id\<close> takes a block, whose id it clears, or an id.\<close>

definition na_release_id :: "block_id option \<Rightarrow> ('x, unit) na" where
  "na_release_id i = bindM (fromM AssertionError i) (\<lambda>i.
     bindM (refcounterM (rc_decr i)) (\<lambda>n.
     if n = 0 then modM (\<lambda>s. s\<lparr>free_block_indices := i # free_block_indices s\<rparr>) else retM ()))"

datatype free_arg = FreeBlock ref | FreeId block_id

fun na_free_block_id :: "free_arg \<Rightarrow> ('x, unit) na" where
  "na_free_block_id (FreeBlock r) = getM (\<lambda>s. b_block_id (obj (addr r) s)) (\<lambda>i.
     thenM (set_block_id r None) (na_release_id i))"
| "na_free_block_id (FreeId i) = na_release_id (Some i)"

definition na_free :: "ref \<Rightarrow> bool \<Rightarrow> ('x, unit) na" where
  "na_free r keep_block_object =
     thenM (na_free_block_id (FreeBlock r))
           (if keep_block_object then retM () else free_block r)"

definition na_free_block_id_public :: "block_id \<Rightarrow> ('x, unit) na" where
  "na_free_block_id_public i = na_free_block_id (FreeId i)"

definition na_get_num_free_blocks :: "'x NaiveAllocator_scheme \<Rightarrow> nat" where
  "na_get_num_free_blocks s = length (free_block_indices s)"

definition na_get_num_total_blocks :: "'x NaiveAllocator_scheme \<Rightarrow> nat" where
  "na_get_num_total_blocks s = card (all_block_indices s)"

text \<open>\<open>sorted(...).index(...)\<close>: the position of the id among the sorted ids.\<close>

fun list_index :: "'a list \<Rightarrow> 'a \<Rightarrow> nat option" where
  "list_index [] x = None"
| "list_index (y # ys) x = (if y = x then Some 0 else map_option Suc (list_index ys x))"

definition na_get_physical_block_id :: "block_id \<Rightarrow> ('x, nat) na" where
  "na_get_physical_block_id i = getM all_block_indices (\<lambda>ids.
     fromM ValueError (list_index (sorted_list_of_set ids) i))"

subsection \<open>Construction\<close>

text \<open>
  \<open>NaiveBlockAllocator.__init__\<close> over a heap and, where it is given, a shared pool:
  \<open>block_ids\<close> are the ids, \<open>range(num_blocks)\<close> by default.
\<close>

definition na_init :: "nat \<Rightarrow> nat \<Rightarrow> block_id list option \<Rightarrow> bool \<Rightarrow> ('x, unit) na" where
  "na_init num_blocks bsize block_ids own_pool =
     (let ids = (case block_ids of None \<Rightarrow> [0..<num_blocks] | Some l \<Rightarrow> l) in
      thenM (modM (\<lambda>s. s\<lparr>free_block_indices := ids, all_block_indices := set ids\<rparr>))
     (thenM (assertM (card (set ids) = num_blocks))
     (thenM (modM (\<lambda>s. s\<lparr>refcounter := rc_init ids, a_block_size := bsize, copy_on_writes := []\<rparr>))
            (if own_pool then thenM (modM (\<lambda>s. s\<lparr>bp_block_size := bsize\<rparr>)) (bp_init (num_blocks * 4))
             else retM ()))))"

subsection \<open>Blocks\<close>

definition na_cow_block_if_not_appendable :: "ref \<Rightarrow> ('x, block_id) na" where
  "na_cow_block_if_not_appendable r =
     getM (\<lambda>s. b_block_id (obj (addr r) s)) (\<lambda>i.
     bindM (fromM AssertionError i) (\<lambda>src.
     bindM (cow_is_appendable r) (\<lambda>ok.
     if ok then retM src
     else thenM (na_free_block_id (FreeBlock r))
         (bindM na_allocate_block_id (\<lambda>trg.
          thenM (record_cow (Some src) (Some trg)) (retM trg))))))"

text \<open>\<open>NaiveBlock.append_token_ids\<close>.\<close>

definition na_append_token_ids :: "nat \<Rightarrow> int list \<Rightarrow> ('x, unit) na" where
  "na_append_token_ids a ts =
     thenM (append_token_ids_no_cow a ts)
    (getM (\<lambda>s. b_block_id (obj a s)) (\<lambda>i.
     if i = None then retM ()
     else bindM (na_cow_block_if_not_appendable (Blk a)) (\<lambda>j. set_block_id (Blk a) (Some j))))"

definition na_allocate_mutable_block :: "ref option \<Rightarrow> ('x, ref) na" where
  "na_allocate_mutable_block prev =
     bindM na_allocate_block_id (\<lambda>i.
     getM a_block_size (\<lambda>bsize. init_block prev [] bsize (Some i) None))"

definition na_allocate_immutable_block :: "ref option \<Rightarrow> int list \<Rightarrow> ('x, ref) na" where
  "na_allocate_immutable_block prev ts =
     bindM (na_allocate_mutable_block prev) (\<lambda>r.
     thenM (na_append_token_ids (addr r) ts) (retM r))"

text \<open>All ids are taken before the first object is initialised.\<close>

fun na_init_blocks :: "ref option \<Rightarrow> (int list \<times> block_id) list \<Rightarrow> ('x, ref list) na" where
  "na_init_blocks prev [] = retM []"
| "na_init_blocks prev ((ts, i) # rest) =
     getM a_block_size (\<lambda>bsize.
     bindM (init_block prev ts bsize (Some i) None) (\<lambda>r.
     bindM (na_init_blocks (Some r) rest) (\<lambda>rs. retM (r # rs))))"

definition na_allocate_immutable_blocks :: "ref option \<Rightarrow> int list list \<Rightarrow> ('x, ref list) na" where
  "na_allocate_immutable_blocks prev block_token_ids =
     bindM (mapM [0..<length block_token_ids] (\<lambda>_. na_allocate_block_id)) (\<lambda>ids.
     na_init_blocks prev (zip block_token_ids ids))"

text \<open>The loop of \<open>fork\<close>: one new object for every block of the chain, with the same id.\<close>

fun na_fork_blocks :: "ref option \<Rightarrow> ref list \<Rightarrow> ('x, ref list) na" where
  "na_fork_blocks prev [] = retM []"
| "na_fork_blocks prev (r # rs) =
     getM (obj (addr r)) (\<lambda>b.
     bindM (fromM AssertionError (b_block_id b)) (\<lambda>i.
     bindM (refcounterM (rc_incr i)) (\<lambda>n.
     thenM (assertM (n \<noteq> 1))
    (getM a_block_size (\<lambda>bsize.
     bindM (init_block prev (b_token_ids b) bsize (Some i) None) (\<lambda>f.
     bindM (na_fork_blocks (Some f) rs) (\<lambda>fs. retM (f # fs))))))))"

definition na_fork :: "ref \<Rightarrow> ('x, ref list) na" where
  "na_fork last_block = bindM (get_all_blocks_recursively last_block) (na_fork_blocks None)"

definition na_clear_copy_on_writes :: "('x, (block_id \<times> block_id) list) na" where
  "na_clear_copy_on_writes = clear_cows"

subsection \<open>Prefix caching and swapping\<close>

definition na_mark_blocks_as_accessed :: "block_id list \<Rightarrow> py_time \<Rightarrow> ('x, unit) na" where
  "na_mark_blocks_as_accessed ids now = retM ()"

definition na_mark_blocks_as_computed :: "block_id list \<Rightarrow> ('x, unit) na" where
  "na_mark_blocks_as_computed ids = retM ()"

definition na_get_common_computed_block_ids :: "block_id list list \<Rightarrow> block_id list" where
  "na_get_common_computed_block_ids computed = []"

definition na_promote_to_immutable_block :: "ref \<Rightarrow> ('x, block_id) na" where
  "na_promote_to_immutable_block r = raiseM NotImplementedError"

text \<open>Blocks are compared by identity, so the set holds references.\<close>

definition na_get_num_full_blocks_touched :: "ref list \<Rightarrow> 'x NaiveAllocator_scheme \<Rightarrow> nat" where
  "na_get_num_full_blocks_touched blocks s = card {r \<in> set blocks. is_full (obj (addr r) s)}"

definition na_swap_out :: "ref list \<Rightarrow> ('x, unit) na" where
  "na_swap_out blocks = forM blocks (\<lambda>r. na_free_block_id (FreeBlock r))"

definition na_swap_in_one :: "ref \<Rightarrow> ('x, unit) na" where
  "na_swap_in_one r = getM (obj (addr r)) (\<lambda>b.
     bindM (if is_full b then na_allocate_immutable_block (b_prev_block b) (b_token_ids b)
            else bindM (na_allocate_mutable_block (b_prev_block b)) (\<lambda>t.
                 thenM (na_append_token_ids (addr t) (b_token_ids b)) (retM t))) (\<lambda>t.
     getM (\<lambda>s. b_block_id (obj (addr t) s)) (\<lambda>i.
     thenM (set_block_id t None)
    (thenM (free_block t)
           (set_block_id r i)))))"

definition na_swap_in :: "ref list \<Rightarrow> ('x, unit) na" where
  "na_swap_in blocks = forM blocks na_swap_in_one"

definition na_get_prefix_cache_hit_rate :: rat where
  "na_get_prefix_cache_hit_rate = - 1"

definition na_reset_prefix_cache :: "('x, bool) na" where
  "na_reset_prefix_cache = retM True"

definition na_find_cached_blocks_prefix :: "int list \<Rightarrow> block_id list" where
  "na_find_cached_blocks_prefix hashes = []"

subsection \<open>The invariant of the ids\<close>

text \<open>An id is free exactly when its reference count is zero.\<close>

definition ids_ok :: "block_id list \<Rightarrow> block_id set \<Rightarrow> refcounts \<Rightarrow> bool" where
  "ids_ok free all rc \<longleftrightarrow> distinct free \<and> set free \<subseteq> all \<and> finite all \<and> dom rc = all \<and>
     (\<forall>i \<in> all. \<exists>n. rc i = Some n \<and> 0 \<le> n \<and> (n = 0 \<longleftrightarrow> i \<in> set free))"

definition na_ids_ok :: "'x NaiveAllocator_scheme \<Rightarrow> bool" where
  "na_ids_ok s \<longleftrightarrow> ids_ok (free_block_indices s) (all_block_indices s) (refcounter s)"

text \<open>The same with the set of all ids named, which no operation changes.\<close>

definition na_ids :: "block_id set \<Rightarrow> 'x NaiveAllocator_scheme \<Rightarrow> bool" where
  "na_ids A s \<longleftrightarrow> all_block_indices s = A \<and> ids_ok (free_block_indices s) A (refcounter s)"

lemma na_ids_iff: "na_ids A s \<longleftrightarrow> na_ids_ok s \<and> all_block_indices s = A"
  by (auto simp: na_ids_def na_ids_ok_def)

lemma ids_ok_alloc:
  "ids_ok (i # free) all rc \<Longrightarrow> rc i = Some 0 \<and> ids_ok free all (rc(i \<mapsto> 1))"
  unfolding ids_ok_def by (auto simp: dom_def)

lemma ids_okD:
  assumes "ids_ok free all rc" and "rc i = Some n"
  shows "i \<in> all" and "0 \<le> n" and "n = 0 \<longleftrightarrow> i \<in> set free"
proof -
  show i: "i \<in> all" using assms unfolding ids_ok_def by blast
  then obtain m where "rc i = Some m" "0 \<le> m" "m = 0 \<longleftrightarrow> i \<in> set free"
    using assms(1) unfolding ids_ok_def by blast
  with assms(2) show "0 \<le> n" and "n = 0 \<longleftrightarrow> i \<in> set free" by simp_all
qed

lemma ids_ok_release:
  assumes "ids_ok free all rc" and "rc i = Some n" and "0 < n"
  shows "ids_ok (if n - 1 = 0 then i # free else free) all (rc(i \<mapsto> n - 1))"
proof -
  have "i \<in> all" "i \<notin> set free" using ids_okD [OF assms(1,2)] assms(3) by simp_all
  then show ?thesis using assms unfolding ids_ok_def by (auto simp: dom_def)
qed

lemma ids_ok_share:
  assumes "ids_ok free all rc" and "rc i = Some n" and "0 < n"
  shows "ids_ok free all (rc(i \<mapsto> n + 1))"
proof -
  have "i \<in> all" "i \<notin> set free" using ids_okD [OF assms(1,2)] assms(3) by simp_all
  then show ?thesis using assms unfolding ids_ok_def by (auto simp: dom_def)
qed

lemma na_allocate_block_id_run:
  assumes "na_ids_ok s"
  shows "na_allocate_block_id s = (case free_block_indices s of
      [] \<Rightarrow> (Inl NoFreeBlocksError, s)
    | i # rest \<Rightarrow> (Inr i, s\<lparr>free_block_indices := rest, refcounter := (refcounter s)(i \<mapsto> 1)\<rparr>))"
  using assms ids_ok_alloc
  by (fastforce simp: na_ids_ok_def na_allocate_block_id_def run_simps refcounterM_def rc_incr_def
      split: list.splits)

lemma na_allocate_block_id_ids [inv_intros]: "preserves (na_ids A) na_allocate_block_id"
proof (rule preservesI)
  fix s :: "'x NaiveAllocator_scheme" and i t
  assume "na_ids A s" "na_allocate_block_id s = (Inr i, t)"
  then show "na_ids A t"
    by (auto simp: na_allocate_block_id_run na_ids_def na_ids_ok_def dest!: ids_ok_alloc split: list.splits)
qed

lemma na_release_id_run:
  assumes "na_release_id r s = (Inr u, t)"
  obtains i n where "r = Some i" "refcounter s i = Some n" "0 < n"
    "t = s\<lparr>refcounter := (refcounter s)(i \<mapsto> n - 1),
          free_block_indices := (if n - 1 = 0 then i # free_block_indices s else free_block_indices s)\<rparr>"
proof -
  from assms obtain i where i: "r = Some i" by (auto simp: na_release_id_def ok_simps)
  with assms obtain n where n: "refcounter s i = Some n"
    by (cases "refcounter s i") (auto simp: na_release_id_def ok_simps refcounterM_def rc_decr_def)
  with assms i have "0 < n" and "t = s\<lparr>refcounter := (refcounter s)(i \<mapsto> n - 1),
      free_block_indices := (if n - 1 = 0 then i # free_block_indices s else free_block_indices s)\<rparr>"
    by (auto simp: na_release_id_def ok_simps refcounterM_def rc_decr_def)
  with that i n show thesis by blast
qed

lemma na_release_id_ids [inv_intros]: "preserves (na_ids A) (na_release_id r)"
proof (rule preservesI)
  fix s :: "'x NaiveAllocator_scheme" and u t
  assume "na_ids A s" "na_release_id r s = (Inr u, t)"
  then show "na_ids A t"
    using ids_ok_release unfolding na_ids_def by (elim na_release_id_run) simp
qed

text \<open>Nothing else touches the ids but a fork.\<close>

lemma mod_obj_ids [inv_intros]: "preserves (na_ids A) (mod_obj a f)"
  unfolding mod_obj_def by (rule preserves_mod) (simp add: na_ids_def)

lemma set_block_id_ids [inv_intros]: "preserves (na_ids A) (set_block_id r v)"
  by (cases r) (auto intro: inv_intros)

lemma na_free_block_id_ids [inv_intros]: "preserves (na_ids A) (na_free_block_id x)"
  by (cases x) (auto intro!: inv_intros)

lemma append_no_cow_ids [inv_intros]: "preserves (na_ids A) (append_token_ids_no_cow a ts)"
  unfolding append_token_ids_no_cow_def by (intro inv_intros)

lemma update_num_tokens_total_ids [inv_intros]: "preserves (na_ids A) (update_num_tokens_total a)"
  unfolding update_num_tokens_total_def by (intro inv_intros)

lemma naive_block_init_ids [inv_intros]: "preserves (na_ids A) (naive_block_init a p ts b ow i)"
  unfolding naive_block_init_def by (intro inv_intros)

lemma block_init_ids [inv_intros]: "preserves (na_ids A) (block_init a p ts b ow i eh)"
  unfolding block_init_def prefix_block_init_def by (intro inv_intros)

lemma bp_create_ids [inv_intros]: "preserves (na_ids A) bp_create"
  unfolding bp_create_def by (rule preserves_mod) (simp add: na_ids_def)

lemma increase_pool_ids [inv_intros]: "preserves (na_ids A) increase_pool"
  unfolding increase_pool_def
  by (intro inv_intros preserves_mod) (simp add: na_ids_def)

lemma init_block_ids [inv_intros]: "preserves (na_ids A) (init_block p ts b i eh)"
  unfolding init_block_def
  by (intro inv_intros preserves_mod) (simp add: na_ids_def)

lemma free_block_ids [inv_intros]: "preserves (na_ids A) (free_block r)"
  by (cases r) (auto intro!: inv_intros preserves_mod simp: na_ids_def)

lemma cow_ids [inv_intros]:
  "preserves (na_ids A) (cow_is_appendable r)" "preserves (na_ids A) (record_cow x y)"
  "preserves (na_ids A) clear_cows"
  unfolding cow_is_appendable_def record_cow_def clear_cows_def refcounterM_def
  by (intro inv_intros preserves_mod preserves_zoom,
      simp_all add: na_ids_def ro_get_def rc_get_def ok_simps)+

lemma na_cow_ids [inv_intros]: "preserves (na_ids A) (na_cow_block_if_not_appendable r)"
  unfolding na_cow_block_if_not_appendable_def by (intro inv_intros)

lemma na_append_ids [inv_intros]: "preserves (na_ids A) (na_append_token_ids a ts)"
  unfolding na_append_token_ids_def by (intro inv_intros)

lemma na_allocate_mutable_ids [inv_intros]: "preserves (na_ids A) (na_allocate_mutable_block p)"
  unfolding na_allocate_mutable_block_def by (intro inv_intros)

lemma na_allocate_immutable_ids [inv_intros]: "preserves (na_ids A) (na_allocate_immutable_block p ts)"
  unfolding na_allocate_immutable_block_def by (intro inv_intros)

lemma na_init_blocks_ids [inv_intros]: "preserves (na_ids A) (na_init_blocks p l)"
  by (induction p l rule: na_init_blocks.induct) (auto intro!: inv_intros)

lemma na_allocate_immutables_ids [inv_intros]: "preserves (na_ids A) (na_allocate_immutable_blocks p tss)"
  unfolding na_allocate_immutable_blocks_def by (intro inv_intros)

lemma na_free_ids [inv_intros]: "preserves (na_ids A) (na_free r k)"
  unfolding na_free_def by (intro inv_intros)

lemma na_swap_ids [inv_intros]:
  "preserves (na_ids A) (na_swap_out rs)" "preserves (na_ids A) (na_swap_in rs)"
  unfolding na_swap_out_def na_swap_in_def na_swap_in_one_def by (intro inv_intros)+

text \<open>A fork counts one more user of every id, which must have had one before.\<close>

lemma incr_shared_ids:
  "preserves (na_ids A) (bindM (refcounterM (rc_incr i)) (\<lambda>n. thenM (assertM (n \<noteq> 1)) m))"
  if "preserves (na_ids A) m" for m :: "('x, 'a) na"
proof (rule preservesI)
  fix s :: "'x NaiveAllocator_scheme" and y t
  assume s: "na_ids A s" and run: "bindM (refcounterM (rc_incr i)) (\<lambda>n. thenM (assertM (n \<noteq> 1)) m) s = (Inr y, t)"
  then obtain n where n: "refcounter s i = Some n" "0 \<le> n" "n \<noteq> 0"
    and m: "m (s\<lparr>refcounter := (refcounter s)(i \<mapsto> n + 1)\<rparr>) = (Inr y, t)"
    by (auto simp: ok_simps refcounterM_def rc_incr_def split: option.splits)
  have "na_ids A (s\<lparr>refcounter := (refcounter s)(i \<mapsto> n + 1)\<rparr>)"
    using s n by (simp add: na_ids_def ids_ok_share)
  with m that show "na_ids A t" by (blast dest: preservesD)
qed

lemma na_fork_blocks_ids: "preserves (na_ids A) (na_fork_blocks p rs)"
  by (induction rs arbitrary: p) (auto intro!: inv_intros incr_shared_ids)

lemma na_fork_ids [inv_intros]: "preserves (na_ids A) (na_fork r)"
  unfolding na_fork_def get_all_blocks_recursively_def by (intro inv_intros na_fork_blocks_ids)

lemma preserves_idsD:
  assumes "\<And>A. preserves (na_ids A) m" and "na_ids_ok s" and "m s = (Inr y, t)"
  shows "na_ids_ok t"
  using preservesD [OF assms(1), of "all_block_indices s", OF _ assms(3)] assms(2)
  by (simp add: na_ids_iff)

subsection \<open>Copy-on-write\<close>

text \<open>
  C34. Appending to a block writes only to an id the block has alone. If the id was its own the
  ids are left as they are; if it was shared the block moves to a free id, the copy from the old
  to the new id is recorded, and the other users keep the old one. No other object changes, and
  the call returns whenever the tokens fit and a free id is there when one is needed.
\<close>
theorem naive_append_exclusive:
  assumes "na_ids_ok s" and "a < length (objs s)" and "b_block_id (obj a s) = Some i"
    and "refcounter s i = Some n" and "0 < n" and "n = 1 \<or> free_block_indices s \<noteq> []"
    and "int (length ts) \<le> num_empty_slots (obj a s)"
  shows "\<exists>j t. na_append_token_ids a ts s = (Inr (), t) \<and>
    b_token_ids (obj a t) = b_token_ids (obj a s) @ ts \<and>
    b_block_id (obj a t) = Some j \<and> refcounter t j = Some 1 \<and>
    (if n = 1 then j = i \<and> refcounter t = refcounter s \<and> copy_on_writes t = copy_on_writes s
     else j \<in> set (free_block_indices s) \<and> refcounter t i = Some (n - 1) \<and>
       copy_on_writes t = copy_on_writes s @ [(i, j)]) \<and>
    (\<forall>x. x \<noteq> a \<longrightarrow> obj x t = obj x s) \<and> na_ids_ok t"
proof -
  define s1 where "s1 = s\<lparr>objs := (objs s)[a := (obj a s)\<lparr>b_token_ids := b_token_ids (obj a s) @ ts\<rparr>]\<rparr>"
  have s1: "append_token_ids_no_cow a ts s = (Inr (), s1)"
    using assms(2,7) by (auto simp: append_token_ids_no_cow_def run_simps mod_obj_def s1_def)
  have i1: "b_block_id (obj a s1) = Some i" "b_token_ids (obj a s1) = b_token_ids (obj a s) @ ts"
    "refcounter s1 = refcounter s" "copy_on_writes s1 = copy_on_writes s"
    "free_block_indices s1 = free_block_indices s" "length (objs s1) = length (objs s)"
    "\<And>x. x \<noteq> a \<Longrightarrow> obj x s1 = obj x s"
    using assms(2,3) by (simp_all add: s1_def)
  have ok1: "na_ids_ok s1" using assms(1) by (simp add: s1_def na_ids_ok_def)
  have ap: "cow_is_appendable (Blk a) s1 = (Inr (n \<le> 1), s1)"
    using i1 assms(4) by (simp add: cow_is_appendable_def run_simps refcounterM_def ro_get_def rc_get_def)
  show ?thesis
  proof (cases "n = 1")
    case True
    define t where "t = s1\<lparr>objs := (objs s1)[a := (obj a s1)\<lparr>b_block_id := Some i\<rparr>]\<rparr>"
    have run: "na_append_token_ids a ts s = (Inr (), t)"
      using s1 ap i1(1) True
      by (simp add: na_append_token_ids_def na_cow_block_if_not_appendable_def run_simps mod_obj_def t_def)
    moreover have "na_ids_ok t" using ok1 by (simp add: t_def na_ids_ok_def)
    ultimately show ?thesis using i1 assms(2,4) True
      by (intro exI [of _ i] exI [of _ t]) (simp add: t_def)
  next
    case False
    with assms(6) obtain j rest where free: "free_block_indices s = j # rest"
      by (cases "free_block_indices s") auto
    note ids = assms(1) [unfolded na_ids_ok_def free]
    have j: "refcounter s j = Some 0" using ids_ok_alloc [OF ids] by blast
    with assms(4,5) have ij: "i \<noteq> j" by auto
    define s2 where "s2 = s1\<lparr>objs := (objs s1)[a := (obj a s1)\<lparr>b_block_id := None\<rparr>],
      refcounter := (refcounter s1)(i \<mapsto> n - 1)\<rparr>"
    have fr: "na_free_block_id (FreeBlock (Blk a)) s1 = (Inr (), s2)"
      using i1(1,3) assms(4,5) False
      by (simp add: na_release_id_def run_simps mod_obj_def refcounterM_def rc_decr_def s2_def)
    define s3 where "s3 = s2\<lparr>free_block_indices := rest,
      refcounter := (refcounter s1)(i \<mapsto> n - 1, j \<mapsto> 1)\<rparr>"
    have al: "na_allocate_block_id s2 = (Inr j, s3)"
      using free i1(3,5) j ij
      by (simp add: na_allocate_block_id_def run_simps refcounterM_def rc_incr_def s2_def s3_def)
    define t where "t = s3\<lparr>copy_on_writes := copy_on_writes s @ [(i, j)],
      objs := (objs s3)[a := (obj a s3)\<lparr>b_block_id := Some j\<rparr>]\<rparr>"
    have run: "na_append_token_ids a ts s = (Inr (), t)"
      using s1 ap i1(1,4) False assms(5) fr al
      by (simp add: na_append_token_ids_def na_cow_block_if_not_appendable_def thenM_run bindM_run
          getM_run fromM_run retM_run record_cow_def modM_run mod_obj_def t_def s3_def s2_def
          del: na_free_block_id.simps)
    have "na_ids_ok t"
      by (rule preserves_idsD [OF na_append_ids assms(1) run])
    moreover have "b_token_ids (obj a t) = b_token_ids (obj a s) @ ts" "b_block_id (obj a t) = Some j"
      "refcounter t j = Some 1" "refcounter t i = Some (n - 1)"
      "copy_on_writes t = copy_on_writes s @ [(i, j)]" "\<forall>x. x \<noteq> a \<longrightarrow> obj x t = obj x s"
      using i1 assms(2) ij by (simp_all add: t_def s3_def s2_def)
    ultimately show ?thesis using run free False by auto
  qed
qed

subsection \<open>Forks\<close>

lemma init_block_kind:
  assumes "init_block prev ts bsize bid eh s = (Inr r, t)" and "bp_ok s" and "0 < bp_pool_size s"
    and "bp_kind s"
  shows "bp_kind t"
proof -
  note k = bp_take [OF assms(2,3)]
  let ?a = "bp_addr s" and ?s1 = "bp_take s"
  from assms(1) obtain u v where v: "block_init ?a prev ts bsize (b_owner (obj ?a ?s1)) bid eh ?s1 = (Inr u, v)"
    and t: "t = v\<lparr>objs := (objs v)[?a :=
         (obj ?a v)\<lparr>b_pool_id := Some (hd (bp_free_ids (bp_ready s)))\<rparr>]\<rparr>"
    unfolding init_block_unfold [OF assms(2,3)] by (auto split: prod.splits sum.splits)
  from block_init_run [OF v k(4)] have b: "only_obj ?a ?s1 v"
    "b_prefix (obj ?a v) = None \<longleftrightarrow> b_prefix (obj ?a ?s1) = None"
    "b_owner (obj ?a v) = b_owner (obj ?a ?s1)" by auto
  have "bp_kind (bp_ready s)" using bp_grown_kind [OF assms(2,4)] assms(4) by (simp add: bp_ready_def)
  then have 1: "bp_kind ?s1" by (simp add: bp_kind_def bp_take_def)
  obtain o' where v': "v = ?s1\<lparr>objs := (objs ?s1)[?a := o']\<rparr>" using b(1) unfolding only_obj_def by blast
  have a: "?a < length (objs ?s1)" by (rule k(4))
  have "(b_prefix (obj x t) = None \<longleftrightarrow> b_prefix (obj x ?s1) = None) \<and> b_owner (obj x t) = b_owner (obj x ?s1)" for x
    using b(2,3) a by (cases "x = ?a") (simp_all add: t v')
  moreover have "bp_pool t = bp_pool ?s1" "bp_prefix t = bp_prefix ?s1" "bp_owner t = bp_owner ?s1"
    by (simp_all add: t v')
  ultimately show ?thesis using 1 unfolding bp_kind_def by simp
qed

text \<open>One more user for every id of a list.\<close>

definition rc_add :: "refcounts \<Rightarrow> block_id list \<Rightarrow> refcounts" where
  "rc_add rc ids = (\<lambda>i. map_option (\<lambda>n. n + int (count_list ids i)) (rc i))"

lemma rc_add_Nil [simp]: "rc_add rc [] = rc"
  by (rule ext) (simp add: rc_add_def option.map_ident)

lemma rc_add_Cons: "rc i = Some n \<Longrightarrow> rc_add (rc(i \<mapsto> n + 1)) ids = rc_add rc (i # ids)"
  by (rule ext) (simp add: rc_add_def)

text \<open>The allocator with its pool, before and after a call.\<close>

definition na_ok :: "'x NaiveAllocator_scheme \<Rightarrow> bool" where
  "na_ok s \<longleftrightarrow> na_ids_ok s \<and> bp_ok s \<and> bp_kind s \<and> 0 < bp_pool_size s \<and> \<not> bp_prefix s"

text \<open>A live block: its object is in use, and its id has users.\<close>

definition live :: "'x NaiveAllocator_scheme \<Rightarrow> ref \<Rightarrow> bool" where
  "live s r \<longleftrightarrow> addr r \<in> in_use s \<and> addr r < length (objs s) \<and>
     length (b_token_ids (obj (addr r) s)) \<le> a_block_size s \<and>
     (\<exists>i n. b_block_id (obj (addr r) s) = Some i \<and> refcounter s i = Some n \<and> 0 < n)"

definition ids_of :: "'x NaiveAllocator_scheme \<Rightarrow> ref list \<Rightarrow> block_id list" where
  "ids_of s rs = map (\<lambda>r. the (b_block_id (obj (addr r) s))) rs"

definition tokens_of :: "'x NaiveAllocator_scheme \<Rightarrow> ref list \<Rightarrow> int list list" where
  "tokens_of s rs = map (\<lambda>r. b_token_ids (obj (addr r) s)) rs"

text \<open>The result of forking: as many new blocks, with the ids and the tokens of the old ones.\<close>

definition forked :: "'x NaiveAllocator_scheme \<Rightarrow> ref list \<Rightarrow> ref list \<Rightarrow> 'x NaiveAllocator_scheme \<Rightarrow> bool" where
  "forked s rs fs t \<longleftrightarrow> ids_of t fs = ids_of s rs \<and> tokens_of t fs = tokens_of s rs \<and>
     addr ` set fs \<inter> in_use s = {} \<and> in_use t = in_use s \<union> addr ` set fs \<and>
     refcounter t = rc_add (refcounter s) (ids_of s rs) \<and>
     free_block_indices t = free_block_indices s \<and>
     distinct (map addr fs) \<and>
     (\<forall>r \<in> set fs. r = Blk (addr r) \<and> addr r < length (objs t) \<and> b_pool_id (obj (addr r) t) \<noteq> None \<and>
       b_block_id (obj (addr r) t) \<noteq> None) \<and>
     length (objs s) \<le> length (objs t) \<and>
     (\<forall>a \<in> in_use s. a < length (objs s) \<longrightarrow> obj a t = obj a s)"

lemma na_fork_step:
  assumes ok: "na_ok s" and live: "live s r"
  obtains a i n s' where "b_block_id (obj (addr r) s) = Some i" "refcounter s i = Some n" "0 < n"
    "\<And>rs. na_fork_blocks prev (r # rs) s = bindM (na_fork_blocks (Some (Blk a)) rs) (\<lambda>fs. retM (Blk a # fs)) s'"
    "na_ok s'" "a \<notin> in_use s" "in_use s' = insert a (in_use s)" "a < length (objs s')"
    "refcounter s' = (refcounter s)(i \<mapsto> n + 1)" "free_block_indices s' = free_block_indices s"
    "a_block_size s' = a_block_size s" "same_objs_but a s s'"
    "b_block_id (obj a s') = Some i" "b_token_ids (obj a s') = b_token_ids (obj (addr r) s)"
    "b_pool_id (obj a s') \<noteq> None"
proof -
  obtain i n where i: "b_block_id (obj (addr r) s) = Some i" "refcounter s i = Some n" "0 < n"
    and len: "length (b_token_ids (obj (addr r) s)) \<le> a_block_size s"
    using live unfolding live_def by blast
  define u where "u = s\<lparr>refcounter := (refcounter s)(i \<mapsto> n + 1)\<rparr>"
  have incr: "refcounterM (rc_incr i) s = (Inr (n + 1), u)"
    using i by (simp add: refcounterM_def rc_incr_def run_simps u_def)
  have u: "bp_ok u" "0 < bp_pool_size u" "bp_kind u" "\<not> bp_prefix u" "in_use u = in_use s"
    using ok by (simp_all add: u_def na_ok_def bp_ok_def bp_kind_def in_use_def)
  have uids: "na_ids_ok u" using ok i by (simp add: u_def na_ok_def na_ids_ok_def ids_ok_share)
  obtain x s' where run: "init_block prev (b_token_ids (obj (addr r) s)) (a_block_size s) (Some i) None u = (Inr x, s')"
    using init_block_returns [OF u(1-4) len] by blast
  have run': "init_block prev (b_token_ids (obj (addr r) s)) (a_block_size u) (Some i) None u = (Inr x, s')"
    using run by (simp add: u_def)
  from init_block_run [OF run u(1,2)] obtain a where a: "x = Blk a" "a \<notin> in_use u"
    "in_use s' = insert a (in_use u)" "bp_ok s'" "a < length (objs s')" "same_ids u s'"
    "same_objs_but a u s'" "initialised (obj a s') prev (b_token_ids (obj (addr r) s)) (a_block_size s) (Some i)"
    "bp_pool_size u \<le> bp_pool_size s'" "b_pool_id (obj a s') \<noteq> None" by metis
  show thesis
  proof (rule that [OF i])
    show "na_fork_blocks prev (r # rs) s = bindM (na_fork_blocks (Some (Blk a)) rs) (\<lambda>fs. retM (Blk a # fs)) s'" for rs
      using i incr run' a(1) by (simp add: getM_run bindM_run fromM_run thenM_run assertM_run)
    have "na_ids_ok s'" by (rule preserves_idsD [OF init_block_ids uids run])
    moreover have "bp_kind s'" by (rule init_block_kind [OF run u(1-3)])
    ultimately show "na_ok s'" using a(4,6,9) u(2,4) by (simp add: na_ok_def same_ids_def)
    show "a \<notin> in_use s" "in_use s' = insert a (in_use s)" "a < length (objs s')" using a u(5) by simp_all
    show "refcounter s' = (refcounter s)(i \<mapsto> n + 1)" "free_block_indices s' = free_block_indices s"
      "a_block_size s' = a_block_size s"
      using a(6) by (simp_all add: same_ids_def u_def)
    show "same_objs_but a s s'" using a(7) by (simp add: same_objs_but_def u_def)
    show "b_block_id (obj a s') = Some i" "b_token_ids (obj a s') = b_token_ids (obj (addr r) s)"
      using a(8) by (simp_all add: initialised_def)
    show "b_pool_id (obj a s') \<noteq> None" by (rule a(10))
  qed
qed

lemma na_fork_blocks_forked:
  "na_ok s \<Longrightarrow> \<forall>r \<in> set rs. live s r \<Longrightarrow>
     \<exists>fs t. na_fork_blocks prev rs s = (Inr fs, t) \<and> na_ok t \<and> forked s rs fs t"
proof (induction rs arbitrary: prev s)
  case Nil
  then show ?case by (simp add: run_simps forked_def ids_of_def tokens_of_def)
next
  case (Cons r rs)
  from Cons.prems(2) have "live s r" by simp
  from na_fork_step [OF Cons.prems(1) this] obtain a i n s' where
    i: "b_block_id (obj (addr r) s) = Some i" "refcounter s i = Some n" "0 < n"
    and run: "\<And>rs. na_fork_blocks prev (r # rs) s = bindM (na_fork_blocks (Some (Blk a)) rs) (\<lambda>fs. retM (Blk a # fs)) s'"
    and ok: "na_ok s'" and a: "a \<notin> in_use s" "in_use s' = insert a (in_use s)" "a < length (objs s')"
    and s': "refcounter s' = (refcounter s)(i \<mapsto> n + 1)" "free_block_indices s' = free_block_indices s"
      "a_block_size s' = a_block_size s" "same_objs_but a s s'"
    and o: "b_block_id (obj a s') = Some i" "b_token_ids (obj a s') = b_token_ids (obj (addr r) s)"
      "b_pool_id (obj a s') \<noteq> None" by metis
  have keep: "obj x s' = obj x s" "x < length (objs s')" if "x \<in> in_use s" "x < length (objs s)" for x
    using s'(4) that a(1) unfolding same_objs_but_def by auto
  have live': "live s' q" if q: "live s q" for q
  proof -
    from q have "addr q \<in> in_use s" "addr q < length (objs s)" unfolding live_def by blast+
    with q keep [of "addr q"] a(2) s' i(2,3) show ?thesis unfolding live_def by auto
  qed
  then have "\<forall>q \<in> set rs. live s' q" using Cons.prems(2) by simp
  from Cons.IH [OF ok this, of "Some (Blk a)"] obtain fs t where
    t: "na_fork_blocks (Some (Blk a)) rs s' = (Inr fs, t)" "na_ok t" "forked s' rs fs t" by blast
  have same: "ids_of s' rs = ids_of s rs" "tokens_of s' rs = tokens_of s rs"
    using keep Cons.prems(2) by (auto simp: ids_of_def tokens_of_def live_def)
  have at: "obj a t = obj a s'" "length (objs s') \<le> length (objs t)"
    using t(3) a(2,3) unfolding forked_def by blast+
  have "forked s (r # rs) (Blk a # fs) t"
    unfolding forked_def
  proof (intro conjI ballI impI)
    show "ids_of t (Blk a # fs) = ids_of s (r # rs)" "tokens_of t (Blk a # fs) = tokens_of s (r # rs)"
      using t(3) same at o i(1) by (simp_all add: forked_def ids_of_def tokens_of_def)
    show "addr ` set (Blk a # fs) \<inter> in_use s = {}" "in_use t = in_use s \<union> addr ` set (Blk a # fs)"
      using t(3) a(1,2) by (auto simp: forked_def)
    have "refcounter t = rc_add (refcounter s') (ids_of s' rs)" using t(3) unfolding forked_def by blast
    moreover have "ids_of s (r # rs) = i # ids_of s rs" using i(1) by (simp add: ids_of_def)
    ultimately show "refcounter t = rc_add (refcounter s) (ids_of s (r # rs))"
      using rc_add_Cons [of "refcounter s" i n "ids_of s rs"] i(2) same(1) s'(1) by simp
    show "free_block_indices t = free_block_indices s" using t(3) s'(2) by (simp add: forked_def)
    show "distinct (map addr (Blk a # fs))" using t(3) a(2) by (auto simp: forked_def)
    show "q = Blk (addr q)" "addr q < length (objs t)" "b_pool_id (obj (addr q) t) \<noteq> None"
        "b_block_id (obj (addr q) t) \<noteq> None"
      if "q \<in> set (Blk a # fs)" for q
      using that t(3) at a(3) o(1,3) by (auto simp: forked_def)
    show "length (objs s) \<le> length (objs t)" using at(2) s'(4) by (simp add: same_objs_but_def)
    show "obj x t = obj x s" if "x \<in> in_use s" "x < length (objs s)" for x
      using t(3) keep [OF that] that a(2) by (simp add: forked_def)
  qed
  then show ?case using run [of rs] t(1,2) by (simp add: bindM_run retM_run)
qed

text \<open>
  A fork of a sequence of live blocks always returns. The new blocks have the ids and the
  tokens of the old ones, every id has one more user for each block that holds it, no id is
  taken from the free list, and the old blocks are left as they are.
\<close>
theorem naive_fork_shares:
  assumes "na_ok s" and "all_blocks_rec (Suc (length (objs s))) (objs s) last_block = Inr rs"
    and "list_all (live s) rs"
  shows "\<exists>fs t. na_fork last_block s = (Inr fs, t) \<and> na_ok t \<and> forked s rs fs t"
  using na_fork_blocks_forked [OF assms(1), of rs None] assms(2,3)
  by (simp add: na_fork_def get_all_blocks_recursively_def run_simps list_all_iff)

text \<open>Freeing the blocks of a fork gives the ids back, without freeing one.\<close>

lemma rc_add_drop:
  assumes "rc i = Some n"
  shows "rc_add rc (i # ids) i = Some (n + int (count_list ids i) + 1)"
    and "(rc_add rc (i # ids))(i \<mapsto> n + int (count_list ids i)) = rc_add rc ids"
  using assms by (auto simp: rc_add_def)

lemma free_shared_loop:
  assumes "refcounter t = rc_add rc (ids_of t fs)" and "distinct (map addr fs)"
    and "\<forall>r \<in> set fs. r = Blk (addr r) \<and> addr r < length (objs t) \<and> b_pool_id (obj (addr r) t) \<noteq> None \<and>
      (\<exists>i n. b_block_id (obj (addr r) t) = Some i \<and> rc i = Some n \<and> 0 < n)"
  shows "\<exists>u. forM fs (\<lambda>r. na_free r False) t = (Inr (), u) \<and> refcounter u = rc \<and>
    free_block_indices u = free_block_indices t"
  using assms
proof (induction fs arbitrary: t)
  case Nil
  then show ?case by (simp add: run_simps ids_of_def)
next
  case (Cons r fs)
  from Cons.prems(3) obtain a i n k where r: "r = Blk a" "a < length (objs t)"
    "b_pool_id (obj a t) = Some k" "b_block_id (obj a t) = Some i" "rc i = Some n" "0 < n"
    by (metis addr.simps(1) list.set_intros(1) option.exhaust_sel)
  let ?m = "n + int (count_list (ids_of t fs) i)"
  have ids: "ids_of t (r # fs) = i # ids_of t fs" using r by (simp add: ids_of_def)
  have rc: "refcounter t i = Some (?m + 1)" "(refcounter t)(i \<mapsto> ?m) = rc_add rc (ids_of t fs)"
    using rc_add_drop [of rc i n "ids_of t fs"] r(5) Cons.prems(1) ids by simp_all
  have pos: "0 < ?m" using r(6) by simp
  define u where "u = t\<lparr>objs := (objs t)[a := (obj a t)\<lparr>b_block_id := None\<rparr>],
    refcounter := rc_add rc (ids_of t fs), bp_free_ids := k # bp_free_ids t\<rparr>"
  have run: "na_free r False t = (Inr (), u)"
    using r(1-4) rc pos
    by (simp add: na_free_def na_release_id_def run_simps mod_obj_def refcounterM_def rc_decr_def u_def)
  have o: "obj (addr q) u = obj (addr q) t" if "q \<in> set fs" for q
  proof -
    have "addr q \<noteq> a" using that Cons.prems(2) r(1) by force
    then show ?thesis by (simp add: u_def)
  qed
  then have "ids_of u fs = ids_of t fs" by (simp add: ids_of_def)
  moreover have "\<forall>r \<in> set fs. r = Blk (addr r) \<and> addr r < length (objs u) \<and> b_pool_id (obj (addr r) u) \<noteq> None \<and>
      (\<exists>i n. b_block_id (obj (addr r) u) = Some i \<and> rc i = Some n \<and> 0 < n)"
    using Cons.prems(3) o by (simp add: u_def)
  ultimately obtain v where "forM fs (\<lambda>r. na_free r False) u = (Inr (), v)" "refcounter v = rc"
    "free_block_indices v = free_block_indices u"
    using Cons.IH [of u] Cons.prems(2) by (auto simp: u_def)
  with run show ?case by (simp add: thenM_run u_def)
qed

text \<open>
  Round trip: freeing every block of a fork gives every reference count and the free list
  back as they were before the fork.
\<close>
theorem naive_fork_free:
  assumes "na_ok s" and "all_blocks_rec (Suc (length (objs s))) (objs s) last_block = Inr rs"
    and "list_all (live s) rs"
  shows "\<exists>u. bindM (na_fork last_block) (\<lambda>fs. forM fs (\<lambda>r. na_free r False)) s = (Inr (), u) \<and>
    refcounter u = refcounter s \<and> free_block_indices u = free_block_indices s"
proof -
  from assms(3) have live: "\<forall>r \<in> set rs. live s r" by (simp add: list_all_iff)
  from na_fork_blocks_forked [OF assms(1) live, of None] obtain fs t where
    t: "na_fork_blocks None rs s = (Inr fs, t)" "forked s rs fs t" by blast
  have fork: "na_fork last_block s = (Inr fs, t)"
    using t(1) assms(2) by (simp add: na_fork_def get_all_blocks_recursively_def run_simps)
  have ids: "ids_of t fs = ids_of s rs" using t(2) by (simp add: forked_def)
  have user: "\<exists>n. refcounter s i = Some n \<and> 0 < n" if "i \<in> set (ids_of t fs)" for i
  proof -
    have "i \<in> set (ids_of s rs)" using that by (simp only: ids)
    then obtain r where r: "r \<in> set rs" "i = the (b_block_id (obj (addr r) s))"
      unfolding ids_of_def by auto
    with live show ?thesis unfolding live_def by fastforce
  qed
  have "\<forall>r \<in> set fs. r = Blk (addr r) \<and> addr r < length (objs t) \<and> b_pool_id (obj (addr r) t) \<noteq> None \<and>
      (\<exists>i n. b_block_id (obj (addr r) t) = Some i \<and> refcounter s i = Some n \<and> 0 < n)"
  proof
    fix r assume r: "r \<in> set fs"
    with t(2) obtain i where i: "b_block_id (obj (addr r) t) = Some i"
      and o: "r = Blk (addr r)" "addr r < length (objs t)" "b_pool_id (obj (addr r) t) \<noteq> None"
      unfolding forked_def by blast
    have "i \<in> set (ids_of t fs)" using r i by (force simp: ids_of_def)
    with user i o show "r = Blk (addr r) \<and> addr r < length (objs t) \<and> b_pool_id (obj (addr r) t) \<noteq> None \<and>
      (\<exists>i n. b_block_id (obj (addr r) t) = Some i \<and> refcounter s i = Some n \<and> 0 < n)" by blast
  qed
  with free_shared_loop [of t "refcounter s" fs] t(2) ids obtain u where
    "forM fs (\<lambda>r. na_free r False) t = (Inr (), u)" "refcounter u = refcounter s"
    "free_block_indices u = free_block_indices t" by (auto simp: forked_def)
  with fork t(2) show ?thesis by (simp add: bindM_run forked_def)
qed

text \<open>An allocator of two ids of four tokens, one block of which is allocated with two tokens.\<close>

definition ex_na0 :: NaiveAllocator where
  "ex_na0 = snd (na_init 2 4 None True \<lparr>objs = [], free_block_indices = [], all_block_indices = {},
     refcounter = Map.empty, a_block_size = 0, copy_on_writes = [], bp_block_size = 0,
     bp_pool_size = 0, bp_free_ids = [], bp_pool = [], bp_prefix = False, bp_owner = GPU\<rparr>)"

definition ex_na1 :: NaiveAllocator where
  "ex_na1 = snd (na_allocate_immutable_block None [1, 2] ex_na0)"

definition ex_na2 :: NaiveAllocator where
  "ex_na2 = snd (na_fork (Blk 0) ex_na1)"

definition ex_blk :: "int list \<Rightarrow> block_id option \<Rightarrow> nat option \<Rightarrow> Block" where
  "ex_blk ts i p = \<lparr>b_token_ids = ts, b_block_size = 4, b_prev_block = None, b_block_id = i,
     b_owner = GPU, b_pool_id = p, b_prefix = None\<rparr>"

lemma ex_na0_eq: "ex_na0 = \<lparr>objs = replicate 8 (ex_blk [] None None),
     free_block_indices = [0, 1], all_block_indices = {0, 1},
     refcounter = [0 \<mapsto> 0, 1 \<mapsto> 0], a_block_size = 4, copy_on_writes = [], bp_block_size = 4,
     bp_pool_size = 8, bp_free_ids = [0, 1, 2, 3, 4, 5, 6, 7], bp_pool = [0, 1, 2, 3, 4, 5, 6, 7],
     bp_prefix = False, bp_owner = GPU\<rparr>"
proof -
  have [simp]: "[0..<2] = [0, 1 :: nat]" "[0..<8] = [0, 1, 2, 3, 4, 5, 6, 7 :: nat]"
    by (simp_all add: upt_rec)
  show ?thesis
    by (simp add: ex_na0_def na_init_def Let_def bp_init_def run_simps bp_create_def
        rc_init_def new_block_def ex_blk_def fun_upd_twist numeral_eq_Suc)
qed

lemma ex_na1_eq: "ex_na1 = ex_na0\<lparr>objs := (objs ex_na0)[0 := ex_blk [1, 2] (Some 0) (Some 0)],
     free_block_indices := [1], refcounter := [0 \<mapsto> 1, 1 \<mapsto> 0], bp_free_ids := [1, 2, 3, 4, 5, 6, 7]\<rparr>"
  by (simp add: ex_na1_def ex_na0_eq na_allocate_immutable_block_def na_allocate_mutable_block_def
      na_allocate_block_id_def refcounterM_def rc_incr_def run_simps init_block_def block_init_def
      naive_block_init_def mod_obj_def append_token_ids_no_cow_def num_empty_slots_def ex_blk_def
      na_append_token_ids_def na_cow_block_if_not_appendable_def cow_is_appendable_def ro_get_def
      rc_get_def nth_list_update fun_upd_twist numeral_eq_Suc)

lemma ex_na1_full: "ex_na1 = \<lparr>objs = ex_blk [1, 2] (Some 0) (Some 0) # replicate 7 (ex_blk [] None None),
     free_block_indices = [1], all_block_indices = {0, 1},
     refcounter = [0 \<mapsto> 1, 1 \<mapsto> 0], a_block_size = 4, copy_on_writes = [], bp_block_size = 4,
     bp_pool_size = 8, bp_free_ids = [1, 2, 3, 4, 5, 6, 7], bp_pool = [0, 1, 2, 3, 4, 5, 6, 7],
     bp_prefix = False, bp_owner = GPU\<rparr>"
  by (simp add: ex_na1_eq ex_na0_eq numeral_eq_Suc)

lemma ex_blk_simps [simp]:
  "b_token_ids (ex_blk ts i p) = ts" "b_block_id (ex_blk ts i p) = i" "b_prev_block (ex_blk ts i p) = None"
  "b_block_size (ex_blk ts i p) = 4" "b_prefix (ex_blk ts i p) = None" "b_owner (ex_blk ts i p) = GPU"
  by (simp_all add: ex_blk_def)

lemma ex_ids_ok: "ids_ok [1] {0, 1} [0 \<mapsto> 1, 1 \<mapsto> 0]"
  by (auto simp: ids_ok_def)

lemma ex_na1_ok: "na_ok ex_na1"
proof -
  have "bp_ok ex_na1" by (simp add: bp_ok_def ex_na1_full)
  moreover have "bp_kind ex_na1" by (simp add: bp_kind_def ex_na1_full numeral_eq_Suc)
  ultimately show ?thesis using ex_ids_ok by (simp add: na_ok_def na_ids_ok_def ex_na1_full)
qed

lemma ex_na1_live: "list_all (live ex_na1) [Blk 0]"
proof -
  have "0 \<in> in_use ex_na1" by (simp add: in_use_def ex_na1_full image_iff Bex_def) (rule exI [of _ 0], simp)
  then show ?thesis by (simp add: live_def ex_na1_full)
qed

lemma ex_na1_chain: "all_blocks_rec (Suc (length (objs ex_na1))) (objs ex_na1) (Blk 0) = Inr [Blk 0]"
  by (simp add: ex_na1_full numeral_eq_Suc)

theorem naive_fork_shares_witness:
  "\<exists>fs t. na_fork (Blk 0) ex_na1 = (Inr fs, t) \<and> na_ok t \<and> forked ex_na1 [Blk 0] fs t"
  by (rule naive_fork_shares [OF ex_na1_ok ex_na1_chain ex_na1_live])

theorem naive_fork_free_witness:
  "\<exists>u. bindM (na_fork (Blk 0)) (\<lambda>fs. forM fs (\<lambda>r. na_free r False)) ex_na1 = (Inr (), u) \<and>
    refcounter u = refcounter ex_na1 \<and> free_block_indices u = free_block_indices ex_na1"
  by (rule naive_fork_free [OF ex_na1_ok ex_na1_chain ex_na1_live])

text \<open>The block after a fork: its id has two users.\<close>

lemma ex_na2_facts: "na_ids_ok ex_na2" "obj 0 ex_na2 = ex_blk [1, 2] (Some 0) (Some 0)"
  "refcounter ex_na2 0 = Some 2" "free_block_indices ex_na2 = [1]" "0 < length (objs ex_na2)"
proof -
  have "\<forall>r \<in> set [Blk 0]. live ex_na1 r" using ex_na1_live by simp
  from na_fork_blocks_forked [OF ex_na1_ok this, of None] obtain fs t where
    t: "na_fork_blocks None [Blk 0] ex_na1 = (Inr fs, t)" "na_ok t" "forked ex_na1 [Blk 0] fs t" by blast
  have e: "ex_na2 = t"
    using ex_na1_chain t(1)
    by (simp add: ex_na2_def na_fork_def get_all_blocks_recursively_def bindM_run getM_run liftM_run)
  show "na_ids_ok ex_na2" using t(2) by (simp add: e na_ok_def)
  have "0 \<in> in_use ex_na1" "0 < length (objs ex_na1)" using ex_na1_live by (simp_all add: live_def)
  then have "obj 0 t = obj 0 ex_na1" "length (objs ex_na1) \<le> length (objs t)"
    using t(3) unfolding forked_def by blast+
  then show "obj 0 ex_na2 = ex_blk [1, 2] (Some 0) (Some 0)" "0 < length (objs ex_na2)"
    by (simp_all add: e ex_na1_full) (cases "objs t", simp_all)
  show "refcounter ex_na2 0 = Some 2" "free_block_indices ex_na2 = [1]"
    using t(3) by (simp_all add: e forked_def rc_add_def ids_of_def ex_na1_full)
qed

theorem naive_append_exclusive_witness:
  "\<exists>j t. na_append_token_ids 0 [3] ex_na2 = (Inr (), t) \<and>
    b_token_ids (obj 0 t) = b_token_ids (obj 0 ex_na2) @ [3] \<and>
    b_block_id (obj 0 t) = Some j \<and> refcounter t j = Some 1 \<and>
    (if (2 :: int) = 1 then j = 0 \<and> refcounter t = refcounter ex_na2 \<and> copy_on_writes t = copy_on_writes ex_na2
     else j \<in> set (free_block_indices ex_na2) \<and> refcounter t 0 = Some (2 - 1) \<and>
       copy_on_writes t = copy_on_writes ex_na2 @ [(0, j)]) \<and>
    (\<forall>x. x \<noteq> 0 \<longrightarrow> obj x t = obj x ex_na2) \<and> na_ids_ok t"
  by (rule naive_append_exclusive [OF ex_na2_facts(1,5)])
    (simp_all add: ex_na2_facts num_empty_slots_def)

subsection \<open>Every history of calls\<close>

text \<open>One call that returned, and the allocators that calls lead to.\<close>

inductive na_call :: "NaiveAllocator \<Rightarrow> NaiveAllocator \<Rightarrow> bool" where
  call_mutable: "na_allocate_mutable_block p s = (Inr r, t) \<Longrightarrow> na_call s t"
| call_immutable: "na_allocate_immutable_block p ts s = (Inr r, t) \<Longrightarrow> na_call s t"
| call_immutables: "na_allocate_immutable_blocks p tss s = (Inr rs, t) \<Longrightarrow> na_call s t"
| call_append: "na_append_token_ids a ts s = (Inr (), t) \<Longrightarrow> na_call s t"
| call_cow: "na_cow_block_if_not_appendable r s = (Inr i, t) \<Longrightarrow> na_call s t"
| call_free: "na_free r k s = (Inr (), t) \<Longrightarrow> na_call s t"
| call_free_id: "na_free_block_id_public i s = (Inr (), t) \<Longrightarrow> na_call s t"
| call_fork: "na_fork r s = (Inr rs, t) \<Longrightarrow> na_call s t"
| call_clear: "na_clear_copy_on_writes s = (Inr cows, t) \<Longrightarrow> na_call s t"
| call_swap_out: "na_swap_out rs s = (Inr (), t) \<Longrightarrow> na_call s t"
| call_swap_in: "na_swap_in rs s = (Inr (), t) \<Longrightarrow> na_call s t"

inductive na_reachable :: "block_id list \<Rightarrow> nat \<Rightarrow> NaiveAllocator \<Rightarrow> bool" for ids b where
  na_start: "distinct ids \<Longrightarrow> na_init (length ids) b (Some ids) True s0 = (Inr (), s) \<Longrightarrow> na_reachable ids b s"
| na_step: "na_reachable ids b s \<Longrightarrow> na_call s t \<Longrightarrow> na_reachable ids b t"

lemma na_call_ids: "na_call s t \<Longrightarrow> na_ids A s \<Longrightarrow> na_ids A t"
  by (erule na_call.cases)
    (auto simp: na_free_block_id_public_def na_clear_copy_on_writes_def
      elim!: preservesD [rotated -1] intro: inv_intros)

lemma na_init_ids:
  assumes "distinct ids" and "na_init (length ids) b (Some ids) own s0 = (Inr (), s)"
  shows "na_ids (set ids) s"
proof -
  have 1: "ids_ok ids (set ids) (rc_init ids)"
    using assms(1) by (auto simp: ids_ok_def rc_init_def map_of_map_restrict restrict_map_def
        dom_map_of_conv_image_fst image_image comp_def split: if_splits)
  define u where "u = s0\<lparr>free_block_indices := ids, all_block_indices := set ids,
    refcounter := rc_init ids, a_block_size := b, copy_on_writes := []\<rparr>"
  have u: "na_ids (set ids) u" using 1 by (simp add: u_def na_ids_def)
  have run: "(if own then thenM (modM (\<lambda>s. s\<lparr>bp_block_size := b\<rparr>))
      (bp_init (length ids * 4)) else retM ()) u = (Inr (), s)"
    using assms(2) by (auto simp: na_init_def Let_def ok_simps u_def split del: if_split)
  have "preserves (na_ids (set ids)) (if own then thenM (modM (\<lambda>s. s\<lparr>bp_block_size := b\<rparr>))
      (bp_init (length ids * 4)) else retM ())"
    unfolding bp_init_def by (intro inv_intros preserves_mod) (simp_all add: na_ids_def)
  from preservesD [OF this u run] show ?thesis .
qed

lemma na_reachable_ids: "na_reachable ids b s \<Longrightarrow> na_ids (set ids) s"
  by (induction rule: na_reachable.induct) (auto intro: na_init_ids na_call_ids)

text \<open>The ids with users.\<close>

definition ids_used :: "'x NaiveAllocator_scheme \<Rightarrow> block_id set" where
  "ids_used s = {i. \<exists>n. refcounter s i = Some n \<and> 0 < n}"

lemma ids_partition:
  assumes "na_ids A s"
  shows "ids_used s = A - set (free_block_indices s)" and "card (ids_used s) + length (free_block_indices s) = card A"
proof -
  let ?F = "set (free_block_indices s)"
  from assms have ok: "ids_ok (free_block_indices s) A (refcounter s)" by (simp add: na_ids_def)
  then have f: "distinct (free_block_indices s)" "?F \<subseteq> A" "finite A" unfolding ids_ok_def by blast+
  show eq: "ids_used s = A - ?F"
  proof (rule set_eqI)
    fix i
    show "i \<in> ids_used s \<longleftrightarrow> i \<in> A - ?F"
    proof (cases "refcounter s i")
      case None
      then have "i \<notin> A" using ok unfolding ids_ok_def by auto
      with None show ?thesis by (simp add: ids_used_def)
    next
      case (Some n)
      from ids_okD [OF ok this] Some show ?thesis by (auto simp: ids_used_def)
    qed
  qed
  have "card (A - ?F) + card ?F = card A"
    using f by (metis card_Diff_subset card_mono finite_subset le_add_diff_inverse2)
  then show "card (ids_used s) + length (free_block_indices s) = card A"
    using f(1) by (simp add: eq distinct_card)
qed

text \<open>
  C33. Whatever was allocated, appended, forked, copied, swapped and freed, every id is either
  free, once in the free list and without users, or in use, out of the free list and with at
  least one user; so the free blocks and the used ones always add up to all of them.
\<close>
theorem naive_ids_conserved:
  assumes "na_reachable ids b s"
  shows "ids_used s \<union> set (free_block_indices s) = set ids \<and>
    ids_used s \<inter> set (free_block_indices s) = {} \<and> distinct (free_block_indices s) \<and>
    card (ids_used s) + na_get_num_free_blocks s = na_get_num_total_blocks s"
proof -
  from na_reachable_ids [OF assms] have ids: "na_ids (set ids) s" .
  then have "set (free_block_indices s) \<subseteq> set ids" "distinct (free_block_indices s)"
    "all_block_indices s = set ids"
    by (auto simp: na_ids_def ids_ok_def)
  with ids_partition [OF ids] show ?thesis
    by (auto simp: na_get_num_free_blocks_def na_get_num_total_blocks_def)
qed

lemma ex_na_reachable: "na_reachable [0, 1] 4 ex_na1"
proof -
  let ?s = "\<lparr>objs = [], free_block_indices = [], all_block_indices = {},
     refcounter = Map.empty, a_block_size = 0, copy_on_writes = [], bp_block_size = 0,
     bp_pool_size = 0, bp_free_ids = [], bp_pool = [], bp_prefix = False, bp_owner = GPU\<rparr>"
  have "na_init 2 4 None True ?s = na_init (length [0, 1]) 4 (Some [0, 1]) True ?s"
    by (simp add: na_init_def upt_rec numeral_2_eq_2)
  moreover have "fst (na_init 2 4 None True ?s) = Inr ()"
    by (simp add: na_init_def Let_def bp_init_def run_simps bp_create_def upt_rec numeral_eq_Suc)
  ultimately have "na_init (length [0, 1]) 4 (Some [0, 1]) True ?s = (Inr (), ex_na0)"
    by (simp add: ex_na0_def prod_eq_iff)
  with na_start [of "[0, 1]"] have "na_reachable [0, 1] 4 ex_na0" by simp
  moreover have "fst (na_allocate_immutable_block None [1, 2] ex_na0) = Inr (Blk 0)"
    by (simp add: ex_na0_eq na_allocate_immutable_block_def na_allocate_mutable_block_def
      na_allocate_block_id_def refcounterM_def rc_incr_def run_simps init_block_def block_init_def
      naive_block_init_def mod_obj_def append_token_ids_no_cow_def num_empty_slots_def ex_blk_def
      na_append_token_ids_def na_cow_block_if_not_appendable_def cow_is_appendable_def ro_get_def
      rc_get_def nth_list_update numeral_eq_Suc)
  then have "na_allocate_immutable_block None [1, 2] ex_na0 = (Inr (Blk 0), ex_na1)"
    by (simp add: ex_na1_def prod_eq_iff)
  ultimately show ?thesis by (blast intro: na_step call_immutable)
qed

theorem naive_ids_conserved_witness:
  "ids_used ex_na1 \<union> set (free_block_indices ex_na1) = set [0, 1] \<and>
    ids_used ex_na1 \<inter> set (free_block_indices ex_na1) = {} \<and> distinct (free_block_indices ex_na1) \<and>
    card (ids_used ex_na1) + na_get_num_free_blocks ex_na1 = na_get_num_total_blocks ex_na1"
  by (rule naive_ids_conserved [OF ex_na_reachable])

text \<open>
  An allocation raises \<open>NoFreeBlocksError\<close> exactly when every id is in use, and otherwise
  gives an id that had no user and now has one.
\<close>
theorem naive_allocate_id:
  assumes "na_reachable ids b s"
  shows "if ids_used s = set ids then na_allocate_block_id s = (Inl NoFreeBlocksError, s)
    else \<exists>i t. na_allocate_block_id s = (Inr i, t) \<and> i \<in> set ids - ids_used s \<and>
      ids_used t = insert i (ids_used s) \<and> refcounter t i = Some 1"
proof -
  from na_reachable_ids [OF assms] have ids: "na_ids (set ids) s" .
  then have run: "na_allocate_block_id s = (case free_block_indices s of
      [] \<Rightarrow> (Inl NoFreeBlocksError, s)
    | i # rest \<Rightarrow> (Inr i, s\<lparr>free_block_indices := rest, refcounter := (refcounter s)(i \<mapsto> 1)\<rparr>))"
    by (simp add: na_allocate_block_id_run na_ids_iff)
  have sub: "set (free_block_indices s) \<subseteq> set ids" using ids by (auto simp: na_ids_def ids_ok_def)
  show ?thesis
  proof (cases "free_block_indices s")
    case Nil
    then show ?thesis using run ids_partition(1) [OF ids] by simp
  next
    case (Cons i rest)
    then have i: "i \<in> set ids - ids_used s" using sub ids_partition(1) [OF ids] by auto
    moreover have "ids_used (s\<lparr>free_block_indices := rest, refcounter := (refcounter s)(i \<mapsto> 1)\<rparr>)
        = insert i (ids_used s)" by (auto simp: ids_used_def)
    moreover have "ids_used s \<noteq> set ids" using i by auto
    ultimately show ?thesis using run Cons by simp
  qed
qed

theorem naive_allocate_id_witness:
  "if ids_used ex_na1 = set [0, 1] then na_allocate_block_id ex_na1 = (Inl NoFreeBlocksError, ex_na1)
    else \<exists>i t. na_allocate_block_id ex_na1 = (Inr i, t) \<and> i \<in> set [0, 1] - ids_used ex_na1 \<and>
      ids_used t = insert i (ids_used ex_na1) \<and> refcounter t i = Some 1"
  by (rule naive_allocate_id [OF ex_na_reachable])

subsection \<open>The contract with block tables\<close>

text \<open>Taking the first \<open>n\<close> free ids.\<close>

lemma na_take_ids:
  assumes "na_ids_ok s" and "n \<le> length (free_block_indices s)"
  shows "mapM [0..<n] (\<lambda>_. na_allocate_block_id) s = (Inr (take n (free_block_indices s)),
    s\<lparr>free_block_indices := drop n (free_block_indices s),
      refcounter := (\<lambda>i. if i \<in> set (take n (free_block_indices s)) then Some 1 else refcounter s i)\<rparr>)"
  using assms
proof (induction n arbitrary: s)
  case 0
  then show ?case by (simp add: run_simps)
next
  case (Suc n)
  then obtain i F where F: "free_block_indices s = i # F" by (cases "free_block_indices s") auto
  define u where "u = s\<lparr>free_block_indices := F, refcounter := (refcounter s)(i \<mapsto> 1)\<rparr>"
  have al: "na_allocate_block_id s = (Inr i, u)"
    using na_allocate_block_id_run [OF Suc.prems(1)] F by (simp add: u_def)
  have ok: "na_ids_ok u" by (rule preserves_idsD [OF na_allocate_block_id_ids Suc.prems(1) al])
  have fF: "free_block_indices u = F" by (simp add: u_def)
  have "n \<le> length (free_block_indices u)" using Suc.prems(2) F fF by simp
  from Suc.IH [OF ok this] have "mapM [0..<n] (\<lambda>_. na_allocate_block_id) u = (Inr (take n F), u\<lparr>free_block_indices := drop n F,
      refcounter := (\<lambda>j. if j \<in> set (take n F) then Some 1 else refcounter u j)\<rparr>)"
    unfolding fF .
  moreover have "(\<lambda>j. if j \<in> set (take n F) then Some 1 else refcounter u j) =
      (\<lambda>j. if j \<in> set (take (Suc n) (i # F)) then Some 1 else refcounter s j)"
    by (auto simp: u_def fun_eq_iff)
  ultimately show ?case
    unfolding mapM_const_Suc using al F by (simp add: bindM_run retM_run u_def)
qed

lemma na_init_block_run:
  assumes "na_ok s" and "length ts \<le> a_block_size s"
  obtains a t where "init_block prev ts (a_block_size s) (Some i) None s = (Inr (Blk a), t)" "na_ok t"
    "a \<notin> in_use s" "in_use t = insert a (in_use s)" "same_ids s t" "same_objs_but a s t" "a < length (objs t)"
    "initialised (obj a t) prev ts (a_block_size s) (Some i)"
proof -
  have s: "bp_ok s" "0 < bp_pool_size s" "bp_kind s" "\<not> bp_prefix s" "na_ids_ok s"
    using assms(1) by (simp_all add: na_ok_def)
  obtain r t where run: "init_block prev ts (a_block_size s) (Some i) None s = (Inr r, t)"
    using init_block_returns [OF s(1-4) assms(2)] by blast
  from init_block_run [OF run s(1,2)] obtain a where a: "r = Blk a" "a \<notin> in_use s"
    "in_use t = insert a (in_use s)" "bp_ok t" "a < length (objs t)" "same_ids s t"
    "same_objs_but a s t" "initialised (obj a t) prev ts (a_block_size s) (Some i)"
    "bp_pool_size s \<le> bp_pool_size t" by metis
  have "na_ids_ok t" by (rule preserves_idsD [OF init_block_ids s(5) run])
  moreover have "bp_kind t" by (rule init_block_kind [OF run s(1-3)])
  ultimately have "na_ok t" using a s by (simp add: na_ok_def same_ids_def)
  with that run a show thesis by blast
qed

lemma in_use_bound: "bp_ok s \<Longrightarrow> x \<in> in_use s \<Longrightarrow> x < length (objs s)"
  by (auto simp: bp_ok_def in_use_def) (metis atLeastLessThan_iff nth_mem subsetD)

lemma adds_one:
  assumes "a \<notin> in_use s" and "in_use t = insert a (in_use s)" and "same_objs_but a s t" and "bp_ok s"
    and "b_block_id (obj a t) \<noteq> None"
  shows "adds_blocks (\<lambda>s a. obj a s) in_use s [Blk a] t"
  using assms in_use_bound [OF assms(4)] by (auto simp: adds_blocks_def same_objs_but_def)

lemma na_init_blocks_adds:
  "na_ok s \<Longrightarrow> \<forall>(ts, i) \<in> set l. length ts \<le> a_block_size s \<Longrightarrow>
     \<exists>rs t. na_init_blocks prev l s = (Inr rs, t) \<and> na_ok t \<and> same_ids s t \<and>
       adds_blocks (\<lambda>s a. obj a s) in_use s rs t \<and> tokens_at (\<lambda>s a. obj a s) t rs = map fst l"
proof (induction l arbitrary: prev s)
  case Nil
  then show ?case by (simp add: run_simps same_ids_def tokens_at_def)
next
  case (Cons p l)
  obtain ts i where p: "p = (ts, i)" by (cases p)
  have len: "length ts \<le> a_block_size s" using Cons.prems(2) p by simp
  from na_init_block_run [OF Cons.prems(1) len] obtain a u where
    u: "init_block prev ts (a_block_size s) (Some i) None s = (Inr (Blk a), u)" "na_ok u"
    "a \<notin> in_use s" "in_use u = insert a (in_use s)" "same_ids s u" "same_objs_but a s u" "a < length (objs u)"
    "initialised (obj a u) prev ts (a_block_size s) (Some i)" by metis
  have sz: "a_block_size u = a_block_size s" using u(5) by (simp add: same_ids_def)
  have ad: "adds_blocks (\<lambda>s a. obj a s) in_use s [Blk a] u"
    by (rule adds_one [OF u(3,4,6)]) (use Cons.prems(1) u(8) in \<open>simp_all add: na_ok_def initialised_def\<close>)
  have "\<forall>(ts, i) \<in> set l. length ts \<le> a_block_size u" using Cons.prems(2) sz by simp
  from Cons.IH [OF u(2) this, of "Some (Blk a)"] obtain rs t where
    t: "na_init_blocks (Some (Blk a)) l u = (Inr rs, t)" "na_ok t" "same_ids u t"
    "adds_blocks (\<lambda>s a. obj a s) in_use u rs t" "tokens_at (\<lambda>s a. obj a s) t rs = map fst l" by blast
  have run: "na_init_blocks prev (p # l) s = (Inr (Blk a # rs), t)"
    using u(1) t(1) p by (simp add: getM_run bindM_run retM_run)
  have "tokens_at (\<lambda>s a. obj a s) t [Blk a] = [ts]"
    using tokens_at_keep [OF t(4), of "[Blk a]"] u(4,8) by (simp add: tokens_at_def initialised_def)
  then have "tokens_at (\<lambda>s a. obj a s) t (Blk a # rs) = map fst (p # l)"
    using t(5) p by (simp add: tokens_at_def)
  moreover have "adds_blocks (\<lambda>s a. obj a s) in_use s (Blk a # rs) t"
    using adds_blocks_trans [OF ad t(4)] by simp
  moreover have "same_ids s t" using u(5) t(3) unfolding same_ids_def by simp
  ultimately show ?case using run t(2) by blast
qed

text \<open>An empty block that nobody shares.\<close>

definition na_fresh :: "'x NaiveAllocator_scheme \<Rightarrow> ref \<Rightarrow> bool" where
  "na_fresh s r \<longleftrightarrow> r = Blk (addr r) \<and> addr r < length (objs s) \<and> b_token_ids (obj (addr r) s) = [] \<and>
     b_block_size (obj (addr r) s) = a_block_size s \<and>
     (\<exists>i. b_block_id (obj (addr r) s) = Some i \<and> refcounter s i = Some 1)"

lemma na_append_own:
  assumes "a < length (objs s)" and "b_block_id (obj a s) = Some i" and "refcounter s i = Some n" and "n \<le> 1"
    and "int (length ts) \<le> num_empty_slots (obj a s)"
  shows "na_append_token_ids a ts s =
    (Inr (), s\<lparr>objs := (objs s)[a := (obj a s)\<lparr>b_token_ids := b_token_ids (obj a s) @ ts\<rparr>]\<rparr>)"
proof -
  define s1 where "s1 = s\<lparr>objs := (objs s)[a := (obj a s)\<lparr>b_token_ids := b_token_ids (obj a s) @ ts\<rparr>]\<rparr>"
  have s1: "append_token_ids_no_cow a ts s = (Inr (), s1)"
    using assms(1,5) by (auto simp: append_token_ids_no_cow_def run_simps mod_obj_def s1_def)
  have i1: "b_block_id (obj a s1) = Some i" "refcounter s1 = refcounter s" using assms(1,2) by (simp_all add: s1_def)
  have "cow_is_appendable (Blk a) s1 = (Inr (n \<le> 1), s1)"
    using i1 assms(3) by (simp add: cow_is_appendable_def run_simps refcounterM_def ro_get_def rc_get_def)
  moreover have "s1\<lparr>objs := (objs s1)[a := (obj a s1)\<lparr>b_block_id := Some i\<rparr>]\<rparr> = s1"
  proof -
    have "(obj a s1)\<lparr>b_block_id := Some i\<rparr> = obj a s1" using i1(1) by simp
    then show ?thesis by simp
  qed
  ultimately have "na_append_token_ids a ts s = (Inr (), s1)"
    using s1 i1 assms(4)
    by (simp add: na_append_token_ids_def na_cow_block_if_not_appendable_def run_simps mod_obj_def)
  then show ?thesis by (simp add: s1_def)
qed

lemma na_write_ok:
  assumes "na_ok s" and "b_prefix b' = b_prefix (obj a s)" and "b_owner b' = b_owner (obj a s)"
  shows "na_ok (s\<lparr>objs := (objs s)[a := b']\<rparr>)"
proof -
  have "bp_kind (s\<lparr>objs := (objs s)[a := b']\<rparr>)"
    using assms unfolding na_ok_def bp_kind_def
    by (auto simp: nth_list_update) (metis nth_list_update_eq nth_list_update_neq list_update_beyond not_less)+
  then show ?thesis using assms(1) by (simp add: na_ok_def na_ids_ok_def bp_ok_def)
qed

interpretation naive_source: block_source na_allocate_immutable_blocks na_allocate_mutable_block
  "\<lambda>r. na_append_token_ids (addr r)" "\<lambda>s. na_ok s \<and> bp_owner s = d" "\<lambda>s a. obj a s" in_use
  "\<lambda>s. length (free_block_indices s)" a_block_size "\<lambda>_ _. True" "\<lambda>_ _. True" na_fresh for d
proof (unfold_locales, goal_cases)
  case (3 s p tss)
  have 3: "na_ok s" "bp_owner s = d" "tss \<noteq> []" "\<forall>ts \<in> set tss. length ts = a_block_size s"
    "length tss \<le> length (free_block_indices s)" using 3 by simp_all
  have ids: "na_ids_ok s" using 3(1) by (simp add: na_ok_def)
  let ?n = "length tss"
  define u where "u = s\<lparr>free_block_indices := drop ?n (free_block_indices s),
      refcounter := (\<lambda>i. if i \<in> set (take ?n (free_block_indices s)) then Some 1 else refcounter s i)\<rparr>"
  have tk: "mapM [0..<?n] (\<lambda>_. na_allocate_block_id) s = (Inr (take ?n (free_block_indices s)), u)"
    using na_take_ids [OF ids 3(5)] by (simp add: u_def)
  have "na_ids_ok u"
    by (rule preserves_idsD [where m = "mapM [0..<?n] (\<lambda>_. na_allocate_block_id)", OF _ ids tk]) (intro inv_intros)
  then have u: "na_ok u" "in_use u = in_use s" "a_block_size u = a_block_size s"
    using 3(1) by (simp_all add: na_ok_def u_def bp_ok_def bp_kind_def in_use_def)
  let ?l = "zip tss (take ?n (free_block_indices s))"
  have l: "map fst ?l = tss" using 3(5) by simp
  have "\<forall>(ts, i) \<in> set ?l. length ts \<le> a_block_size u"
    using 3(4) u(3) by (auto dest: set_zip_leftD)
  from na_init_blocks_adds [OF u(1) this, of p] obtain rs t where
    t: "na_init_blocks p ?l u = (Inr rs, t)" "na_ok t" "same_ids u t"
    "adds_blocks (\<lambda>s a. obj a s) in_use u rs t" "tokens_at (\<lambda>s a. obj a s) t rs = tss" using l by auto
  have "na_allocate_immutable_blocks p tss s = (Inr rs, t)"
    using tk t(1) by (simp add: na_allocate_immutable_blocks_def bindM_run)
  moreover have "adds_blocks (\<lambda>s a. obj a s) in_use s rs t"
    using t(4) u(2) by (simp add: adds_blocks_def u_def)
  moreover have "length (free_block_indices s) \<le> length (free_block_indices t) + ?n"
    using t(3) by (simp add: same_ids_def u_def)
  ultimately show ?case using t u(3) 3(2) by (auto simp: same_ids_def u_def)
next
  case (4 s p)
  have 4: "na_ok s" "bp_owner s = d" "0 < length (free_block_indices s)" using 4 by simp_all
  have ids: "na_ids_ok s" using 4(1) by (simp add: na_ok_def)
  obtain i F where F: "free_block_indices s = i # F" using 4(3) by (cases "free_block_indices s") auto
  define u where "u = s\<lparr>free_block_indices := F, refcounter := (refcounter s)(i \<mapsto> 1)\<rparr>"
  have al: "na_allocate_block_id s = (Inr i, u)" using na_allocate_block_id_run [OF ids] F by (simp add: u_def)
  have "na_ids_ok u" by (rule preserves_idsD [OF na_allocate_block_id_ids ids al])
  then have u: "na_ok u" "in_use u = in_use s" using 4(1) by (simp_all add: na_ok_def u_def bp_ok_def bp_kind_def in_use_def)
  have "length ([] :: int list) \<le> a_block_size u" by simp
  from na_init_block_run [OF u(1) this] obtain a t where
    t: "init_block p [] (a_block_size u) (Some i) None u = (Inr (Blk a), t)" "na_ok t"
    "a \<notin> in_use u" "in_use t = insert a (in_use u)" "same_ids u t" "same_objs_but a u t" "a < length (objs t)"
    "initialised (obj a t) p [] (a_block_size u) (Some i)" by metis
  have "na_allocate_mutable_block p s = (Inr (Blk a), t)"
    using al t(1) by (simp add: na_allocate_mutable_block_def bindM_run getM_run)
  moreover have "adds_blocks (\<lambda>s a. obj a s) in_use s [Blk a] t"
  proof -
    have "same_objs_but a s t" using t(6) by (simp add: same_objs_but_def u_def)
    with t u(2) 4(1) show ?thesis by (intro adds_one) (simp_all add: na_ok_def initialised_def)
  qed
  moreover have "na_fresh t (Blk a)"
    using t(5,7,8) by (auto simp: na_fresh_def initialised_def same_ids_def u_def)
  ultimately show ?case
    using t F 4(2) by (auto simp: same_ids_def u_def tokens_at_def initialised_def)
next
  case (5 s r ts)
  then have 5: "na_ok s" "na_fresh s r" "length ts < a_block_size s" "bp_owner s = d" by simp_all
  from 5(2) obtain a i where r: "r = Blk a" "a < length (objs s)" "b_token_ids (obj a s) = []"
    "b_block_size (obj a s) = a_block_size s" "b_block_id (obj a s) = Some i" "refcounter s i = Some 1"
    by (cases r) (auto simp: na_fresh_def)
  have "int (length ts) \<le> num_empty_slots (obj a s)" using r 5(3) by (simp add: num_empty_slots_def)
  from na_append_own [OF r(2,5,6) _ this] have
    run: "na_append_token_ids a ts s = (Inr (), s\<lparr>objs := (objs s)[a := (obj a s)\<lparr>b_token_ids := ts\<rparr>]\<rparr>)"
    using r(3) by simp
  have "na_ok (s\<lparr>objs := (objs s)[a := (obj a s)\<lparr>b_token_ids := ts\<rparr>]\<rparr>)" by (rule na_write_ok [OF 5(1)]) simp_all
  then show ?case using run r 5(4) by (auto simp: tokens_at_def in_use_def)
qed simp_all

end
