(* ===== verification/PrefixBlock.thy ===== *)
theory PrefixBlock
  imports NaiveBlock "HOL-Library.List_Lexorder"
begin

section \<open>The prefix-caching block allocator (\<open>vllm/core/block/prefix_caching_block.py\<close>)\<close>

text \<open>
  \<open>PrefixCachingBlockAllocator\<close> keeps full blocks under a hash of their content: an id is free
  in the hashless allocator, in use, or cached without users and held by the evictor. Its state
  extends that of the naive allocator it contains, with which it shares the pool of objects and
  the reference counts. \<open>H\<close> stands for Python's \<open>hash\<close> of the tuple a block is hashed from:
  whether it is the first block, the hash of the previous block, the extra hash and the tokens.
\<close>

type_synonym hash_input = "bool \<times> int option \<times> int option \<times> int list"

subsection \<open>Tracking of ids\<close>

record BlockTracker =
  bt_active :: bool
  bt_last_accessed :: py_time
  bt_computed :: bool

text \<open>\<open>_DEFAULT_LAST_ACCESSED_TIME\<close> is -1.\<close>

definition bt_reset :: "(BlockTracker, unit) st" where
  "bt_reset = modM (\<lambda>t. t\<lparr>bt_last_accessed := - 1, bt_computed := False\<rparr>)"

definition bt_init :: BlockTracker where
  "bt_init = \<lparr>bt_active = False, bt_last_accessed = - 1, bt_computed = False\<rparr>"

definition bt_enable :: "(BlockTracker, unit) st" where
  "bt_enable = getM bt_active (\<lambda>act.
     thenM (assertM (\<not> act)) (thenM (modM (\<lambda>t. t\<lparr>bt_active := True\<rparr>)) bt_reset))"

definition bt_disable :: "(BlockTracker, unit) st" where
  "bt_disable = getM bt_active (\<lambda>act.
     thenM (assertM act) (thenM (modM (\<lambda>t. t\<lparr>bt_active := False\<rparr>)) bt_reset))"

subsection \<open>State\<close>

record PrefixAllocator = NaiveAllocator +
  cached_blocks :: "int \<rightharpoonup> block_id"
  touched_blocks :: "block_id set"
  block_tracker :: "block_id \<rightharpoonup> BlockTracker"
  evictor :: Evictor
  pa_copy_on_writes :: "(block_id \<times> block_id) list"
  metric_data :: CacheMetricData

type_synonym 'a pa = "(PrefixAllocator, 'a) st"

text \<open>\<open>self._block_tracker[block_id]\<close> and a method call on it.\<close>

definition trackerM :: "block_id \<Rightarrow> (BlockTracker, 'a) st \<Rightarrow> 'a pa" where
  "trackerM i m = getM (\<lambda>s. block_tracker s i) (\<lambda>t.
     bindM (fromM KeyError t) (\<lambda>t.
     zoomM (\<lambda>_. t) (\<lambda>u s. s\<lparr>block_tracker := (block_tracker s)(i \<mapsto> u)\<rparr>) m))"

definition evictorM :: "(Evictor, 'a) st \<Rightarrow> 'a pa" where
  "evictorM = zoomM evictor (\<lambda>e s. s\<lparr>evictor := e\<rparr>)"

definition track_block_id :: "block_id option \<Rightarrow> bool \<Rightarrow> unit pa" where
  "track_block_id i computed = bindM (fromM AssertionError i) (\<lambda>i.
     thenM (trackerM i bt_enable) (trackerM i (modM (\<lambda>t. t\<lparr>bt_computed := computed\<rparr>))))"

definition untrack_block_id :: "block_id option \<Rightarrow> unit pa" where
  "untrack_block_id i = bindM (fromM AssertionError i) (\<lambda>i. trackerM i bt_disable)"

text \<open>
  \<open>PrefixCachingBlockAllocator.__init__\<close>: the tracker, the pool of four objects per id, the
  hashless allocator on that pool, the evictor.
\<close>

definition pa_init :: "nat \<Rightarrow> nat \<Rightarrow> block_id list option \<Rightarrow> EvictionPolicy option \<Rightarrow> unit pa" where
  "pa_init num_blocks bsize block_ids policy =
     (let ids = (case block_ids of None \<Rightarrow> [0..<num_blocks] | Some l \<Rightarrow> l) in
      thenM (modM (\<lambda>s. s\<lparr>cached_blocks := Map.empty, touched_blocks := {},
          block_tracker := map_of (map (\<lambda>i. (i, bt_init)) ids),
          bp_block_size := bsize, bp_prefix := True\<rparr>))
     (thenM (bp_init (num_blocks * 4))
     (thenM (na_init num_blocks bsize (Some ids) False)
     (bindM (liftM (make_evictor policy)) (\<lambda>e.
      modM (\<lambda>s. s\<lparr>evictor := e, pa_copy_on_writes := [], metric_data := cm_init\<rparr>))))))"

subsection \<open>The content hash of a block\<close>

definition hash_block_tokens :: "(hash_input \<Rightarrow> int) \<Rightarrow> bool \<Rightarrow> int option \<Rightarrow> int list \<Rightarrow> int option
    \<Rightarrow> exn + int" where
  "hash_block_tokens H is_first prev_hash ts extra_hash =
     (if (prev_hash = None) = is_first then Inr (H (is_first, prev_hash, extra_hash, ts))
      else Inl AssertionError)"

text \<open>
  The \<open>content_hash\<close> property, which caches what it computes in every block it visits. A chain
  longer than the number of objects is cyclic, and Python raises \<open>RecursionError\<close>. The second
  equation of the case distinction is \<open>NaiveBlock.content_hash\<close>.
\<close>

definition set_cached_hash :: "nat \<Rightarrow> int \<Rightarrow> unit pa" where
  "set_cached_hash a h = mod_obj a (\<lambda>b. b\<lparr>b_prefix :=
     map_option (\<lambda>p. p\<lparr>pb_cached_content_hash := Some h\<rparr>) (b_prefix b)\<rparr>)"

fun content_hash_rec :: "(hash_input \<Rightarrow> int) \<Rightarrow> nat \<Rightarrow> nat \<Rightarrow> int option pa" where
  "content_hash_rec H 0 a = raiseM RuntimeError"
| "content_hash_rec H (Suc n) a = getM (obj a) (\<lambda>b.
     case b_prefix b of
       None \<Rightarrow> retM None
     | Some p \<Rightarrow>
         (case pb_cached_content_hash p of
            Some h \<Rightarrow> retM (Some h)
          | None \<Rightarrow>
              if \<not> is_full b then retM None
              else bindM (case b_prev_block b of
                       None \<Rightarrow> retM None
                     | Some r \<Rightarrow> content_hash_rec H n (addr r)) (\<lambda>prev_hash.
                if prev_hash = None \<and> b_prev_block b \<noteq> None then retM None
                else bindM (liftM (hash_block_tokens H (b_prev_block b = None) prev_hash
                              (b_token_ids b) (pb_extra_hash p))) (\<lambda>h.
                     thenM (set_cached_hash a h) (retM (Some h))))))"

definition content_hash :: "(hash_input \<Rightarrow> int) \<Rightarrow> ref \<Rightarrow> int option pa" where
  "content_hash H r = getM objs (\<lambda>os. content_hash_rec H (Suc (length os)) (addr r))"

subsection \<open>Reference counts of cached blocks\<close>

text \<open>The \<open>computed\<close> setter; a \<open>NaiveBlock\<close> raises \<open>NotImplementedError\<close>.\<close>

definition set_computed :: "ref \<Rightarrow> bool \<Rightarrow> unit pa" where
  "set_computed r v = getM (obj (addr r)) (\<lambda>b.
     bindM (fromM NotImplementedError (b_prefix b)) (\<lambda>p.
     mod_obj (addr r) (\<lambda>b. b\<lparr>b_prefix := Some (p\<lparr>pb_computed := v\<rparr>)\<rparr>)))"

definition get_computed :: "ref \<Rightarrow> bool pa" where
  "get_computed r = getM (obj (addr r)) (\<lambda>b.
     bindM (fromM NotImplementedError (b_prefix b)) (\<lambda>p. retM (pb_computed p)))"

definition get_block_id :: "ref \<Rightarrow> block_id option pa" where
  "get_block_id r = getM (obj (addr r)) (\<lambda>b. retM (b_block_id b))"

definition incr_refcount_cached_block :: "ref \<Rightarrow> unit pa" where
  "incr_refcount_cached_block r =
     thenM (set_computed r True)
    (bindM (get_block_id r) (\<lambda>i.
     bindM (fromM AssertionError i) (\<lambda>i.
     bindM (refcounterM (rc_incr i)) (\<lambda>n.
     if n = 1 then
       thenM (getM evictor (\<lambda>e. if ev_contains i e then evictorM (ev_remove i) else retM ()))
             (track_block_id (Some i) True)
     else retM ()))))"

definition decr_refcount_cached_block :: "(hash_input \<Rightarrow> int) \<Rightarrow> ref \<Rightarrow> unit pa" where
  "decr_refcount_cached_block H r =
     bindM (content_hash H r) (\<lambda>h.
     bindM (fromM AssertionError h) (\<lambda>h.
     bindM (get_block_id r) (\<lambda>i.
     bindM (fromM AssertionError i) (\<lambda>i.
     bindM (refcounterM (rc_decr i)) (\<lambda>n.
     if 0 < n then set_block_id r None
     else
       thenM (assertM (n = 0))
      (getM cached_blocks (\<lambda>cached.
       thenM (assertM (cached h \<noteq> None))
      (getM (obj (addr r)) (\<lambda>b.
       bindM (liftM (num_tokens_total b)) (\<lambda>tot.
       getM (\<lambda>s. block_tracker s i) (\<lambda>t.
       bindM (fromM KeyError t) (\<lambda>t.
       thenM (evictorM (ev_add i (PyInt h) tot (bt_last_accessed t)))
      (thenM (untrack_block_id (Some i))
             (set_block_id r None))))))))))))))"

definition decr_refcount_hashless_block :: "ref \<Rightarrow> unit pa" where
  "decr_refcount_hashless_block r =
     bindM (get_block_id r) (\<lambda>i.
     bindM (fromM AssertionError i) (\<lambda>i.
     bindM (refcounterM (rc_get i)) (\<lambda>n.
     thenM (if n = 1 then untrack_block_id (Some i) else retM ())
           (na_free r True))))"

subsection \<open>Taking and releasing ids\<close>

definition maybe_allocate_hashless_block_id :: "block_id option pa" where
  "maybe_allocate_hashless_block_id =
     catchM (bindM (na_allocate_mutable_block None) (\<lambda>r.
             bindM (get_block_id r) (\<lambda>i.
             thenM (free_block r)
            (thenM (track_block_id i False)
                   (retM i)))))
       NoFreeBlocksError (retM None)"

definition maybe_allocate_evicted_block_id :: "block_id option pa" where
  "maybe_allocate_evicted_block_id = getM evictor (\<lambda>e.
     if ev_num_blocks e = 0 then retM None
     else
       bindM (evictorM ev_evict) (\<lambda>(i, ch).
       getM cached_blocks (\<lambda>cached.
       bindM (fromM AssertionError (case ch of PyInt h \<Rightarrow> map_option (Pair h) (cached h) | PyBytes _ \<Rightarrow> None)) (\<lambda>(h, j).
       bindM (refcounterM (rc_get j)) (\<lambda>n.
       thenM (assertM (n = 0))
      (thenM (assertM (j = i))
      (thenM (modM (\<lambda>s. s\<lparr>cached_blocks := (cached_blocks s)(h := None)\<rparr>))
      (bindM (refcounterM (rc_incr i)) (\<lambda>_.
       thenM (track_block_id (Some i) False)
             (retM (Some i)))))))))))"

definition pa_allocate_block_id :: "block_id pa" where
  "pa_allocate_block_id =
     bindM maybe_allocate_hashless_block_id (\<lambda>r.
     case r of
       Some i \<Rightarrow> retM i
     | None \<Rightarrow>
         bindM maybe_allocate_evicted_block_id (\<lambda>r.
         case r of Some i \<Rightarrow> retM i | None \<Rightarrow> raiseM NoFreeBlocksError))"

text \<open>
  \<open>_free_block_id\<close>. Copy-on-write hands it the inner \<open>NaiveBlock\<close>, which has no content hash
  (\<open>inner\<close>); everyone else hands it a \<open>PrefixCachingBlock\<close>.
\<close>

definition pa_free_block_id :: "(hash_input \<Rightarrow> int) \<Rightarrow> bool \<Rightarrow> ref \<Rightarrow> unit pa" where
  "pa_free_block_id H inner r =
     bindM (get_block_id r) (\<lambda>i.
     thenM (assertM (i \<noteq> None))
    (bindM (if inner then retM None else content_hash H r) (\<lambda>h.
     thenM (if h \<noteq> None then decr_refcount_cached_block H r else decr_refcount_hashless_block r)
    (bindM (get_block_id r) (\<lambda>i. assertM (i = None))))))"

definition pa_free :: "(hash_input \<Rightarrow> int) \<Rightarrow> ref \<Rightarrow> bool \<Rightarrow> unit pa" where
  "pa_free H r keep_block_object =
     thenM (pa_free_block_id H False r)
           (if keep_block_object then retM () else free_block r)"

subsection \<open>Writing blocks\<close>

definition pa_cow_block_if_not_appendable :: "(hash_input \<Rightarrow> int) \<Rightarrow> ref \<Rightarrow> block_id pa" where
  "pa_cow_block_if_not_appendable H r =
     bindM (get_block_id r) (\<lambda>i.
     bindM (fromM AssertionError i) (\<lambda>src.
     bindM (cow_is_appendable r) (\<lambda>ok.
     if ok then retM src
     else thenM (pa_free_block_id H True r)
         (bindM pa_allocate_block_id (\<lambda>trg.
          thenM (modM (\<lambda>s. s\<lparr>pa_copy_on_writes := pa_copy_on_writes s @ [(src, trg)]\<rparr>))
                (retM trg))))))"

definition promote_to_immutable_block :: "(hash_input \<Rightarrow> int) \<Rightarrow> ref \<Rightarrow> block_id pa" where
  "promote_to_immutable_block H r =
     bindM (content_hash H r) (\<lambda>h.
     bindM (fromM AssertionError h) (\<lambda>h.
     bindM (get_block_id r) (\<lambda>i.
     bindM (fromM AssertionError i) (\<lambda>i.
     bindM (refcounterM (rc_get i)) (\<lambda>n.
     thenM (assertM (0 < n))
    (getM cached_blocks (\<lambda>cached.
     case cached h of
       None \<Rightarrow>
         thenM (modM (\<lambda>s. s\<lparr>cached_blocks := (cached_blocks s)(h \<mapsto> i),
             touched_blocks := insert i (touched_blocks s)\<rparr>))
               (retM i)
     | Some j \<Rightarrow>
         thenM (decr_refcount_hashless_block r)
        (getM cached_blocks (\<lambda>cached.
         bindM (fromM KeyError (cached h)) (\<lambda>j.
         thenM (set_block_id r (Some j))
        (thenM (incr_refcount_cached_block r)
        (bindM (get_block_id r) (\<lambda>i. fromM AssertionError i)))))))))))))"

text \<open>\<open>PrefixCachingBlock.append_token_ids\<close>; the inner block appends and handles copy-on-write.\<close>

definition inner_append_token_ids :: "(hash_input \<Rightarrow> int) \<Rightarrow> nat \<Rightarrow> int list \<Rightarrow> unit pa" where
  "inner_append_token_ids H a ts =
     thenM (append_token_ids_no_cow a ts)
    (getM (\<lambda>s. b_block_id (obj a s)) (\<lambda>i.
     if i = None then retM ()
     else bindM (pa_cow_block_if_not_appendable H (Blk a)) (\<lambda>j. set_block_id (Blk a) (Some j))))"

definition pa_append_token_ids :: "(hash_input \<Rightarrow> int) \<Rightarrow> nat \<Rightarrow> int list \<Rightarrow> unit pa" where
  "pa_append_token_ids H a ts =
     bindM (content_hash H (Blk a)) (\<lambda>h.
     thenM (assertM (h = None))
    (bindM (get_computed (Blk a)) (\<lambda>c.
     thenM (assertM (\<not> c))
    (if ts = [] then retM ()
     else
       thenM (inner_append_token_ids H a ts)
      (thenM (update_num_tokens_total a)
      (bindM (content_hash H (Blk a)) (\<lambda>h.
       if h = None then retM ()
       else bindM (promote_to_immutable_block H (Blk a)) (\<lambda>j. set_block_id (Blk a) (Some j)))))))))"

subsection \<open>Allocation\<close>

definition pa_allocate_mutable_block :: "(hash_input \<Rightarrow> int) \<Rightarrow> ref option \<Rightarrow> ref pa" where
  "pa_allocate_mutable_block H prev =
     thenM (getM objs (\<lambda>os. assertM (prefix_block_or_none os prev)))
    (bindM pa_allocate_block_id (\<lambda>i.
     getM a_block_size (\<lambda>bsize.
     bindM (init_block prev [] bsize (Some i) None) (\<lambda>r.
     bindM (get_computed r) (\<lambda>c.
     thenM (assertM (\<not> c))
    (bindM (content_hash H r) (\<lambda>h.
     thenM (assertM (h = None)) (retM r))))))))"

definition metric_query :: "bool \<Rightarrow> unit pa" where
  "metric_query hit = modM (\<lambda>s. s\<lparr>metric_data := cm_query hit (metric_data s)\<rparr>)"

definition pa_allocate_immutable_block :: "(hash_input \<Rightarrow> int) \<Rightarrow> ref option \<Rightarrow> int list \<Rightarrow> ref pa" where
  "pa_allocate_immutable_block H prev ts =
     thenM (getM objs (\<lambda>os. assertM (prefix_block_or_none os prev)))
    (getM a_block_size (\<lambda>bsize.
     bindM (init_block prev ts bsize None None) (\<lambda>r.
     bindM (content_hash H r) (\<lambda>h.
     bindM (fromM AssertionError h) (\<lambda>h.
     getM cached_blocks (\<lambda>cached.
     case cached h of
       Some j \<Rightarrow>
         thenM (metric_query True)
        (thenM (set_block_id r (Some j))
        (thenM (incr_refcount_cached_block r)
               (retM r)))
     | None \<Rightarrow>
         thenM (metric_query False)
        (thenM (free_block r)
        (bindM (pa_allocate_mutable_block H prev) (\<lambda>r.
         thenM (pa_append_token_ids H (addr r) ts) (retM r))))))))))"

fun pa_allocate_immutable_blocks :: "(hash_input \<Rightarrow> int) \<Rightarrow> ref option \<Rightarrow> int list list \<Rightarrow> ref list pa" where
  "pa_allocate_immutable_blocks H prev [] = retM []"
| "pa_allocate_immutable_blocks H prev (ts # tss) =
     bindM (pa_allocate_immutable_block H prev ts) (\<lambda>r.
     bindM (pa_allocate_immutable_blocks H (Some r) tss) (\<lambda>rs. retM (r # rs)))"

text \<open>\<open>fork\<close> is the loop of the naive allocator, on blocks of the other class.\<close>

definition pa_fork :: "ref \<Rightarrow> ref list pa" where
  "pa_fork last_block = bindM (get_all_blocks_recursively last_block) (na_fork_blocks None)"

subsection \<open>Queries\<close>

definition pa_get_num_free_blocks :: "PrefixAllocator \<Rightarrow> nat" where
  "pa_get_num_free_blocks s = na_get_num_free_blocks s + ev_num_blocks (evictor s)"

definition pa_get_num_total_blocks :: "PrefixAllocator \<Rightarrow> nat" where
  "pa_get_num_total_blocks s = na_get_num_total_blocks s"

definition pa_get_physical_block_id :: "block_id \<Rightarrow> nat pa" where
  "pa_get_physical_block_id i = getM all_block_indices (\<lambda>ids.
     fromM ValueError (list_index (sorted_list_of_set ids) i))"

definition pa_get_prefix_cache_hit_rate :: "PrefixAllocator \<Rightarrow> rat" where
  "pa_get_prefix_cache_hit_rate s = cm_get_hit_rate (metric_data s)"

definition is_block_cached :: "(hash_input \<Rightarrow> int) \<Rightarrow> ref \<Rightarrow> bool pa" where
  "is_block_cached H r =
     bindM (content_hash H r) (\<lambda>h.
     bindM (fromM AssertionError h) (\<lambda>h.
     getM cached_blocks (\<lambda>cached. retM (cached h \<noteq> None))))"

definition pa_clear_copy_on_writes :: "(block_id \<times> block_id) list pa" where
  "pa_clear_copy_on_writes = getM pa_copy_on_writes (\<lambda>cows.
     thenM (modM (\<lambda>s. s\<lparr>pa_copy_on_writes := []\<rparr>)) (retM cows))"

subsection \<open>Access times and computed blocks\<close>

definition mark_block_as_accessed :: "py_time \<Rightarrow> block_id \<Rightarrow> unit pa" where
  "mark_block_as_accessed now i = getM (\<lambda>s. block_tracker s i) (\<lambda>t.
     bindM (fromM KeyError t) (\<lambda>t.
     getM evictor (\<lambda>e.
     if bt_active t then trackerM i (modM (\<lambda>t. t\<lparr>bt_last_accessed := now\<rparr>))
     else if ev_contains i e then evictorM (ev_update i now)
     else raiseM ValueError)))"

definition pa_mark_blocks_as_accessed :: "block_id list \<Rightarrow> py_time \<Rightarrow> unit pa" where
  "pa_mark_blocks_as_accessed ids now = forM ids (mark_block_as_accessed now)"

text \<open>The touched blocks are a set; they are visited in ascending order here.\<close>

definition pa_mark_blocks_as_computed :: "block_id list \<Rightarrow> unit pa" where
  "pa_mark_blocks_as_computed ids = getM touched_blocks (\<lambda>touched.
     thenM (forM (sorted_list_of_set touched) (\<lambda>i. trackerM i (modM (\<lambda>t. t\<lparr>bt_computed := True\<rparr>))))
           (modM (\<lambda>s. s\<lparr>touched_blocks := {}\<rparr>)))"

definition block_is_computed :: "block_id \<Rightarrow> bool pa" where
  "block_is_computed i = getM (\<lambda>s. block_tracker s i) (\<lambda>t.
     bindM (fromM KeyError t) (\<lambda>t.
     getM evictor (\<lambda>e. retM (if bt_active t then bt_computed t else ev_contains i e))))"

text \<open>
  The loop appends to the list it was given, \<open>prev_computed_block_ids\<close>; the result is that list
  after the loop.
\<close>

definition get_computed_block_ids :: "block_id list \<Rightarrow> block_id list \<Rightarrow> bool \<Rightarrow> block_id list pa" where
  "get_computed_block_ids prev_computed ids skip_last =
     (let prev_size = length prev_computed;
          cur_size = int (length ids) - (if skip_last then 1 else 0) in
      thenM (assertM (0 \<le> cur_size))
     (thenM (assertM (int prev_size \<le> cur_size))
     (bindM (mapM (drop prev_size (take (nat cur_size) ids)) (\<lambda>i.
          bindM (block_is_computed i) (\<lambda>c. retM (if c then [i] else [])))) (\<lambda>new.
      retM (prev_computed @ concat new)))))"

text \<open>
  \<open>os.path.commonprefix\<close>: the common prefix of the least and the greatest list in the
  lexicographic order; the empty string, which callers use as an empty list, when there is none.
\<close>

fun common_prefix2 :: "'a list \<Rightarrow> 'a list \<Rightarrow> 'a list" where
  "common_prefix2 (x # xs) (y # ys) = (if x = y then x # common_prefix2 xs ys else [])"
| "common_prefix2 xs ys = []"

definition commonprefix :: "block_id list list \<Rightarrow> block_id list" where
  "commonprefix ls = (case ls of [] \<Rightarrow> [] | l # rest \<Rightarrow>
     common_prefix2 (foldl min l rest) (foldl max l rest))"

definition pa_get_common_computed_block_ids :: "block_id list list \<Rightarrow> block_id list" where
  "pa_get_common_computed_block_ids computed =
     (case computed of [ids] \<Rightarrow> ids | _ \<Rightarrow> commonprefix (filter (\<lambda>ids. ids \<noteq> []) computed))"

fun find_cached_blocks :: "(int \<rightharpoonup> block_id) \<Rightarrow> int list \<Rightarrow> block_id list" where
  "find_cached_blocks cached [] = []"
| "find_cached_blocks cached (h # hs) =
     (case cached h of Some i \<Rightarrow> i # find_cached_blocks cached hs | None \<Rightarrow> [])"

definition find_cached_blocks_prefix :: "int list \<Rightarrow> PrefixAllocator \<Rightarrow> block_id list" where
  "find_cached_blocks_prefix hashes s = find_cached_blocks (cached_blocks s) hashes"

subsection \<open>Swapping\<close>

definition full_block_touched :: "(hash_input \<Rightarrow> int) \<Rightarrow> ref \<Rightarrow> bool pa" where
  "full_block_touched H r = getM (obj (addr r)) (\<lambda>b.
     if \<not> is_full b then retM False
     else bindM (is_block_cached H r) (\<lambda>c.
       if \<not> c then retM True
       else bindM (content_hash H r) (\<lambda>h.
            bindM (fromM AssertionError h) (\<lambda>h.
            getM cached_blocks (\<lambda>cached.
            bindM (fromM KeyError (cached h)) (\<lambda>i.
            getM evictor (\<lambda>e. retM (ev_contains i e))))))))"

definition pa_get_num_full_blocks_touched :: "(hash_input \<Rightarrow> int) \<Rightarrow> ref list \<Rightarrow> nat pa" where
  "pa_get_num_full_blocks_touched H blocks =
     bindM (mapM blocks (full_block_touched H)) (\<lambda>bs. retM (length (filter id bs)))"

definition pa_swap_out :: "(hash_input \<Rightarrow> int) \<Rightarrow> ref list \<Rightarrow> unit pa" where
  "pa_swap_out H blocks = getM objs (\<lambda>os.
     forM (filter (\<lambda>r. b_block_id (os ! addr r) \<noteq> None) blocks) (pa_free_block_id H False))"

text \<open>One allocation of phase 2 of \<open>swap_in\<close>, from the plan of phase 1.\<close>

definition swap_in_allocate :: "(hash_input \<Rightarrow> int) \<Rightarrow> bool \<times> ref option \<times> int list
    \<Rightarrow> block_id option pa" where
  "swap_in_allocate H plan = (case plan of (full, prev, ts) \<Rightarrow>
     bindM (if full then pa_allocate_immutable_block H prev ts
            else bindM (pa_allocate_mutable_block H prev) (\<lambda>t.
                 thenM (pa_append_token_ids H (addr t) ts) (retM t))) (\<lambda>t.
     bindM (get_block_id t) (\<lambda>i.
     thenM (free_block t) (retM i))))"

definition pa_swap_in :: "(hash_input \<Rightarrow> int) \<Rightarrow> ref list \<Rightarrow> unit pa" where
  "pa_swap_in H blocks = getM objs (\<lambda>os.
     bindM (mapM (map (\<lambda>r. let b = os ! addr r in (is_full b, b_prev_block b, b_token_ids b)) blocks)
              (swap_in_allocate H)) (\<lambda>ids.
     forM (zip blocks ids) (\<lambda>(r, i). set_block_id r i)))"

text \<open>
  \<open>reset_prefix_cache\<close>. Neither evictor class has an \<open>eviction_policy\<close> attribute, so
  \<open>make_evictor\<close> is always called with \<open>None\<close>.
\<close>

definition pa_reset_prefix_cache :: "bool pa" where
  "pa_reset_prefix_cache =
     thenM (modM (\<lambda>s. s\<lparr>cached_blocks := Map.empty\<rparr>))
    (bindM (liftM (make_evictor None)) (\<lambda>e.
     thenM (modM (\<lambda>s. s\<lparr>evictor := e\<rparr>)) (retM True)))"

subsection \<open>Trackers of sequences\<close>

record ComputedBlocksTracker =
  cached_computed_seq_blocks :: "nat \<rightharpoonup> block_id list \<times> bool"

definition cbt_add_seq :: "nat \<Rightarrow> (ComputedBlocksTracker, unit) st" where
  "cbt_add_seq q = getM cached_computed_seq_blocks (\<lambda>d.
     thenM (assertM (d q = None))
           (modM (\<lambda>s. s\<lparr>cached_computed_seq_blocks := d(q \<mapsto> ([], False))\<rparr>)))"

definition cbt_remove_seq :: "nat \<Rightarrow> (ComputedBlocksTracker, unit) st" where
  "cbt_remove_seq q = getM cached_computed_seq_blocks (\<lambda>d.
     thenM (assertM (d q \<noteq> None))
           (modM (\<lambda>s. s\<lparr>cached_computed_seq_blocks := d(q := None)\<rparr>)))"

text \<open>
  The trackers call the allocator they hold: the state is the tracker with the allocator, and
  \<open>computed\<close> and \<open>mark\<close> are the allocator's \<open>get_computed_block_ids\<close> and
  \<open>mark_blocks_as_accessed\<close>.
\<close>

definition get_cached_computed_blocks_and_update ::
  "(block_id list \<Rightarrow> block_id list \<Rightarrow> bool \<Rightarrow> ('al, block_id list) st) \<Rightarrow> nat \<Rightarrow> block_id list
    \<Rightarrow> (ComputedBlocksTracker \<times> 'al, block_id list) st" where
  "get_cached_computed_blocks_and_update computed q ids = getM (cached_computed_seq_blocks \<circ> fst) (\<lambda>d.
     bindM (fromM AssertionError (d q)) (\<lambda>(prev_computed, has_gap).
     if has_gap then retM prev_computed
     else
       let num_cur_blocks = int (length ids) - 1 in
       thenM (assertM (0 \<le> num_cur_blocks))
      (if num_cur_blocks \<le> int (length prev_computed) then
         thenM (assertM (int (length prev_computed) = num_cur_blocks)) (retM prev_computed)
       else
         bindM (zoomM snd (\<lambda>a (c, _). (c, a)) (computed prev_computed ids True)) (\<lambda>new_computed.
         thenM (modM (\<lambda>(c, a). (c\<lparr>cached_computed_seq_blocks :=
             d(q \<mapsto> (new_computed, int (length new_computed) < num_cur_blocks))\<rparr>, a)))
               (retM new_computed)))))"

record LastAccessBlocksTracker =
  seq_last_access :: "nat \<rightharpoonup> py_time option"

definition lat_add_seq :: "nat \<Rightarrow> (LastAccessBlocksTracker, unit) st" where
  "lat_add_seq q = getM seq_last_access (\<lambda>d.
     thenM (assertM (d q = None)) (modM (\<lambda>s. s\<lparr>seq_last_access := d(q \<mapsto> None)\<rparr>)))"

definition lat_remove_seq :: "nat \<Rightarrow> (LastAccessBlocksTracker, unit) st" where
  "lat_remove_seq q = getM seq_last_access (\<lambda>d.
     thenM (assertM (d q \<noteq> None)) (modM (\<lambda>s. s\<lparr>seq_last_access := d(q := None)\<rparr>)))"

definition update_last_access :: "nat \<Rightarrow> py_time \<Rightarrow> (LastAccessBlocksTracker, unit) st" where
  "update_last_access q now = getM seq_last_access (\<lambda>d.
     thenM (assertM (d q \<noteq> None)) (modM (\<lambda>s. s\<lparr>seq_last_access := d(q \<mapsto> Some now)\<rparr>)))"

definition update_seq_blocks_last_access :: "(block_id list \<Rightarrow> py_time \<Rightarrow> ('al, unit) st)
    \<Rightarrow> nat \<Rightarrow> block_id list \<Rightarrow> (LastAccessBlocksTracker \<times> 'al, unit) st" where
  "update_seq_blocks_last_access mark q ids = getM (seq_last_access \<circ> fst) (\<lambda>d.
     bindM (fromM AssertionError (d q)) (\<lambda>ts.
     case ts of
       None \<Rightarrow> retM ()
     | Some now \<Rightarrow> zoomM snd (\<lambda>a (l, _). (l, a)) (mark ids now)))"

subsection \<open>The invariant of the ids\<close>

text \<open>
  \<open>F\<close> free ids, \<open>A\<close> all ids, \<open>rc\<close> reference counts, \<open>tr\<close> trackers, \<open>E\<close> the evictor's table and
  \<open>C\<close> the cached blocks: an id without users is free or evictable, not both; an id is tracked as
  active when it has users; the evictor holds ids with the hash they are cached under; a cached
  id is not free, and is cached under one hash.
\<close>

definition pids_ok :: "block_id list \<Rightarrow> block_id set \<Rightarrow> refcounts \<Rightarrow> (block_id \<rightharpoonup> BlockTracker)
    \<Rightarrow> (block_id \<rightharpoonup> content_hash) \<Rightarrow> (int \<rightharpoonup> block_id) \<Rightarrow> bool" where
  "pids_ok F A rc tr E C \<longleftrightarrow> distinct F \<and> finite A \<and> set F \<subseteq> A \<and> dom E \<subseteq> A \<and> dom E \<inter> set F = {} \<and>
     dom rc = A \<and> dom tr = A \<and>
     (\<forall>i n t. rc i = Some n \<longrightarrow> tr i = Some t \<longrightarrow>
        0 \<le> n \<and> (n = 0 \<longleftrightarrow> i \<in> set F \<union> dom E) \<and> (bt_active t \<longleftrightarrow> 0 < n)) \<and>
     (\<forall>i c. E i = Some c \<longrightarrow> (\<exists>h. c = PyInt h \<and> C h = Some i)) \<and>
     (\<forall>h i. C h = Some i \<longrightarrow> i \<in> A - set F) \<and>
     (\<forall>h h' i. C h = Some i \<longrightarrow> C h' = Some i \<longrightarrow> h = h')"

definition pa_ids :: "block_id set \<Rightarrow> PrefixAllocator \<Rightarrow> bool" where
  "pa_ids A s \<longleftrightarrow> all_block_indices s = A \<and> ev_inv (evictor s) \<and>
     pids_ok (free_block_indices s) A (refcounter s) (block_tracker s) (ev_table (evictor s)) (cached_blocks s)"

lemma pids_okD:
  assumes "pids_ok F A rc tr E C"
  shows "distinct F" and "finite A" and "set F \<subseteq> A" and "dom E \<subseteq> A" and "dom E \<inter> set F = {}"
    and "dom rc = A" and "dom tr = A"
    and "rc i = Some n \<Longrightarrow> tr i = Some t \<Longrightarrow> 0 \<le> n \<and> (n = 0 \<longleftrightarrow> i \<in> set F \<union> dom E) \<and> (bt_active t \<longleftrightarrow> 0 < n)"
    and "E i = Some c \<Longrightarrow> \<exists>h. c = PyInt h \<and> C h = Some i"
    and "C h = Some i \<Longrightarrow> i \<in> A - set F"
    and "C h = Some i \<Longrightarrow> C h' = Some i \<Longrightarrow> h = h'"
  using assms unfolding pids_ok_def by blast+

lemma pids_okI:
  assumes "distinct F" and "finite A" and "set F \<subseteq> A" and "dom E \<subseteq> A" and "dom E \<inter> set F = {}"
    and "dom rc = A" and "dom tr = A"
    and "\<And>i n t. rc i = Some n \<Longrightarrow> tr i = Some t \<Longrightarrow>
      0 \<le> n \<and> (n = 0 \<longleftrightarrow> i \<in> set F \<union> dom E) \<and> (bt_active t \<longleftrightarrow> 0 < n)"
    and "\<And>i c. E i = Some c \<Longrightarrow> \<exists>h. c = PyInt h \<and> C h = Some i"
    and "\<And>h i. C h = Some i \<Longrightarrow> i \<in> A - set F"
    and "\<And>h h' i. C h = Some i \<Longrightarrow> C h' = Some i \<Longrightarrow> h = h'"
  shows "pids_ok F A rc tr E C"
  unfolding pids_ok_def using assms by blast

text \<open>The counts an id can have.\<close>

lemma pids_count:
  assumes "pids_ok F A rc tr E C"
  shows "i \<in> A \<Longrightarrow> \<exists>n t. rc i = Some n \<and> tr i = Some t"
    and "i \<in> set F \<Longrightarrow> rc i = Some 0" and "E i = Some c \<Longrightarrow> rc i = Some 0"
    and "rc i = Some n \<Longrightarrow> 0 < n \<Longrightarrow> i \<in> A \<and> i \<notin> set F \<and> E i = None"
proof -
  note d = pids_okD [OF assms]
  show 1: "\<exists>n t. rc i = Some n \<and> tr i = Some t" if "i \<in> A" for i
    using that d(6,7) by (metis domD)
  show "rc i = Some 0" if "i \<in> set F"
  proof -
    from that d(3) 1 obtain n t where "rc i = Some n" "tr i = Some t" by blast
    with d(8) [OF this] that show ?thesis by simp
  qed
  show "rc i = Some 0" if "E i = Some c"
  proof -
    have "i \<in> dom E" using that by auto
    with d(4) 1 obtain n t where "rc i = Some n" "tr i = Some t" by blast
    with d(8) [OF this] \<open>i \<in> dom E\<close> show ?thesis by simp
  qed
  show "i \<in> A \<and> i \<notin> set F \<and> E i = None" if "rc i = Some n" "0 < n"
  proof -
    have i: "i \<in> A" using that(1) d(6) by auto
    with 1 obtain t where "tr i = Some t" by blast
    with d(8) [OF that(1)] that(2) i show ?thesis by auto
  qed
qed

lemma pids_take_free:
  assumes "pids_ok (i # F) A rc tr E C" and "bt_active t"
  shows "pids_ok F A (rc(i \<mapsto> 1)) (tr(i \<mapsto> t)) E C" and "rc i = Some 0" and "i \<notin> ran C"
proof -
  note d = pids_okD [OF assms(1)]
  show "rc i = Some 0" by (rule pids_count(2) [OF assms(1)]) simp
  show "i \<notin> ran C" using d(10) by (fastforce simp: ran_def)
  show "pids_ok F A (rc(i \<mapsto> 1)) (tr(i \<mapsto> t)) E C"
  proof (rule pids_okI)
    fix j n u assume "(rc(i \<mapsto> 1)) j = Some n" "(tr(i \<mapsto> t)) j = Some u"
    then show "0 \<le> n \<and> (n = 0 \<longleftrightarrow> j \<in> set F \<union> dom E) \<and> (bt_active u \<longleftrightarrow> 0 < n)"
      using d(1,5) d(8) [of j n u] assms(2) by (auto split: if_splits)
  qed (use d in \<open>auto\<close>)
qed

lemma pids_take_evicted:
  assumes "pids_ok F A rc tr E C" and "E i = Some (PyInt h)" and "bt_active t"
  shows "pids_ok F A (rc(i \<mapsto> 1)) (tr(i \<mapsto> t)) (E(i := None)) (C(h := None))"
    and "rc i = Some 0" and "C h = Some i" and "i \<notin> ran (C(h := None))"
proof -
  note d = pids_okD [OF assms(1)]
  show "rc i = Some 0" by (rule pids_count(3) [OF assms(1,2)])
  show h: "C h = Some i" using d(9) [OF assms(2)] by auto
  then show "i \<notin> ran (C(h := None))" using d(11) by (auto simp: ran_def split: if_splits)
  have i: "i \<in> A" "i \<notin> set F" using d(4,5) assms(2) by auto
  show "pids_ok F A (rc(i \<mapsto> 1)) (tr(i \<mapsto> t)) (E(i := None)) (C(h := None))"
  proof (rule pids_okI)
    fix j n u assume "(rc(i \<mapsto> 1)) j = Some n" "(tr(i \<mapsto> t)) j = Some u"
    then show "0 \<le> n \<and> (n = 0 \<longleftrightarrow> j \<in> set F \<union> dom (E(i := None))) \<and> (bt_active u \<longleftrightarrow> 0 < n)"
      using i d(8) [of j n u] assms(3) by (auto split: if_splits)
  next
    fix j c assume "(E(i := None)) j = Some c"
    then have j: "j \<noteq> i" "E j = Some c" by (auto split: if_splits)
    then obtain h' where "c = PyInt h'" "C h' = Some j" using d(9) by blast
    moreover have "h' \<noteq> h" using calculation j h by auto
    ultimately show "\<exists>h'. c = PyInt h' \<and> (C(h := None)) h' = Some j" by auto
  qed (use d i in \<open>auto split: if_splits\<close>)
qed

text \<open>One user more or less, with users left.\<close>

lemma pids_recount:
  assumes "pids_ok F A rc tr E C" and "rc i = Some n" and "0 < n" and "0 < m"
  shows "pids_ok F A (rc(i \<mapsto> m)) tr E C"
proof -
  note d = pids_okD [OF assms(1)] and c = pids_count(4) [OF assms(1-3)]
  show ?thesis
  proof (rule pids_okI)
    fix j k u assume "(rc(i \<mapsto> m)) j = Some k" "tr j = Some u"
    then show "0 \<le> k \<and> (k = 0 \<longleftrightarrow> j \<in> set F \<union> dom E) \<and> (bt_active u \<longleftrightarrow> 0 < k)"
      using d(8) [of j k u] d(8) [of i n u] assms(2-4) by (auto split: if_splits)
  qed (use d c in \<open>auto\<close>)
qed

lemma pids_release_hashless:
  assumes "pids_ok F A rc tr E C" and "rc i = Some 1" and "i \<notin> ran C" and "\<not> bt_active t"
  shows "pids_ok (i # F) A (rc(i \<mapsto> 0)) (tr(i \<mapsto> t)) E C"
proof -
  note d = pids_okD [OF assms(1)]
  have c: "i \<in> A" "i \<notin> set F" "E i = None" using pids_count(4) [OF assms(1,2)] by simp_all
  show ?thesis
  proof (rule pids_okI)
    fix j k u assume "(rc(i \<mapsto> 0)) j = Some k" "(tr(i \<mapsto> t)) j = Some u"
    then show "0 \<le> k \<and> (k = 0 \<longleftrightarrow> j \<in> set (i # F) \<union> dom E) \<and> (bt_active u \<longleftrightarrow> 0 < k)"
      using d(8) [of j k u] assms(4) by (auto split: if_splits)
  next
    fix h j assume "C h = Some j"
    then show "j \<in> A - set (i # F)" using d(10) [of h j] assms(3) by (auto simp: ran_def)
  qed (use d c in \<open>auto\<close>)
qed

lemma pids_release_cached:
  assumes "pids_ok F A rc tr E C" and "rc i = Some 1" and "C h = Some i" and "\<not> bt_active t"
  shows "pids_ok F A (rc(i \<mapsto> 0)) (tr(i \<mapsto> t)) (E(i \<mapsto> PyInt h)) C"
proof -
  note d = pids_okD [OF assms(1)]
  have c: "i \<in> A" "i \<notin> set F" "E i = None" using pids_count(4) [OF assms(1,2)] by simp_all
  show ?thesis
  proof (rule pids_okI)
    fix j k u assume "(rc(i \<mapsto> 0)) j = Some k" "(tr(i \<mapsto> t)) j = Some u"
    then show "0 \<le> k \<and> (k = 0 \<longleftrightarrow> j \<in> set F \<union> dom (E(i \<mapsto> PyInt h))) \<and> (bt_active u \<longleftrightarrow> 0 < k)"
      using d(8) [of j k u] assms(4) by (auto split: if_splits)
  next
    fix j x assume "(E(i \<mapsto> PyInt h)) j = Some x"
    then show "\<exists>h. x = PyInt h \<and> C h = Some j" using d(9) [of j x] assms(3) by (auto split: if_splits)
  qed (use d c in \<open>auto\<close>)
qed

lemma pids_revive:
  assumes "pids_ok F A rc tr E C" and "E i = Some x" and "bt_active t"
  shows "pids_ok F A (rc(i \<mapsto> 1)) (tr(i \<mapsto> t)) (E(i := None)) C"
proof -
  note d = pids_okD [OF assms(1)]
  have i: "i \<in> A" "i \<notin> set F" using d(4,5) assms(2) by auto
  show ?thesis
  proof (rule pids_okI)
    fix j n u assume "(rc(i \<mapsto> 1)) j = Some n" "(tr(i \<mapsto> t)) j = Some u"
    then show "0 \<le> n \<and> (n = 0 \<longleftrightarrow> j \<in> set F \<union> dom (E(i := None))) \<and> (bt_active u \<longleftrightarrow> 0 < n)"
      using i d(8) [of j n u] assms(3) by (auto split: if_splits)
  qed (use d i in \<open>auto split: if_splits\<close>)
qed

lemma pids_promote:
  assumes "pids_ok F A rc tr E C" and "rc i = Some n" and "0 < n" and "C h = None" and "i \<notin> ran C"
  shows "pids_ok F A rc tr E (C(h \<mapsto> i))"
proof -
  note d = pids_okD [OF assms(1)]
  have c: "i \<in> A" "i \<notin> set F" "E i = None" using pids_count(4) [OF assms(1-3)] by simp_all
  show ?thesis
  proof (rule pids_okI)
    fix j x assume "E j = Some x"
    then obtain h' where "x = PyInt h'" "C h' = Some j" using d(9) by blast
    then show "\<exists>h'. x = PyInt h' \<and> (C(h \<mapsto> i)) h' = Some j" using assms(4) by auto
  next
    fix h1 h2 j assume "(C(h \<mapsto> i)) h1 = Some j" "(C(h \<mapsto> i)) h2 = Some j"
    then show "h1 = h2" using d(11) [of h1 j h2] assms(5) by (auto simp: ran_def split: if_splits)
  qed (use d c in \<open>auto split: if_splits\<close>)
qed

subsection \<open>What operations on objects keep\<close>

text \<open>\<open>id_view s\<close> is \<open>s\<close> without its block objects and their pool.\<close>

definition id_view :: "PrefixAllocator \<Rightarrow> PrefixAllocator" where
  "id_view s = s\<lparr>objs := [], bp_pool_size := 0, bp_free_ids := [], bp_pool := []\<rparr>"

abbreviation keeps_ids :: "'a pa \<Rightarrow> bool" where
  "keeps_ids m \<equiv> (\<forall>v. preserves (\<lambda>s. id_view s = v) m)"

lemma keeps_idsD: "keeps_ids m \<Longrightarrow> m s = (Inr y, t) \<Longrightarrow> id_view t = id_view s"
  by (auto dest: preservesD [where P = "\<lambda>u. id_view u = id_view s"])

lemma id_view_fields:
  assumes "id_view t = id_view s"
  shows "free_block_indices t = free_block_indices s" "all_block_indices t = all_block_indices s"
    "refcounter t = refcounter s" "block_tracker t = block_tracker s" "evictor t = evictor s"
    "cached_blocks t = cached_blocks s" "touched_blocks t = touched_blocks s"
    "pa_copy_on_writes t = pa_copy_on_writes s" "metric_data t = metric_data s"
    "a_block_size t = a_block_size s" "bp_prefix t = bp_prefix s" "bp_owner t = bp_owner s"
proof -
  show "free_block_indices t = free_block_indices s" using arg_cong [OF assms, of free_block_indices] by (simp add: id_view_def)
  show "all_block_indices t = all_block_indices s" using arg_cong [OF assms, of all_block_indices] by (simp add: id_view_def)
  show "refcounter t = refcounter s" using arg_cong [OF assms, of refcounter] by (simp add: id_view_def)
  show "block_tracker t = block_tracker s" using arg_cong [OF assms, of block_tracker] by (simp add: id_view_def)
  show "evictor t = evictor s" using arg_cong [OF assms, of evictor] by (simp add: id_view_def)
  show "cached_blocks t = cached_blocks s" using arg_cong [OF assms, of cached_blocks] by (simp add: id_view_def)
  show "touched_blocks t = touched_blocks s" using arg_cong [OF assms, of touched_blocks] by (simp add: id_view_def)
  show "pa_copy_on_writes t = pa_copy_on_writes s" using arg_cong [OF assms, of pa_copy_on_writes] by (simp add: id_view_def)
  show "metric_data t = metric_data s" using arg_cong [OF assms, of metric_data] by (simp add: id_view_def)
  show "a_block_size t = a_block_size s" using arg_cong [OF assms, of a_block_size] by (simp add: id_view_def)
  show "bp_prefix t = bp_prefix s" using arg_cong [OF assms, of bp_prefix] by (simp add: id_view_def)
  show "bp_owner t = bp_owner s" using arg_cong [OF assms, of bp_owner] by (simp add: id_view_def)
qed

lemma pa_ids_view:
  assumes "id_view t = id_view s"
  shows "pa_ids A t = pa_ids A s"
  unfolding pa_ids_def id_view_fields [OF assms] by (rule refl)

lemma keep_mod_obj [inv_intros]: "preserves (\<lambda>s. id_view s = v) (mod_obj a f)"
  unfolding mod_obj_def by (rule preserves_mod) (simp add: id_view_def)

lemma keep_set_block_id [inv_intros]: "preserves (\<lambda>s. id_view s = v) (set_block_id r i)"
  by (cases r) (auto intro: inv_intros)

lemma keep_append_no_cow [inv_intros]: "preserves (\<lambda>s. id_view s = v) (append_token_ids_no_cow a ts)"
  unfolding append_token_ids_no_cow_def by (intro inv_intros)

lemma keep_update_num [inv_intros]: "preserves (\<lambda>s. id_view s = v) (update_num_tokens_total a)"
  unfolding update_num_tokens_total_def by (intro inv_intros)

lemma keep_block_init [inv_intros]: "preserves (\<lambda>s. id_view s = v) (block_init a p ts b ow i eh)"
  unfolding block_init_def prefix_block_init_def naive_block_init_def by (intro inv_intros)

lemma keep_bp_create [inv_intros]: "preserves (\<lambda>s. id_view s = v) bp_create"
  unfolding bp_create_def by (rule preserves_mod) (simp add: id_view_def)

lemma keep_increase_pool [inv_intros]: "preserves (\<lambda>s. id_view s = v) increase_pool"
  unfolding increase_pool_def by (intro inv_intros preserves_mod) (simp add: id_view_def)

lemma keep_init_block [inv_intros]: "preserves (\<lambda>s. id_view s = v) (init_block p ts b i eh)"
  unfolding init_block_def by (intro inv_intros preserves_mod) (simp add: id_view_def)

lemma keep_free_block [inv_intros]: "preserves (\<lambda>s. id_view s = v) (free_block r)"
  by (cases r) (auto intro!: inv_intros preserves_mod simp: id_view_def)

lemma keep_content_hash_rec: "preserves (\<lambda>s. id_view s = v) (content_hash_rec H n a)"
  by (induction n arbitrary: a) (auto intro!: inv_intros simp: set_cached_hash_def)

lemma keep_content_hash [inv_intros]: "preserves (\<lambda>s. id_view s = v) (content_hash H r)"
  unfolding content_hash_def by (intro inv_intros keep_content_hash_rec)

lemma keep_computed [inv_intros]:
  "preserves (\<lambda>s. id_view s = v) (set_computed r b)" "preserves (\<lambda>s. id_view s = v) (get_computed r)"
  "preserves (\<lambda>s. id_view s = v) (get_block_id r)"
  unfolding set_computed_def get_computed_def get_block_id_def by (intro inv_intros)+

lemma get_block_id_ok [ok_simps]: "get_block_id r s = (Inr i, t) \<longleftrightarrow> i = b_block_id (obj (addr r) s) \<and> t = s"
  by (auto simp: get_block_id_def ok_simps)

lemma get_block_id_run [run_simps]: "get_block_id r s = (Inr (b_block_id (obj (addr r) s)), s)"
  by (simp add: get_block_id_def run_simps)

text \<open>Tracking an id.\<close>

lemma bt_update_all: "x\<lparr>bt_active := b, bt_last_accessed := l, bt_computed := c\<rparr>
    = \<lparr>bt_active = b, bt_last_accessed = l, bt_computed = c\<rparr>" for x :: BlockTracker
  by (cases x) simp

lemma track_block_id_ok:
  assumes "track_block_id i c s = (Inr u, t)"
  obtains j tr where "i = Some j" "block_tracker s j = Some tr" "\<not> bt_active tr"
    "t = s\<lparr>block_tracker := (block_tracker s)(j \<mapsto> \<lparr>bt_active = True, bt_last_accessed = - 1, bt_computed = c\<rparr>)\<rparr>"
  using assms that
  by (cases i) (auto simp: track_block_id_def trackerM_def ok_simps bt_enable_def bt_reset_def bt_update_all)

lemma track_block_id_run:
  assumes "block_tracker s j = Some tr" and "\<not> bt_active tr"
  shows "track_block_id (Some j) c s = (Inr (),
    s\<lparr>block_tracker := (block_tracker s)(j \<mapsto> \<lparr>bt_active = True, bt_last_accessed = - 1, bt_computed = c\<rparr>)\<rparr>)"
  using assms by (cases tr) (simp add: track_block_id_def trackerM_def run_simps bt_enable_def bt_reset_def)

lemma untrack_block_id_ok:
  assumes "untrack_block_id i s = (Inr u, t)"
  obtains j tr where "i = Some j" "block_tracker s j = Some tr" "bt_active tr"
    "t = s\<lparr>block_tracker := (block_tracker s)(j \<mapsto> \<lparr>bt_active = False, bt_last_accessed = - 1, bt_computed = False\<rparr>)\<rparr>"
  using assms that
  by (cases i) (auto simp: untrack_block_id_def trackerM_def ok_simps bt_disable_def bt_reset_def bt_update_all)

subsection \<open>Each operation on ids keeps the invariant\<close>

lemma rc_incr_ok [ok_simps]:
  "refcounterM (rc_incr i) s = (Inr m, t) \<longleftrightarrow> (\<exists>n. refcounter s i = Some n \<and> 0 \<le> n \<and> m = n + 1 \<and>
     t = s\<lparr>refcounter := (refcounter s)(i \<mapsto> n + 1)\<rparr>)"
  by (cases "refcounter s i") (auto simp: refcounterM_def rc_incr_def ok_simps)

lemma rc_decr_ok [ok_simps]:
  "refcounterM (rc_decr i) s = (Inr m, t) \<longleftrightarrow> (\<exists>n. refcounter s i = Some n \<and> 0 < n \<and> m = n - 1 \<and>
     t = s\<lparr>refcounter := (refcounter s)(i \<mapsto> n - 1)\<rparr>)"
  by (cases "refcounter s i") (auto simp: refcounterM_def rc_decr_def ok_simps)

lemma rc_get_ok [ok_simps]:
  "refcounterM (rc_get i) s = (Inr m, t) \<longleftrightarrow> refcounter s i = Some m \<and> t = s"
  by (auto simp: refcounterM_def rc_get_def ok_simps)

lemma evictorM_ok [ok_simps]:
  "evictorM m s = (Inr y, t) \<longleftrightarrow> (\<exists>e. m (evictor s) = (Inr y, e) \<and> t = s\<lparr>evictor := e\<rparr>)"
  by (simp add: evictorM_def ok_simps)

text \<open>The ids of \<open>s\<close> with new counts, trackers, evictor, free list and cached blocks.\<close>

lemma pa_idsI:
  assumes "all_block_indices s = A" and "ev_inv (evictor s)" and "free_block_indices s = F"
    and "refcounter s = rc" and "block_tracker s = tr" and "ev_table (evictor s) = E"
    and "cached_blocks s = C" and "pids_ok F A rc tr E C"
  shows "pa_ids A s"
  using assms by (simp add: pa_ids_def)

lemma pa_idsD:
  assumes "pa_ids A s"
  shows "all_block_indices s = A" and "ev_inv (evictor s)"
    and "pids_ok (free_block_indices s) A (refcounter s) (block_tracker s) (ev_table (evictor s)) (cached_blocks s)"
  using assms by (simp_all add: pa_ids_def)

lemma incr_cached_ids:
  assumes "incr_refcount_cached_block r s = (Inr u, t)" and "pa_ids A s"
    and "b_block_id (obj (addr r) s) = Some i" and "i \<in> ran (cached_blocks s)"
    and "addr r < length (objs s)"
  shows "pa_ids A t" and "cached_blocks t = cached_blocks s" and "free_block_indices t = free_block_indices s"
    and "\<exists>n. refcounter s i = Some n \<and> refcounter t = (refcounter s)(i \<mapsto> n + 1)"
    and "b_block_id (obj (addr r) t) = Some i" and "length (objs t) = length (objs s)"
proof -
  from assms(1) obtain s1 where s1: "set_computed r True s = (Inr (), s1)"
    and run: "bindM (get_block_id r) (\<lambda>i.
     bindM (fromM AssertionError i) (\<lambda>i.
     bindM (refcounterM (rc_incr i)) (\<lambda>n.
     if n = 1 then
       thenM (getM evictor (\<lambda>e. if ev_contains i e then evictorM (ev_remove i) else retM ()))
             (track_block_id (Some i) True)
     else retM ()))) s1 = (Inr u, t)"
    by (auto simp: incr_refcount_cached_block_def thenM_ok)
  have v: "id_view s1 = id_view s" by (rule keeps_idsD [where m = "set_computed r True", OF _ s1]) (intro allI inv_intros)
  note f = id_view_fields [OF v]
  have o: "b_block_id (obj (addr r) s1) = Some i" "length (objs s1) = length (objs s)"
    using s1 assms(3,5) by (auto simp: set_computed_def ok_simps mod_obj_def)
  note d = pa_idsD [OF assms(2)] and p = pids_okD [OF pa_idsD(3) [OF assms(2)]]
  obtain h where h: "cached_blocks s h = Some i" using assms(4) by (auto simp: ran_def)
  have nf: "i \<in> A" "i \<notin> set (free_block_indices s)" using p(10) [OF h] by auto
  from run o(1) obtain n s2 where n: "refcounter s i = Some n" "0 \<le> n"
    and s2: "s2 = s1\<lparr>refcounter := (refcounter s)(i \<mapsto> n + 1)\<rparr>"
    and run2: "(if n + 1 = 1 then
       thenM (getM evictor (\<lambda>e. if ev_contains i e then evictorM (ev_remove i) else retM ()))
             (track_block_id (Some i) True)
     else retM ()) s2 = (Inr u, t)"
    by (auto simp: bindM_ok get_block_id_ok fromM_ok rc_incr_ok f)
  have "pa_ids A t \<and> cached_blocks t = cached_blocks s \<and> free_block_indices t = free_block_indices s \<and>
    refcounter t = (refcounter s)(i \<mapsto> n + 1) \<and> objs t = objs s1"
  proof (cases "n = 0")
    case False
    with n(2) have "0 < n" by simp
    from run2 False have t: "t = s2" by (simp add: ok_simps)
    have "pa_ids A t"
      by (rule pa_idsI [OF _ _ refl refl refl refl refl])
        (use t s2 d f pids_recount [OF d(3) n(1) \<open>0 < n\<close>, of "n + 1"] \<open>0 < n\<close> in simp_all)
    then show ?thesis by (simp add: t s2 f)
  next
    case True
    obtain tr where tr: "block_tracker s i = Some tr" using nf(1) p(7) by blast
    have "i \<in> dom (ev_table (evictor s))" using p(8) [OF n(1) tr] True nf(2) by auto
    then obtain x where x: "ev_table (evictor s) i = Some x" by auto
    then have c: "ev_contains i (evictor s)" using ev.contains_iff [OF d(2)] by simp
    from run2 True c obtain e where e: "ev_remove i (evictor s) = (Inr (), e)"
      and tk: "track_block_id (Some i) True (s2\<lparr>evictor := e\<rparr>) = (Inr u, t)"
      by (auto simp: ok_simps s2 f)
    from ev.remove_ok [OF d(2), of i] x e have e': "ev_inv e" "ev_table e = (ev_table (evictor s))(i := None)"
      by auto
    from tk obtain t0 where t: "t = s2\<lparr>evictor := e, block_tracker := (block_tracker s)(i \<mapsto>
        \<lparr>bt_active = True, bt_last_accessed = - 1, bt_computed = True\<rparr>)\<rparr>"
      by (elim track_block_id_ok) (simp add: s2 f)
    have "pa_ids A t"
      by (rule pa_idsI [OF _ _ refl refl refl refl refl])
        (use t s2 d f e' True pids_revive [OF d(3) x] in simp_all)
    then show ?thesis by (simp add: t s2 f)
  qed
  then show "pa_ids A t" and "cached_blocks t = cached_blocks s" and "free_block_indices t = free_block_indices s"
    and "\<exists>n. refcounter s i = Some n \<and> refcounter t = (refcounter s)(i \<mapsto> n + 1)"
    and "b_block_id (obj (addr r) t) = Some i" and "length (objs t) = length (objs s)"
    using n(1) o by auto
qed

lemma decr_hashless_ids:
  assumes "decr_refcount_hashless_block r s = (Inr u, t)" and "pa_ids A s"
    and "b_block_id (obj (addr r) s) = Some i" and "i \<notin> ran (cached_blocks s)"
  shows "pa_ids A t" and "cached_blocks t = cached_blocks s"
    and "\<exists>n. refcounter s i = Some n \<and> 0 < n \<and> refcounter t = (refcounter s)(i \<mapsto> n - 1)"
proof -
  note d = pa_idsD [OF assms(2)]
  from assms(1,3) obtain n s1 where n: "refcounter s i = Some n"
    and s1: "(if n = 1 then untrack_block_id (Some i) else retM ()) s = (Inr (), s1)"
    and fr: "na_free r True s1 = (Inr u, t)"
    by (auto simp: decr_refcount_hashless_block_def ok_simps)
  have s1v: "refcounter s1 = refcounter s" "free_block_indices s1 = free_block_indices s"
    "all_block_indices s1 = all_block_indices s" "evictor s1 = evictor s" "cached_blocks s1 = cached_blocks s"
    "objs s1 = objs s"
    using s1 by (auto simp: ok_simps split: if_splits elim: untrack_block_id_ok)
  from fr obtain s2 where s2: "set_block_id r None s1 = (Inr (), s2)" and rel: "na_release_id (Some i) s2 = (Inr u, t)"
    using assms(3) s1v(6) by (auto simp: na_free_def ok_simps)
  have v: "id_view s2 = id_view s1" by (rule keeps_idsD [where m = "set_block_id r None", OF _ s2]) (intro allI inv_intros)
  note f = id_view_fields [OF v]
  from rel have pos: "0 < n" and t: "t = s2\<lparr>refcounter := (refcounter s)(i \<mapsto> n - 1),
      free_block_indices := (if n - 1 = 0 then i # free_block_indices s else free_block_indices s)\<rparr>"
    using n f s1v by (auto elim!: na_release_id_run)
  have "pids_ok (free_block_indices t) A (refcounter t) (block_tracker t) (ev_table (evictor t)) (cached_blocks t)"
  proof (cases "n = 1")
    case True
    from s1 True obtain tr where "s1 = s\<lparr>block_tracker := (block_tracker s)(i \<mapsto>
        \<lparr>bt_active = False, bt_last_accessed = - 1, bt_computed = False\<rparr>)\<rparr>"
      by (auto elim: untrack_block_id_ok)
    then show ?thesis using pids_release_hashless [OF d(3) _ assms(4)] n True
      by (simp add: t f s1v)
  next
    case False
    then have "s1 = s" using s1 by (simp add: ok_simps)
    then show ?thesis using pids_recount [OF d(3) n pos, of "n - 1"] False pos by (simp add: t f s1v)
  qed
  then show "pa_ids A t" using d(1,2) by (simp add: pa_ids_def t f s1v)
  show "cached_blocks t = cached_blocks s" by (simp add: t f s1v)
  show "\<exists>n. refcounter s i = Some n \<and> 0 < n \<and> refcounter t = (refcounter s)(i \<mapsto> n - 1)"
    using n pos by (simp add: t)
qed

text \<open>Hashing a block changes nothing but the hashes kept in the blocks.\<close>

definition strip :: "Block \<Rightarrow> Block" where
  "strip b = b\<lparr>b_prefix := None\<rparr>"

definition hash_view :: "PrefixAllocator \<Rightarrow> Block list \<times> PrefixAllocator" where
  "hash_view s = (map strip (objs s), s\<lparr>objs := []\<rparr>)"

lemma hash_view_mod_obj:
  "(\<And>b. strip (f b) = strip b) \<Longrightarrow> preserves (\<lambda>s. hash_view s = v) (mod_obj a f)"
  unfolding mod_obj_def
  by (rule preserves_mod) (auto simp: hash_view_def map_update list_update_id map_update [symmetric]
      intro: list_update_id nth_equalityI simp: nth_list_update)

lemma hash_view_content_hash_rec: "preserves (\<lambda>s. hash_view s = v) (content_hash_rec H n a)"
  by (induction n arbitrary: a)
    (auto intro!: inv_intros hash_view_mod_obj simp: set_cached_hash_def strip_def)

lemma content_hash_view:
  assumes "content_hash H r s = (Inr h, t)"
  shows "hash_view t = hash_view s"
proof -
  have "preserves (\<lambda>u. hash_view u = hash_view s) (content_hash H r)"
    unfolding content_hash_def by (intro inv_intros hash_view_content_hash_rec)
  from preservesD [OF this _ assms] show ?thesis by simp
qed

lemma set_computed_view:
  assumes "set_computed r c s = (Inr u, t)"
  shows "hash_view t = hash_view s"
proof -
  have "preserves (\<lambda>u. hash_view u = hash_view s) (set_computed r c)"
    unfolding set_computed_def by (intro inv_intros hash_view_mod_obj) (simp add: strip_def)
  from preservesD [OF this _ assms] show ?thesis by simp
qed

lemma hash_view_id: "hash_view t = hash_view s \<Longrightarrow> id_view t = id_view s"
proof -
  assume "hash_view t = hash_view s"
  then have "t\<lparr>objs := []\<rparr> = s\<lparr>objs := []\<rparr>" by (simp add: hash_view_def)
  from arg_cong [OF this, of id_view] show ?thesis by (simp add: id_view_def)
qed

lemma hash_view_objs:
  assumes "hash_view t = hash_view s"
  shows "length (objs t) = length (objs s)"
    and "x < length (objs s) \<Longrightarrow> strip (obj x t) = strip (obj x s)"
proof -
  have m: "map strip (objs t) = map strip (objs s)" using assms by (simp add: hash_view_def)
  from map_eq_imp_length_eq [OF m] show l: "length (objs t) = length (objs s)" .
  show "x < length (objs s) \<Longrightarrow> strip (obj x t) = strip (obj x s)"
    using arg_cong [OF m, of "\<lambda>l. l ! x"] l by simp
qed

lemma strip_fields:
  assumes "strip b = strip c"
  shows "b_block_id b = b_block_id c" "b_token_ids b = b_token_ids c" "b_block_size b = b_block_size c"
    "b_prev_block b = b_prev_block c" "b_pool_id b = b_pool_id c" "b_owner b = b_owner c"
  using arg_cong [OF assms, of b_block_id] arg_cong [OF assms, of b_token_ids]
    arg_cong [OF assms, of b_block_size] arg_cong [OF assms, of b_prev_block]
    arg_cong [OF assms, of b_pool_id] arg_cong [OF assms, of b_owner]
  by (simp_all add: strip_def)

lemma decr_cached_ids:
  assumes "decr_refcount_cached_block H r s = (Inr u, t)" and "pa_ids A s"
    and "content_hash H r s = (Inr (Some h), s0)" and "cached_blocks s h = Some i"
    and "b_block_id (obj (addr r) s) = Some i" and "addr r < length (objs s)"
  shows "pa_ids A t" and "cached_blocks t = cached_blocks s"
    and "\<exists>n. refcounter s i = Some n \<and> 0 < n \<and> refcounter t = (refcounter s)(i \<mapsto> n - 1)"
proof -
  have v: "hash_view s0 = hash_view s" by (rule content_hash_view [OF assms(3)])
  note f = id_view_fields [OF hash_view_id [OF v]]
  have bid: "b_block_id (obj (addr r) s0) = Some i"
    using strip_fields(1) [OF hash_view_objs(2) [OF v assms(6)]] assms(5) by simp
  note d = pa_idsD [OF assms(2)] and p = pids_okD [OF pa_idsD(3) [OF assms(2)]]
  from assms(1,3) bid obtain n s1 where n: "refcounter s i = Some n" "0 < n"
    and s1: "s1 = s0\<lparr>refcounter := (refcounter s)(i \<mapsto> n - 1)\<rparr>"
    and run: "(if 0 < n - 1 then set_block_id r None
     else
       thenM (assertM (n - 1 = 0))
      (getM cached_blocks (\<lambda>cached.
       thenM (assertM (cached h \<noteq> None))
      (getM (obj (addr r)) (\<lambda>b.
       bindM (liftM (num_tokens_total b)) (\<lambda>tot.
       getM (\<lambda>s. block_tracker s i) (\<lambda>t.
       bindM (fromM KeyError t) (\<lambda>t.
       thenM (evictorM (ev_add i (PyInt h) tot (bt_last_accessed t)))
      (thenM (untrack_block_id (Some i))
             (set_block_id r None)))))))))) s1 = (Inr u, t)"
    by (auto simp: decr_refcount_cached_block_def bindM_ok fromM_ok get_block_id_ok rc_decr_ok f)
  have "pa_ids A t \<and> cached_blocks t = cached_blocks s \<and> refcounter t = (refcounter s)(i \<mapsto> n - 1)"
  proof (cases "0 < n - 1")
    case True
    with run have sb: "set_block_id r None s1 = (Inr u, t)" by simp
    have "id_view t = id_view s1"
      by (rule keeps_idsD [where m = "set_block_id r None", OF _ sb]) (intro allI inv_intros)
    note g = id_view_fields [OF this]
    have "pids_ok (free_block_indices s) A ((refcounter s)(i \<mapsto> n - 1)) (block_tracker s)
        (ev_table (evictor s)) (cached_blocks s)"
      by (rule pids_recount [OF d(3) n True])
    then show ?thesis using d(1,2) by (simp add: pa_ids_def g s1 f)
  next
    case False
    with n(2) have n1: "n = 1" by simp
    have i: "i \<in> A" using p(10) [OF assms(4)] by blast
    then obtain tr where tr: "block_tracker s i = Some tr" using p(7) by blast
    obtain tot where tot: "num_tokens_total (obj (addr r) s1) = Inr tot"
      using run n1 assms(4) by (cases "num_tokens_total (obj (addr r) s1)") (auto simp: run_simps s1 f)
    obtain x e where add: "ev_add i (PyInt h) tot (bt_last_accessed tr) (evictor s) = (x, e)"
      by (cases "ev_add i (PyInt h) tot (bt_last_accessed tr) (evictor s)")
    have x: "x = Inr ()"
      using run n1 assms(4) tot tr add by (cases x) (auto simp: run_simps evictorM_def s1 f)
    define s2 where "s2 = s1\<lparr>evictor := e\<rparr>"
    have "thenM (untrack_block_id (Some i)) (set_block_id r None) s2 = (Inr u, t)"
      using run n1 assms(4) tot tr add x by (simp add: run_simps evictorM_def s1 f s2_def)
    then obtain s3 where un: "untrack_block_id (Some i) s2 = (Inr (), s3)"
      and sb: "set_block_id r None s3 = (Inr u, t)"
      unfolding thenM_ok by blast
    note e = add [unfolded x]
    have acc: "ev_accepts (evictor s) (PyInt h)"
      using ev.add_refused [OF d(2), of "PyInt h" i tot "bt_last_accessed tr"] e by auto
    from ev.add_ok [OF d(2) acc, of i tot "bt_last_accessed tr"] e
    have e': "ev_inv e" "ev_table e = (ev_table (evictor s))(i \<mapsto> PyInt h)" by auto
    have "id_view t = id_view s3"
      by (rule keeps_idsD [where m = "set_block_id r None", OF _ sb]) (intro allI inv_intros)
    note g = id_view_fields [OF this]
    from un have s3: "s3 = s2\<lparr>block_tracker := (block_tracker s)(i \<mapsto>
        \<lparr>bt_active = False, bt_last_accessed = - 1, bt_computed = False\<rparr>)\<rparr>"
      by (elim untrack_block_id_ok) (simp add: s2_def s1 f)
    have "pids_ok (free_block_indices s) A ((refcounter s)(i \<mapsto> 0)) ((block_tracker s)(i \<mapsto>
        \<lparr>bt_active = False, bt_last_accessed = - 1, bt_computed = False\<rparr>))
        ((ev_table (evictor s))(i \<mapsto> PyInt h)) (cached_blocks s)"
      by (rule pids_release_cached [OF d(3) _ assms(4)]) (use n n1 in simp_all)
    then show ?thesis using d(1) e' n1 by (simp add: pa_ids_def g s3 s2_def s1 f)
  qed
  then show "pa_ids A t" and "cached_blocks t = cached_blocks s"
    and "\<exists>n. refcounter s i = Some n \<and> 0 < n \<and> refcounter t = (refcounter s)(i \<mapsto> n - 1)"
    using n by auto
qed

subsection \<open>Taking an id\<close>

text \<open>The allocator with its pool of prefix-caching blocks.\<close>

definition pa_ok :: "block_id set \<Rightarrow> PrefixAllocator \<Rightarrow> bool" where
  "pa_ok A s \<longleftrightarrow> pa_ids A s \<and> bp_ok s \<and> bp_kind s \<and> 0 < bp_pool_size s \<and> bp_prefix s"

text \<open>A block a new one may be linked to.\<close>

definition prev_ok :: "PrefixAllocator \<Rightarrow> ref option \<Rightarrow> bool" where
  "prev_ok s prev \<longleftrightarrow> (case prev of
     None \<Rightarrow> True
   | Some (Blk p) \<Rightarrow> p < length (objs s) \<and> b_prefix (obj p s) \<noteq> None
   | Some (NullB p) \<Rightarrow> False)"

lemma prev_ok_take:
  assumes "bp_ok s" and "0 < bp_pool_size s" and "prev_ok s prev"
  shows "prev_ok (bp_take s) prev"
proof (cases prev)
  case (Some r)
  show ?thesis
  proof (cases r)
    case (Blk p)
    with assms(3) Some have p: "p < length (objs s)" "b_prefix (obj p s) \<noteq> None"
      by (simp_all add: prev_ok_def)
    have "same_objs_but (Suc p) s (bp_ready s)" by (rule bp_ready(5) [OF assms(1,2)])
    then have "obj p (bp_take s) = obj p s" "p < length (objs (bp_take s))"
      using p(1) by (auto simp: same_objs_but_def bp_take_def)
    with p Some Blk show ?thesis by (simp add: prev_ok_def)
  qed (use assms(3) Some in \<open>simp add: prev_ok_def\<close>)
qed (simp add: prev_ok_def)

lemma prefix_block_init_returns:
  assumes "prev_ok s prev" and "a < length (objs s)" and "length ts \<le> bsize"
  shows "\<exists>t. prefix_block_init a prev ts bsize owner bid eh s = (Inr (), t)"
proof -
  define s1 where "s1 = s\<lparr>objs := (objs s)[a := (obj a s)\<lparr>b_prev_block := prev,
        b_prefix := Some \<lparr>pb_cached_content_hash = None, pb_cached_num_tokens_total = 0,
          pb_computed = False, pb_last_accessed = - 1, pb_extra_hash = eh\<rparr>\<rparr>]\<rparr>"
  have 1: "prefix_block_or_none (objs s) prev"
    using assms(1) by (auto simp: prev_ok_def prefix_block_or_none_def split: option.splits ref.splits)
  have len: "a < length (objs s1)" using assms(2) by (simp add: s1_def)
  then obtain s2 where s2: "naive_block_init a prev ts bsize owner bid s1 = (Inr (), s2)"
    using naive_block_init_returns [OF assms(3)] by blast
  from naive_block_init_run [OF s2 len] have s2': "s2 = s1\<lparr>objs := (objs s1)[a := (obj a s1)\<lparr>b_block_size := bsize,
     b_prev_block := prev, b_block_id := bid, b_owner := owner, b_token_ids := ts\<rparr>]\<rparr>" by blast
  have prev: "b_prev_block (obj a s2) = prev" using assms(2) by (simp add: s2' s1_def)
  have "\<exists>t. update_num_tokens_total a s2 = (Inr (), t)"
  proof (cases prev)
    case None
    then show ?thesis using prev by (simp add: update_num_tokens_total_def run_simps mod_obj_def)
  next
    case (Some r)
    with assms(1) obtain p where p: "r = Blk p" "p < length (objs s)" "b_prefix (obj p s) \<noteq> None"
      by (cases r) (auto simp: prev_ok_def)
    have "b_prefix (obj p s2) \<noteq> None" using p assms(2) by (cases "p = a") (simp_all add: s2' s1_def)
    then show ?thesis using prev Some p(1)
      by (auto simp: update_num_tokens_total_def run_simps mod_obj_def num_tokens_total_def)
  qed
  with 1 s2 show ?thesis by (simp add: prefix_block_init_def run_simps mod_obj_def s1_def [symmetric])
qed

lemma init_block_returns_prefix:
  assumes "bp_ok s" and "0 < bp_pool_size s" and "bp_kind s" and "bp_prefix s"
    and "prev_ok s prev" and "length ts \<le> bsize"
  shows "\<exists>r t. init_block prev ts bsize bid eh s = (Inr r, t)"
proof -
  note k = bp_take [OF assms(1,2)]
  have "bp_kind (bp_ready s)" using bp_grown_kind [OF assms(1,3)] assms(3) by (simp add: bp_ready_def)
  then have "bp_kind (bp_take s)" by (simp add: bp_kind_def bp_take_def)
  moreover have "bp_prefix (bp_take s) = bp_prefix s" by (simp add: bp_take_def bp_ready_def bp_grown_def)
  ultimately have "b_prefix (obj (bp_addr s) (bp_take s)) \<noteq> None"
    using k(6) assms(4) unfolding bp_kind_def by auto
  moreover obtain v where "prefix_block_init (bp_addr s) prev ts bsize
      (b_owner (obj (bp_addr s) (bp_take s))) bid eh (bp_take s) = (Inr (), v)"
    using prefix_block_init_returns [OF prev_ok_take [OF assms(1,2,5)] k(4) assms(6)] by blast
  ultimately show ?thesis
    by (auto simp add: init_block_unfold [OF assms(1,2)] block_init_def getM_run)
qed

text \<open>The number an object has in the pool, and giving the object back.\<close>

definition pooled :: "nat \<Rightarrow> nat \<Rightarrow> 'x NaiveAllocator_scheme \<Rightarrow> bool" where
  "pooled a k s \<longleftrightarrow> b_pool_id (obj a s) = Some k \<and> k < bp_pool_size s \<and> bp_pool s ! k = a \<and>
     k \<notin> set (bp_free_ids s)"

lemma init_block_pooled:
  assumes "init_block prev ts bsize bid eh s = (Inr (Blk a), t)" and "bp_ok s" and "0 < bp_pool_size s"
  obtains k where "pooled a k t"
proof -
  note k = bp_take [OF assms(2,3)] and rd = bp_ready [OF assms(2,3)]
  let ?a = "bp_addr s" and ?s1 = "bp_take s" and ?k = "hd (bp_free_ids (bp_ready s))"
  from assms(1) obtain u v where v: "block_init ?a prev ts bsize (b_owner (obj ?a ?s1)) bid eh ?s1 = (Inr u, v)"
    and a: "a = ?a" and t: "t = v\<lparr>objs := (objs v)[?a := (obj ?a v)\<lparr>b_pool_id := Some ?k\<rparr>]\<rparr>"
    unfolding init_block_unfold [OF assms(2,3)] by (auto split: prod.splits sum.splits)
  from block_init_run [OF v k(4)] have b: "only_obj ?a ?s1 v" by auto
  note o = only_obj_same [OF b]
  have len: "?a < length (objs v)" using k(4) o(3) by simp
  obtain rest where f: "bp_free_ids (bp_ready s) = ?k # rest" using rd(3) by (metis list.collapse)
  have "distinct (?k # rest)" "length (bp_pool (bp_ready s)) = bp_pool_size (bp_ready s)"
    using rd(1) f unfolding bp_ok_def by metis+
  then have "?k \<notin> set (tl (bp_free_ids (bp_ready s)))" "?k < bp_pool_size (bp_ready s)"
    using k(5) f by (metis distinct.simps(2) list.sel(3), simp)
  then have "pooled a ?k t" using len o(4-6)
    by (simp add: pooled_def a t) (simp add: bp_take_def bp_addr_def)
  then show thesis by (rule that)
qed

lemma free_pooled:
  assumes "bp_ok s" and "pooled a k s"
  shows "free_block (Blk a) s = (Inr (), s\<lparr>bp_free_ids := k # bp_free_ids s\<rparr>)"
    and "bp_ok (s\<lparr>bp_free_ids := k # bp_free_ids s\<rparr>)"
    and "in_use (s\<lparr>bp_free_ids := k # bp_free_ids s\<rparr>) = in_use s - {a}"
proof -
  show "free_block (Blk a) s = (Inr (), s\<lparr>bp_free_ids := k # bp_free_ids s\<rparr>)"
    using assms(2) by (simp add: pooled_def run_simps)
  show "bp_ok (s\<lparr>bp_free_ids := k # bp_free_ids s\<rparr>)"
    using assms by (auto simp: bp_ok_def pooled_def)
  have inj: "bp_pool s ! j = bp_pool s ! k \<longleftrightarrow> j = k" if "j < bp_pool_size s" for j
    using assms that by (auto simp: bp_ok_def pooled_def nth_eq_iff_index_eq)
  have "in_use (s\<lparr>bp_free_ids := k # bp_free_ids s\<rparr>)
      = (\<lambda>i. bp_pool s ! i) ` ({0..<bp_pool_size s} - set (bp_free_ids s) - {k})"
    by (simp add: in_use_def) (metis Diff_insert)
  also have "\<dots> = in_use s - {a}"
    using inj assms(2) by (auto simp: in_use_def pooled_def)
  finally show "in_use (s\<lparr>bp_free_ids := k # bp_free_ids s\<rparr>) = in_use s - {a}" .
qed

text \<open>The objects in use stay as they are.\<close>

definition keeps_used :: "'x NaiveAllocator_scheme \<Rightarrow> 'x NaiveAllocator_scheme \<Rightarrow> bool" where
  "keeps_used s t \<longleftrightarrow> a_block_size t = a_block_size s \<and> bp_owner t = bp_owner s \<and> length (objs s) \<le> length (objs t) \<and>
     (\<forall>x \<in> in_use s. x < length (objs s) \<longrightarrow> obj x t = obj x s)"

text \<open>The hashless allocator has a free id: it is taken, and the object that carried it returned.\<close>

lemma maybe_allocate_hashless_run:
  assumes "pa_ok A s" and "free_block_indices s = i # F"
  obtains t tr where "maybe_allocate_hashless_block_id s = (Inr (Some i), t)"
    "free_block_indices t = F" "all_block_indices t = A" "refcounter t = (refcounter s)(i \<mapsto> 1)"
    "bt_active tr" "block_tracker t = (block_tracker s)(i \<mapsto> tr)" "evictor t = evictor s"
    "cached_blocks t = cached_blocks s" "in_use t = in_use s" "pa_ok A t" "keeps_used s t"
proof -
  have ids: "pa_ids A s" and pool: "bp_ok s" "0 < bp_pool_size s" "bp_kind s" "bp_prefix s"
    using assms(1) by (simp_all add: pa_ok_def)
  note d = pa_idsD [OF ids]
  have p: "pids_ok (i # F) A (refcounter s) (block_tracker s) (ev_table (evictor s)) (cached_blocks s)"
    using d(3) assms(2) by simp
  have rc: "refcounter s i = Some 0" by (rule pids_count(2) [OF p]) simp
  obtain tr0 where tr0: "block_tracker s i = Some tr0" "\<not> bt_active tr0"
  proof -
    have "i \<in> A" using pids_okD(3) [OF p] by simp
    then obtain n t where "refcounter s i = Some n" "block_tracker s i = Some t"
      using pids_count(1) [OF p] by blast
    with pids_okD(8) [OF p this] rc that show thesis by simp
  qed
  define s1 where "s1 = s\<lparr>free_block_indices := F, refcounter := (refcounter s)(i \<mapsto> 1)\<rparr>"
  have al: "na_allocate_block_id s = (Inr i, s1)"
    using assms(2) rc by (simp add: na_allocate_block_id_def run_simps refcounterM_def rc_incr_def s1_def)
  have s1: "bp_ok s1" "0 < bp_pool_size s1" "bp_kind s1" "bp_prefix s1" "in_use s1 = in_use s"
    using pool by (simp_all add: s1_def bp_ok_def bp_kind_def in_use_def)
  obtain r s2 where ib: "init_block None [] (a_block_size s1) (Some i) None s1 = (Inr r, s2)"
    using init_block_returns_prefix [OF s1(1-4), of None "[]" "a_block_size s1" "Some i" None]
    by (simp add: prev_ok_def) blast
  from init_block_run [OF ib s1(1,2)] obtain a where a: "r = Blk a" "a \<notin> in_use s1"
    "in_use s2 = insert a (in_use s1)" "bp_ok s2" "a < length (objs s2)" "same_ids s1 s2"
    "initialised (obj a s2) None [] (a_block_size s1) (Some i)" "b_pool_id (obj a s2) \<noteq> None"
    "bp_pool_size s1 \<le> bp_pool_size s2" "same_objs_but a s1 s2" by metis
  have v: "id_view s2 = id_view s1"
    by (rule keeps_idsD [where m = "init_block None [] (a_block_size s1) (Some i) None", OF _ ib])
      (intro allI inv_intros)
  note f = id_view_fields [OF v]
  have k2: "bp_kind s2" by (rule init_block_kind [OF ib s1(1-3)])
  obtain k where k: "pooled a k s2" using init_block_pooled [OF _ s1(1,2)] ib a(1) by blast
  note fr = free_pooled [OF a(4) k]
  define s3 where "s3 = s2\<lparr>bp_free_ids := k # bp_free_ids s2\<rparr>"
  define tr where "tr = \<lparr>bt_active = True, bt_last_accessed = - 1, bt_computed = False\<rparr>"
  define t where "t = s3\<lparr>block_tracker := (block_tracker s)(i \<mapsto> tr)\<rparr>"
  have tk: "track_block_id (Some i) False s3 = (Inr (), t)"
    using track_block_id_run [of s3 i tr0] tr0 by (simp add: s3_def t_def tr_def f s1_def)
  have run: "maybe_allocate_hashless_block_id s = (Inr (Some i), t)"
    using al ib a(1,7) fr(1) tk
    by (simp add: maybe_allocate_hashless_block_id_def na_allocate_mutable_block_def bindM_run thenM_run
        getM_run retM_run catchM_run get_block_id_run initialised_def s3_def)
  have t: "free_block_indices t = F" "all_block_indices t = A" "refcounter t = (refcounter s)(i \<mapsto> 1)"
    "block_tracker t = (block_tracker s)(i \<mapsto> tr)" "evictor t = evictor s"
    "cached_blocks t = cached_blocks s"
    using d(1) by (simp_all add: t_def s3_def f s1_def)
  have use: "in_use t = in_use s" using fr(3) a(2,3) s1(5) by (simp add: t_def s3_def in_use_def)
  have "pa_ids A t"
    using pids_take_free(1) [OF p, of tr] t d(2) by (simp add: pa_ids_def tr_def)
  moreover have "bp_ok t" "bp_kind t" "0 < bp_pool_size t" "bp_prefix t"
    using fr(2) k2 s1(2,4) a(9) f(11) by (simp_all add: t_def s3_def bp_ok_def bp_kind_def)
  ultimately have ok: "pa_ok A t" by (simp add: pa_ok_def)
  have "keeps_used s t"
    using a(2,10) s1(5) f(10,12) by (auto simp: keeps_used_def same_objs_but_def t_def s3_def s1_def)
  have "bt_active tr" by (simp add: tr_def)
  from that [OF run t(1-3) this t(4-6) use ok \<open>keeps_used s t\<close>] show thesis .
qed

lemma maybe_allocate_evicted_run:
  assumes "pa_ok A s" and "0 < ev_num_blocks (evictor s)"
  obtains i h t tr where "maybe_allocate_evicted_block_id s = (Inr (Some i), t)"
    "ev_table (evictor s) i = Some (PyInt h)" "cached_blocks s h = Some i" "refcounter s i = Some 0"
    "refcounter t = (refcounter s)(i \<mapsto> 1)" "cached_blocks t = (cached_blocks s)(h := None)"
    "free_block_indices t = free_block_indices s" "in_use t = in_use s" "pa_ok A t" "objs t = objs s"
    "a_block_size t = a_block_size s" "bp_owner t = bp_owner s" "ev_accepts (evictor t) = ev_accepts (evictor s)"
proof -
  have ids: "pa_ids A s" using assms(1) by (simp add: pa_ok_def)
  note d = pa_idsD [OF ids]
  note p = d(3)
  have "ev_table (evictor s) \<noteq> Map.empty" using ev.empty_iff [OF d(2)] assms(2) by simp
  from ev.evict_some [OF d(2) this] obtain i ch e where
    e: "ev_evict (evictor s) = (Inr (i, ch), e)" "ev_table (evictor s) i = Some ch" "ev_inv e"
      "ev_table e = (ev_table (evictor s))(i := None)" "ev_accepts e = ev_accepts (evictor s)" by blast
  obtain h where h: "ch = PyInt h" "cached_blocks s h = Some i" using pids_okD(9) [OF p e(2)] by blast
  have rc: "refcounter s i = Some 0" by (rule pids_count(3) [OF p e(2)])
  obtain tr0 where tr0: "block_tracker s i = Some tr0" "\<not> bt_active tr0"
  proof -
    have "i \<in> A" using pids_okD(4) [OF p] e(2) by auto
    then obtain n t where "refcounter s i = Some n" "block_tracker s i = Some t"
      using pids_count(1) [OF p] by blast
    with pids_okD(8) [OF p this] rc that show thesis by simp
  qed
  define tr where "tr = \<lparr>bt_active = True, bt_last_accessed = - 1, bt_computed = False\<rparr>"
  define s1 where "s1 = s\<lparr>evictor := e, cached_blocks := (cached_blocks s)(h := None),
    refcounter := (refcounter s)(i \<mapsto> 1)\<rparr>"
  define t where "t = s1\<lparr>block_tracker := (block_tracker s)(i \<mapsto> tr)\<rparr>"
  have tk: "track_block_id (Some i) False s1 = (Inr (), t)"
    using track_block_id_run [of s1 i tr0] tr0 by (simp add: s1_def t_def tr_def)
  have "maybe_allocate_evicted_block_id s = (Inr (Some i), t)"
    using assms(2) e(1) h rc tk
    by (simp add: maybe_allocate_evicted_block_id_def run_simps evictorM_def refcounterM_def rc_get_def
        rc_incr_def s1_def)
  moreover have "pa_ids A t"
    using pids_take_evicted(1) [OF p, of i h tr] e h(1) d(1) by (simp add: pa_ids_def t_def s1_def tr_def)
  then have "pa_ok A t" using assms(1) by (simp add: pa_ok_def t_def s1_def bp_ok_def bp_kind_def)
  ultimately show thesis
    using that [of i t h] e(2,5) h rc by (simp add: t_def s1_def in_use_def)
qed

lemma maybe_allocate_hashless_none:
  assumes "free_block_indices s = []"
  shows "maybe_allocate_hashless_block_id s = (Inr None, s)"
  using assms by (simp add: maybe_allocate_hashless_block_id_def na_allocate_mutable_block_def
      na_allocate_block_id_def run_simps)

text \<open>
  An id can be taken when one is free or evictable. It had no users, has one now, and is cached
  under no hash; a cached id is given up only when no id is free.
\<close>

lemma pa_allocate_block_id_run:
  assumes "pa_ok A s" and "0 < pa_get_num_free_blocks s"
  obtains i t where "pa_allocate_block_id s = (Inr i, t)" "refcounter s i = Some 0"
    "refcounter t = (refcounter s)(i \<mapsto> 1)" "i \<notin> ran (cached_blocks t)" "pa_ok A t"
    "in_use t = in_use s" "cached_blocks t \<subseteq>\<^sub>m cached_blocks s"
    "\<forall>h. cached_blocks t h \<noteq> cached_blocks s h \<longrightarrow> cached_blocks s h = Some i \<and> free_block_indices s = []"
    "keeps_used s t" "ev_accepts (evictor t) = ev_accepts (evictor s)"
proof (cases "free_block_indices s")
  case (Cons i F)
  have p: "pids_ok (i # F) A (refcounter s) (block_tracker s) (ev_table (evictor s)) (cached_blocks s)"
    using assms(1) Cons by (simp add: pa_ok_def pa_ids_def)
  from maybe_allocate_hashless_run [OF assms(1) Cons] obtain t tr where
    t: "maybe_allocate_hashless_block_id s = (Inr (Some i), t)" "refcounter t = (refcounter s)(i \<mapsto> 1)"
      "cached_blocks t = cached_blocks s" "in_use t = in_use s" "pa_ok A t" "keeps_used s t"
      "evictor t = evictor s" by metis
  have rc: "refcounter s i = Some 0" by (rule pids_count(2) [OF p]) simp
  have "i \<notin> ran (cached_blocks s)" using pids_okD(10) [OF p] by (fastforce simp: ran_def)
  with t rc show thesis using that [of i t] by (simp add: pa_allocate_block_id_def run_simps)
next
  case Nil
  with assms(2) have "0 < ev_num_blocks (evictor s)"
    by (simp add: pa_get_num_free_blocks_def na_get_num_free_blocks_def)
  from maybe_allocate_evicted_run [OF assms(1) this] obtain i h t where
    t: "maybe_allocate_evicted_block_id s = (Inr (Some i), t)" "cached_blocks s h = Some i"
    "refcounter s i = Some 0" "refcounter t = (refcounter s)(i \<mapsto> 1)"
    "cached_blocks t = (cached_blocks s)(h := None)" "in_use t = in_use s" "pa_ok A t"
    "ev_table (evictor s) i = Some (PyInt h)" "objs t = objs s"
    "a_block_size t = a_block_size s" "bp_owner t = bp_owner s" "ev_accepts (evictor t) = ev_accepts (evictor s)" by metis
  have p: "pids_ok (free_block_indices s) A (refcounter s) (block_tracker s) (ev_table (evictor s)) (cached_blocks s)"
    using assms(1) by (simp add: pa_ok_def pa_ids_def)
  have "i \<notin> ran (cached_blocks t)"
    using pids_okD(11) [OF p _ t(2)] by (auto simp: t(5) ran_def split: if_splits)
  moreover have "cached_blocks t \<subseteq>\<^sub>m cached_blocks s" by (auto simp: t(5) map_le_def)
  ultimately show thesis
    using that [of i t] t Nil maybe_allocate_hashless_none [OF Nil]
    by (simp add: pa_allocate_block_id_def run_simps keeps_used_def)
qed

lemma pa_allocate_block_id_none:
  assumes "pa_ok A s" and "pa_get_num_free_blocks s = 0"
  shows "pa_allocate_block_id s = (Inl NoFreeBlocksError, s)"
  using assms maybe_allocate_hashless_none [of s]
  by (simp add: pa_allocate_block_id_def run_simps pa_get_num_free_blocks_def na_get_num_free_blocks_def
      maybe_allocate_evicted_block_id_def)

subsection \<open>Hashing a new block\<close>

definition fresh_part :: "int \<Rightarrow> PrefixPart" where
  "fresh_part n = \<lparr>pb_cached_content_hash = None, pb_cached_num_tokens_total = n,
     pb_computed = False, pb_last_accessed = - 1, pb_extra_hash = None\<rparr>"

lemma prefix_block_init_part:
  assumes "prefix_block_init a prev ts bsize owner bid None s = (Inr u, t)" and "a < length (objs s)"
  shows "\<exists>n. b_prefix (obj a t) = Some (fresh_part n)"
proof -
  from assms(1) obtain v w where v: "v = s\<lparr>objs := (objs s)[a := (obj a s)\<lparr>b_prev_block := prev,
        b_prefix := Some (fresh_part 0)\<rparr>]\<rparr>"
    and w: "naive_block_init a prev ts bsize owner bid v = (Inr (), w)"
    and t: "update_num_tokens_total a w = (Inr u, t)"
    by (auto simp: prefix_block_init_def ok_simps mod_obj_def fresh_part_def)
  from v assms(2) have "a < length (objs v)" by simp
  from naive_block_init_run [OF w this] have w': "w = v\<lparr>objs := (objs v)[a := (obj a v)\<lparr>b_block_size := bsize,
     b_prev_block := prev, b_block_id := bid, b_owner := owner, b_token_ids := ts\<rparr>]\<rparr>" by auto
  then have len: "a < length (objs w)" using assms(2) v by simp
  have part: "b_prefix (obj a w) = Some (fresh_part 0)" using assms(2) by (simp add: w' v)
  from update_num_tokens_total_only [OF t len] obtain n where
    "t = w\<lparr>objs := (objs w)[a := (obj a w)\<lparr>b_prefix := map_option (\<lambda>p. p\<lparr>pb_cached_num_tokens_total := n\<rparr>)
        (b_prefix (obj a w))\<rparr>]\<rparr>" by blast
  then show ?thesis using len part by (auto simp: fresh_part_def)
qed

lemma init_block_part:
  assumes "init_block prev ts bsize bid None s = (Inr (Blk a), t)" and "bp_ok s" and "0 < bp_pool_size s"
    and "bp_kind s" and "bp_prefix s"
  shows "\<exists>n. b_prefix (obj a t) = Some (fresh_part n)"
proof -
  note k = bp_take [OF assms(2,3)]
  let ?a = "bp_addr s" and ?s1 = "bp_take s"
  from assms(1) obtain u v where v: "block_init ?a prev ts bsize (b_owner (obj ?a ?s1)) bid None ?s1 = (Inr u, v)"
    and a: "a = ?a" and t: "t = v\<lparr>objs := (objs v)[?a :=
         (obj ?a v)\<lparr>b_pool_id := Some (hd (bp_free_ids (bp_ready s)))\<rparr>]\<rparr>"
    unfolding init_block_unfold [OF assms(2,3)] by (auto split: prod.splits sum.splits)
  have "bp_kind (bp_ready s)" using bp_grown_kind [OF assms(2,4)] assms(4) by (simp add: bp_ready_def)
  then have "bp_kind ?s1" by (simp add: bp_kind_def bp_take_def)
  moreover have "bp_prefix ?s1 = bp_prefix s" by (simp add: bp_take_def bp_ready_def bp_grown_def)
  ultimately obtain p where p: "b_prefix (obj ?a ?s1) = Some p"
    using k(6) assms(5) unfolding bp_kind_def by auto
  with v have v': "prefix_block_init ?a prev ts bsize (b_owner (obj ?a ?s1)) bid None ?s1 = (Inr u, v)"
    by (simp add: block_init_def run_simps)
  from block_init_run [OF v k(4)] have "only_obj ?a ?s1 v" by blast
  then have len: "?a < length (objs v)" using only_obj_same(3) k(4) by metis
  from prefix_block_init_part [OF v' k(4)] len show ?thesis by (auto simp: a t)
qed

text \<open>A previous block whose hash is known, because it is full and was hashed.\<close>

definition prev_hash :: "PrefixAllocator \<Rightarrow> ref option \<Rightarrow> int option" where
  "prev_hash s prev = (case prev of None \<Rightarrow> None | Some r \<Rightarrow>
     (case b_prefix (obj (addr r) s) of None \<Rightarrow> None | Some p \<Rightarrow> pb_cached_content_hash p))"

definition prev_hashed :: "PrefixAllocator \<Rightarrow> ref option \<Rightarrow> bool" where
  "prev_hashed s prev \<longleftrightarrow> (case prev of
     None \<Rightarrow> True
   | Some (Blk p) \<Rightarrow> p \<in> in_use s \<and> p < length (objs s) \<and> prev_hash s prev \<noteq> None
   | Some (NullB p) \<Rightarrow> False)"

definition hashed :: "nat \<Rightarrow> int \<Rightarrow> PrefixAllocator \<Rightarrow> PrefixAllocator" where
  "hashed a h s = s\<lparr>objs := (objs s)[a := (obj a s)\<lparr>b_prefix :=
     map_option (\<lambda>p. p\<lparr>pb_cached_content_hash := Some h\<rparr>) (b_prefix (obj a s))\<rparr>]\<rparr>"

lemma content_hash_new:
  assumes "b_prefix (obj a s) = Some (fresh_part n)" and "is_full (obj a s)" and "a < length (objs s)"
    and "b_prev_block (obj a s) = prev" and "prev_hashed s prev"
  shows "content_hash H (Blk a) s = (Inr (Some (H (prev = None, prev_hash s prev, None, b_token_ids (obj a s)))),
    hashed a (H (prev = None, prev_hash s prev, None, b_token_ids (obj a s))) s)"
proof -
  obtain k where k: "length (objs s) = Suc k" using assms(3) by (cases "length (objs s)") auto
  show ?thesis
  proof (cases prev)
    case None
    then show ?thesis using assms k
      by (simp add: content_hash_def run_simps fresh_part_def hash_block_tokens_def prev_hash_def
          set_cached_hash_def mod_obj_def hashed_def)
  next
    case (Some r)
    with assms(5) obtain p q hp where p: "r = Blk p" "b_prefix (obj p s) = Some q"
      "pb_cached_content_hash q = Some hp"
      by (cases r) (auto simp: prev_hashed_def prev_hash_def split: option.splits)
    have "prev_hash s prev = Some hp" by (simp add: prev_hash_def Some p)
    moreover have "content_hash_rec H (Suc k) p s = (Inr (Some hp), s)" by (simp add: run_simps p)
    ultimately show ?thesis using assms k Some p(1)
      by (simp add: content_hash_def bindM_run getM_run liftM_run thenM_run retM_run fresh_part_def
          hash_block_tokens_def set_cached_hash_def mod_obj_def modM_run hashed_def del: content_hash_rec.simps(2))
        (simp add: bindM_run getM_run liftM_run thenM_run retM_run fresh_part_def
          hash_block_tokens_def set_cached_hash_def mod_obj_def modM_run hashed_def)
  qed
qed

lemma content_hash_not_full:
  assumes "b_prefix (obj a s) = Some (fresh_part n)" and "\<not> is_full (obj a s)"
  shows "content_hash H (Blk a) s = (Inr None, s)"
  using assms by (simp add: content_hash_def run_simps fresh_part_def)

lemma hashed_view: "hash_view (hashed a h s) = hash_view s"
proof -
  have "set_cached_hash a h s = (Inr (), hashed a h s)"
    by (simp add: set_cached_hash_def mod_obj_def run_simps hashed_def)
  moreover have "preserves (\<lambda>u. hash_view u = hash_view s) (set_cached_hash a h)"
    unfolding set_cached_hash_def by (rule hash_view_mod_obj) (simp add: strip_def)
  ultimately show ?thesis by (blast dest: preservesD)
qed

lemma hashed_pool [simp]:
  "bp_ok (hashed a h s) = bp_ok s" "in_use (hashed a h s) = in_use s"
  "bp_pool_size (hashed a h s) = bp_pool_size s" "bp_prefix (hashed a h s) = bp_prefix s"
  "length (objs (hashed a h s)) = length (objs s)"
  "bp_free_ids (hashed a h s) = bp_free_ids s" "bp_pool (hashed a h s) = bp_pool s"
  by (simp_all add: hashed_def bp_ok_def in_use_def)

subsection \<open>Allocating blocks\<close>

lemma keeps_used_trans:
  "keeps_used s t \<Longrightarrow> keeps_used t u \<Longrightarrow> in_use s \<subseteq> in_use t \<Longrightarrow> keeps_used s u"
  unfolding keeps_used_def by (metis (no_types, lifting) order.trans order_less_le_trans subsetD)

lemma same_objs_keeps_used:
  "same_objs_but a s t \<Longrightarrow> a \<notin> in_use s \<Longrightarrow> a_block_size t = a_block_size s \<Longrightarrow>
    bp_owner t = bp_owner s \<Longrightarrow> keeps_used s t"
  by (auto simp: same_objs_but_def keeps_used_def)

text \<open>A block of the prefix-caching class with given contents.\<close>

definition block_is :: "PrefixAllocator \<Rightarrow> nat \<Rightarrow> ref option \<Rightarrow> int list \<Rightarrow> block_id option \<Rightarrow> bool" where
  "block_is s a prev ts i \<longleftrightarrow> a < length (objs s) \<and> initialised (obj a s) prev ts (a_block_size s) i"

lemma prev_ok_keeps:
  assumes "prev_ok s prev" and "prev = None \<or> addr (the prev) \<in> in_use s" and "keeps_used s t"
  shows "prev_ok t prev"
proof (cases prev)
  case (Some r)
  then show ?thesis using assms by (cases r) (auto simp: prev_ok_def keeps_used_def)
qed (simp add: prev_ok_def)

lemma pa_init_block_run:
  assumes "pa_ok A s" and "prev_ok s prev" and "length ts \<le> a_block_size s"
  obtains a t n k where "init_block prev ts (a_block_size s) bid None s = (Inr (Blk a), t)"
    "block_is t a prev ts bid" "b_prefix (obj a t) = Some (fresh_part n)" "pooled a k t"
    "a \<notin> in_use s" "in_use t = insert a (in_use s)" "keeps_used s t" "id_view t = id_view s" "pa_ok A t"
proof -
  have ids: "pa_ids A s" and pool: "bp_ok s" "0 < bp_pool_size s" "bp_kind s" "bp_prefix s"
    using assms(1) by (simp_all add: pa_ok_def)
  obtain r t where ib: "init_block prev ts (a_block_size s) bid None s = (Inr r, t)"
    using init_block_returns_prefix [OF pool assms(2,3), of bid None] by blast
  from init_block_run [OF ib pool(1,2)] obtain a where a: "r = Blk a" "a \<notin> in_use s"
    "in_use t = insert a (in_use s)" "bp_ok t" "a < length (objs t)" "same_ids s t" "same_objs_but a s t"
    "initialised (obj a t) prev ts (a_block_size s) bid" "bp_pool_size s \<le> bp_pool_size t" by metis
  note ib = ib [unfolded a(1)]
  have v: "id_view t = id_view s"
    by (rule keeps_idsD [where m = "init_block prev ts (a_block_size s) bid None", OF _ ib])
      (intro allI inv_intros)
  note f = id_view_fields [OF v]
  obtain n where n: "b_prefix (obj a t) = Some (fresh_part n)" using init_block_part [OF ib pool] by blast
  obtain k where k: "pooled a k t" using init_block_pooled [OF ib pool(1,2)] by blast
  have "pa_ok A t" using pa_ids_view [OF v] ids a(4,9) pool(2,4) init_block_kind [OF ib pool(1-3)] f(11)
    by (simp add: pa_ok_def)
  moreover have "block_is t a prev ts bid" using a(5,8) f(10) by (simp add: block_is_def)
  ultimately show thesis
    using that [OF ib _ n k a(2,3) same_objs_keeps_used [OF a(7,2) f(10,12)] v] by blast
qed

lemma pa_allocate_mutable_run:
  assumes "pa_ok A s" and "0 < pa_get_num_free_blocks s" and "0 < a_block_size s"
    and "prev_ok s prev" and "prev = None \<or> addr (the prev) \<in> in_use s"
  obtains a i t n k where "pa_allocate_mutable_block H prev s = (Inr (Blk a), t)"
    "block_is t a prev [] (Some i)" "b_prefix (obj a t) = Some (fresh_part n)" "pooled a k t"
    "a \<notin> in_use s" "in_use t = insert a (in_use s)" "keeps_used s t" "pa_ok A t"
    "refcounter s i = Some 0" "refcounter t = (refcounter s)(i \<mapsto> 1)" "i \<notin> ran (cached_blocks t)"
    "cached_blocks t \<subseteq>\<^sub>m cached_blocks s"
    "\<forall>h. cached_blocks t h \<noteq> cached_blocks s h \<longrightarrow> cached_blocks s h = Some i \<and> free_block_indices s = []"
    "ev_accepts (evictor t) = ev_accepts (evictor s)"
proof -
  from pa_allocate_block_id_run [OF assms(1,2)] obtain i u where u: "pa_allocate_block_id s = (Inr i, u)"
    "refcounter s i = Some 0" "refcounter u = (refcounter s)(i \<mapsto> 1)" "i \<notin> ran (cached_blocks u)"
    "pa_ok A u" "in_use u = in_use s" "cached_blocks u \<subseteq>\<^sub>m cached_blocks s" "keeps_used s u"
    "\<forall>h. cached_blocks u h \<noteq> cached_blocks s h \<longrightarrow> cached_blocks s h = Some i \<and> free_block_indices s = []"
    "ev_accepts (evictor u) = ev_accepts (evictor s)" by metis
  have pu: "prev_ok u prev" by (rule prev_ok_keeps [OF assms(4,5) u(8)])
  have sz: "a_block_size u = a_block_size s"
    using u(8) by (simp add: keeps_used_def)
  have l: "length ([] :: int list) \<le> a_block_size u" by simp
  from pa_init_block_run [OF u(5) pu l, of "Some i"] obtain a t n k where
    t: "init_block prev [] (a_block_size u) (Some i) None u = (Inr (Blk a), t)"
    "block_is t a prev [] (Some i)" "b_prefix (obj a t) = Some (fresh_part n)" "pooled a k t"
    "a \<notin> in_use u" "in_use t = insert a (in_use u)" "keeps_used u t" "id_view t = id_view u" "pa_ok A t" .
  note f = id_view_fields [OF t(8)]
  have nf: "\<not> is_full (obj a t)" using t(2) assms(3) sz f(10)
    by (simp add: block_is_def initialised_def is_full_def num_empty_slots_def)
  have "prefix_block_or_none (objs s) prev"
    using assms(4) by (auto simp: prev_ok_def prefix_block_or_none_def split: option.splits ref.splits)
  then have "pa_allocate_mutable_block H prev s = (Inr (Blk a), t)"
    using u(1) t(1,3) content_hash_not_full [OF t(3) nf, of H]
    by (simp add: pa_allocate_mutable_block_def run_simps get_computed_def fresh_part_def)
  moreover have "keeps_used s t" using keeps_used_trans [OF u(8) t(7)] u(6) by simp
  ultimately show thesis
    using that [of a t i n k] t u f by simp
qed

lemma content_hash_cached:
  assumes "b_prefix (obj a s) = Some p" and "pb_cached_content_hash p = Some h"
  shows "content_hash H (Blk a) s = (Inr (Some h), s)"
  using assms by (simp add: content_hash_def run_simps)

text \<open>Appending to a block that has its id alone.\<close>

lemma inner_append_own:
  assumes "a < length (objs s)" and "b_block_id (obj a s) = Some i" and "refcounter s i = Some 1"
    and "ts \<noteq> []" and "int (length ts) \<le> num_empty_slots (obj a s)"
  shows "inner_append_token_ids H a ts s =
    (Inr (), s\<lparr>objs := (objs s)[a := (obj a s)\<lparr>b_token_ids := b_token_ids (obj a s) @ ts\<rparr>]\<rparr>)"
proof -
  define s1 where "s1 = s\<lparr>objs := (objs s)[a := (obj a s)\<lparr>b_token_ids := b_token_ids (obj a s) @ ts\<rparr>]\<rparr>"
  have ap: "append_token_ids_no_cow a ts s = (Inr (), s1)"
    using assms by (simp add: append_token_ids_no_cow_def run_simps mod_obj_def s1_def)
  have bl: "b_block_id (obj a s1) = Some i" "refcounter s1 i = Some 1"
    using assms(1-3) by (simp_all add: s1_def)
  have app: "cow_is_appendable (Blk a) s1 = (Inr True, s1)"
    using bl by (simp add: cow_is_appendable_def run_simps refcounterM_def ro_get_def rc_get_def)
  have cow: "pa_cow_block_if_not_appendable H (Blk a) s1 = (Inr i, s1)"
    using bl app by (simp add: pa_cow_block_if_not_appendable_def bindM_run get_block_id_run fromM_run retM_run)
  have same: "s1\<lparr>objs := (objs s1)[a := (obj a s1)\<lparr>b_block_id := Some i\<rparr>]\<rparr> = s1"
  proof -
    have "(obj a s1)\<lparr>b_block_id := Some i\<rparr> = obj a s1" using bl(1) by simp
    then show ?thesis by simp
  qed
  have "inner_append_token_ids H a ts s = (Inr (), s1)"
    using ap cow bl(1) same by (simp add: inner_append_token_ids_def thenM_run getM_run bindM_run mod_obj_def modM_run)
  then show ?thesis by (simp add: s1_def)
qed

lemma update_num_fresh:
  assumes "b_prefix (obj a s) = Some (fresh_part n)" and "prev_ok s (b_prev_block (obj a s))"
  obtains n' where "update_num_tokens_total a s = (Inr (), s\<lparr>objs := (objs s)[a := (obj a s)\<lparr>b_prefix :=
      Some (fresh_part n')\<rparr>]\<rparr>)"
proof (cases "b_prev_block (obj a s)")
  case None
  then show thesis using that assms(1)
    by (simp add: update_num_tokens_total_def run_simps mod_obj_def fresh_part_def)
next
  case (Some r)
  with assms(2) obtain p q where p: "r = Blk p" "b_prefix (obj p s) = Some q"
    by (cases r) (auto simp: prev_ok_def)
  then show thesis using that assms(1) Some
    by (simp add: update_num_tokens_total_def run_simps mod_obj_def fresh_part_def num_tokens_total_def)
qed

lemma pa_append_full:
  assumes ok: "pa_ok A s" and blk: "block_is s a prev [] (Some i)" and part: "b_prefix (obj a s) = Some (fresh_part n)"
    and ph: "prev_hashed s prev" and pa: "prev = None \<or> addr (the prev) \<noteq> a"
    and rc: "refcounter s i = Some 1" and nc: "i \<notin> ran (cached_blocks s)"
    and len: "length ts = a_block_size s" "0 < a_block_size s"
    and h: "h = H (prev = None, prev_hash s prev, None, ts)" and miss: "cached_blocks s h = None"
  obtains t where "pa_append_token_ids H a ts s = (Inr (), t)" "block_is t a prev ts (Some i)"
    "cached_blocks t = (cached_blocks s)(h \<mapsto> i)" "refcounter t = refcounter s" "pa_ok A t"
    "in_use t = in_use s" "b_prefix (obj a t) \<noteq> None" "prev_hash t (Some (Blk a)) = Some h"
    "\<And>x. x \<noteq> a \<Longrightarrow> obj x t = obj x s" "length (objs t) = length (objs s)" "a_block_size t = a_block_size s"
    "free_block_indices t = free_block_indices s" "evictor t = evictor s"
    "\<And>k. pooled a k s \<Longrightarrow> pooled a k t" "bp_owner t = bp_owner s"
proof -
  have a: "a < length (objs s)" and init: "initialised (obj a s) prev [] (a_block_size s) (Some i)"
    using blk by (simp_all add: block_is_def)
  have bl: "b_block_id (obj a s) = Some i" "b_token_ids (obj a s) = []" "b_prev_block (obj a s) = prev"
    "b_block_size (obj a s) = a_block_size s"
    using init by (simp_all add: initialised_def)
  have ne: "ts \<noteq> []" using len by auto
  have c0: "content_hash H (Blk a) s = (Inr None, s)"
    by (rule content_hash_not_full [OF part]) (use bl len in \<open>simp add: is_full_def num_empty_slots_def\<close>)
  define s1 where "s1 = s\<lparr>objs := (objs s)[a := (obj a s)\<lparr>b_token_ids := ts\<rparr>]\<rparr>"
  have o1: "obj a s1 = (obj a s)\<lparr>b_token_ids := ts\<rparr>" using a by (simp add: s1_def)
  have inner: "inner_append_token_ids H a ts s = (Inr (), s1)"
    using inner_append_own [OF a bl(1) rc ne] bl(2,4) len by (simp add: num_empty_slots_def s1_def)
  have part1: "b_prefix (obj a s1) = Some (fresh_part n)" using part o1 by simp
  have pok1: "prev_ok s1 (b_prev_block (obj a s1))"
  proof (cases prev)
    case (Some r)
    with ph obtain p q where p: "r = Blk p" "p < length (objs s)" "b_prefix (obj p s) = Some q"
      by (cases r) (auto simp: prev_hashed_def prev_hash_def split: option.splits)
    have "obj p s1 = obj p s" using pa Some p(1) by (simp add: s1_def)
    then show ?thesis using Some p bl(3) o1 by (simp add: prev_ok_def) (simp add: s1_def)
  qed (use bl(3) o1 in \<open>simp add: prev_ok_def\<close>)
  from update_num_fresh [OF part1 pok1] obtain n' where up: "update_num_tokens_total a s1 =
      (Inr (), s1\<lparr>objs := (objs s1)[a := (obj a s1)\<lparr>b_prefix := Some (fresh_part n')\<rparr>]\<rparr>)" .
  define s2 where "s2 = s1\<lparr>objs := (objs s1)[a := (obj a s1)\<lparr>b_prefix := Some (fresh_part n')\<rparr>]\<rparr>"
  have a2: "a < length (objs s2)" "length (objs s2) = length (objs s)" using a by (simp_all add: s2_def s1_def)
  have o2: "obj a s2 = (obj a s)\<lparr>b_token_ids := ts, b_prefix := Some (fresh_part n')\<rparr>"
    using a o1 by (simp add: s2_def s1_def)
  have x2: "obj x s2 = obj x s" if "x \<noteq> a" for x using that by (simp add: s2_def s1_def)
  have pr2: "prev_hash s2 prev = prev_hash s prev" "prev_hashed s2 prev"
  proof -
    show e: "prev_hash s2 prev = prev_hash s prev"
      using pa x2 by (cases prev) (simp_all add: prev_hash_def)
    show "prev_hashed s2 prev"
      using ph e a2(2) by (cases prev) (auto simp: prev_hashed_def s2_def s1_def in_use_def split: ref.splits)
  qed
  have full: "is_full (obj a s2)" using o2 bl(4) len(1) by (simp add: is_full_def num_empty_slots_def)
  have h2: "content_hash H (Blk a) s2 = (Inr (Some h), hashed a h s2)"
    using content_hash_new [OF _ full a2(1) _ pr2(2), of n' H] o2 bl(3) pr2(1) h by simp
  define s3 where "s3 = hashed a h s2"
  have o3: "obj a s3 = (obj a s)\<lparr>b_token_ids := ts, b_prefix := Some ((fresh_part n')\<lparr>pb_cached_content_hash := Some h\<rparr>)\<rparr>"
    using a2(1) o2 by (simp add: s3_def hashed_def)
  have c3: "content_hash H (Blk a) s3 = (Inr (Some h), s3)"
    by (rule content_hash_cached [where p = "(fresh_part n')\<lparr>pb_cached_content_hash := Some h\<rparr>"]) (simp_all add: o3)
  have f3: "refcounter s3 = refcounter s" "cached_blocks s3 = cached_blocks s" "touched_blocks s3 = touched_blocks s"
    by (simp_all add: s3_def hashed_def s2_def s1_def)
  define t where "t = s3\<lparr>cached_blocks := (cached_blocks s)(h \<mapsto> i), touched_blocks := insert i (touched_blocks s)\<rparr>"
  have pr: "promote_to_immutable_block H (Blk a) s3 = (Inr i, t)"
    using c3 o3 bl(1) f3 rc miss
    by (simp add: promote_to_immutable_block_def run_simps refcounterM_def rc_get_def t_def)
  have samet: "t\<lparr>objs := (objs t)[a := (obj a t)\<lparr>b_block_id := Some i\<rparr>]\<rparr> = t"
  proof -
    have "(obj a t)\<lparr>b_block_id := Some i\<rparr> = obj a t" using bl(1) o3 by (simp add: t_def)
    then show ?thesis by simp
  qed
  have run: "pa_append_token_ids H a ts s = (Inr (), t)"
    using c0 part ne inner up [folded s2_def] h2 [folded s3_def] pr samet
    by (simp add: pa_append_token_ids_def bindM_run thenM_run getM_run assertM_run get_computed_def
        fromM_run retM_run fresh_part_def mod_obj_def modM_run)
  have p: "pids_ok (free_block_indices s) A (refcounter s) (block_tracker s) (ev_table (evictor s)) (cached_blocks s)"
    using ok by (simp add: pa_ok_def pa_ids_def)
  have eqs: "free_block_indices t = free_block_indices s" "all_block_indices t = all_block_indices s"
    "block_tracker t = block_tracker s" "evictor t = evictor s" "refcounter t = refcounter s"
    "cached_blocks t = (cached_blocks s)(h \<mapsto> i)" "a_block_size t = a_block_size s"
    "bp_pool t = bp_pool s" "bp_pool_size t = bp_pool_size s" "bp_free_ids t = bp_free_ids s"
    "bp_prefix t = bp_prefix s" "length (objs t) = length (objs s)" "bp_owner t = bp_owner s"
    by (simp_all add: t_def s3_def hashed_def s2_def s1_def)
  have xt: "obj x t = obj x s" if "x \<noteq> a" for x
    using that by (simp add: t_def s3_def hashed_def s2_def s1_def)
  have ot: "obj a t = obj a s3" by (simp add: t_def)
  have "pa_ids A t"
    using pids_promote [OF p rc _ miss nc] ok by (simp add: pa_ok_def pa_ids_def eqs)
  moreover have "bp_ok t" using ok by (simp add: pa_ok_def bp_ok_def eqs)
  moreover have "bp_kind t"
  proof -
    have "(b_prefix (obj x t) \<noteq> None \<longleftrightarrow> b_prefix (obj x s) \<noteq> None) \<and> b_owner (obj x t) = b_owner (obj x s)" for x
      using xt [of x] ot o3 part by (cases "x = a") auto
    then show ?thesis using ok by (simp add: pa_ok_def bp_kind_def eqs)
  qed
  ultimately have "pa_ok A t" using ok by (simp add: pa_ok_def eqs)
  moreover have "block_is t a prev ts (Some i)"
    using a bl len(1) ot o3 by (simp add: block_is_def initialised_def eqs)
  moreover have "in_use t = in_use s" by (simp add: in_use_def eqs)
  moreover have "pooled a k t" if "pooled a k s" for k
    using that ot o3 by (simp add: pooled_def eqs)
  ultimately show thesis
    using that [OF run] xt eqs ot o3 by (simp add: prev_hash_def)
qed

subsection \<open>A hit in the cache\<close>

lemma incr_cached_returns:
  assumes "pa_ids A s" and "b_block_id (obj (addr r) s) = Some i" and "i \<in> ran (cached_blocks s)"
    and "b_prefix (obj (addr r) s) \<noteq> None" and "addr r < length (objs s)"
  obtains t where "incr_refcount_cached_block r s = (Inr (), t)"
    "\<And>x. x \<noteq> addr r \<Longrightarrow> obj x t = obj x s"
    "\<exists>p. b_prefix (obj (addr r) s) = Some p \<and> obj (addr r) t = (obj (addr r) s)\<lparr>b_prefix := Some (p\<lparr>pb_computed := True\<rparr>)\<rparr>"
    "bp_pool t = bp_pool s" "bp_free_ids t = bp_free_ids s" "bp_pool_size t = bp_pool_size s"
    "bp_prefix t = bp_prefix s" "a_block_size t = a_block_size s" "bp_owner t = bp_owner s" "ev_accepts (evictor t) = ev_accepts (evictor s)"
proof -
  note d = pa_idsD [OF assms(1)] and p = pids_okD [OF pa_idsD(3) [OF assms(1)]]
  obtain pp where pp: "b_prefix (obj (addr r) s) = Some pp" using assms(4) by auto
  define s1 where "s1 = s\<lparr>objs := (objs s)[addr r := (obj (addr r) s)\<lparr>b_prefix := Some (pp\<lparr>pb_computed := True\<rparr>)\<rparr>]\<rparr>"
  have sc: "set_computed r True s = (Inr (), s1)"
    using pp by (simp add: set_computed_def run_simps mod_obj_def s1_def)
  have o: "b_block_id (obj (addr r) s1) = Some i" using assms(2,5) by (simp add: s1_def)
  obtain h where h: "cached_blocks s h = Some i" using assms(3) by (auto simp: ran_def)
  have i: "i \<in> A" "i \<notin> set (free_block_indices s)" using p(10) [OF h] by auto
  then obtain n tr where n: "refcounter s i = Some n" and tr: "block_tracker s i = Some tr"
    using pids_count(1) [OF d(3)] by blast
  note pn = p(8) [OF n tr]
  define s2 where "s2 = s1\<lparr>refcounter := (refcounter s)(i \<mapsto> n + 1)\<rparr>"
  have rc: "refcounterM (rc_incr i) s1 = (Inr (n + 1), s2)"
    using n pn by (simp add: refcounterM_def rc_incr_def run_simps s1_def s2_def)
  note res = that
  have fin: thesis if run: "incr_refcount_cached_block r s = (Inr (), t)" and ob: "objs t = objs s1"
    and same: "bp_pool t = bp_pool s" "bp_free_ids t = bp_free_ids s" "bp_pool_size t = bp_pool_size s"
    "bp_prefix t = bp_prefix s" "a_block_size t = a_block_size s" "bp_owner t = bp_owner s" "ev_accepts (evictor t) = ev_accepts (evictor s)" for t
    by (rule res [OF run _ _ same]) (use pp assms(5) in \<open>simp_all add: ob s1_def\<close>)
  show thesis
  proof (cases "n = 0")
    case False
    then have "incr_refcount_cached_block r s = (Inr (), s2)"
      using sc rc o by (simp add: incr_refcount_cached_block_def thenM_run bindM_run get_block_id_run fromM_run retM_run)
    then show thesis by (rule fin) (simp_all add: s2_def s1_def)
  next
    case True
    then have act: "\<not> bt_active tr" and "i \<in> dom (ev_table (evictor s))" using pn i by auto
    then obtain x where x: "ev_table (evictor s) i = Some x" by auto
    then have c: "ev_contains i (evictor s)" using ev.contains_iff [OF d(2)] by simp
    from ev.remove_ok [OF d(2), of i] x obtain e where
      e: "ev_remove i (evictor s) = (Inr (), e)" "ev_accepts e = ev_accepts (evictor s)" by auto
    define s3 where "s3 = s2\<lparr>evictor := e\<rparr>"
    have er: "getM evictor (\<lambda>e. if ev_contains i e then evictorM (ev_remove i) else retM ()) s2 = (Inr (), s3)"
      using c e(1) by (simp add: getM_run evictorM_def zoomM_run s2_def s1_def s3_def)
    have "block_tracker s3 i = Some tr" using tr by (simp add: s3_def s2_def s1_def)
    note tk = track_block_id_run [OF this act, of True]
    from rc sc er tk o True have "incr_refcount_cached_block r s = (Inr (), s3\<lparr>block_tracker := (block_tracker s3)(i \<mapsto>
       \<lparr>bt_active = True, bt_last_accessed = - 1, bt_computed = True\<rparr>)\<rparr>)"
      by (simp add: incr_refcount_cached_block_def thenM_run bindM_run get_block_id_run fromM_run retM_run)
    then show thesis by (rule fin) (use e(2) in \<open>simp_all add: s3_def s2_def s1_def\<close>)
  qed
qed

text \<open>A block object in use that carries the tokens \<open>ts\<close> after \<open>prev\<close>, hashed as \<open>h\<close>, under id \<open>i\<close>.\<close>

definition carries :: "PrefixAllocator \<Rightarrow> nat \<Rightarrow> ref option \<Rightarrow> int list \<Rightarrow> int \<Rightarrow> block_id \<Rightarrow> bool" where
  "carries s a prev ts h i \<longleftrightarrow> block_is s a prev ts (Some i) \<and> prev_hash s (Some (Blk a)) = Some h \<and>
     (\<exists>k. pooled a k s)"

text \<open>The hash of a block of \<open>ts\<close> after \<open>prev\<close>.\<close>

definition chain_hash :: "(hash_input \<Rightarrow> int) \<Rightarrow> PrefixAllocator \<Rightarrow> ref option \<Rightarrow> int list \<Rightarrow> int" where
  "chain_hash H s prev ts = H (prev = None, prev_hash s prev, None, ts)"

lemma bp_kind_cong:
  assumes "bp_kind s" and "bp_pool t = bp_pool s" and "bp_prefix t = bp_prefix s"
    and "bp_owner t = bp_owner s"
    and "\<And>x. (b_prefix (obj x t) = None \<longleftrightarrow> b_prefix (obj x s) = None) \<and> b_owner (obj x t) = b_owner (obj x s)"
  shows "bp_kind t"
  using assms by (auto simp: bp_kind_def)

lemma prev_hashed_keeps:
  assumes "prev_hashed s prev" and "keeps_used s t" and "in_use s \<subseteq> in_use t"
  shows "prev_hashed t prev" and "prev_hash t prev = prev_hash s prev"
proof -
  show e: "prev_hash t prev = prev_hash s prev"
  proof (cases prev)
    case (Some r)
    then show ?thesis using assms(1,2)
      by (cases r) (auto simp: prev_hashed_def prev_hash_def keeps_used_def)
  qed (simp add: prev_hash_def)
  show "prev_hashed t prev"
  proof (cases prev)
    case (Some r)
    then show ?thesis using assms e
      by (cases r) (auto simp: prev_hashed_def keeps_used_def)
  qed (simp add: prev_hashed_def)
qed

lemma prev_hashed_in_use: "prev_hashed s prev \<Longrightarrow> prev = None \<or> addr (the prev) \<in> in_use s"
  by (cases prev) (auto simp: prev_hashed_def split: ref.splits)

lemma prev_hashed_ok: "prev_hashed s prev \<Longrightarrow> prev_ok s prev"
  by (cases prev) (auto simp: prev_hashed_def prev_ok_def prev_hash_def split: ref.splits option.splits)

lemma keeps_used_but:
  assumes "keeps_used s u" and "\<And>x. x \<noteq> b \<Longrightarrow> obj x w = obj x u" and "b \<notin> in_use s"
    and "length (objs u) \<le> length (objs w)" and "a_block_size w = a_block_size u"
    and "bp_owner w = bp_owner u"
  shows "keeps_used s w"
  using assms unfolding keeps_used_def by (metis order.trans)

lemma pa_allocate_hit:
  assumes ok: "pa_ok A s" and ph: "prev_hashed s prev"
    and len: "length ts = a_block_size s"
    and h: "h = chain_hash H s prev ts" and hit: "cached_blocks s h = Some j"
  obtains a t n where "pa_allocate_immutable_block H prev ts s = (Inr (Blk a), t)" "carries t a prev ts h j"
    "refcounter s j = Some n" "refcounter t = (refcounter s)(j \<mapsto> n + 1)" "cached_blocks t = cached_blocks s"
    "free_block_indices t = free_block_indices s" "pa_ok A t" "a \<notin> in_use s" "in_use t = insert a (in_use s)"
    "keeps_used s t" "ev_accepts (evictor t) = ev_accepts (evictor s)"
proof -
  have l: "length ts \<le> a_block_size s" using len by simp
  from pa_init_block_run [OF ok prev_hashed_ok [OF ph] l, of None] obtain a u n k where
    u: "init_block prev ts (a_block_size s) None None s = (Inr (Blk a), u)"
    "block_is u a prev ts None" "b_prefix (obj a u) = Some (fresh_part n)" "pooled a k u"
    "a \<notin> in_use s" "in_use u = insert a (in_use s)" "keeps_used s u" "id_view u = id_view s" "pa_ok A u" .
  note f = id_view_fields [OF u(8)]
  have pu: "prev_hashed u prev" "prev_hash u prev = prev_hash s prev"
    using prev_hashed_keeps [OF ph u(7)] u(6) by auto
  have a: "a < length (objs u)" and bu: "b_prev_block (obj a u) = prev" "b_token_ids (obj a u) = ts"
    "b_block_size (obj a u) = a_block_size s" "b_block_id (obj a u) = None"
    using u(2) f(10) by (simp_all add: block_is_def initialised_def)
  have full: "is_full (obj a u)" using bu len by (simp add: is_full_def num_empty_slots_def)
  have ch: "content_hash H (Blk a) u = (Inr (Some h), hashed a h u)"
    using content_hash_new [OF u(3) full a bu(1) pu(1), of H] bu(2) pu(2) by (simp add: h chain_hash_def)
  define v where "v = (hashed a h u)\<lparr>metric_data := cm_query True (metric_data (hashed a h u))\<rparr>"
  define w where "w = v\<lparr>objs := (objs v)[a := (obj a v)\<lparr>b_block_id := Some j\<rparr>]\<rparr>"
  have aw: "a < length (objs w)" using a by (simp add: w_def v_def hashed_def)
  have ow: "obj a w = (obj a u)\<lparr>b_prefix := Some ((fresh_part n)\<lparr>pb_cached_content_hash := Some h\<rparr>), b_block_id := Some j\<rparr>"
    using a u(3) by (simp add: w_def v_def hashed_def)
  have xw: "obj x w = obj x u" if "x \<noteq> a" for x using that by (simp add: w_def v_def hashed_def)
  have fw: "cached_blocks w = cached_blocks s" "free_block_indices w = free_block_indices s"
    "refcounter w = refcounter s" "block_tracker w = block_tracker s" "evictor w = evictor s"
    "all_block_indices w = all_block_indices s" "bp_pool w = bp_pool u" "bp_free_ids w = bp_free_ids u"
    "bp_pool_size w = bp_pool_size u" "bp_prefix w = bp_prefix u" "a_block_size w = a_block_size s"
    "length (objs w) = length (objs u)" "bp_owner w = bp_owner u"
    by (simp_all add: w_def v_def hashed_def f)
  have ids: "pa_ids A s" using ok by (simp add: pa_ok_def)
  have idw: "pa_ids A w" using ids by (simp add: pa_ids_def fw)
  have jr: "j \<in> ran (cached_blocks w)" using hit fw(1) by (auto simp: ran_def)
  have bj: "b_block_id (obj (addr (Blk a)) w) = Some j" by (simp add: ow)
  have bp: "b_prefix (obj (addr (Blk a)) w) \<noteq> None" by (simp add: ow)
  have al: "addr (Blk a) < length (objs w)" using aw by simp
  from incr_cached_returns [OF idw bj jr bp al] obtain t where
    t: "incr_refcount_cached_block (Blk a) w = (Inr (), t)" "\<And>x. x \<noteq> a \<Longrightarrow> obj x t = obj x w"
    "\<exists>p. b_prefix (obj a w) = Some p \<and> obj a t = (obj a w)\<lparr>b_prefix := Some (p\<lparr>pb_computed := True\<rparr>)\<rparr>"
    "bp_pool t = bp_pool w" "bp_free_ids t = bp_free_ids w" "bp_pool_size t = bp_pool_size w"
    "bp_prefix t = bp_prefix w" "a_block_size t = a_block_size w" "bp_owner t = bp_owner w"
    "ev_accepts (evictor t) = ev_accepts (evictor w)" by auto
  from incr_cached_ids [OF t(1) idw bj jr al] obtain m where
    t': "pa_ids A t" "cached_blocks t = cached_blocks w" "free_block_indices t = free_block_indices w"
    "refcounter s j = Some m" "refcounter t = (refcounter s)(j \<mapsto> m + 1)" "length (objs t) = length (objs w)"
    by (auto simp: fw)
  have "prefix_block_or_none (objs s) prev"
    using prev_hashed_ok [OF ph] by (auto simp: prev_ok_def prefix_block_or_none_def split: option.splits ref.splits)
  then have run: "pa_allocate_immutable_block H prev ts s = (Inr (Blk a), t)"
    using u(1) ch hit t(1) f(6)
    by (simp add: pa_allocate_immutable_block_def thenM_run bindM_run getM_run assertM_run fromM_run metric_query_def
        modM_run retM_run mod_obj_def hashed_def v_def w_def)
  have ot: "obj a t = (obj a u)\<lparr>b_block_id := Some j, b_prefix := Some ((fresh_part n)\<lparr>pb_cached_content_hash := Some h,
      pb_computed := True\<rparr>)\<rparr>" using t(3) ow by (auto simp: fresh_part_def)
  have kind: "bp_kind t"
  proof (rule bp_kind_cong [of u])
    show "(b_prefix (obj x t) = None \<longleftrightarrow> b_prefix (obj x u) = None) \<and> b_owner (obj x t) = b_owner (obj x u)" for x
      using t(2) [of x] xw [of x] ot u(3) by (cases "x = a") auto
  qed (use u(9) t fw in \<open>simp_all add: pa_ok_def\<close>)
  have "pa_ok A t" using u(9) t'(1) kind by (simp add: pa_ok_def bp_ok_def t t' fw)
  moreover have "in_use t = in_use u" by (simp add: in_use_def t fw)
  moreover have "keeps_used s t"
    by (rule keeps_used_but [OF u(7), of a]) (use t(2,8,9) xw u(5) t'(6) fw f in simp_all)
  moreover have "carries t a prev ts h j"
    using a bu ot u(4) t'(6) fw(12) t(8) fw(11) l
    by (auto simp: carries_def block_is_def initialised_def prev_hash_def pooled_def t fw)
  ultimately show thesis
    using that [OF run] t' t(10) fw u(5,6) by simp
qed

text \<open>On a miss the block made for hashing goes back to the pool and a mutable block is allocated.\<close>

lemma pa_miss_start:
  assumes ok: "pa_ok A s" and ph: "prev_hashed s prev" and len: "length ts = a_block_size s"
    and h: "h = chain_hash H s prev ts" and miss: "cached_blocks s h = None"
  obtains w where "pa_allocate_immutable_block H prev ts s =
      bindM (pa_allocate_mutable_block H prev) (\<lambda>r. thenM (pa_append_token_ids H (addr r) ts) (retM r)) w"
    "cached_blocks w = cached_blocks s" "free_block_indices w = free_block_indices s" "refcounter w = refcounter s"
    "evictor w = evictor s" "a_block_size w = a_block_size s"
    "pa_ok A w" "in_use w = in_use s" "keeps_used s w" "prev_hashed w prev" "prev_hash w prev = prev_hash s prev"
proof -
  have l: "length ts \<le> a_block_size s" using len by simp
  from pa_init_block_run [OF ok prev_hashed_ok [OF ph] l, of None] obtain b u n k where
    u: "init_block prev ts (a_block_size s) None None s = (Inr (Blk b), u)"
    "block_is u b prev ts None" "b_prefix (obj b u) = Some (fresh_part n)" "pooled b k u"
    "b \<notin> in_use s" "in_use u = insert b (in_use s)" "keeps_used s u" "id_view u = id_view s" "pa_ok A u" .
  note f = id_view_fields [OF u(8)]
  have pu: "prev_hashed u prev" "prev_hash u prev = prev_hash s prev"
    using prev_hashed_keeps [OF ph u(7)] u(6) by auto
  have b: "b < length (objs u)" and bu: "b_prev_block (obj b u) = prev" "b_token_ids (obj b u) = ts"
    "b_block_size (obj b u) = a_block_size s"
    using u(2) f(10) by (simp_all add: block_is_def initialised_def)
  have full: "is_full (obj b u)" using bu len by (simp add: is_full_def num_empty_slots_def)
  have ch: "content_hash H (Blk b) u = (Inr (Some h), hashed b h u)"
    using content_hash_new [OF u(3) full b bu(1) pu(1), of H] bu(2) pu(2) by (simp add: h chain_hash_def)
  define v where "v = (hashed b h u)\<lparr>metric_data := cm_query False (metric_data (hashed b h u))\<rparr>"
  have ov: "bp_ok v" "in_use v = in_use u" and pv: "pooled b k v"
    using u(9) u(4) b by (simp_all add: v_def pa_ok_def pooled_def bp_ok_def in_use_def hashed_def)
  note fr = free_pooled [OF ov(1) pv]
  define w where "w = v\<lparr>bp_free_ids := k # bp_free_ids v\<rparr>"
  have fw: "cached_blocks w = cached_blocks s" "free_block_indices w = free_block_indices s"
    "refcounter w = refcounter s" "block_tracker w = block_tracker s" "evictor w = evictor s"
    "all_block_indices w = all_block_indices s" "bp_pool w = bp_pool u"
    "bp_pool_size w = bp_pool_size u" "bp_prefix w = bp_prefix u" "a_block_size w = a_block_size s"
    "length (objs w) = length (objs u)" "bp_owner w = bp_owner u"
    by (simp_all add: w_def v_def hashed_def f)
  have xw: "obj x w = obj x u" if "x \<noteq> b" for x using that by (simp add: w_def v_def hashed_def)
  have iw: "in_use w = in_use s" using fr(3) ov(2) u(5,6) by (simp add: w_def)
  have kw: "bp_kind w"
  proof (rule bp_kind_cong [of u])
    show "(b_prefix (obj x w) = None \<longleftrightarrow> b_prefix (obj x u) = None) \<and> b_owner (obj x w) = b_owner (obj x u)" for x
      using xw [of x] b u(3) by (cases "x = b") (auto simp: w_def v_def hashed_def)
  qed (use u(9) fw in \<open>simp_all add: pa_ok_def\<close>)
  have okw: "pa_ok A w" using u(9) fr(2) kw ok by (simp add: pa_ok_def pa_ids_def fw) (simp add: w_def)
  have kuw: "keeps_used s w"
    by (rule keeps_used_but [OF u(7), of b]) (use u(5) xw fw f in simp_all)
  have pw: "prev_hashed w prev" "prev_hash w prev = prev_hash s prev"
    using prev_hashed_keeps [OF ph kuw] iw by auto
  have mq: "metric_query False (hashed b h u) = (Inr (), v)" by (simp add: metric_query_def modM_run v_def)
  have mh: "cached_blocks (hashed b h u) h = None" using miss f(6) by (simp add: hashed_def)
  have "prefix_block_or_none (objs s) prev"
    using prev_hashed_ok [OF ph] by (auto simp: prev_ok_def prefix_block_or_none_def split: option.splits ref.splits)
  then have run: "pa_allocate_immutable_block H prev ts s =
      bindM (pa_allocate_mutable_block H prev) (\<lambda>r. thenM (pa_append_token_ids H (addr r) ts) (retM r)) w"
    unfolding w_def using u(1) ch mh fr(1) mq
    by (simp add: pa_allocate_immutable_block_def thenM_step bindM_step getM_run assertM_run fromM_run
        del: hashed_pool)
  show thesis
    by (rule that [OF run _ _ _ _ _ okw iw kuw pw]) (simp_all add: fw)
qed

lemma pa_allocate_miss_none:
  assumes "pa_ok A s" and "prev_hashed s prev" and "length ts = a_block_size s"
    and "cached_blocks s (chain_hash H s prev ts) = None" and "pa_get_num_free_blocks s = 0"
  shows "\<exists>t. pa_allocate_immutable_block H prev ts s = (Inl NoFreeBlocksError, t)"
proof -
  from pa_miss_start [OF assms(1-3) refl assms(4)] obtain w where
    w: "pa_allocate_immutable_block H prev ts s =
      bindM (pa_allocate_mutable_block H prev) (\<lambda>r. thenM (pa_append_token_ids H (addr r) ts) (retM r)) w"
    "cached_blocks w = cached_blocks s" "free_block_indices w = free_block_indices s" "refcounter w = refcounter s"
    "evictor w = evictor s" "a_block_size w = a_block_size s" "pa_ok A w" "in_use w = in_use s" "keeps_used s w"
    "prev_hashed w prev" "prev_hash w prev = prev_hash s prev" .
  have "pa_get_num_free_blocks w = 0"
    using assms(5) w by (simp add: pa_get_num_free_blocks_def na_get_num_free_blocks_def)
  from pa_allocate_block_id_none [OF w(7) this] have "pa_allocate_block_id w = (Inl NoFreeBlocksError, w)" .
  moreover have "prefix_block_or_none (objs w) prev"
    using prev_hashed_ok [OF w(10)] by (auto simp: prev_ok_def prefix_block_or_none_def split: option.splits ref.splits)
  ultimately have "pa_allocate_mutable_block H prev w = (Inl NoFreeBlocksError, w)"
    by (simp add: pa_allocate_mutable_block_def run_simps)
  with w(1) show ?thesis by (simp add: bindM_run)
qed

lemma pa_allocate_miss:
  assumes ok: "pa_ok A s" and ph: "prev_hashed s prev" and free: "0 < pa_get_num_free_blocks s"
    and len: "length ts = a_block_size s" "0 < a_block_size s"
    and h: "h = chain_hash H s prev ts" and miss: "cached_blocks s h = None"
  obtains a i t where "pa_allocate_immutable_block H prev ts s = (Inr (Blk a), t)" "carries t a prev ts h i"
    "refcounter s i = Some 0" "refcounter t = (refcounter s)(i \<mapsto> 1)"
    "\<forall>g. cached_blocks t g = (if g = h then Some i else if cached_blocks s g = Some i then None else cached_blocks s g)"
    "pa_ok A t" "a \<notin> in_use s" "in_use t = insert a (in_use s)" "keeps_used s t"
    "free_block_indices s \<noteq> [] \<Longrightarrow> cached_blocks t = (cached_blocks s)(h \<mapsto> i)"
    "ev_accepts (evictor t) = ev_accepts (evictor s)"
proof -
  from pa_miss_start [OF ok ph len(1) h miss] obtain w where
    w: "pa_allocate_immutable_block H prev ts s =
      bindM (pa_allocate_mutable_block H prev) (\<lambda>r. thenM (pa_append_token_ids H (addr r) ts) (retM r)) w"
    and fw: "cached_blocks w = cached_blocks s" "free_block_indices w = free_block_indices s"
      "refcounter w = refcounter s" "evictor w = evictor s" "a_block_size w = a_block_size s"
    and okw: "pa_ok A w" and iw: "in_use w = in_use s" and kuw: "keeps_used s w"
    and pw: "prev_hashed w prev" "prev_hash w prev = prev_hash s prev" .
  have freew: "0 < pa_get_num_free_blocks w"
    using free by (simp add: pa_get_num_free_blocks_def na_get_num_free_blocks_def fw)
  have szw: "0 < a_block_size w" using len fw by simp
  from pa_allocate_mutable_run [OF okw freew szw prev_hashed_ok [OF pw(1)] prev_hashed_in_use [OF pw(1)], of H]
  obtain a i x m k' where x: "pa_allocate_mutable_block H prev w = (Inr (Blk a), x)"
    "block_is x a prev [] (Some i)" "b_prefix (obj a x) = Some (fresh_part m)" "pooled a k' x"
    "a \<notin> in_use w" "in_use x = insert a (in_use w)" "keeps_used w x" "pa_ok A x"
    "refcounter w i = Some 0" "refcounter x = (refcounter w)(i \<mapsto> 1)" "i \<notin> ran (cached_blocks x)"
    "cached_blocks x \<subseteq>\<^sub>m cached_blocks w"
    "\<forall>g. cached_blocks x g \<noteq> cached_blocks w g \<longrightarrow> cached_blocks w g = Some i \<and> free_block_indices w = []"
    "ev_accepts (evictor x) = ev_accepts (evictor w)"
    by metis
  have px: "prev_hashed x prev" "prev_hash x prev = prev_hash s prev"
    using prev_hashed_keeps [OF pw(1) x(7)] x(6) pw(2) by auto
  have pa: "prev = None \<or> addr (the prev) \<noteq> a" using prev_hashed_in_use [OF pw(1)] x(5) by auto
  have rcx: "refcounter x i = Some 1" using x(10) by simp
  have szx: "a_block_size x = a_block_size s" using x(7) fw by (simp add: keeps_used_def)
  have mx: "cached_blocks x h = None"
    using x(12) miss fw(1) by (metis domIff map_le_def)
  obtain t where t: "pa_append_token_ids H a ts x = (Inr (), t)" "block_is t a prev ts (Some i)"
    "cached_blocks t = (cached_blocks x)(h \<mapsto> i)" "refcounter t = refcounter x" "pa_ok A t"
    "in_use t = in_use x" "prev_hash t (Some (Blk a)) = Some h"
    "\<And>y. y \<noteq> a \<Longrightarrow> obj y t = obj y x" "length (objs t) = length (objs x)" "a_block_size t = a_block_size x"
    "\<exists>k. pooled a k t" "evictor t = evictor x" "bp_owner t = bp_owner x"
    using pa_append_full [OF x(8,2,3) px(1) pa rcx x(11), of ts h H] len szx h px(2) mx x(4)
    by (simp add: chain_hash_def) metis
  have run: "pa_allocate_immutable_block H prev ts s = (Inr (Blk a), t)"
    using w x(1) t(1) by (simp add: bindM_run thenM_run retM_run)
  have "keeps_used s x" by (rule keeps_used_trans [OF kuw x(7)]) (simp add: iw)
  then have ku: "keeps_used s t" by (rule keeps_used_but [of _ _ a]) (use t(8-10,13) x(5) iw in simp_all)
  have "cached_blocks t g = (if g = h then Some i else if cached_blocks s g = Some i then None
      else cached_blocks s g)" for g
  proof (cases "cached_blocks x g = cached_blocks s g")
    case True
    moreover have "cached_blocks x g \<noteq> Some i" using x(11) by (auto simp: ran_def)
    ultimately show ?thesis using t(3) by simp
  next
    case False
    then have "cached_blocks s g = Some i" using x(13) fw(1) by auto
    moreover have "cached_blocks x g = None" using False x(12) fw(1) by (auto simp: map_le_def dom_def)
    ultimately show ?thesis using t(3) by simp
  qed
  moreover have "cached_blocks t = (cached_blocks s)(h \<mapsto> i)" if "free_block_indices s \<noteq> []"
  proof -
    have "cached_blocks x = cached_blocks s" using x(13) that fw(1,2) by (intro ext) auto
    with t(3) show ?thesis by simp
  qed
  ultimately show thesis
    using that [OF run] t x fw(3,4) iw ku by (auto simp: carries_def)
qed

end
