(* ===== verification/PrefixCache.thy ===== *)
theory PrefixCache
  imports PrefixBlock "HOL-Library.Sublist"
begin

section \<open>The prefix cache\<close>

text \<open>
  What the prefix-caching allocator promises its callers: blocks of the same content after the
  same prefix share one id, a released block is found again, ids are given up only when no
  other is free.
\<close>

subsection \<open>A new allocator\<close>

lemma bp_init_run: "bp_init n s = (Inr (), s\<lparr>bp_pool_size := n, bp_free_ids := [0..<n],
    bp_pool := [length (objs s)..<length (objs s) + n],
    objs := objs s @ replicate n (new_block (bp_prefix s) (bp_block_size s) (bp_owner s))\<rparr>)"
  by (simp add: bp_init_def run_simps bp_create_loop)

lemma rc_init_get: "rc_init ids i = (if i \<in> set ids then Some 0 else None)"
  by (induction ids) (auto simp: rc_init_def)

lemma pa_init_ids_run:
  assumes "0 < length ids" and "distinct ids" and "make_evictor p = Inr e"
  obtains t where "pa_init (length ids) b (Some ids) p s = (Inr (), t)" "pa_ok (set ids) t" "a_block_size t = b"
    "free_block_indices t = ids" "cached_blocks t = Map.empty" "in_use t = {}" "evictor t = e"
    "refcounter t = rc_init ids" "bp_owner t = bp_owner s" "all_block_indices t = set ids"
    "\<exists>xs. objs t = objs s @ xs"
proof -
  let ?n = "length ids"
  let ?t = "snd (pa_init ?n b (Some ids) p s)"
  have e: "ev_inv e" "ev_table e = Map.empty" using make_evictor_inv [OF assms(3)] by simp_all
  have c: "card (set ids) = ?n" using assms(2) by (rule distinct_card)
  have run: "fst (pa_init ?n b (Some ids) p s) = Inr ()"
    using assms(3) c by (simp add: pa_init_def na_init_def bp_init_run run_simps Let_def)
  have f: "free_block_indices ?t = ids" "all_block_indices ?t = set ids" "refcounter ?t = rc_init ids"
    "cached_blocks ?t = Map.empty" "block_tracker ?t = map_of (map (\<lambda>i. (i, bt_init)) ids)"
    "evictor ?t = e" "bp_pool_size ?t = ?n * 4" "bp_free_ids ?t = [0..<?n * 4]" "bp_prefix ?t"
    "bp_pool ?t = [length (objs s)..<length (objs s) + ?n * 4]" "a_block_size ?t = b" "bp_owner ?t = bp_owner s"
    "objs ?t = objs s @ replicate (?n * 4) (new_block True b (bp_owner s))"
    using assms(3) c by (simp_all add: pa_init_def na_init_def bp_init_run run_simps Let_def)
  have tr: "block_tracker ?t i = (if i \<in> set ids then Some bt_init else None)" for i
    unfolding f(5) by (induction ids) auto
  have "pids_ok ids (set ids) (rc_init ids) (block_tracker ?t) Map.empty Map.empty"
    by (rule pids_okI) (use assms(2) in \<open>auto simp: rc_init_get tr bt_init_def split: if_splits\<close>)
  then have "pa_ids (set ids) ?t" using e by (simp add: pa_ids_def f(1-4,6))
  moreover have "bp_ok ?t" by (auto simp: bp_ok_def f)
  moreover have "bp_kind ?t" by (auto simp: bp_kind_def f nth_append new_block_def)
  moreover have "in_use ?t = {}" by (simp add: in_use_def f)
  ultimately show thesis
    using that [of ?t] run f assms(1) by (simp add: pa_ok_def prod_eq_iff)
qed

lemma pa_init_run:
  assumes "0 < n" and "make_evictor p = Inr e"
  obtains t where "pa_init n b None p s = (Inr (), t)" "pa_ok {0..<n} t" "a_block_size t = b"
    "free_block_indices t = [0..<n]" "cached_blocks t = Map.empty" "in_use t = {}" "evictor t = e"
    "refcounter t = rc_init [0..<n]" "bp_owner t = bp_owner s"
proof -
  have "pa_init n b None p s = pa_init (length [0..<n]) b (Some [0..<n]) p s" by (simp add: pa_init_def)
  with pa_init_ids_run [of "[0..<n]" p e b s] assms that show thesis by auto
qed

subsection \<open>Releasing a cached block\<close>

lemma decr_cached_returns:
  assumes ids: "pa_ids A s" and c: "carries s a prev ts h i" and hit: "cached_blocks s h = Some i"
    and n: "refcounter s i = Some n" "0 < n" and acc: "ev_accepts (evictor s) (PyInt h)"
  obtains t where "decr_refcount_cached_block H (Blk a) s = (Inr (), t)"
    "b_block_id (obj a t) = None" "\<And>x. x \<noteq> a \<Longrightarrow> obj x t = obj x s" "length (objs t) = length (objs s)"
    "strip (obj a t) = strip ((obj a s)\<lparr>b_block_id := None\<rparr>)" "b_prefix (obj a t) = b_prefix (obj a s)"
    "bp_pool t = bp_pool s" "bp_free_ids t = bp_free_ids s" "bp_pool_size t = bp_pool_size s"
    "bp_prefix t = bp_prefix s" "bp_owner t = bp_owner s" "a_block_size t = a_block_size s" "ev_table (evictor t) = (if n = 1
       then (ev_table (evictor s))(i \<mapsto> PyInt h) else ev_table (evictor s))"
    "free_block_indices t = free_block_indices s"
proof -
  note d = pa_idsD [OF ids] and p = pids_okD [OF pa_idsD(3) [OF ids]]
  have a: "a < length (objs s)" and bi: "b_block_id (obj a s) = Some i"
    using c by (simp_all add: carries_def block_is_def initialised_def)
  obtain pp where pp: "b_prefix (obj a s) = Some pp" "pb_cached_content_hash pp = Some h"
    using c by (auto simp: carries_def prev_hash_def split: option.splits)
  have ch: "content_hash H (Blk a) s = (Inr (Some h), s)" by (rule content_hash_cached [OF pp])
  define s1 where "s1 = s\<lparr>refcounter := (refcounter s)(i \<mapsto> n - 1)\<rparr>"
  have rc: "refcounterM (rc_decr i) s = (Inr (n - 1), s1)"
    using n by (simp add: refcounterM_def rc_decr_def run_simps s1_def)
  note res = that
  have fin: thesis if run: "decr_refcount_cached_block H (Blk a) s = (Inr (), t)"
    and ob: "objs t = (objs s)[a := (obj a s)\<lparr>b_block_id := None\<rparr>]"
    and same: "bp_pool t = bp_pool s" "bp_free_ids t = bp_free_ids s" "bp_pool_size t = bp_pool_size s"
    "bp_prefix t = bp_prefix s" "bp_owner t = bp_owner s" "a_block_size t = a_block_size s" "ev_table (evictor t) = (if n = 1
       then (ev_table (evictor s))(i \<mapsto> PyInt h) else ev_table (evictor s))"
    "free_block_indices t = free_block_indices s" for t
    by (rule res [OF run _ _ _ _ _ same]) (use a in \<open>simp_all add: ob\<close>)
  show thesis
  proof (cases "n = 1")
    case False
    with n(2) have "0 < n - 1" by simp
    then have "decr_refcount_cached_block H (Blk a) s = (Inr (), s1\<lparr>objs := (objs s1)[a := (obj a s1)\<lparr>b_block_id := None\<rparr>]\<rparr>)"
      using ch bi rc by (simp add: decr_refcount_cached_block_def bindM_run fromM_run get_block_id_run
          mod_obj_def modM_run)
    then show thesis by (rule fin) (use False in \<open>simp_all add: s1_def\<close>)
  next
    case True
    obtain tr where tr: "block_tracker s i = Some tr" using p(10) [OF hit] p(7) by blast
    with p(8) [OF n(1) tr] n(2) have act: "bt_active tr" by simp
    have tot: "num_tokens_total (obj a s1) = Inr (pb_cached_num_tokens_total pp)"
      using pp by (simp add: num_tokens_total_def s1_def)
    from ev.add_ok [OF d(2) acc] obtain e where e: "ev_add i (PyInt h) (pb_cached_num_tokens_total pp)
        (bt_last_accessed tr) (evictor s) = (Inr (), e)" "ev_table e = (ev_table (evictor s))(i \<mapsto> PyInt h)" by metis
    define s2 where "s2 = s1\<lparr>evictor := e\<rparr>"
    have ea: "evictorM (ev_add i (PyInt h) (pb_cached_num_tokens_total pp) (bt_last_accessed tr)) s1 = (Inr (), s2)"
      using e(1) by (simp add: evictorM_def zoomM_run s1_def s2_def)
    have s1f: "cached_blocks s1 h = Some i" "block_tracker s1 = block_tracker s" using hit by (simp_all add: s1_def)
    define s3 where "s3 = s2\<lparr>block_tracker := (block_tracker s)(i \<mapsto>
        \<lparr>bt_active = False, bt_last_accessed = - 1, bt_computed = False\<rparr>)\<rparr>"
    have un: "untrack_block_id (Some i) s2 = (Inr (), s3)"
      using tr act by (cases tr) (simp add: untrack_block_id_def trackerM_def run_simps bt_disable_def
          bt_reset_def s2_def s1_def s3_def)
    have "decr_refcount_cached_block H (Blk a) s = (Inr (), s3\<lparr>objs := (objs s3)[a := (obj a s3)\<lparr>b_block_id := None\<rparr>]\<rparr>)"
      using ch bi rc True s1f tot tr ea un
      by (simp add: decr_refcount_cached_block_def bindM_run thenM_run fromM_run get_block_id_run getM_run
          liftM_run assertM_run mod_obj_def modM_run)
    then show thesis by (rule fin) (use True e in \<open>simp_all add: s3_def s2_def s1_def\<close>)
  qed
qed

text \<open>\<open>free\<close> of such a block: its id keeps its place in the cache.\<close>

lemma pa_free_cached:
  assumes ok: "pa_ok A s" and c: "carries s a prev ts h i" and hit: "cached_blocks s h = Some i"
    and n: "refcounter s i = Some n" "0 < n" and acc: "ev_accepts (evictor s) (PyInt h)"
  obtains t where "pa_free H (Blk a) False s = (Inr (), t)" "pa_ok A t" "cached_blocks t = cached_blocks s"
    "refcounter t = (refcounter s)(i \<mapsto> n - 1)" "in_use t = in_use s - {a}" "a_block_size t = a_block_size s"
    "\<And>x. x \<noteq> a \<Longrightarrow> obj x t = obj x s" "length (objs t) = length (objs s)"
    "ev_table (evictor t) = (if n = 1 then (ev_table (evictor s))(i \<mapsto> PyInt h) else ev_table (evictor s))"
    "free_block_indices t = free_block_indices s" "bp_owner t = bp_owner s"
proof -
  have ids: "pa_ids A s" using ok by (simp add: pa_ok_def)
  have a: "a < length (objs s)" and bi: "b_block_id (obj a s) = Some i"
    using c by (simp_all add: carries_def block_is_def initialised_def)
  obtain k where k: "pooled a k s" using c by (auto simp: carries_def)
  obtain pp where pp: "b_prefix (obj a s) = Some pp" "pb_cached_content_hash pp = Some h"
    using c by (auto simp: carries_def prev_hash_def split: option.splits)
  have ch: "content_hash H (Blk a) s = (Inr (Some h), s)" by (rule content_hash_cached [OF pp])
  from decr_cached_returns [OF ids c hit n acc, of H] obtain u where
    u: "decr_refcount_cached_block H (Blk a) s = (Inr (), u)"
    "b_block_id (obj a u) = None" "\<And>x. x \<noteq> a \<Longrightarrow> obj x u = obj x s" "length (objs u) = length (objs s)"
    "strip (obj a u) = strip ((obj a s)\<lparr>b_block_id := None\<rparr>)" "b_prefix (obj a u) = b_prefix (obj a s)"
    "bp_pool u = bp_pool s" "bp_free_ids u = bp_free_ids s" "bp_pool_size u = bp_pool_size s"
    "bp_prefix u = bp_prefix s" "bp_owner u = bp_owner s" "a_block_size u = a_block_size s" "ev_table (evictor u) = (if n = 1
       then (ev_table (evictor s))(i \<mapsto> PyInt h) else ev_table (evictor s))"
    "free_block_indices u = free_block_indices s" by metis
  have bu: "b_block_id (obj (addr (Blk a)) s) = Some i" "addr (Blk a) < length (objs s)" using bi a by simp_all
  from decr_cached_ids [OF u(1) ids ch hit bu] n(1) have
    u': "pa_ids A u" "cached_blocks u = cached_blocks s" "refcounter u = (refcounter s)(i \<mapsto> n - 1)" by auto
  have pk: "pooled a k u" using k strip_fields(5) [OF u(5)] by (simp add: pooled_def u)
  have bo: "bp_ok u" using ok by (simp add: pa_ok_def bp_ok_def u)
  note fr = free_pooled [OF bo pk]
  define t where "t = u\<lparr>bp_free_ids := k # bp_free_ids u\<rparr>"
  have fb: "pa_free_block_id H False (Blk a) s = (Inr (), u)"
    using bi ch u(1,2) by (simp add: pa_free_block_id_def bindM_run thenM_run get_block_id_run assertM_run)
  have run: "pa_free H (Blk a) False s = (Inr (), t)"
    using fb fr(1) by (simp add: pa_free_def thenM_run t_def)
  have "bp_kind t"
  proof (rule bp_kind_cong [of s])
    show "(b_prefix (obj x t) = None \<longleftrightarrow> b_prefix (obj x s) = None) \<and> b_owner (obj x t) = b_owner (obj x s)" for x
      using u(3) [of x] u(6) strip_fields(6) [OF u(5)] by (cases "x = a") (simp_all add: t_def)
  qed (use ok u in \<open>simp_all add: pa_ok_def t_def\<close>)
  moreover have "pa_ids A t" using u'(1) by (simp add: pa_ids_def t_def)
  ultimately have "pa_ok A t" using fr(2) ok by (simp add: pa_ok_def t_def u)
  moreover have "in_use t = in_use s - {a}"
    using fr(3) by (simp add: t_def) (simp add: in_use_def u)
  ultimately show thesis
    by (intro that [OF run]) (use u u' in \<open>simp_all add: t_def\<close>)
qed

subsection \<open>The blocks that can be given out\<close>

lemma pids_free_card:
  assumes "pids_ok F A rc tr E C"
  shows "length F + card (dom E) = card {i. rc i = Some 0}"
proof -
  note d = pids_okD [OF assms]
  have "{i. rc i = Some 0} = set F \<union> dom E"
  proof (rule set_eqI)
    fix i
    show "i \<in> {i. rc i = Some 0} \<longleftrightarrow> i \<in> set F \<union> dom E"
    proof
      assume "i \<in> {i. rc i = Some 0}"
      then have r: "rc i = Some 0" by simp
      then have "i \<in> A" using d(6) by auto
      then obtain t where "tr i = Some t" using d(7) by blast
      from d(8) [OF r this] show "i \<in> set F \<union> dom E" by simp
    qed (use pids_count(2,3) [OF assms] in auto)
  qed
  moreover have "card (set F \<union> dom E) = card (set F) + card (dom E)"
    by (rule card_Un_disjoint) (use d finite_subset in auto)
  ultimately show ?thesis using d(1) by (simp add: distinct_card)
qed

lemma pa_free_blocks_card:
  assumes "pa_ok A s"
  shows "pa_get_num_free_blocks s = card {i. refcounter s i = Some 0}"
proof -
  have ids: "pa_ids A s" using assms by (simp add: pa_ok_def)
  from pids_free_card [OF pa_idsD(3) [OF ids]] ev.num_blocks_card [OF pa_idsD(2) [OF ids]]
  show ?thesis by (simp add: pa_get_num_free_blocks_def na_get_num_free_blocks_def)
qed

subsection \<open>Properties\<close>

text \<open>A new allocator of two ids of two tokens, and a hash.\<close>

definition ex_blank :: PrefixAllocator where
  "ex_blank = \<lparr>objs = [], free_block_indices = [], all_block_indices = {},
     refcounter = Map.empty, a_block_size = 0, copy_on_writes = [], bp_block_size = 0, bp_pool_size = 0,
     bp_free_ids = [], bp_pool = [], bp_prefix = True, bp_owner = GPU, cached_blocks = Map.empty,
     touched_blocks = {}, block_tracker = Map.empty, evictor = LRUE lru_init,
     pa_copy_on_writes = [], metric_data = cm_init\<rparr>"

definition ex_pa :: PrefixAllocator where
  "ex_pa = snd (pa_init 2 2 None (Some LRU) ex_blank)"

definition ex_hash :: "hash_input \<Rightarrow> int" where
  "ex_hash x = (case x of (f, p, e, ts) \<Rightarrow> foldl (\<lambda>a t. 31 * a + t) (case p of None \<Rightarrow> 7 | Some h \<Rightarrow> h) ts)"

lemma ex_pa_ok: "pa_ok {0..<2} ex_pa" "a_block_size ex_pa = 2" "free_block_indices ex_pa = [0, 1]"
  "cached_blocks ex_pa = Map.empty" "evictor ex_pa = LRUE lru_init"
proof -
  have m: "make_evictor (Some LRU) = Inr (LRUE lru_init)" by simp
  have pos: "(0::nat) < 2" by simp
  from pa_init_run [OF pos m, of 2 ex_blank] obtain t where
    t: "pa_init 2 2 None (Some LRU) ex_blank = (Inr (), t)" "pa_ok {0..<2} t" "a_block_size t = 2"
    "free_block_indices t = [0..<2]" "cached_blocks t = Map.empty" "in_use t = {}" "evictor t = LRUE lru_init"
    "refcounter t = rc_init [0..<2]" "bp_owner t = bp_owner ex_blank" .
  have e: "ex_pa = t" by (simp add: ex_pa_def t(1))
  show "pa_ok {0..<2} ex_pa" "a_block_size ex_pa = 2" "free_block_indices ex_pa = [0, 1]"
    "cached_blocks ex_pa = Map.empty" "evictor ex_pa = LRUE lru_init"
    unfolding e using t by (simp_all add: upt_rec)
qed

lemma ex_pa_facts: "prev_hashed ex_pa None" "length [5, 6 :: int] = a_block_size ex_pa" "0 < a_block_size ex_pa"
  "pa_get_num_free_blocks ex_pa = 2" "ev_accepts (evictor ex_pa) = (\<lambda>_. True)"
  by (simp_all add: prev_hashed_def ex_pa_ok pa_get_num_free_blocks_def na_get_num_free_blocks_def
      lru_num_blocks_def lru_init_def)

text \<open>
  C18. \<open>allocate_immutable_block\<close> is content addressed. When a block of the same tokens after the
  same prefix is cached, the new block shares its id, which gets one user more, and nothing else
  of the cache changes. Otherwise the call takes an id without users, which is from then on
  found under the content's hash, and gives up no other cached id; it raises
  \<open>NoFreeBlocksError\<close> only when every id has users.
\<close>
theorem prefix_allocate_immutable:
  assumes "pa_ok A s" and "prev_hashed s prev" and "length ts = a_block_size s" and "0 < a_block_size s"
  shows "case cached_blocks s (chain_hash H s prev ts) of
      Some i \<Rightarrow> \<exists>a t n. pa_allocate_immutable_block H prev ts s = (Inr (Blk a), t) \<and>
        a \<notin> in_use s \<and> carries t a prev ts (chain_hash H s prev ts) i \<and> cached_blocks t = cached_blocks s \<and>
        refcounter s i = Some n \<and> refcounter t = (refcounter s)(i \<mapsto> n + 1) \<and> pa_ok A t
    | None \<Rightarrow> if \<forall>i \<in> A. refcounter s i \<noteq> Some 0
        then \<exists>t. pa_allocate_immutable_block H prev ts s = (Inl NoFreeBlocksError, t)
        else \<exists>a i t. pa_allocate_immutable_block H prev ts s = (Inr (Blk a), t) \<and>
          a \<notin> in_use s \<and> carries t a prev ts (chain_hash H s prev ts) i \<and>
          (\<forall>g. cached_blocks t g = (if g = chain_hash H s prev ts then Some i
             else if cached_blocks s g = Some i then None else cached_blocks s g)) \<and>
          refcounter s i = Some 0 \<and> refcounter t = (refcounter s)(i \<mapsto> 1) \<and> pa_ok A t"
proof (cases "cached_blocks s (chain_hash H s prev ts)")
  case (Some i)
  from pa_allocate_hit [OF assms(1-3) refl this] obtain a t n where
    "pa_allocate_immutable_block H prev ts s = (Inr (Blk a), t)" "carries t a prev ts (chain_hash H s prev ts) i"
    "refcounter s i = Some n" "refcounter t = (refcounter s)(i \<mapsto> n + 1)" "cached_blocks t = cached_blocks s"
    "a \<notin> in_use s" "pa_ok A t" by metis
  with Some show ?thesis by simp
next
  case None
  have ids: "pa_ids A s" using assms(1) by (simp add: pa_ok_def)
  have dom: "dom (refcounter s) = A" "finite A" using pids_okD(2,6) [OF pa_idsD(3) [OF ids]] by auto
  have free: "(\<forall>i \<in> A. refcounter s i \<noteq> Some 0) \<longleftrightarrow> pa_get_num_free_blocks s = 0"
  proof -
    have sub: "{i. refcounter s i = Some 0} \<subseteq> A" unfolding dom(1) [symmetric] by auto
    then have "finite {i. refcounter s i = Some 0}" using dom(2) finite_subset by blast
    then show ?thesis using sub by (auto simp: pa_free_blocks_card [OF assms(1)])
  qed
  show ?thesis
  proof (cases "pa_get_num_free_blocks s = 0")
    case True
    from pa_allocate_miss_none [OF assms(1-3) None this] True free None show ?thesis by simp
  next
    case False
    then have pos: "0 < pa_get_num_free_blocks s" by simp
    from pa_allocate_miss [OF assms(1,2) pos assms(3,4) refl None] obtain a i t where
      "pa_allocate_immutable_block H prev ts s = (Inr (Blk a), t)" "carries t a prev ts (chain_hash H s prev ts) i"
      "refcounter s i = Some 0" "refcounter t = (refcounter s)(i \<mapsto> 1)"
      "\<forall>g. cached_blocks t g = (if g = chain_hash H s prev ts then Some i
             else if cached_blocks s g = Some i then None else cached_blocks s g)"
      "pa_ok A t" "a \<notin> in_use s" by metis
    then show ?thesis using None False free by auto
  qed
qed

theorem prefix_allocate_immutable_witness:
  "case cached_blocks ex_pa (chain_hash ex_hash ex_pa None [5, 6]) of
      Some i \<Rightarrow> \<exists>a t n. pa_allocate_immutable_block ex_hash None [5, 6] ex_pa = (Inr (Blk a), t) \<and>
        a \<notin> in_use ex_pa \<and> carries t a None [5, 6] (chain_hash ex_hash ex_pa None [5, 6]) i \<and>
        cached_blocks t = cached_blocks ex_pa \<and>
        refcounter ex_pa i = Some n \<and> refcounter t = (refcounter ex_pa)(i \<mapsto> n + 1) \<and> pa_ok {0..<2} t
    | None \<Rightarrow> if \<forall>i \<in> {0..<2}. refcounter ex_pa i \<noteq> Some 0
        then \<exists>t. pa_allocate_immutable_block ex_hash None [5, 6] ex_pa = (Inl NoFreeBlocksError, t)
        else \<exists>a i t. pa_allocate_immutable_block ex_hash None [5, 6] ex_pa = (Inr (Blk a), t) \<and>
          a \<notin> in_use ex_pa \<and> carries t a None [5, 6] (chain_hash ex_hash ex_pa None [5, 6]) i \<and>
          (\<forall>g. cached_blocks t g = (if g = chain_hash ex_hash ex_pa None [5, 6] then Some i
             else if cached_blocks ex_pa g = Some i then None else cached_blocks ex_pa g)) \<and>
          refcounter ex_pa i = Some 0 \<and> refcounter t = (refcounter ex_pa)(i \<mapsto> 1) \<and> pa_ok {0..<2} t"
  by (rule prefix_allocate_immutable [OF ex_pa_ok(1) ex_pa_facts(1-3)])

lemma miss_or_hit:
  assumes "pa_ok A s" and "prev_hashed s prev" and "length ts = a_block_size s" and "0 < a_block_size s"
    and "pa_allocate_immutable_block H prev ts s = (Inr r, t)"
  obtains a i where "r = Blk a" "carries t a prev ts (chain_hash H s prev ts) i" "pa_ok A t" "keeps_used s t"
    "cached_blocks t (chain_hash H s prev ts) = Some i" "a \<notin> in_use s" "in_use t = insert a (in_use s)"
    "ev_accepts (evictor t) = ev_accepts (evictor s)"
    "refcounter t = (refcounter s)(i \<mapsto> the (refcounter s i) + 1)" "0 \<le> the (refcounter s i)"
proof (cases "cached_blocks s (chain_hash H s prev ts)")
  case (Some i)
  from pa_allocate_hit [OF assms(1-3) refl Some] obtain a t' n where
    t: "pa_allocate_immutable_block H prev ts s = (Inr (Blk a), t')" "carries t' a prev ts (chain_hash H s prev ts) i"
    "refcounter s i = Some n" "refcounter t' = (refcounter s)(i \<mapsto> n + 1)" "cached_blocks t' = cached_blocks s"
    "pa_ok A t'" "a \<notin> in_use s" "in_use t' = insert a (in_use s)" "keeps_used s t'"
    "ev_accepts (evictor t') = ev_accepts (evictor s)" by metis
  have ids: "pa_ids A s" using assms(1) by (simp add: pa_ok_def)
  obtain tr where "block_tracker s i = Some tr"
    using pids_okD(7,10) [OF pa_idsD(3) [OF ids]] Some by blast
  then have "0 \<le> n" using pids_okD(8) [OF pa_idsD(3) [OF ids] t(3)] by blast
  then show thesis using that [of a i] t assms(5) Some by simp
next
  case None
  have "pa_get_num_free_blocks s \<noteq> 0"
    using pa_allocate_miss_none [OF assms(1-3) None] assms(5) by auto
  then have pos: "0 < pa_get_num_free_blocks s" by simp
  from pa_allocate_miss [OF assms(1,2) pos assms(3,4) refl None] obtain a i t' where
    "pa_allocate_immutable_block H prev ts s = (Inr (Blk a), t')" "carries t' a prev ts (chain_hash H s prev ts) i"
    "refcounter s i = Some 0" "refcounter t' = (refcounter s)(i \<mapsto> 1)"
    "cached_blocks t' (chain_hash H s prev ts) = Some i" "keeps_used s t'"
    "pa_ok A t'" "a \<notin> in_use s" "in_use t' = insert a (in_use s)"
    "ev_accepts (evictor t') = ev_accepts (evictor s)" by metis
  then show thesis using that [of a i] assms(5) by simp
qed

text \<open>
  C19. The cache remembers: a block that was allocated and released, whose id may have no user
  left, is allocated again under the same id, by an allocator whose evictor takes integer
  hashes. The release and the second allocation both return.
\<close>
theorem prefix_cache_reuse:
  assumes "pa_ok A s" and "prev_hashed s prev" and "length ts = a_block_size s" and "0 < a_block_size s"
    and "ev_accepts (evictor s) = (\<lambda>_. True)"
    and "pa_allocate_immutable_block H prev ts s = (Inr r, t)"
  shows "\<exists>u b v. pa_free H r False t = (Inr (), u) \<and>
    refcounter u = (refcounter s)(the (b_block_id (obj (addr r) t)) \<mapsto> the (refcounter s (the (b_block_id (obj (addr r) t))))) \<and>
    pa_allocate_immutable_block H prev ts u = (Inr (Blk b), v) \<and>
    b_block_id (obj b v) = b_block_id (obj (addr r) t) \<and> b_token_ids (obj b v) = ts"
proof -
  let ?h = "chain_hash H s prev ts"
  from miss_or_hit [OF assms(1-4,6)] obtain a i where
    a: "r = Blk a" "carries t a prev ts ?h i" "pa_ok A t" "keeps_used s t" "cached_blocks t ?h = Some i"
    "a \<notin> in_use s" "in_use t = insert a (in_use s)" "ev_accepts (evictor t) = ev_accepts (evictor s)"
    "refcounter t = (refcounter s)(i \<mapsto> the (refcounter s i) + 1)" "0 \<le> the (refcounter s i)" .
  have rc: "refcounter t i = Some (the (refcounter s i) + 1)" "0 < the (refcounter s i) + 1" using a(9,10) by simp_all
  have acc: "ev_accepts (evictor t) (PyInt ?h)" using a(8) assms(5) by simp
  from pa_free_cached [OF a(3,2,5) rc acc, of H] obtain u where
    u: "pa_free H (Blk a) False t = (Inr (), u)" "pa_ok A u" "cached_blocks u = cached_blocks t"
    "refcounter u = (refcounter t)(i \<mapsto> the (refcounter s i) + 1 - 1)" "in_use u = in_use t - {a}"
    "a_block_size u = a_block_size t" "\<And>x. x \<noteq> a \<Longrightarrow> obj x u = obj x t" "length (objs u) = length (objs t)" "bp_owner u = bp_owner t" by metis
  have "keeps_used s u" by (rule keeps_used_but [OF a(4), of a]) (use u a(6) in simp_all)
  moreover have "in_use s \<subseteq> in_use u" using u(5) a(6,7) by auto
  ultimately have pu: "prev_hashed u prev" "prev_hash u prev = prev_hash s prev"
    using prev_hashed_keeps [OF assms(2)] by auto
  then have h: "chain_hash H u prev ts = ?h" by (simp add: chain_hash_def)
  have sz: "length ts = a_block_size u" using assms(3) a(4) u(6) by (simp add: keeps_used_def)
  have hit: "cached_blocks u (chain_hash H u prev ts) = Some i" using a(5) u(3) h by simp
  from pa_allocate_hit [OF u(2) pu(1) sz refl hit] obtain b v where
    "pa_allocate_immutable_block H prev ts u = (Inr (Blk b), v)" "carries v b prev ts ?h i" using h by metis
  moreover have "b_block_id (obj a t) = Some i" using a(2) by (simp add: carries_def block_is_def initialised_def)
  ultimately show ?thesis using u(1,4) a(1,9)
    by (auto simp: carries_def block_is_def initialised_def fun_eq_iff)
qed

lemma ex_pa_allocates:
  "\<exists>r t. pa_allocate_immutable_block ex_hash None [5, 6] ex_pa = (Inr r, t)"
proof -
  have miss: "cached_blocks ex_pa (chain_hash ex_hash ex_pa None [5, 6]) = None" by (simp add: ex_pa_ok)
  have pos: "0 < pa_get_num_free_blocks ex_pa" by (simp add: ex_pa_facts)
  from pa_allocate_miss [OF ex_pa_ok(1) ex_pa_facts(1) pos ex_pa_facts(2,3) refl miss] show ?thesis by metis
qed

theorem prefix_cache_reuse_witness:
  "\<exists>r t u b v. pa_allocate_immutable_block ex_hash None [5, 6] ex_pa = (Inr r, t) \<and>
    pa_free ex_hash r False t = (Inr (), u) \<and>
    pa_allocate_immutable_block ex_hash None [5, 6] u = (Inr (Blk b), v) \<and>
    b_block_id (obj b v) = b_block_id (obj (addr r) t) \<and> b_token_ids (obj b v) = [5, 6]"
proof -
  from ex_pa_allocates obtain r t where t: "pa_allocate_immutable_block ex_hash None [5, 6] ex_pa = (Inr r, t)" by blast
  from prefix_cache_reuse [OF ex_pa_ok(1) ex_pa_facts(1-3,5) t] t show ?thesis by blast
qed

text \<open>
  C20. \<open>_allocate_block_id\<close> returns exactly when some id has no user; it takes such an id, and the
  only cached content that is lost is that of this id, and none when a never cached id was free.
\<close>
theorem prefix_allocate_id:
  assumes "pa_ok A s"
  shows "if pa_get_num_free_blocks s = 0 then pa_allocate_block_id s = (Inl NoFreeBlocksError, s)
    else \<exists>i t. pa_allocate_block_id s = (Inr i, t) \<and> i \<in> A \<and> refcounter s i = Some 0 \<and>
      refcounter t = (refcounter s)(i \<mapsto> 1) \<and> pa_ok A t \<and> i \<notin> ran (cached_blocks t) \<and>
      Suc (pa_get_num_free_blocks t) = pa_get_num_free_blocks s \<and>
      (\<forall>h. cached_blocks t h \<noteq> cached_blocks s h \<longrightarrow> cached_blocks s h = Some i \<and> free_block_indices s = [])"
proof (cases "pa_get_num_free_blocks s = 0")
  case True
  then show ?thesis using pa_allocate_block_id_none [OF assms] by simp
next
  case False
  then have "0 < pa_get_num_free_blocks s" by simp
  from pa_allocate_block_id_run [OF assms this] obtain i t where
    t: "pa_allocate_block_id s = (Inr i, t)" "refcounter s i = Some 0"
    "refcounter t = (refcounter s)(i \<mapsto> 1)" "i \<notin> ran (cached_blocks t)" "pa_ok A t"
    "\<forall>h. cached_blocks t h \<noteq> cached_blocks s h \<longrightarrow> cached_blocks s h = Some i \<and> free_block_indices s = []" by metis
  have ids: "pa_ids A s" using assms by (simp add: pa_ok_def)
  have dom: "dom (refcounter s) = A" "finite A" using pids_okD(2,6) [OF pa_idsD(3) [OF ids]] by auto
  have "{i. refcounter s i = Some 0} \<subseteq> A" unfolding dom(1) [symmetric] by auto
  then have fin: "finite {i. refcounter s i = Some 0}" using dom(2) finite_subset by blast
  have "{j. refcounter t j = Some 0} = {j. refcounter s j = Some 0} - {i}" using t(2,3) by auto
  moreover have "Suc (card ({j. refcounter s j = Some 0} - {i})) = card {j. refcounter s j = Some 0}"
    by (rule card_Suc_Diff1 [OF fin]) (simp add: t(2))
  ultimately have "Suc (pa_get_num_free_blocks t) = pa_get_num_free_blocks s"
    by (simp add: pa_free_blocks_card [OF assms] pa_free_blocks_card [OF t(5)])
  moreover have "i \<in> A" using t(2) dom(1) by auto
  ultimately show ?thesis using False t by auto
qed

theorem prefix_allocate_id_witness:
  "if pa_get_num_free_blocks ex_pa = 0 then pa_allocate_block_id ex_pa = (Inl NoFreeBlocksError, ex_pa)
    else \<exists>i t. pa_allocate_block_id ex_pa = (Inr i, t) \<and> i \<in> {0..<2} \<and> refcounter ex_pa i = Some 0 \<and>
      refcounter t = (refcounter ex_pa)(i \<mapsto> 1) \<and> pa_ok {0..<2} t \<and> i \<notin> ran (cached_blocks t) \<and>
      Suc (pa_get_num_free_blocks t) = pa_get_num_free_blocks ex_pa \<and>
      (\<forall>h. cached_blocks t h \<noteq> cached_blocks ex_pa h \<longrightarrow> cached_blocks ex_pa h = Some i \<and> free_block_indices ex_pa = [])"
  by (rule prefix_allocate_id [OF ex_pa_ok(1)])


text \<open>An allocator of one id whose only block was allocated and, with \<open>p = LRU\<close>, released.\<close>

lemma ex_one_block:
  assumes "make_evictor (Some p) = Inr e"
  obtains a t where "pa_ok {0..<1} t" "carries t a None [5, 6] (ex_hash (True, None, None, [5, 6])) 0"
    "cached_blocks t (ex_hash (True, None, None, [5, 6])) = Some 0" "refcounter t 0 = Some 1"
    "ev_accepts (evictor t) = ev_accepts e" "pa_get_num_free_blocks t = 0"
proof -
  have pos: "(0::nat) < 1" by simp
  from pa_init_run [OF pos assms, of 2 ex_blank] obtain s where
    s: "pa_init 1 2 None (Some p) ex_blank = (Inr (), s)" "pa_ok {0..<1} s" "a_block_size s = 2"
    "free_block_indices s = [0..<1]" "cached_blocks s = Map.empty" "in_use s = {}" "evictor s = e"
    "refcounter s = rc_init [0..<1]" "bp_owner s = bp_owner ex_blank" .
  have ph: "prev_hashed s None" by (simp add: prev_hashed_def)
  have h: "chain_hash ex_hash s None [5, 6] = ex_hash (True, None, None, [5, 6])"
    by (simp add: chain_hash_def prev_hash_def)
  have free: "0 < pa_get_num_free_blocks s" by (simp add: pa_get_num_free_blocks_def na_get_num_free_blocks_def s(4))
  have len: "length [5, 6 :: int] = a_block_size s" "0 < a_block_size s" using s(3) by simp_all
  have miss: "cached_blocks s (chain_hash ex_hash s None [5, 6]) = None" by (simp add: s(5))
  from s(2) ph free len refl miss obtain a i t where
    t: "pa_allocate_immutable_block ex_hash None [5, 6] s = (Inr (Blk a), t)"
    "carries t a None [5, 6] (chain_hash ex_hash s None [5, 6]) i"
    "refcounter s i = Some 0" "refcounter t = (refcounter s)(i \<mapsto> 1)"
    "\<forall>g. cached_blocks t g = (if g = chain_hash ex_hash s None [5, 6] then Some i else if cached_blocks s g = Some i
      then None else cached_blocks s g)"
    "pa_ok {0..<1} t" "a \<notin> in_use s" "in_use t = insert a (in_use s)" "keeps_used s t"
    "ev_accepts (evictor t) = ev_accepts (evictor s)" by (rule pa_allocate_miss) blast
  have i: "i = 0" using t(3) by (auto simp: s(8) rc_init_get split: if_splits)
  have "refcounter t j \<noteq> Some 0" for j
    using i by (simp add: t(4) s(8) rc_init_get)
  then have n: "pa_get_num_free_blocks t = 0" by (simp add: pa_free_blocks_card [OF t(6)])
  have c: "cached_blocks t (ex_hash (True, None, None, [5, 6])) = Some 0" using t(5) h i by simp
  have r: "refcounter t 0 = Some 1" using t(4) i by simp
  show thesis by (rule that [OF t(6) _ c r _ n, of a]) (use t(2,10) h i s(7) in simp_all)
qed


text \<open>
  With the frequency-aware evictor, which accepts 32-byte hashes only, releasing the last user
  of a cached block raises \<open>ValueError\<close> after the count went to zero: the id has no user, but is
  neither free nor held by the evictor, so it is never given out again.
\<close>
lemma prefix_frequency_release_lost:
  assumes "pa_ok A s" and "carries s a prev ts h i" and "cached_blocks s h = Some i"
    and "refcounter s i = Some 1" and "\<not> ev_accepts (evictor s) (PyInt h)"
  shows "fst (pa_free H (Blk a) False s) = Inl ValueError \<and>
    refcounter (snd (pa_free H (Blk a) False s)) i = Some 0 \<and>
    i \<notin> set (free_block_indices (snd (pa_free H (Blk a) False s))) \<and>
    \<not> ev_contains i (evictor (snd (pa_free H (Blk a) False s)))"
proof -
  have ids: "pa_ids A s" using assms(1) by (simp add: pa_ok_def)
  note d = pa_idsD [OF ids] and p = pids_okD [OF pa_idsD(3) [OF ids]]
  have bi: "b_block_id (obj a s) = Some i"
    using assms(2) by (simp_all add: carries_def block_is_def initialised_def)
  obtain pp where pp: "b_prefix (obj a s) = Some pp" "pb_cached_content_hash pp = Some h"
    using assms(2) by (auto simp: carries_def prev_hash_def split: option.splits)
  have ch: "content_hash H (Blk a) s = (Inr (Some h), s)" by (rule content_hash_cached [OF pp])
  obtain tr where tr: "block_tracker s i = Some tr" using p(10) [OF assms(3)] p(7) by blast
  have nE: "i \<notin> set (free_block_indices s)" "ev_table (evictor s) i = None"
    using pids_count(4) [OF d(3) assms(4)] by simp_all
  let ?t = "s\<lparr>refcounter := (refcounter s)(i \<mapsto> 0)\<rparr>"
  have rc: "refcounterM (rc_decr i) s = (Inr 0, ?t)"
    using assms(4) by (simp add: refcounterM_def rc_decr_def run_simps)
  have tot: "num_tokens_total (obj a ?t) = Inr (pb_cached_num_tokens_total pp)"
    using pp by (simp add: num_tokens_total_def)
  have add: "evictorM (ev_add i (PyInt h) n la) ?t = (Inl ValueError, ?t)" for n la
    using ev.add_refused [OF d(2) assms(5)] by (simp add: evictorM_def run_simps)
  have "decr_refcount_cached_block H (Blk a) s = (Inl ValueError, ?t)"
    using ch bi rc tot tr assms(3)
    by (simp add: decr_refcount_cached_block_def bindM_step thenM_step fromM_run get_block_id_run getM_run
        assertM_run liftM_run) (simp add: thenM_run add)
  then have "pa_free_block_id H False (Blk a) s = (Inl ValueError, ?t)"
    using ch bi by (simp add: pa_free_block_id_def bindM_run thenM_run get_block_id_run assertM_run)
  then have "pa_free H (Blk a) False s = (Inl ValueError, ?t)" by (simp add: pa_free_def thenM_run)
  then show ?thesis using nE ev.contains_iff [OF d(2), of i] by simp
qed

text \<open>The least and the greatest list in the lexicographic order.\<close>

lemma foldl_min: "foldl min (l :: block_id list) ls \<in> set (l # ls) \<and> (\<forall>x \<in> set (l # ls). foldl min l ls \<le> x)"
proof (induction ls arbitrary: l)
  case (Cons k ls)
  then show ?case using Cons.IH [of "min l k"] by (auto simp: min_def split: if_splits) (meson order.trans linear)+
qed simp

lemma foldl_max: "foldl max (l :: block_id list) ls \<in> set (l # ls) \<and> (\<forall>x \<in> set (l # ls). x \<le> foldl max l ls)"
proof (induction ls arbitrary: l)
  case (Cons k ls)
  then show ?case using Cons.IH [of "max l k"] by (auto simp: max_def split: if_splits) (meson order.trans linear)+
qed simp

lemma common_prefix2_greatest:
  "prefix q xs \<and> prefix q ys \<longleftrightarrow> prefix q (common_prefix2 xs ys)"
proof (induction xs ys arbitrary: q rule: common_prefix2.induct)
  case (1 x xs y ys)
  then show ?case by (cases q) auto
qed (auto simp: prefix_def)

lemma prefix_between:
  fixes l m u :: "block_id list"
  assumes "prefix p l" and "prefix p u" and "l \<le> m" and "m \<le> u"
  shows "prefix p m"
  using assms
proof (induction p arbitrary: l m u)
  case (Cons x p)
  from Cons.prems(1,2) obtain l' u' where l: "l = x # l'" "prefix p l'" and u: "u = x # u'" "prefix p u'"
    by (auto simp: prefix_def)
  from Cons.prems(3) l(1) obtain y m' where m: "m = y # m'" by (cases m) auto
  have "x = y" using Cons.prems(3,4) by (auto simp: l u m)
  moreover have "l' \<le> m'" "m' \<le> u'" using Cons.prems(3,4) \<open>x = y\<close> by (simp_all add: l u m)
  ultimately show ?case using Cons.IH [OF l(2) u(2)] m by simp
qed simp

text \<open>
  C22. \<open>get_common_computed_block_ids\<close> gives the longest common prefix of the lists that are not
  empty: it is a prefix of each, and every common prefix is a prefix of it.
\<close>
theorem common_computed_longest:
  assumes "l \<in> set ls" and "l \<noteq> []"
  shows "(\<forall>k \<in> set ls. k \<noteq> [] \<longrightarrow> prefix q k) \<longleftrightarrow> prefix q (pa_get_common_computed_block_ids ls)"
proof (cases "\<exists>k. ls = [k]")
  case True
  with assms show ?thesis by (auto simp: pa_get_common_computed_block_ids_def)
next
  case False
  let ?ne = "filter (\<lambda>ids. ids \<noteq> []) ls"
  from assms have "?ne \<noteq> []" by (auto simp: filter_empty_conv)
  then obtain k ks where k: "?ne = k # ks" by (cases ?ne) auto
  let ?mn = "foldl min k ks" and ?mx = "foldl max k ks"
  have eq: "pa_get_common_computed_block_ids ls = common_prefix2 ?mn ?mx"
    using False k by (auto simp: pa_get_common_computed_block_ids_def commonprefix_def split: list.splits)
  have ne: "(\<forall>k \<in> set ls. k \<noteq> [] \<longrightarrow> prefix q k) \<longleftrightarrow> (\<forall>x \<in> set (k # ks). prefix q x)"
    unfolding k [symmetric] by auto
  have "(\<forall>x \<in> set (k # ks). prefix q x) \<longleftrightarrow> prefix q ?mn \<and> prefix q ?mx"
    using foldl_min [of k ks] foldl_max [of k ks] prefix_between [of q ?mn ?mx] by blast
  then show ?thesis by (simp only: ne eq common_prefix2_greatest)
qed

theorem common_computed_longest_witness:
  "(\<forall>k \<in> set [[1, 2, 3], [], [1, 2, 4 :: block_id]]. k \<noteq> [] \<longrightarrow> prefix [1, 2] k) \<longleftrightarrow>
    prefix [1, 2] (pa_get_common_computed_block_ids [[1, 2, 3], [], [1, 2, 4]])"
  by (rule common_computed_longest [of "[1, 2, 3]"]) simp_all

subsection \<open>The contract with block tables\<close>

lemma avail_one:
  assumes "pa_ok A s" and "pa_ok A t" and "refcounter t = (refcounter s)(i \<mapsto> m)"
  shows "pa_get_num_free_blocks s \<le> Suc (pa_get_num_free_blocks t)"
proof -
  have ids: "pa_ids A s" "pa_ids A t" using assms by (simp_all add: pa_ok_def)
  have "{j. refcounter t j = Some 0} \<subseteq> A" using pids_okD(6) [OF pa_idsD(3) [OF ids(2)]] by auto
  then have fin: "finite {j. refcounter t j = Some 0}"
    using pids_okD(2) [OF pa_idsD(3) [OF ids(2)]] finite_subset by blast
  have "{j. refcounter s j = Some 0} \<subseteq> insert i {j. refcounter t j = Some 0}" using assms(3) by auto
  from card_mono [OF _ this] fin card_insert_le_m1 have "card {j. refcounter s j = Some 0}
      \<le> card (insert i {j. refcounter t j = Some 0})" by simp
  also have "\<dots> \<le> Suc (card {j. refcounter t j = Some 0})" using fin by (simp add: card_insert_if)
  finally show ?thesis by (simp add: pa_free_blocks_card [OF assms(1)] pa_free_blocks_card [OF assms(2)])
qed

lemma pa_ok_bound: "pa_ok A s \<Longrightarrow> x \<in> in_use s \<Longrightarrow> x < length (objs s)"
  by (simp add: pa_ok_def in_use_bound)

lemma pa_adds_one:
  assumes "pa_ok A s" and "a \<notin> in_use s" and "in_use t = insert a (in_use s)" and "keeps_used s t"
    and "b_block_id (obj a t) \<noteq> None"
  shows "adds_blocks (\<lambda>s a. obj a s) in_use s [Blk a] t"
  using assms pa_ok_bound [OF assms(1)] by (auto simp: adds_blocks_def keeps_used_def)

lemma carries_follows:
  "carries t a prev ts h i \<Longrightarrow> a \<in> in_use t \<Longrightarrow> prev_hashed t (Some (Blk a))"
  by (auto simp: carries_def block_is_def prev_hashed_def)

lemma pa_allocate_immutable_blocks_adds:
  "pa_ok A s \<Longrightarrow> prev_hashed s prev \<Longrightarrow> \<forall>ts \<in> set tss. length ts = a_block_size s \<Longrightarrow>
     length tss \<le> pa_get_num_free_blocks s \<Longrightarrow> 0 < a_block_size s \<Longrightarrow>
     \<exists>rs t. pa_allocate_immutable_blocks H prev tss s = (Inr rs, t) \<and> pa_ok A t \<and>
       a_block_size t = a_block_size s \<and> bp_owner t = bp_owner s \<and>
       adds_blocks (\<lambda>s a. obj a s) in_use s rs t \<and> tokens_at (\<lambda>s a. obj a s) t rs = tss \<and>
       pa_get_num_free_blocks s \<le> pa_get_num_free_blocks t + length tss \<and>
       (tss \<noteq> [] \<longrightarrow> prev_hashed t (Some (last rs)))"
proof (induction tss arbitrary: prev s)
  case Nil
  then show ?case by (simp add: run_simps tokens_at_def)
next
  case (Cons ts tss)
  have len: "length ts = a_block_size s" using Cons.prems(3) by simp
  have "pa_get_num_free_blocks s \<noteq> 0" using Cons.prems(4) by auto
  then obtain r u where u: "pa_allocate_immutable_block H prev ts s = (Inr r, u)"
    using pa_allocate_hit [OF Cons.prems(1,2) len refl, of H]
      pa_allocate_miss [OF Cons.prems(1,2) _ len Cons.prems(5) refl, of H]
    by (cases "cached_blocks s (chain_hash H s prev ts)") (metis neq0_conv)+
  from miss_or_hit [OF Cons.prems(1,2) len Cons.prems(5) u] obtain a i where
    a: "r = Blk a" "carries u a prev ts (chain_hash H s prev ts) i" "pa_ok A u" "keeps_used s u"
    "cached_blocks u (chain_hash H s prev ts) = Some i" "a \<notin> in_use s" "in_use u = insert a (in_use s)"
    "ev_accepts (evictor u) = ev_accepts (evictor s)"
    "refcounter u = (refcounter s)(i \<mapsto> the (refcounter s i) + 1)" "0 \<le> the (refcounter s i)" .
  have bl: "b_block_id (obj a u) = Some i" "b_token_ids (obj a u) = ts"
    using a(2) by (simp_all add: carries_def block_is_def initialised_def)
  have sz: "a_block_size u = a_block_size s" "bp_owner u = bp_owner s" using a(4) by (simp_all add: keeps_used_def)
  have av: "pa_get_num_free_blocks s \<le> Suc (pa_get_num_free_blocks u)" by (rule avail_one [OF Cons.prems(1) a(3,9)])
  have ph: "prev_hashed u (Some r)" using carries_follows [OF a(2)] a(1,7) by simp
  have ad: "adds_blocks (\<lambda>s a. obj a s) in_use s [r] u"
    using pa_adds_one [OF Cons.prems(1) a(6,7,4)] bl(1) a(1) by simp
  have l: "\<forall>ts \<in> set tss. length ts = a_block_size u" "length tss \<le> pa_get_num_free_blocks u" "0 < a_block_size u"
    using Cons.prems(3-5) sz av by auto
  from Cons.IH [OF a(3) ph l] obtain rs t where
    t: "pa_allocate_immutable_blocks H (Some r) tss u = (Inr rs, t)" "pa_ok A t" "a_block_size t = a_block_size u"
    "bp_owner t = bp_owner u"
    "adds_blocks (\<lambda>s a. obj a s) in_use u rs t" "tokens_at (\<lambda>s a. obj a s) t rs = tss"
    "pa_get_num_free_blocks u \<le> pa_get_num_free_blocks t + length tss" "tss \<noteq> [] \<longrightarrow> prev_hashed t (Some (last rs))" by blast
  have run: "pa_allocate_immutable_blocks H prev (ts # tss) s = (Inr (r # rs), t)"
    using u t(1) by (simp add: bindM_run retM_run)
  have "tokens_at (\<lambda>s a. obj a s) t [r] = [ts]"
    using tokens_at_keep [OF t(5), of "[r]"] a(1,7) bl(2) by (simp add: tokens_at_def)
  then have "tokens_at (\<lambda>s a. obj a s) t (r # rs) = ts # tss" using t(6) by (simp add: tokens_at_def)
  moreover have "adds_blocks (\<lambda>s a. obj a s) in_use s (r # rs) t" using adds_blocks_trans [OF ad t(5)] by simp
  moreover have "prev_hashed t (Some (last (r # rs)))"
  proof (cases "tss = []")
    case True
    then have "rs = []" "t = u" using t(1) by (simp_all add: ok_simps)
    then show ?thesis using ph by simp
  next
    case False
    then have "rs \<noteq> []" using t(6) by (auto simp: tokens_at_def)
    then show ?thesis using t(8) False by simp
  qed
  ultimately show ?case using run t(2-4,7) sz av by auto
qed

text \<open>An empty block of the prefix-caching class that nobody shares.\<close>

definition pa_fresh :: "PrefixAllocator \<Rightarrow> ref \<Rightarrow> bool" where
  "pa_fresh s r \<longleftrightarrow> r = Blk (addr r) \<and> addr r \<in> in_use s \<and> (\<exists>prev i n. block_is s (addr r) prev [] (Some i) \<and>
     b_prefix (obj (addr r) s) = Some (fresh_part n) \<and> refcounter s i = Some 1 \<and> prev_ok s prev \<and>
     (prev = None \<or> addr (the prev) \<noteq> addr r))"

lemma pa_append_part:
  assumes ok: "pa_ok A s" and blk: "block_is s a prev [] (Some i)" and part: "b_prefix (obj a s) = Some (fresh_part n)"
    and rc: "refcounter s i = Some 1" and pok: "prev_ok s prev" and pa: "prev = None \<or> addr (the prev) \<noteq> a"
    and len: "length ts < a_block_size s"
  obtains b' where "pa_append_token_ids H a ts s = (Inr (), s\<lparr>objs := (objs s)[a := b']\<rparr>)"
    "b_token_ids b' = ts" "b_block_id b' = Some i" "b_prefix b' \<noteq> None" "b_owner b' = b_owner (obj a s)"
proof -
  have a: "a < length (objs s)" using blk by (simp_all add: block_is_def)
  have bl: "b_block_id (obj a s) = Some i" "b_token_ids (obj a s) = []" "b_prev_block (obj a s) = prev"
    "b_block_size (obj a s) = a_block_size s"
    using blk by (simp_all add: block_is_def initialised_def)
  have c0: "content_hash H (Blk a) s = (Inr None, s)"
    by (rule content_hash_not_full [OF part]) (use bl len in \<open>simp add: is_full_def num_empty_slots_def\<close>)
  show thesis
  proof (cases "ts = []")
    case True
    have "pa_append_token_ids H a ts s = (Inr (), s)"
      using c0 part True by (simp add: pa_append_token_ids_def run_simps get_computed_def fresh_part_def)
    then show thesis using that [of "obj a s"] bl True part by simp
  next
    case ne: False
    define s1 where "s1 = s\<lparr>objs := (objs s)[a := (obj a s)\<lparr>b_token_ids := ts\<rparr>]\<rparr>"
    have o1: "obj a s1 = (obj a s)\<lparr>b_token_ids := ts\<rparr>" using a by (simp add: s1_def)
    have inner: "inner_append_token_ids H a ts s = (Inr (), s1)"
      using inner_append_own [OF a bl(1) rc ne] bl(2,4) len by (simp add: num_empty_slots_def s1_def)
    have part1: "b_prefix (obj a s1) = Some (fresh_part n)" using part o1 by simp
    have "prev_ok s1 (b_prev_block (obj a s1))"
      using pok pa o1 bl(3) by (auto simp: prev_ok_def s1_def split: option.splits ref.splits)
    from update_num_fresh [OF part1 this] obtain n' where up: "update_num_tokens_total a s1 =
        (Inr (), s1\<lparr>objs := (objs s1)[a := (obj a s1)\<lparr>b_prefix := Some (fresh_part n')\<rparr>]\<rparr>)" .
    define b' where "b' = (obj a s)\<lparr>b_token_ids := ts, b_prefix := Some (fresh_part n')\<rparr>"
    define t where "t = s\<lparr>objs := (objs s)[a := b']\<rparr>"
    have up': "update_num_tokens_total a s1 = (Inr (), t)" using up o1 by (simp add: t_def b'_def s1_def)
    have ot: "obj a t = b'" using a by (simp add: t_def)
    have c1: "content_hash H (Blk a) t = (Inr None, t)"
      by (rule content_hash_not_full [of _ _ n']) (use bl len ot in \<open>simp_all add: b'_def is_full_def num_empty_slots_def\<close>)
    have "pa_append_token_ids H a ts s = (Inr (), t)"
      using c0 part ne inner up' c1
      by (simp add: pa_append_token_ids_def bindM_run thenM_run getM_run assertM_run get_computed_def
          fromM_run retM_run fresh_part_def)
    then show thesis using that [of b'] bl by (simp add: t_def b'_def)
  qed
qed

lemma pa_write_ok:
  assumes "pa_ok A s" and "b_prefix b' \<noteq> None" and "b_prefix (obj a s) \<noteq> None" and "b_owner b' = b_owner (obj a s)"
  shows "pa_ok A (s\<lparr>objs := (objs s)[a := b']\<rparr>)"
proof -
  have "bp_kind (s\<lparr>objs := (objs s)[a := b']\<rparr>)"
  proof (rule bp_kind_cong [of s])
    fix x
    show "(b_prefix (obj x (s\<lparr>objs := (objs s)[a := b']\<rparr>)) = None \<longleftrightarrow> b_prefix (obj x s) = None) \<and>
        b_owner (obj x (s\<lparr>objs := (objs s)[a := b']\<rparr>)) = b_owner (obj x s)"
    proof (cases "x = a \<and> a < length (objs s)")
      case True
      with assms(2-4) show ?thesis by (auto simp: nth_list_update)
    next
      case False
      then have "(objs s)[a := b'] ! x = obj x s" by (metis list_update_beyond not_less nth_list_update_neq)
      then show ?thesis by simp
    qed
  qed (use assms(1) in \<open>simp_all add: pa_ok_def\<close>)
  then show ?thesis using assms(1) by (simp add: pa_ok_def pa_ids_def bp_ok_def)
qed

interpretation prefix_source: block_source "pa_allocate_immutable_blocks H" "pa_allocate_mutable_block H"
  "\<lambda>r. pa_append_token_ids H (addr r)" "\<lambda>s. pa_ok A s \<and> bp_owner s = d" "\<lambda>s a. obj a s" in_use pa_get_num_free_blocks
  a_block_size prev_hashed "\<lambda>s p. prev_ok s p \<and> (p = None \<or> addr (the p) \<in> in_use s)" pa_fresh for H A d
proof (unfold_locales, goal_cases)
  case (1 s)
  then show ?case by (simp add: prev_hashed_def)
next
  case (2 s p)
  then show ?case using prev_hashed_ok prev_hashed_in_use by blast
next
  case (3 s p tss)
  then have 3: "pa_ok A s" "prev_hashed s p" "\<forall>ts \<in> set tss. length ts = a_block_size s"
    "length tss \<le> pa_get_num_free_blocks s" "0 < a_block_size s" "tss \<noteq> []" "bp_owner s = d" by simp_all
  from pa_allocate_immutable_blocks_adds [OF 3(1-5), of H] 3(6,7) show ?case by metis
next
  case (4 s p)
  then have 4: "pa_ok A s" "bp_owner s = d" "0 < pa_get_num_free_blocks s" "0 < a_block_size s"
    and p: "prev_ok s p" "p = None \<or> addr (the p) \<in> in_use s" by simp_all
  from pa_allocate_mutable_run [OF 4(1,3,4) p, of H] obtain a i t n k where
    t: "pa_allocate_mutable_block H p s = (Inr (Blk a), t)"
    "block_is t a p [] (Some i)" "b_prefix (obj a t) = Some (fresh_part n)" "pooled a k t"
    "a \<notin> in_use s" "in_use t = insert a (in_use s)" "keeps_used s t" "pa_ok A t"
    "refcounter s i = Some 0" "refcounter t = (refcounter s)(i \<mapsto> 1)" by metis
  have bi: "b_block_id (obj a t) = Some i" "b_token_ids (obj a t) = []"
    using t(2) by (simp_all add: block_is_def initialised_def)
  have "adds_blocks (\<lambda>s a. obj a s) in_use s [Blk a] t"
    using pa_adds_one [OF 4(1) t(5,6,7)] bi by simp
  moreover have "pa_get_num_free_blocks s \<le> Suc (pa_get_num_free_blocks t)"
    by (rule avail_one [OF 4(1) t(8,10)])
  moreover have "prev_ok t p" by (rule prev_ok_keeps [OF p t(7)])
  then have "pa_fresh t (Blk a)"
    using t(2,3,5,6,10) p(2) by (auto simp: pa_fresh_def)
  moreover have "prev_ok t (Some (Blk a))" using t(2,3) by (simp add: prev_ok_def block_is_def)
  ultimately show ?case using t(1,6,7,8) bi 4(2) by (auto simp: keeps_used_def tokens_at_def)
next
  case (5 s r ts)
  then have 5: "pa_ok A s" "pa_fresh s r" "length ts < a_block_size s" "bp_owner s = d" by simp_all
  from 5(2) obtain a prev i n where r: "r = Blk a" "a \<in> in_use s" "block_is s a prev [] (Some i)"
    "b_prefix (obj a s) = Some (fresh_part n)" "refcounter s i = Some 1" "prev_ok s prev"
    "prev = None \<or> addr (the prev) \<noteq> a"
    by (cases r) (auto simp: pa_fresh_def)
  from pa_append_part [OF 5(1) r(3-7) 5(3), of H] obtain b' where
    b: "pa_append_token_ids H a ts s = (Inr (), s\<lparr>objs := (objs s)[a := b']\<rparr>)"
    "b_token_ids b' = ts" "b_block_id b' = Some i" "b_prefix b' \<noteq> None" "b_owner b' = b_owner (obj a s)" by metis
  have "pa_ok A (s\<lparr>objs := (objs s)[a := b']\<rparr>)" by (rule pa_write_ok [OF 5(1) b(4) _ b(5)]) (simp add: r(4))
  then show ?case using b r(1,3) 5(4)
    by (auto simp: tokens_at_def in_use_def pa_get_num_free_blocks_def na_get_num_free_blocks_def block_is_def
        initialised_def)
qed

end
