(* ===== verification/CpuGpuBlock.thy ===== *)
theory CpuGpuBlock
  imports PrefixCache
begin

section \<open>Blocks on two devices (\<open>vllm/core/block/cpu_gpu_block_allocator.py\<close>)\<close>

text \<open>
  \<open>CpuGpuBlockAllocator\<close> holds one allocator per device, of the naive or of the prefix-caching
  class. Swapping hands the block objects of one allocator to the other, so the objects of both
  live in one heap: \<open>allocatorM\<close> runs a method of a device's allocator on that heap. A
  \<open>NullBlock\<close> is a reference \<open>NullB\<close> to the block it wraps.
\<close>

datatype Allocator = NaiveA NaiveAllocator | PrefixA PrefixAllocator

record CpuGpu =
  heap :: "Block list"
  allocators :: "Device \<Rightarrow> Allocator"
  swap_mapping :: "(block_id, block_id) dict"
  null_block :: "ref option"
  block_ids_to_allocator :: "block_id \<rightharpoonup> Device"

type_synonym 'a cg = "(CpuGpu, 'a) st"

text \<open>A method call on \<open>self._allocators[d]\<close>, dispatched on the class of the allocator.\<close>

definition allocatorM :: "Device \<Rightarrow> (NaiveAllocator, 'a) st \<Rightarrow> 'a pa \<Rightarrow> 'a cg" where
  "allocatorM d mn mp = (\<lambda>s. case allocators s d of
     NaiveA a \<Rightarrow> (case mn (a\<lparr>objs := heap s\<rparr>) of (r, a') \<Rightarrow>
       (r, s\<lparr>heap := objs a', allocators := (allocators s)(d := NaiveA a')\<rparr>))
   | PrefixA a \<Rightarrow> (case mp (a\<lparr>objs := heap s\<rparr>) of (r, a') \<Rightarrow>
       (r, s\<lparr>heap := objs a', allocators := (allocators s)(d := PrefixA a')\<rparr>)))"

text \<open>A method that only reads.\<close>

definition ask :: "Device \<Rightarrow> (NaiveAllocator \<Rightarrow> 'a) \<Rightarrow> (PrefixAllocator \<Rightarrow> 'a) \<Rightarrow> CpuGpu \<Rightarrow> 'a" where
  "ask d fn fp s = (case allocators s d of
     NaiveA a \<Rightarrow> fn (a\<lparr>objs := heap s\<rparr>) | PrefixA a \<Rightarrow> fp (a\<lparr>objs := heap s\<rparr>))"

subsection \<open>Construction\<close>

text \<open>Objects before \<open>__init__\<close> sets their fields; the class of the blocks an allocator makes is fixed.\<close>

definition blank_naive :: "Device \<Rightarrow> NaiveAllocator" where
  "blank_naive d = \<lparr>objs = [], free_block_indices = [], all_block_indices = {}, refcounter = Map.empty,
     a_block_size = 0, copy_on_writes = [], bp_block_size = 0, bp_pool_size = 0, bp_free_ids = [],
     bp_pool = [], bp_prefix = False, bp_owner = d\<rparr>"

definition blank_prefix :: "Device \<Rightarrow> PrefixAllocator" where
  "blank_prefix d = \<lparr>objs = [], free_block_indices = [], all_block_indices = {}, refcounter = Map.empty,
     a_block_size = 0, copy_on_writes = [], bp_block_size = 0, bp_pool_size = 0, bp_free_ids = [],
     bp_pool = [], bp_prefix = True, bp_owner = d, cached_blocks = Map.empty, touched_blocks = {},
     block_tracker = Map.empty, evictor = LRUE lru_init, pa_copy_on_writes = [], metric_data = cm_init\<rparr>"

definition blank_cg :: CpuGpu where
  "blank_cg = \<lparr>heap = [], allocators = (\<lambda>d. NaiveA (blank_naive d)), swap_mapping = [],
     null_block = None, block_ids_to_allocator = Map.empty\<rparr>"

definition new_allocator :: "Device \<Rightarrow> bool \<Rightarrow> nat \<Rightarrow> nat \<Rightarrow> block_id list \<Rightarrow> unit cg" where
  "new_allocator d caching num_blocks bsize ids =
     thenM (modM (\<lambda>s. s\<lparr>allocators := (allocators s)(d :=
             if caching then PrefixA (blank_prefix d) else NaiveA (blank_naive d))\<rparr>))
           (allocatorM d (na_init num_blocks bsize (Some ids) True)
                         (pa_init num_blocks bsize (Some ids) (Some LRU)))"

definition all_ids_of :: "Device \<Rightarrow> CpuGpu \<Rightarrow> block_id set" where
  "all_ids_of d = ask d all_block_indices all_block_indices"

definition cg_init :: "unit cg" where
  "cg_init = getM (\<lambda>s. (all_ids_of CPU s, all_ids_of GPU s)) (\<lambda>(cpu, gpu).
     thenM (assertM (cpu \<inter> gpu = {}))
           (modM (\<lambda>s. s\<lparr>swap_mapping := [], null_block := None,
              block_ids_to_allocator := (\<lambda>i. if i \<in> gpu then Some GPU else if i \<in> cpu then Some CPU else None)\<rparr>)))"

definition cg_create :: "string \<Rightarrow> nat \<Rightarrow> nat \<Rightarrow> nat \<Rightarrow> unit cg" where
  "cg_create allocator_type num_gpu_blocks num_cpu_blocks bsize =
     (let gpu_block_ids = [0..<num_gpu_blocks];
          cpu_block_ids = [num_gpu_blocks..<num_gpu_blocks + num_cpu_blocks];
          both = (\<lambda>caching. thenM (new_allocator GPU caching num_gpu_blocks bsize gpu_block_ids)
                          (thenM (new_allocator CPU caching num_cpu_blocks bsize cpu_block_ids)
                                 cg_init)) in
      if allocator_type = ''naive'' then both False
      else if allocator_type = ''prefix_caching'' then both True
      else raiseM ValueError)"

subsection \<open>Operations\<close>

definition cg_allocate_mutable_block :: "(hash_input \<Rightarrow> int) \<Rightarrow> ref option \<Rightarrow> Device \<Rightarrow> ref cg" where
  "cg_allocate_mutable_block H prev d =
     allocatorM d (na_allocate_mutable_block prev) (pa_allocate_mutable_block H prev)"

definition allocate_or_get_null_block :: "(hash_input \<Rightarrow> int) \<Rightarrow> ref cg" where
  "allocate_or_get_null_block H = getM null_block (\<lambda>n.
     case n of
       Some r \<Rightarrow> retM r
     | None \<Rightarrow> bindM (cg_allocate_mutable_block H None GPU) (\<lambda>r.
         thenM (modM (\<lambda>s. s\<lparr>null_block := Some (NullB (addr r))\<rparr>))
               (retM (NullB (addr r)))))"

definition cg_allocate_immutable_blocks :: "(hash_input \<Rightarrow> int) \<Rightarrow> ref option \<Rightarrow> int list list \<Rightarrow> Device
    \<Rightarrow> ref list cg" where
  "cg_allocate_immutable_blocks H prev block_token_ids d =
     allocatorM d (na_allocate_immutable_blocks prev block_token_ids)
                  (pa_allocate_immutable_blocks H prev block_token_ids)"

definition cg_allocate_immutable_block :: "(hash_input \<Rightarrow> int) \<Rightarrow> ref option \<Rightarrow> int list \<Rightarrow> Device \<Rightarrow> ref cg" where
  "cg_allocate_immutable_block H prev ts d =
     allocatorM d (na_allocate_immutable_block prev ts) (pa_allocate_immutable_block H prev ts)"

text \<open>\<open>self._block_ids_to_allocator[block_id]\<close> of a block's id.\<close>

definition owner_of :: "ref \<Rightarrow> Device cg" where
  "owner_of r = getM (\<lambda>s. b_block_id (heap s ! addr r)) (\<lambda>i.
     bindM (fromM AssertionError i) (\<lambda>i.
     getM block_ids_to_allocator (\<lambda>m. fromM KeyError (m i))))"

fun cg_free :: "(hash_input \<Rightarrow> int) \<Rightarrow> ref \<Rightarrow> unit cg" where
  "cg_free H (NullB a) = retM ()"
| "cg_free H (Blk a) = bindM (owner_of (Blk a)) (\<lambda>d.
     allocatorM d (na_free (Blk a) False) (pa_free H (Blk a) False))"

fun cg_fork :: "ref \<Rightarrow> ref list cg" where
  "cg_fork (NullB a) = raiseM AssertionError"
| "cg_fork (Blk a) = bindM (owner_of (Blk a)) (\<lambda>d. allocatorM d (na_fork (Blk a)) (pa_fork (Blk a)))"

definition cg_get_num_free_blocks :: "Device \<Rightarrow> CpuGpu \<Rightarrow> nat" where
  "cg_get_num_free_blocks d = ask d na_get_num_free_blocks pa_get_num_free_blocks"

definition cg_get_num_total_blocks :: "Device \<Rightarrow> CpuGpu \<Rightarrow> nat" where
  "cg_get_num_total_blocks d = ask d na_get_num_total_blocks pa_get_num_total_blocks"

definition cg_get_physical_block_id :: "Device \<Rightarrow> block_id \<Rightarrow> nat cg" where
  "cg_get_physical_block_id d i = allocatorM d (na_get_physical_block_id i) (pa_get_physical_block_id i)"

definition block_ids_of :: "ref list \<Rightarrow> CpuGpu \<Rightarrow> block_id option list" where
  "block_ids_of blocks s = map (\<lambda>r. b_block_id (heap s ! addr r)) blocks"

text \<open>The loop over the two lists of ids, which extends both dictionaries.\<close>

fun record_swaps :: "(block_id option \<times> block_id option) list \<Rightarrow> (block_id, block_id) dict
    \<Rightarrow> (block_id, block_id) dict" where
  "record_swaps [] m = m"
| "record_swaps ((Some i, Some j) # ps) m = record_swaps ps (dict_set i j m)"
| "record_swaps (p # ps) m = record_swaps ps m"

definition cg_swap :: "(hash_input \<Rightarrow> int) \<Rightarrow> ref list \<Rightarrow> Device \<Rightarrow> Device \<Rightarrow> (block_id, block_id) dict cg" where
  "cg_swap H blocks src dst = getM (block_ids_of blocks) (\<lambda>src_ids.
     thenM (allocatorM src (na_swap_out blocks) (pa_swap_out H blocks))
    (thenM (allocatorM dst (na_swap_in blocks) (pa_swap_in H blocks))
    (getM (block_ids_of blocks) (\<lambda>dst_ids.
     thenM (modM (\<lambda>s. s\<lparr>swap_mapping := record_swaps (zip src_ids dst_ids) (swap_mapping s)\<rparr>))
           (retM (record_swaps (zip src_ids dst_ids) []))))))"

definition cg_get_num_full_blocks_touched :: "(hash_input \<Rightarrow> int) \<Rightarrow> ref list \<Rightarrow> Device \<Rightarrow> nat cg" where
  "cg_get_num_full_blocks_touched H blocks d =
     allocatorM d (getM (na_get_num_full_blocks_touched blocks) retM)
                  (pa_get_num_full_blocks_touched H blocks)"

definition cg_clear_copy_on_writes :: "(block_id \<times> block_id) list cg" where
  "cg_clear_copy_on_writes = allocatorM GPU na_clear_copy_on_writes pa_clear_copy_on_writes"

definition cg_mark_blocks_as_accessed :: "block_id list \<Rightarrow> py_time \<Rightarrow> unit cg" where
  "cg_mark_blocks_as_accessed ids now =
     allocatorM GPU (na_mark_blocks_as_accessed ids now) (pa_mark_blocks_as_accessed ids now)"

definition cg_mark_blocks_as_computed :: "block_id list \<Rightarrow> unit cg" where
  "cg_mark_blocks_as_computed ids =
     allocatorM GPU (na_mark_blocks_as_computed ids) (pa_mark_blocks_as_computed ids)"

text \<open>The naive allocator has no \<open>get_computed_block_ids\<close>.\<close>

definition cg_get_computed_block_ids :: "block_id list \<Rightarrow> block_id list \<Rightarrow> bool \<Rightarrow> block_id list cg" where
  "cg_get_computed_block_ids prev_computed ids skip_last =
     allocatorM GPU (raiseM AttributeError) (get_computed_block_ids prev_computed ids skip_last)"

definition cg_get_common_computed_block_ids :: "block_id list list \<Rightarrow> CpuGpu \<Rightarrow> block_id list" where
  "cg_get_common_computed_block_ids computed =
     ask GPU (\<lambda>_. na_get_common_computed_block_ids computed)
             (\<lambda>_. pa_get_common_computed_block_ids computed)"

definition cg_all_block_ids :: "CpuGpu \<Rightarrow> block_id set" where
  "cg_all_block_ids s = dom (block_ids_to_allocator s)"

definition cg_get_prefix_cache_hit_rate :: "Device \<Rightarrow> CpuGpu \<Rightarrow> rat" where
  "cg_get_prefix_cache_hit_rate d = ask d (\<lambda>_. na_get_prefix_cache_hit_rate) pa_get_prefix_cache_hit_rate"

definition get_and_reset_swaps :: "(block_id, block_id) dict cg" where
  "get_and_reset_swaps = getM swap_mapping (\<lambda>m. thenM (modM (\<lambda>s. s\<lparr>swap_mapping := []\<rparr>)) (retM m))"

text \<open>Without a device, every allocator is reset, in the order of the dictionary: CPU, GPU.\<close>

definition reset_on :: "Device \<Rightarrow> bool cg" where
  "reset_on d = allocatorM d na_reset_prefix_cache pa_reset_prefix_cache"

definition cg_reset_prefix_cache :: "Device option \<Rightarrow> bool cg" where
  "cg_reset_prefix_cache dev = (case dev of
     Some d \<Rightarrow> reset_on d
   | None \<Rightarrow> bindM (reset_on CPU) (\<lambda>a. bindM (reset_on GPU) (\<lambda>b. retM (a \<and> b))))"

definition cg_find_cached_blocks_prefix :: "int list \<Rightarrow> Device \<Rightarrow> CpuGpu \<Rightarrow> block_id list" where
  "cg_find_cached_blocks_prefix hashes d =
     ask d (\<lambda>_. na_find_cached_blocks_prefix hashes) (find_cached_blocks_prefix hashes)"

definition content_offload_enabled :: bool where
  "content_offload_enabled = False"

definition cg_begin_prefix_cache_step :: "unit cg" where
  "cg_begin_prefix_cache_step = retM ()"

definition cg_get_and_reset_prefix_swaps :: "((block_id \<times> block_id) list \<times> (block_id \<times> block_id) list) cg" where
  "cg_get_and_reset_prefix_swaps = retM ([], [])"

subsection \<open>Methods of a block object\<close>

text \<open>
  A block appends with its own allocator, the one it was created by; a \<open>NullBlock\<close> refuses.
\<close>

fun block_append_token_ids :: "(hash_input \<Rightarrow> int) \<Rightarrow> ref \<Rightarrow> int list \<Rightarrow> unit cg" where
  "block_append_token_ids H (NullB a) ts = raiseM ValueError"
| "block_append_token_ids H (Blk a) ts = getM (\<lambda>s. b_owner (heap s ! a)) (\<lambda>d.
     allocatorM d (na_append_token_ids a ts) (pa_append_token_ids H a ts))"

definition block_content_hash :: "(hash_input \<Rightarrow> int) \<Rightarrow> ref \<Rightarrow> int option cg" where
  "block_content_hash H r = getM (\<lambda>s. b_owner (heap s ! addr r)) (\<lambda>d.
     allocatorM d (retM None) (content_hash H r))"

subsection \<open>The GPU allocator keeps the contract with block tables\<close>

text \<open>The view of an allocator in the heap, and a call of its methods.\<close>

lemma allocatorM_naive:
  assumes "allocators c d = NaiveA a" and "mn (a\<lparr>objs := heap c\<rparr>) = (r, a')"
  shows "allocatorM d mn mp c = (r, c\<lparr>heap := objs a', allocators := (allocators c)(d := NaiveA a')\<rparr>)"
  using assms by (simp add: allocatorM_def)

lemma allocatorM_prefix:
  assumes "allocators c d = PrefixA a" and "mp (a\<lparr>objs := heap c\<rparr>) = (r, a')"
  shows "allocatorM d mn mp c = (r, c\<lparr>heap := objs a', allocators := (allocators c)(d := PrefixA a')\<rparr>)"
  using assms by (simp add: allocatorM_def)

definition device_ok :: "Device \<Rightarrow> CpuGpu \<Rightarrow> bool" where
  "device_ok d c \<longleftrightarrow> ask d na_ok (\<lambda>a. \<exists>A. pa_ok A a) c \<and> ask d bp_owner bp_owner c = d"

definition device_used :: "Device \<Rightarrow> CpuGpu \<Rightarrow> nat set" where
  "device_used d = ask d in_use in_use"

definition device_bsize :: "Device \<Rightarrow> CpuGpu \<Rightarrow> nat" where
  "device_bsize d = ask d a_block_size a_block_size"

definition device_follows :: "Device \<Rightarrow> CpuGpu \<Rightarrow> ref option \<Rightarrow> bool" where
  "device_follows d c p = ask d (\<lambda>_. True) (\<lambda>a. prev_hashed a p) c"

definition device_linkable :: "Device \<Rightarrow> CpuGpu \<Rightarrow> ref option \<Rightarrow> bool" where
  "device_linkable d c p = ask d (\<lambda>_. True) (\<lambda>a. prev_ok a p \<and> (p = None \<or> addr (the p) \<in> in_use a)) c"

definition device_fresh :: "Device \<Rightarrow> CpuGpu \<Rightarrow> ref \<Rightarrow> bool" where
  "device_fresh d c r \<longleftrightarrow> (\<exists>a. r = Blk a) \<and> ask d (\<lambda>a. na_fresh a r) (\<lambda>a. pa_fresh a r) c \<and> b_owner (heap c ! addr r) = d"

lemmas device_defs = device_ok_def device_used_def device_bsize_def device_follows_def device_linkable_def
  device_fresh_def cg_get_num_free_blocks_def ask_def

text \<open>The objects the pool handed out are bound to its allocator.\<close>

lemma kind_owner: "bp_ok s \<Longrightarrow> bp_kind s \<Longrightarrow> x \<in> in_use s \<Longrightarrow> b_owner (obj x s) = bp_owner s"
  by (auto simp: bp_ok_def bp_kind_def in_use_def)

lemma adds_heap:
  assumes "adds_blocks (\<lambda>s a. obj a s) in_use s rs t" and "objs s = heap c" and "objs t = heap c'"
    and "device_used d c = in_use s" and "device_used d c' = in_use t"
  shows "adds_blocks (\<lambda>c a. heap c ! a) (device_used d) c rs c'"
  using assms by (simp add: adds_blocks_def)


text \<open>A device after a call of its allocator's methods.\<close>

lemma ask_naive: "allocators c d = NaiveA a \<Longrightarrow> ask d fn fp c = fn (a\<lparr>objs := heap c\<rparr>)"
  by (simp add: ask_def)

lemma ask_prefix: "allocators c d = PrefixA a \<Longrightarrow> ask d fn fp c = fp (a\<lparr>objs := heap c\<rparr>)"
  by (simp add: ask_def)

lemma ask_naive_after [simp]:
  "ask d fn fp (c\<lparr>heap := objs t, allocators := (allocators c)(d := NaiveA t)\<rparr>) = fn t"
  by (simp add: ask_def)

lemma ask_prefix_after [simp]:
  "ask d fn fp (c\<lparr>heap := objs t, allocators := (allocators c)(d := PrefixA t)\<rparr>) = fp t"
  by (simp add: ask_def)

interpretation device_source: block_source "\<lambda>p tss. cg_allocate_immutable_blocks H p tss d"
  "\<lambda>p. cg_allocate_mutable_block H p d" "block_append_token_ids H" "device_ok d" "\<lambda>c a. heap c ! a"
  "device_used d" "cg_get_num_free_blocks d" "device_bsize d" "device_follows d" "device_linkable d"
  "device_fresh d" for H d
proof (unfold_locales, goal_cases)
  case (1 c)
  then show ?case
    by (cases "allocators c d") (simp_all add: device_follows_def ask_naive ask_prefix prefix_source.first_follows)
next
  case (2 c p)
  show ?case
  proof (cases "allocators c d")
    case (NaiveA a)
    then show ?thesis by (simp add: device_linkable_def ask_naive)
  next
    case (PrefixA a)
    note d = ask_prefix [OF PrefixA]
    from 2 obtain A where "pa_ok A (a\<lparr>objs := heap c\<rparr>)" by (auto simp: device_ok_def d)
    then show ?thesis
      using 2 prefix_source.follows_linkable [of A "a\<lparr>objs := heap c\<rparr>" d p]
      by (simp add: device_linkable_def device_follows_def device_ok_def d)
  qed
next
  case (3 c p tss)
  show ?case
  proof (cases "allocators c d")
    case (NaiveA a)
    note d = ask_naive [OF NaiveA]
    let ?s = "a\<lparr>objs := heap c\<rparr>"
    from 3 have s: "na_ok ?s \<and> bp_owner ?s = d" "tss \<noteq> []" "\<forall>ts \<in> set tss. length ts = a_block_size ?s"
      "length tss \<le> length (free_block_indices ?s)" "0 < a_block_size ?s"
      by (simp_all add: device_ok_def device_bsize_def cg_get_num_free_blocks_def na_get_num_free_blocks_def d)
    obtain rs t where t: "na_allocate_immutable_blocks p tss ?s = (Inr rs, t)" "na_ok t \<and> bp_owner t = d"
      "a_block_size t = a_block_size ?s" "adds_blocks (\<lambda>s a. obj a s) in_use ?s rs t"
      "tokens_at (\<lambda>s a. obj a s) t rs = tss"
      "length (free_block_indices ?s) \<le> length (free_block_indices t) + length tss"
      using naive_source.imms_ok [OF s(1) TrueI s(2-5)] by blast
    let ?c = "c\<lparr>heap := objs t, allocators := (allocators c)(d := NaiveA t)\<rparr>"
    have "cg_allocate_immutable_blocks H p tss d c = (Inr rs, ?c)"
      using allocatorM_naive [OF NaiveA, of "na_allocate_immutable_blocks p tss"] t(1)
      by (simp add: cg_allocate_immutable_blocks_def)
    moreover have "adds_blocks (\<lambda>c a. heap c ! a) (device_used d) c rs ?c"
      by (rule adds_heap [OF t(4)]) (simp_all add: device_used_def d)
    ultimately show ?thesis using t
      by (intro exI conjI) (auto simp: device_ok_def device_bsize_def cg_get_num_free_blocks_def
          na_get_num_free_blocks_def device_follows_def tokens_at_def d)
  next
    case (PrefixA a)
    note d = ask_prefix [OF PrefixA]
    let ?s = "a\<lparr>objs := heap c\<rparr>"
    from 3 obtain A where s: "pa_ok A ?s \<and> bp_owner ?s = d" "prev_hashed ?s p" "tss \<noteq> []"
      "\<forall>ts \<in> set tss. length ts = a_block_size ?s"
      "length tss \<le> pa_get_num_free_blocks ?s" "0 < a_block_size ?s"
      by (auto simp: device_ok_def device_bsize_def cg_get_num_free_blocks_def device_follows_def d)
    obtain rs t where t: "pa_allocate_immutable_blocks H p tss ?s = (Inr rs, t)" "pa_ok A t \<and> bp_owner t = d"
      "a_block_size t = a_block_size ?s" "adds_blocks (\<lambda>s a. obj a s) in_use ?s rs t"
      "tokens_at (\<lambda>s a. obj a s) t rs = tss"
      "pa_get_num_free_blocks ?s \<le> pa_get_num_free_blocks t + length tss" "prev_hashed t (Some (last rs))"
      using prefix_source.imms_ok [OF s, of H] by blast
    let ?c = "c\<lparr>heap := objs t, allocators := (allocators c)(d := PrefixA t)\<rparr>"
    have "cg_allocate_immutable_blocks H p tss d c = (Inr rs, ?c)"
      using allocatorM_prefix [OF PrefixA, of "pa_allocate_immutable_blocks H p tss"] t(1)
      by (simp add: cg_allocate_immutable_blocks_def)
    moreover have "adds_blocks (\<lambda>c a. heap c ! a) (device_used d) c rs ?c"
      by (rule adds_heap [OF t(4)]) (simp_all add: device_used_def d)
    ultimately show ?thesis using t
      by (intro exI conjI) (auto simp: device_ok_def device_bsize_def cg_get_num_free_blocks_def
          device_follows_def tokens_at_def d)
  qed
next
  case (4 c p)
  show ?case
  proof (cases "allocators c d")
    case (NaiveA a)
    note d = ask_naive [OF NaiveA]
    let ?s = "a\<lparr>objs := heap c\<rparr>"
    from 4 have s: "na_ok ?s \<and> bp_owner ?s = d" "0 < length (free_block_indices ?s)" "0 < a_block_size ?s"
      by (simp_all add: device_ok_def device_bsize_def cg_get_num_free_blocks_def na_get_num_free_blocks_def d)
    obtain r t where t: "na_allocate_mutable_block p ?s = (Inr r, t)" "na_ok t \<and> bp_owner t = d"
      "a_block_size t = a_block_size ?s" "adds_blocks (\<lambda>s a. obj a s) in_use ?s [r] t"
      "tokens_at (\<lambda>s a. obj a s) t [r] = [[]]"
      "length (free_block_indices ?s) \<le> Suc (length (free_block_indices t))" "na_fresh t r"
      using naive_source.mut_ok [OF s(1) TrueI s(2-3)] by blast
    let ?c = "c\<lparr>heap := objs t, allocators := (allocators c)(d := NaiveA t)\<rparr>"
    have "cg_allocate_mutable_block H p d c = (Inr r, ?c)"
      using allocatorM_naive [OF NaiveA, of "na_allocate_mutable_block p"] t(1)
      by (simp add: cg_allocate_mutable_block_def)
    moreover have "adds_blocks (\<lambda>c a. heap c ! a) (device_used d) c [r] ?c"
      by (rule adds_heap [OF t(4)]) (simp_all add: device_used_def d)
    moreover have "r = Blk (addr r)" "b_owner (obj (addr r) t) = d"
      using t(2,4) kind_owner [of t "addr r"] by (auto simp: adds_blocks_def na_ok_def)
    ultimately show ?thesis using t
      by (intro exI conjI) (auto simp: device_ok_def device_bsize_def cg_get_num_free_blocks_def
          na_get_num_free_blocks_def device_linkable_def device_fresh_def tokens_at_def d)
  next
    case (PrefixA a)
    note d = ask_prefix [OF PrefixA]
    let ?s = "a\<lparr>objs := heap c\<rparr>"
    from 4 obtain A where s: "pa_ok A ?s \<and> bp_owner ?s = d"
      "prev_ok ?s p \<and> (p = None \<or> addr (the p) \<in> in_use ?s)"
      "0 < pa_get_num_free_blocks ?s" "0 < a_block_size ?s"
      by (auto simp: device_ok_def device_bsize_def cg_get_num_free_blocks_def device_linkable_def d)
    obtain r t where t: "pa_allocate_mutable_block H p ?s = (Inr r, t)" "pa_ok A t \<and> bp_owner t = d"
      "a_block_size t = a_block_size ?s" "adds_blocks (\<lambda>s a. obj a s) in_use ?s [r] t"
      "tokens_at (\<lambda>s a. obj a s) t [r] = [[]]"
      "pa_get_num_free_blocks ?s \<le> Suc (pa_get_num_free_blocks t)" "pa_fresh t r"
      "prev_ok t (Some r) \<and> (Some r = None \<or> addr (the (Some r)) \<in> in_use t)"
      using prefix_source.mut_ok [OF s, of H] by blast
    let ?c = "c\<lparr>heap := objs t, allocators := (allocators c)(d := PrefixA t)\<rparr>"
    have "cg_allocate_mutable_block H p d c = (Inr r, ?c)"
      using allocatorM_prefix [OF PrefixA, of "pa_allocate_mutable_block H p"] t(1)
      by (simp add: cg_allocate_mutable_block_def)
    moreover have "adds_blocks (\<lambda>c a. heap c ! a) (device_used d) c [r] ?c"
      by (rule adds_heap [OF t(4)]) (simp_all add: device_used_def d)
    moreover have "r = Blk (addr r)" "b_owner (obj (addr r) t) = d"
      using t(2,4) kind_owner [of t "addr r"] by (auto simp: adds_blocks_def pa_ok_def)
    ultimately show ?thesis using t
      by (intro exI conjI) (auto simp: device_ok_def device_bsize_def cg_get_num_free_blocks_def
          device_linkable_def device_fresh_def tokens_at_def d)
  qed
next
  case (5 c r ts)
  from 5(2) obtain x where r: "r = Blk x" and o: "b_owner (heap c ! x) = d" by (auto simp: device_fresh_def)
  show ?case
  proof (cases "allocators c d")
    case (NaiveA a)
    note d = ask_naive [OF NaiveA]
    let ?s = "a\<lparr>objs := heap c\<rparr>"
    from 5 have s: "na_ok ?s \<and> bp_owner ?s = d" "na_fresh ?s r" "length ts < a_block_size ?s"
      by (simp_all add: device_ok_def device_bsize_def device_fresh_def d)
    obtain t where t: "na_append_token_ids (addr r) ts ?s = (Inr (), t)" "na_ok t \<and> bp_owner t = d"
      "a_block_size t = a_block_size ?s" "in_use t = in_use ?s"
      "length (free_block_indices t) = length (free_block_indices ?s)"
      "tokens_at (\<lambda>s a. obj a s) t [r] = [ts]" "b_block_id (obj (addr r) t) = b_block_id (obj (addr r) ?s)"
      "\<forall>x. x \<noteq> addr r \<longrightarrow> obj x t = obj x ?s"
      using naive_source.app_ok [OF s] by blast
    let ?c = "c\<lparr>heap := objs t, allocators := (allocators c)(d := NaiveA t)\<rparr>"
    have "block_append_token_ids H r ts c = (Inr (), ?c)"
      using allocatorM_naive [OF NaiveA, of "na_append_token_ids x ts"] t(1) o by (simp add: r getM_run)
    then show ?thesis using t
      by (intro exI [of _ ?c] conjI) (auto simp: device_ok_def device_bsize_def cg_get_num_free_blocks_def
          na_get_num_free_blocks_def device_used_def tokens_at_def d)
  next
    case (PrefixA a)
    note d = ask_prefix [OF PrefixA]
    let ?s = "a\<lparr>objs := heap c\<rparr>"
    from 5 obtain A where s: "pa_ok A ?s \<and> bp_owner ?s = d" "pa_fresh ?s r" "length ts < a_block_size ?s"
      by (auto simp: device_ok_def device_bsize_def device_fresh_def d)
    obtain t where t: "pa_append_token_ids H (addr r) ts ?s = (Inr (), t)" "pa_ok A t \<and> bp_owner t = d"
      "a_block_size t = a_block_size ?s" "in_use t = in_use ?s"
      "pa_get_num_free_blocks t = pa_get_num_free_blocks ?s"
      "tokens_at (\<lambda>s a. obj a s) t [r] = [ts]" "b_block_id (obj (addr r) t) = b_block_id (obj (addr r) ?s)"
      "\<forall>x. x \<noteq> addr r \<longrightarrow> obj x t = obj x ?s"
      using prefix_source.app_ok [OF s, of H] by blast
    let ?c = "c\<lparr>heap := objs t, allocators := (allocators c)(d := PrefixA t)\<rparr>"
    have "block_append_token_ids H r ts c = (Inr (), ?c)"
      using allocatorM_prefix [OF PrefixA, of "pa_append_token_ids H x ts"] t(1) o by (simp add: r getM_run)
    then show ?thesis using t
      by (intro exI [of _ ?c] conjI) (auto simp: device_ok_def device_bsize_def cg_get_num_free_blocks_def
          device_used_def tokens_at_def d)
  qed
qed

subsection \<open>A new pair of allocators\<close>

lemma na_init_ids_run:
  assumes "0 < length ids" and "distinct ids" and "\<not> bp_prefix s"
  obtains t where "na_init (length ids) b (Some ids) True s = (Inr (), t)" "na_ok t" "a_block_size t = b"
    "free_block_indices t = ids" "in_use t = {}" "bp_owner t = bp_owner s" "all_block_indices t = set ids"
    "\<exists>xs. objs t = objs s @ xs"
proof -
  let ?n = "length ids"
  let ?t = "snd (na_init ?n b (Some ids) True s)"
  have c: "card (set ids) = ?n" using assms(2) by (rule distinct_card)
  have run: "na_init ?n b (Some ids) True s = (Inr (), ?t)"
    using c by (simp add: na_init_def bp_init_run run_simps Let_def)
  have f: "free_block_indices ?t = ids" "all_block_indices ?t = set ids"
    "bp_pool_size ?t = ?n * 4" "bp_free_ids ?t = [0..<?n * 4]" "bp_prefix ?t = bp_prefix s"
    "bp_pool ?t = [length (objs s)..<length (objs s) + ?n * 4]" "a_block_size ?t = b" "bp_owner ?t = bp_owner s"
    "objs ?t = objs s @ replicate (?n * 4) (new_block (bp_prefix s) b (bp_owner s))"
    using c by (simp_all add: na_init_def bp_init_run run_simps Let_def)
  have "na_ids (set ids) ?t" by (rule na_init_ids [OF assms(2) run])
  moreover have "bp_ok ?t" by (auto simp: bp_ok_def f)
  moreover have "bp_kind ?t" by (auto simp: bp_kind_def f nth_append new_block_def)
  moreover have "in_use ?t = {}" by (simp add: in_use_def f)
  ultimately show thesis
    using that [OF run] f assms(1,3) by (simp add: na_ok_def na_ids_iff)
qed

text \<open>Objects added to the heap by others do not disturb an allocator.\<close>

lemma na_ok_append: "na_ok s \<Longrightarrow> na_ok (s\<lparr>objs := objs s @ ys\<rparr>)"
  by (auto simp: na_ok_def na_ids_ok_def bp_ok_def bp_kind_def nth_append subset_iff)

lemma pa_ok_append: "pa_ok A s \<Longrightarrow> pa_ok A (s\<lparr>objs := objs s @ ys\<rparr>)"
  by (auto simp: pa_ok_def pa_ids_def bp_ok_def bp_kind_def nth_append subset_iff)

lemma device_ok_append:
  assumes "device_ok d c" and "allocators c' d = allocators c d" and "heap c' = heap c @ ys"
  shows "device_ok d c'"
proof (cases "allocators c d")
  case (NaiveA a)
  then show ?thesis using assms na_ok_append [of "a\<lparr>objs := heap c\<rparr>" ys]
    by (auto simp: device_ok_def ask_def)
next
  case (PrefixA a)
  then show ?thesis using assms pa_ok_append [of _ "a\<lparr>objs := heap c\<rparr>" ys]
    by (fastforce simp: device_ok_def ask_def)
qed

text \<open>The state of a new device: all its ids free, no block handed out.\<close>

definition device_new :: "Device \<Rightarrow> nat \<Rightarrow> block_id list \<Rightarrow> CpuGpu \<Rightarrow> bool" where
  "device_new d b ids c \<longleftrightarrow> device_ok d c \<and> device_bsize d c = b \<and> cg_get_num_free_blocks d c = length ids \<and>
     cg_get_num_total_blocks d c = length ids \<and> all_ids_of d c = set ids \<and> device_used d c = {}"

lemma device_new_append:
  assumes "device_new d b ids c" and "allocators c' d = allocators c d" and "heap c' = heap c @ ys"
  shows "device_new d b ids c'"
proof -
  have "device_ok d c'" by (rule device_ok_append [OF _ assms(2,3)]) (use assms(1) in \<open>simp add: device_new_def\<close>)
  then show ?thesis
    using assms by (cases "allocators c d")
      (auto simp: device_new_def device_bsize_def cg_get_num_free_blocks_def cg_get_num_total_blocks_def all_ids_of_def
         device_used_def ask_def na_get_num_free_blocks_def pa_get_num_free_blocks_def na_get_num_total_blocks_def
         pa_get_num_total_blocks_def in_use_def)
qed

lemma new_allocator_run:
  assumes "0 < length ids" and "distinct ids"
  obtains t ys where "new_allocator d caching (length ids) b ids c = (Inr (), t)" "device_new d b ids t"
    "\<And>d'. d' \<noteq> d \<Longrightarrow> allocators t d' = allocators c d'" "heap t = heap c @ ys"
proof (cases caching)
  case False
  let ?s = "(blank_naive d)\<lparr>objs := heap c\<rparr>"
  have "\<not> bp_prefix ?s" by (simp add: blank_naive_def)
  from na_init_ids_run [OF assms this, of b] obtain a where
    a: "na_init (length ids) b (Some ids) True ?s = (Inr (), a)" "na_ok a" "a_block_size a = b"
      "free_block_indices a = ids" "in_use a = {}" "bp_owner a = bp_owner ?s" "all_block_indices a = set ids"
      "\<exists>xs. objs a = objs ?s @ xs" .
  let ?c = "c\<lparr>allocators := (allocators c)(d := NaiveA (blank_naive d))\<rparr>"
  let ?t = "?c\<lparr>heap := objs a, allocators := (allocators ?c)(d := NaiveA a)\<rparr>"
  have "new_allocator d caching (length ids) b ids c = (Inr (), ?t)"
    using False allocatorM_naive [of ?c d "blank_naive d" "na_init (length ids) b (Some ids) True" "Inr ()" a
        "pa_init (length ids) b (Some ids) (Some LRU)"] a(1)
    by (simp add: new_allocator_def run_simps)
  moreover have "device_new d b ids ?t"
    using a(2-7) assms(2) by (simp add: device_new_def device_ok_def device_bsize_def cg_get_num_free_blocks_def
      cg_get_num_total_blocks_def all_ids_of_def device_used_def na_get_num_free_blocks_def
      na_get_num_total_blocks_def blank_naive_def distinct_card ask_def)
  moreover from a(8) obtain ys where "objs a = heap c @ ys" by auto
  ultimately show thesis using that by simp
next
  case True
  let ?s = "(blank_prefix d)\<lparr>objs := heap c\<rparr>"
  have "make_evictor (Some LRU) = Inr (LRUE lru_init)" by simp
  from pa_init_ids_run [OF assms this, of b ?s] obtain a where
    a: "pa_init (length ids) b (Some ids) (Some LRU) ?s = (Inr (), a)" "pa_ok (set ids) a" "a_block_size a = b"
      "free_block_indices a = ids" "cached_blocks a = Map.empty" "in_use a = {}" "evictor a = LRUE lru_init"
      "refcounter a = rc_init ids" "bp_owner a = bp_owner ?s" "all_block_indices a = set ids"
      "\<exists>xs. objs a = objs ?s @ xs" .
  let ?c = "c\<lparr>allocators := (allocators c)(d := PrefixA (blank_prefix d))\<rparr>"
  let ?t = "?c\<lparr>heap := objs a, allocators := (allocators ?c)(d := PrefixA a)\<rparr>"
  have "new_allocator d caching (length ids) b ids c = (Inr (), ?t)"
    using True allocatorM_prefix [of ?c d "blank_prefix d" "pa_init (length ids) b (Some ids) (Some LRU)" "Inr ()" a
        "na_init (length ids) b (Some ids) True"] a(1)
    by (simp add: new_allocator_def run_simps)
  moreover have "device_new d b ids ?t"
    using a(2-10) assms(2) by (auto simp: device_new_def device_ok_def device_bsize_def cg_get_num_free_blocks_def
      cg_get_num_total_blocks_def all_ids_of_def device_used_def na_get_num_free_blocks_def pa_get_num_free_blocks_def
      na_get_num_total_blocks_def pa_get_num_total_blocks_def blank_prefix_def distinct_card lru_num_blocks_def lru_init_def
      ask_def)
  moreover from a(11) obtain ys where "objs a = heap c @ ys" by auto
  ultimately show thesis using that by simp
qed

lemma create_run:
  assumes "0 < num_gpu" and "0 < num_cpu" and "allocator_type = (if caching then ''prefix_caching'' else ''naive'')"
  obtains t where "cg_create allocator_type num_gpu num_cpu b c = (Inr (), t)"
    "device_new GPU b [0..<num_gpu] t" "device_new CPU b [num_gpu..<num_gpu + num_cpu] t"
    "block_ids_to_allocator t = (\<lambda>i. if i < num_gpu then Some GPU
        else if i < num_gpu + num_cpu then Some CPU else None)"
    "swap_mapping t = []" "null_block t = None"
proof -
  let ?g = "[0..<num_gpu]" and ?h = "[num_gpu..<num_gpu + num_cpu]"
  from new_allocator_run [of ?g GPU caching b c] assms obtain u where
    u: "new_allocator GPU caching num_gpu b ?g c = (Inr (), u)" "device_new GPU b ?g u" by auto
  from new_allocator_run [of ?h CPU caching b u] assms obtain v ys where
    v: "new_allocator CPU caching num_cpu b ?h u = (Inr (), v)" "device_new CPU b ?h v"
      "\<And>d. d \<noteq> CPU \<Longrightarrow> allocators v d = allocators u d" "heap v = heap u @ ys" by auto
  have g: "device_new GPU b ?g v" by (rule device_new_append [OF u(2) v(3,4)]) simp
  let ?t = "v\<lparr>swap_mapping := [], null_block := None, block_ids_to_allocator :=
    (\<lambda>i. if i < num_gpu then Some GPU else if i < num_gpu + num_cpu then Some CPU else None)\<rparr>"
  have ids: "all_ids_of GPU v = {0..<num_gpu}" "all_ids_of CPU v = {num_gpu..<num_gpu + num_cpu}"
    using g v(2) by (simp_all add: device_new_def)
  have "cg_init v = (Inr (), ?t)"
    by (auto simp: cg_init_def run_simps ids intro!: arg_cong [where f = "\<lambda>m. v\<lparr>swap_mapping := [], null_block := None,
        block_ids_to_allocator := m\<rparr>"])
  moreover have "device_new GPU b ?g ?t" by (rule device_new_append [OF g, where ys = "[]"]) simp_all
  moreover have "device_new CPU b ?h ?t" by (rule device_new_append [OF v(2), where ys = "[]"]) simp_all
  moreover have "cg_create allocator_type num_gpu num_cpu b c = thenM (new_allocator GPU caching num_gpu b ?g)
      (thenM (new_allocator CPU caching num_cpu b ?h) cg_init) c"
    using assms(3) by (simp add: cg_create_def Let_def)
  ultimately show thesis using u(1) v(1) that [of ?t] by (simp add: thenM_step)
qed

text \<open>
  \<open>create\<close> gives every id to exactly one device, the lower ones to the GPU and the others to
  the CPU, with all blocks of both devices free and no block handed out. Any name of an
  allocator besides the two known ones is refused before anything changed.
\<close>
theorem create_partitions_ids:
  assumes "0 < num_gpu" and "0 < num_cpu"
  shows "if allocator_type \<in> {''naive'', ''prefix_caching''}
    then \<exists>t. cg_create allocator_type num_gpu num_cpu b c = (Inr (), t) \<and>
      device_new GPU b [0..<num_gpu] t \<and> device_new CPU b [num_gpu..<num_gpu + num_cpu] t \<and>
      block_ids_to_allocator t = (\<lambda>i. if i < num_gpu then Some GPU
        else if i < num_gpu + num_cpu then Some CPU else None) \<and>
      swap_mapping t = [] \<and> null_block t = None
    else cg_create allocator_type num_gpu num_cpu b c = (Inl ValueError, c)"
proof (cases "allocator_type \<in> {''naive'', ''prefix_caching''}")
  case True
  then have "allocator_type = (if allocator_type = ''prefix_caching'' then ''prefix_caching'' else ''naive'')" by auto
  from create_run [OF assms this, of b c] obtain t where
    t: "cg_create allocator_type num_gpu num_cpu b c = (Inr (), t)"
      "device_new GPU b [0..<num_gpu] t" "device_new CPU b [num_gpu..<num_gpu + num_cpu] t"
      "block_ids_to_allocator t = (\<lambda>i. if i < num_gpu then Some GPU
        else if i < num_gpu + num_cpu then Some CPU else None)"
      "swap_mapping t = []" "null_block t = None" .
  show ?thesis unfolding if_P [OF True] by (intro exI conjI) (rule t)+
next
  case False
  then show ?thesis by (simp add: cg_create_def Let_def raiseM_run)
qed

text \<open>A small instance of the hypotheses.\<close>

theorem create_partitions_ids_witness:
  "if ''naive'' \<in> {''naive'', ''prefix_caching''}
    then \<exists>t. cg_create ''naive'' 3 2 4 blank_cg = (Inr (), t) \<and>
      device_new GPU 4 [0..<3] t \<and> device_new CPU 4 [3..<3 + 2] t \<and>
      block_ids_to_allocator t = (\<lambda>i. if i < 3 then Some GPU
        else if i < 3 + 2 then Some CPU else None) \<and>
      swap_mapping t = [] \<and> null_block t = None
    else cg_create ''naive'' 3 2 4 blank_cg = (Inl ValueError, blank_cg)"
  by (rule create_partitions_ids) simp_all

end
