(* ===== verification/SequenceBlocks.thy ===== *)
theory SequenceBlocks
  imports CpuGpuBlock
begin

section \<open>The blocks of a sequence (\<open>vllm/core/block/block_table.py\<close>)\<close>

text \<open>
  A \<open>BlockTable\<close> maps the tokens of one sequence to blocks. Its methods change the table and the
  allocator it shares with the other tables: the state is the pair of both. Block sizes are
  positive. \<open>H\<close> is the hash of blocks, as in \<open>PrefixBlock\<close>.
\<close>

record BlockTable =
  tb_block_size :: nat
  tb_blocks :: BlockList
  tb_max_block_sliding_window :: "nat option"
  tb_num_full_slots :: nat
  tb_cache_namespace :: "nat list option"

type_synonym 'a tb = "(BlockTable \<times> CpuGpu, 'a) st"

definition listM :: "(BlockList, 'a) st \<Rightarrow> 'a tb" where
  "listM = zoomM (\<lambda>(t, c). tb_blocks t) (\<lambda>l (t, c). (t\<lparr>tb_blocks := l\<rparr>, c))"

definition cgM :: "'a cg \<Rightarrow> 'a tb" where
  "cgM = zoomM snd (\<lambda>c (t, _). (t, c))"

text \<open>The attributes \<open>block_id\<close> and \<open>token_ids\<close> of a block.\<close>

definition id_in :: "CpuGpu \<Rightarrow> ref \<Rightarrow> block_id option" where
  "id_in c r = b_block_id (heap c ! addr r)"

definition tokens_in :: "CpuGpu \<Rightarrow> ref \<Rightarrow> int list" where
  "tokens_in c r = b_token_ids (heap c ! addr r)"

definition tb_get_num_token_ids :: "ref list \<Rightarrow> CpuGpu \<Rightarrow> nat" where
  "tb_get_num_token_ids blocks c = sum_list (map (\<lambda>r. length (tokens_in c r)) blocks)"

definition tb_init :: "nat \<Rightarrow> ref list \<Rightarrow> nat option \<Rightarrow> nat list option \<Rightarrow> (CpuGpu, BlockTable) st" where
  "tb_init bsize blocks window namespace = getM id (\<lambda>c.
     bindM (liftM (case bl_update (id_in c) blocks \<lparr>bl_blocks = [], bl_block_ids = []\<rparr> of
              (Inl e, l) \<Rightarrow> Inl e | (Inr _, l) \<Rightarrow> Inr l)) (\<lambda>l.
     retM \<lparr>tb_block_size = bsize, tb_blocks = l, tb_max_block_sliding_window = window,
       tb_num_full_slots = tb_get_num_token_ids blocks c, tb_cache_namespace = namespace\<rparr>))"

definition get_num_required_blocks :: "int list \<Rightarrow> nat \<Rightarrow> nat \<Rightarrow> int" where
  "get_num_required_blocks ts bsize num_lookahead_slots = cdiv (int (length ts + num_lookahead_slots)) (int bsize)"

definition is_allocated :: "BlockTable \<Rightarrow> bool" where
  "is_allocated t \<longleftrightarrow> 0 < bl_len (tb_blocks t)"

definition tb_list :: "BlockTable \<Rightarrow> ref list" where
  "tb_list t = bl_blocks (tb_blocks t)"

definition physical_block_ids :: "BlockTable \<Rightarrow> block_id list" where
  "physical_block_ids t = bl_block_ids (tb_blocks t)"

definition tb_num_empty_slots :: "int tb" where
  "tb_num_empty_slots = getM fst (\<lambda>t.
     thenM (assertM (is_allocated t))
           (retM (int (bl_len (tb_blocks t)) * int (tb_block_size t) - int (tb_num_full_slots t))))"

subsection \<open>Allocation\<close>

text \<open>
  \<open>_allocate_blocks_for_token_ids\<close>, on the operations of the allocator it calls: \<open>imms\<close> for
  \<open>allocate_immutable_blocks\<close>, \<open>mut\<close> for \<open>allocate_mutable_block\<close>, \<open>app\<close> for the block's
  \<open>append_token_ids\<close>.
\<close>

definition allocate_blocks_for :: "(ref option \<Rightarrow> int list list \<Rightarrow> ('s, ref list) st) \<Rightarrow> (ref option \<Rightarrow> ('s, ref) st)
    \<Rightarrow> (ref \<Rightarrow> int list \<Rightarrow> ('s, unit) st) \<Rightarrow> nat \<Rightarrow> ref option \<Rightarrow> int list \<Rightarrow> ('s, ref list) st" where
  "allocate_blocks_for imms mut app bsize prev ts =
     (let chunks = chunk_list ts bsize;
          block_token_ids = filter (\<lambda>c. length c = bsize) chunks;
          tail_token_ids = filter (\<lambda>c. length c \<noteq> bsize) chunks in
      bindM (if block_token_ids = [] then retM [] else imms prev block_token_ids) (\<lambda>blocks.
      bindM (if block_token_ids = [] then retM prev
             else bindM (fromM IndexError (if blocks = [] then None else Some (last blocks))) (\<lambda>r. retM (Some r))) (\<lambda>prev.
      if tail_token_ids = [] then retM blocks
      else thenM (assertM (length tail_token_ids = 1))
          (bindM (mut prev) (\<lambda>r.
           thenM (app r (hd tail_token_ids))
                 (retM (blocks @ [r])))))))"

definition allocate_blocks_for_token_ids :: "(hash_input \<Rightarrow> int) \<Rightarrow> nat \<Rightarrow> ref option \<Rightarrow> int list \<Rightarrow> Device
    \<Rightarrow> ref list cg" where
  "allocate_blocks_for_token_ids H bsize prev ts d =
     allocate_blocks_for (\<lambda>p tss. cg_allocate_immutable_blocks H p tss d)
       (\<lambda>p. cg_allocate_mutable_block H p d) (block_append_token_ids H) bsize prev ts"

definition tb_update :: "ref list \<Rightarrow> unit tb" where
  "tb_update blocks = getM snd (\<lambda>c. listM (bl_update (id_in c) blocks))"

definition tb_allocate :: "(hash_input \<Rightarrow> int) \<Rightarrow> int list \<Rightarrow> Device \<Rightarrow> unit tb" where
  "tb_allocate H ts d = getM fst (\<lambda>t.
     thenM (assertM (\<not> is_allocated t))
    (thenM (assertM (ts \<noteq> []))
    (bindM (cgM (allocate_blocks_for_token_ids H (tb_block_size t) None ts d)) (\<lambda>blocks.
     thenM (tb_update blocks)
           (modM (\<lambda>(t, c). (t\<lparr>tb_num_full_slots := length ts\<rparr>, c)))))))"

subsection \<open>Growing\<close>

text \<open>The first loop of \<open>ensure_num_empty_slots\<close>.\<close>

fun new_blocks :: "(hash_input \<Rightarrow> int) \<Rightarrow> nat \<Rightarrow> ref option \<Rightarrow> ref list cg" where
  "new_blocks H 0 prev = retM []"
| "new_blocks H (Suc n) prev =
     bindM (cg_allocate_mutable_block H prev GPU) (\<lambda>r.
     bindM (new_blocks H n (Some r)) (\<lambda>rs. retM (r # rs)))"

definition ensure_num_empty_slots :: "(hash_input \<Rightarrow> int) \<Rightarrow> int \<Rightarrow> unit tb" where
  "ensure_num_empty_slots H wanted = getM fst (\<lambda>t.
     thenM (assertM (is_allocated t))
    (bindM tb_num_empty_slots (\<lambda>have.
     if wanted \<le> have then retM ()
     else
       let blocks_to_allocate = nat (cdiv (wanted - have) (int (tb_block_size t))) in
       bindM (cgM (new_blocks H blocks_to_allocate (if tb_list t = [] then None else Some (last (tb_list t))))) (\<lambda>rs.
       forM rs (\<lambda>r. getM snd (\<lambda>c. listM (bl_append (id_in c) r)))))))"

text \<open>\<open>BlockList.append_token_ids\<close>.\<close>

definition bl_append_token_ids :: "(hash_input \<Rightarrow> int) \<Rightarrow> nat \<Rightarrow> int list \<Rightarrow> unit tb" where
  "bl_append_token_ids H k ts =
     bindM (listM (bl_getitem k)) (\<lambda>r.
     getM (\<lambda>(t, c). id_in c r) (\<lambda>prev_block_id.
     thenM (cgM (block_append_token_ids H r ts))
    (getM (\<lambda>(t, c). id_in c r) (\<lambda>i.
     if prev_block_id \<noteq> i then listM (bl_update_block_id k i) else retM ()))))"

definition chunk_token_blocks_for_append :: "BlockTable \<Rightarrow> int list \<Rightarrow> int list list" where
  "chunk_token_blocks_for_append t ts =
     (if ts = [] then []
      else let first_chunk_size = tb_block_size t - tb_num_full_slots t mod tb_block_size t in
        take first_chunk_size ts # chunk_list (drop first_chunk_size ts) (tb_block_size t))"

text \<open>One round of the loop that drops blocks before the sliding window.\<close>

definition drop_block :: "(hash_input \<Rightarrow> int) \<Rightarrow> ref \<Rightarrow> nat \<Rightarrow> unit tb" where
  "drop_block H null k =
     bindM (listM (bl_getitem k)) (\<lambda>b.
     if b = null then retM ()
     else thenM (cgM (cg_free H b))
                (getM snd (\<lambda>c. listM (bl_setitem (id_in c) k null))))"

definition drop_before_window :: "(hash_input \<Rightarrow> int) \<Rightarrow> nat option \<Rightarrow> unit tb" where
  "drop_before_window H num_computed_slots = getM fst (\<lambda>t.
     case tb_max_block_sliding_window t of
       None \<Rightarrow> retM ()
     | Some w \<Rightarrow>
         bindM (cgM (allocate_or_get_null_block H)) (\<lambda>null.
         bindM (fromM AssertionError num_computed_slots) (\<lambda>n.
         let end_block_idx = int (n div tb_block_size t) - int w in
         forM [0..<nat end_block_idx] (drop_block H null))))"

definition tb_append_token_ids :: "(hash_input \<Rightarrow> int) \<Rightarrow> int list \<Rightarrow> nat \<Rightarrow> nat option \<Rightarrow> unit tb" where
  "tb_append_token_ids H ts num_lookahead_slots num_computed_slots =
     thenM (getM fst (\<lambda>t. assertM (is_allocated t)))
    (thenM (getM fst (\<lambda>t. assertM (0 < bl_len (tb_blocks t))))
    (thenM (drop_before_window H num_computed_slots)
    (thenM (ensure_num_empty_slots H (int (length ts + num_lookahead_slots)))
    (getM fst (\<lambda>t.
     let first_block_idx = tb_num_full_slots t div tb_block_size t;
         token_blocks = chunk_token_blocks_for_append t ts in
     thenM (forM (zip [0..<length token_blocks] token_blocks) (\<lambda>(i, token_block).
              bl_append_token_ids H (first_block_idx + i) token_block))
           (modM (\<lambda>(t, c). (t\<lparr>tb_num_full_slots := tb_num_full_slots t + length ts\<rparr>, c))))))))"

subsection \<open>Forking, freeing, reading\<close>

definition tb_fork :: "BlockTable tb" where
  "tb_fork = getM fst (\<lambda>t.
     thenM (assertM (is_allocated t))
    (thenM (assertM (0 < bl_len (tb_blocks t)))
    (cgM (bindM (cg_fork (last (tb_list t))) (\<lambda>forked_blocks.
          tb_init (tb_block_size t) forked_blocks (tb_max_block_sliding_window t) None)))))"

definition tb_free :: "(hash_input \<Rightarrow> int) \<Rightarrow> unit tb" where
  "tb_free H = getM (tb_list \<circ> fst) (\<lambda>blocks.
     thenM (forM blocks (\<lambda>r. cgM (cg_free H r))) (listM bl_reset))"

definition get_unseen_token_ids :: "BlockTable \<Rightarrow> int list \<Rightarrow> int list" where
  "get_unseen_token_ids t sequence_token_ids = drop (tb_num_full_slots t) sequence_token_ids"

definition tb_get_all_token_ids :: "BlockTable \<Rightarrow> CpuGpu \<Rightarrow> int list" where
  "tb_get_all_token_ids t c = (if is_allocated t then concat (map (tokens_in c) (tb_list t)) else [])"

text \<open>\<open>D h\<close> stands for \<open>hashlib.sha256(str(h).encode()).digest()\<close>.\<close>

definition tb_get_content_hashes :: "(hash_input \<Rightarrow> int) \<Rightarrow> (int \<Rightarrow> nat list) \<Rightarrow> nat list list tb" where
  "tb_get_content_hashes H D = getM (tb_list \<circ> fst) (\<lambda>blocks.
     bindM (mapM blocks (\<lambda>r. bindM (cgM (block_content_hash H r)) (\<lambda>h.
       retM (case h of None \<Rightarrow> [] | Some h \<Rightarrow> [D h])))) (\<lambda>hs.
     retM (concat hs)))"

text \<open>\<open>math.ceil\<close> of a quotient; the quotient of two integers below \<open>2^53\<close> keeps its ceiling when rounded.\<close>

definition get_num_blocks_touched_by_append_slots :: "BlockTable \<Rightarrow> int list \<Rightarrow> nat \<Rightarrow> int" where
  "get_num_blocks_touched_by_append_slots t ts num_lookahead_slots =
     (let num_token_ids = length ts + num_lookahead_slots;
          first_chunk_size = tb_block_size t - tb_num_full_slots t mod tb_block_size t in
      1 + \<lceil>(of_int (int num_token_ids - int first_chunk_size) :: rat) / of_nat (tb_block_size t)\<rceil>)"

subsection \<open>Allocation against the contract of a block source\<close>

lemma chunk_list_shape:
  assumes "0 < n"
  obtains full rest where "chunk_list xs n = full @ rest" "\<forall>c \<in> set full. length c = n"
    "\<forall>c \<in> set rest. length c < n" "length rest \<le> 1"
proof -
  have "\<exists>full rest. chunk_list xs n = full @ rest \<and> (\<forall>c \<in> set full. length c = n) \<and>
      (\<forall>c \<in> set rest. length c < n) \<and> length rest \<le> 1"
    using assms
  proof (induction xs n rule: chunk_list.induct)
    case (1 xs n)
    show ?case
    proof (cases "length xs < n")
      case True
      then have "chunk_list xs n = [] @ (if xs = [] then [] else [xs])"
        using 1(2) by (simp add: chunk_list_step)
      then show ?thesis using True by (intro exI [of _ "[]"] exI [of _ "if xs = [] then [] else [xs]"]) auto
    next
      case False
      then have ne: "xs \<noteq> []" using 1(2) by auto
      with 1 obtain full rest where "chunk_list (drop n xs) n = full @ rest" "\<forall>c \<in> set full. length c = n"
        "\<forall>c \<in> set rest. length c < n" "length rest \<le> 1" by blast
      then show ?thesis using False ne 1(2)
        by (intro exI [of _ "take n xs # full"] exI [of _ rest]) (simp add: chunk_list_step)
    qed
  qed
  then show ?thesis using that by blast
qed

lemma length_chunk_list:
  assumes "0 < n"
  shows "length (chunk_list xs n) = (length xs + n - 1) div n"
  using assms
proof (induction xs n rule: chunk_list.induct)
  case (1 xs n)
  show ?case
  proof (cases "xs = []")
    case False
    then have step: "length (chunk_list xs n) = Suc ((length xs - n + n - 1) div n)"
      using 1 by (simp add: chunk_list_step)
    show ?thesis
    proof (cases "length xs < n")
      case True
      then have "(length xs + n - 1) div n = Suc ((length xs - 1) div n)"
        using False 1(2) div_add_self2 [of n "length xs - 1"] by (cases xs) simp_all
      with step True show ?thesis by simp
    next
      case False
      then have "(length xs + n - 1) div n = Suc ((length xs - n + n - 1) div n)"
        using 1(2) div_add_self2 [of n "length xs - n + n - 1"] by simp
      with step show ?thesis by simp
    qed
  qed (use 1 in simp)
qed

lemma tokens_at_append [simp]: "tokens_at blk s (rs @ qs) = tokens_at blk s rs @ tokens_at blk s qs"
  by (simp add: tokens_at_def)

context block_source begin

lemma allocate_blocks_for_ok:
  assumes "inv s" and "follows s prev" and "0 < bsize s" and "length (chunk_list ts (bsize s)) \<le> avail s"
  shows "\<exists>rs t. allocate_blocks_for imms mut app (bsize s) prev ts s = (Inr rs, t) \<and> inv t \<and> bsize t = bsize s \<and>
    adds_blocks blk used s rs t \<and> tokens_at blk t rs = chunk_list ts (bsize s) \<and>
    avail s \<le> avail t + length (chunk_list ts (bsize s))"
proof -
  obtain full rest where c: "chunk_list ts (bsize s) = full @ rest" "\<forall>c \<in> set full. length c = bsize s"
    "\<forall>c \<in> set rest. length c < bsize s" "length rest \<le> 1"
    by (rule chunk_list_shape [OF assms(3)])
  have f: "filter (\<lambda>c. length c = bsize s) (chunk_list ts (bsize s)) = full"
    "filter (\<lambda>c. length c \<noteq> bsize s) (chunk_list ts (bsize s)) = rest"
    using c by (auto simp: filter_empty_conv filter_id_conv)
  have av: "length full + length rest \<le> avail s" using assms(4) c(1) by simp
  have "\<exists>rs t p. (if full = [] then retM [] else imms prev full) s = (Inr rs, t) \<and>
      (if full = [] then retM prev
       else bindM (fromM IndexError (if rs = [] then None else Some (last rs))) (\<lambda>r. retM (Some r))) t = (Inr p, t) \<and>
      inv t \<and> bsize t = bsize s \<and> adds_blocks blk used s rs t \<and> tokens_at blk t rs = full \<and>
      avail s \<le> avail t + length full \<and> linkable t p"
  proof (cases "full = []")
    case True
    then show ?thesis using assms(1,2) follows_linkable by (auto simp: run_simps tokens_at_def)
  next
    case False
    from imms_ok [OF assms(1,2) False c(2) _ assms(3)] av obtain rs t where
      t: "imms prev full s = (Inr rs, t)" "inv t" "bsize t = bsize s" "adds_blocks blk used s rs t"
        "tokens_at blk t rs = full" "avail s \<le> avail t + length full" "follows t (Some (last rs))" by auto
    have "rs \<noteq> []" using t(5) False by (auto simp: tokens_at_def)
    then show ?thesis using t False follows_linkable by (auto simp: run_simps)
  qed
  then obtain rs t p where
    t: "(if full = [] then retM [] else imms prev full) s = (Inr rs, t)"
      "(if full = [] then retM prev
        else bindM (fromM IndexError (if rs = [] then None else Some (last rs))) (\<lambda>r. retM (Some r))) t = (Inr p, t)"
      "inv t" "bsize t = bsize s" "adds_blocks blk used s rs t" "tokens_at blk t rs = full"
      "avail s \<le> avail t + length full" "linkable t p" by blast
  have run: "allocate_blocks_for imms mut app (bsize s) prev ts s =
    (if rest = [] then retM rs
     else thenM (assertM (length rest = 1)) (bindM (mut p) (\<lambda>r. thenM (app r (hd rest)) (retM (rs @ [r]))))) t"
    unfolding allocate_blocks_for_def Let_def f
    by (rule trans, rule bindM_step, rule t(1), rule bindM_step, rule t(2))
  show ?thesis
  proof (cases rest)
    case Nil
    then show ?thesis using t(3-7) c(1) run
      by (intro exI [of _ rs] exI [of _ t]) (simp add: retM_run)
  next
    case (Cons x xs)
    then have rest: "rest = [x]" "length x < bsize s" using c(3,4) by auto
    have "0 < avail t" using av t(7) rest(1) by simp
    from mut_ok [OF t(3,8) this] t(4) assms(3) obtain r u where
      u: "mut p t = (Inr r, u)" "inv u" "bsize u = bsize t" "adds_blocks blk used t [r] u" "fresh u r"
        "avail t \<le> Suc (avail u)" by auto
    from app_ok [OF u(2,5), of x] rest(2) t(4) u(3) obtain v where
      v: "app r x u = (Inr (), v)" "inv v" "bsize v = bsize u" "used v = used u" "avail v = avail u"
        "tokens_at blk v [r] = [x]" "b_block_id (blk v (addr r)) = b_block_id (blk u (addr r))"
        "\<forall>y. y \<noteq> addr r \<longrightarrow> blk v y = blk u y" by auto
    have one: "adds_blocks blk used t [r] v" by (rule app_adds [OF u(4) v(4,7,8)])
    have "addr ` set rs \<subseteq> used t" using t(5) by (auto simp: adds_blocks_def)
    from tokens_at_keep [OF one this] have "tokens_at blk v (rs @ [r]) = full @ [x]"
      using t(6) v(6) by simp
    moreover have "avail s \<le> avail v + length (full @ [x])" using t(7) u(6) v(5) by simp
    moreover have "allocate_blocks_for imms mut app (bsize s) prev ts s = (Inr (rs @ [r]), v)"
      using u(1) v(1) rest(1) by (simp add: run bindM_step thenM_step retM_run assertM_run)
    ultimately show ?thesis
      using adds_blocks_trans [OF t(5) one] v(2,3) u(3) t(4) c(1) rest(1) by auto
  qed
qed

end

subsection \<open>What a table holds\<close>

lemma bl_add_ids:
  assumes "\<forall>r \<in> set rs. f r \<noteq> None"
  shows "forM rs (\<lambda>r. bl_add_block_id (f r)) l = (Inr (), l\<lparr>bl_block_ids := bl_block_ids l @ map (the \<circ> f) rs\<rparr>)"
  using assms by (induction rs arbitrary: l) (auto simp: run_simps bl_add_block_id_def split: option.splits)

lemma bl_update_run:
  assumes "\<forall>r \<in> set rs. f r \<noteq> None"
  shows "bl_update f rs l = (Inr (), l\<lparr>bl_blocks := rs, bl_block_ids := map (the \<circ> f) rs\<rparr>)"
  using bl_add_ids [OF assms] by (simp add: bl_update_def run_simps)

text \<open>The table lists the tokens \<open>ts\<close> in blocks whose ids it knows.\<close>

definition table_holds :: "BlockTable \<Rightarrow> CpuGpu \<Rightarrow> int list \<Rightarrow> bool" where
  "table_holds t c ts \<longleftrightarrow> tb_get_all_token_ids t c = ts \<and> tb_num_full_slots t = length ts \<and>
     map Some (physical_block_ids t) = map (id_in c) (tb_list t)"

lemma tokens_in_at: "map (tokens_in c) rs = tokens_at (\<lambda>c a. heap c ! a) c rs"
  by (simp add: tokens_in_def tokens_at_def)

lemma table_holdsI:
  assumes "adds_blocks (\<lambda>c a. heap c ! a) used c rs c'" and "tokens_at (\<lambda>c a. heap c ! a) c' rs = chunk_list ts b"
    and "0 < b" and "ts \<noteq> []"
    and "tb_blocks t = \<lparr>bl_blocks = rs, bl_block_ids = map (the \<circ> id_in c') rs\<rparr>" and "tb_num_full_slots t = length ts"
  shows "table_holds t c' ts"
proof -
  have "length rs = length (chunk_list ts b)" using arg_cong [OF assms(2), of length] by (simp add: tokens_at_def)
  then have "rs \<noteq> []" using assms(3,4) by (auto simp: chunk_list_step)
  moreover have "\<forall>r \<in> set rs. id_in c' r \<noteq> None" using assms(1) by (auto simp: adds_blocks_def id_in_def)
  ultimately show ?thesis
    using assms(2,3,5,6)
    by (auto simp: table_holds_def tb_get_all_token_ids_def is_allocated_def bl_len_def tb_list_def physical_block_ids_def
        tokens_in_at concat_chunk_list)
qed

lemma table_allocate_run:
  assumes "device_ok d c" and "tb_block_size t = device_bsize d c" and "0 < tb_block_size t"
    and "\<not> is_allocated t" and "ts \<noteq> []"
    and "get_num_required_blocks ts (tb_block_size t) 0 \<le> int (cg_get_num_free_blocks d c)"
  obtains rs c' where
    "tb_allocate H ts d (t, c) = (Inr (), (t\<lparr>tb_blocks := \<lparr>bl_blocks = rs, bl_block_ids = map (the \<circ> id_in c') rs\<rparr>,
       tb_num_full_slots := length ts\<rparr>, c'))"
    "device_ok d c'" "device_bsize d c' = device_bsize d c"
    "adds_blocks (\<lambda>c a. heap c ! a) (device_used d) c rs c'"
    "tokens_at (\<lambda>c a. heap c ! a) c' rs = chunk_list ts (tb_block_size t)"
    "int (cg_get_num_free_blocks d c) \<le> int (cg_get_num_free_blocks d c') + get_num_required_blocks ts (tb_block_size t) 0"
proof -
  have pos: "0 < device_bsize d c" using assms(2,3) by simp
  have av: "length (chunk_list ts (device_bsize d c)) \<le> cg_get_num_free_blocks d c"
    using assms(6) pos by (simp add: get_num_required_blocks_def cdiv_nat length_chunk_list assms(2))
  have "device_follows d c None" by (rule device_source.first_follows)
  from device_source.allocate_blocks_for_ok [OF assms(1) this pos av] obtain rs c' where
    c': "allocate_blocks_for_token_ids H (tb_block_size t) None ts d c = (Inr rs, c')"
      "device_ok d c'" "device_bsize d c' = device_bsize d c"
      "adds_blocks (\<lambda>c a. heap c ! a) (device_used d) c rs c'"
      "tokens_at (\<lambda>c a. heap c ! a) c' rs = chunk_list ts (device_bsize d c)"
      "cg_get_num_free_blocks d c \<le> cg_get_num_free_blocks d c' + length (chunk_list ts (device_bsize d c))"
    unfolding allocate_blocks_for_token_ids_def assms(2) by blast
  have ids: "\<forall>r \<in> set rs. id_in c' r \<noteq> None" using c'(4) by (auto simp: adds_blocks_def id_in_def)
  have "tb_allocate H ts d (t, c) = (Inr (), (t\<lparr>tb_blocks := \<lparr>bl_blocks = rs, bl_block_ids = map (the \<circ> id_in c') rs\<rparr>,
       tb_num_full_slots := length ts\<rparr>, c'))"
    using c'(1) assms(4,5) bl_update_run [OF ids, of "tb_blocks t"]
    by (simp add: tb_allocate_def getM_run thenM_run bindM_run assertM_run cgM_def zoomM_run tb_update_def listM_def modM_run)
  moreover have "int (cg_get_num_free_blocks d c) \<le> int (cg_get_num_free_blocks d c') + get_num_required_blocks ts (tb_block_size t) 0"
    using c'(6) pos by (simp add: get_num_required_blocks_def cdiv_nat length_chunk_list assms(2))
  ultimately show thesis using that c'(2-5) assms(2) by simp
qed

text \<open>
  C13. Allocating a table for the tokens of a prompt succeeds whenever the device has the number
  of free blocks \<open>get_num_required_blocks\<close> announces, with either class of allocator and whatever
  is cached. The table then holds exactly the prompt's tokens, in that many new block objects,
  with their ids in order; blocks of other tables are untouched.
\<close>
theorem table_allocate_holds:
  assumes "device_ok d c" and "tb_block_size t = device_bsize d c" and "0 < tb_block_size t"
    and "\<not> is_allocated t" and "ts \<noteq> []"
    and "get_num_required_blocks ts (tb_block_size t) 0 \<le> int (cg_get_num_free_blocks d c)"
  shows "\<exists>t' c'. tb_allocate H ts d (t, c) = (Inr (), (t', c')) \<and> table_holds t' c' ts \<and>
    int (length (tb_list t')) = get_num_required_blocks ts (tb_block_size t) 0 \<and>
    adds_blocks (\<lambda>c a. heap c ! a) (device_used d) c (tb_list t') c' \<and> device_ok d c' \<and>
    int (cg_get_num_free_blocks d c) \<le> int (cg_get_num_free_blocks d c') + int (length (tb_list t'))"
proof -
  from table_allocate_run [OF assms, of H] obtain rs c' where
    c': "tb_allocate H ts d (t, c) = (Inr (), (t\<lparr>tb_blocks := \<lparr>bl_blocks = rs, bl_block_ids = map (the \<circ> id_in c') rs\<rparr>,
       tb_num_full_slots := length ts\<rparr>, c'))"
    "device_ok d c'" "device_bsize d c' = device_bsize d c"
    "adds_blocks (\<lambda>c a. heap c ! a) (device_used d) c rs c'"
    "tokens_at (\<lambda>c a. heap c ! a) c' rs = chunk_list ts (tb_block_size t)"
    "int (cg_get_num_free_blocks d c) \<le> int (cg_get_num_free_blocks d c') + get_num_required_blocks ts (tb_block_size t) 0" .
  have len: "length rs = length (chunk_list ts (tb_block_size t))"
    using arg_cong [OF c'(5), of length] by (simp add: tokens_at_def)
  have "table_holds (t\<lparr>tb_blocks := \<lparr>bl_blocks = rs, bl_block_ids = map (the \<circ> id_in c') rs\<rparr>,
       tb_num_full_slots := length ts\<rparr>) c' ts"
    by (rule table_holdsI [OF c'(4,5) assms(3,5)]) simp_all
  moreover have "int (length rs) = get_num_required_blocks ts (tb_block_size t) 0"
    using assms(3) by (simp add: len get_num_required_blocks_def cdiv_nat length_chunk_list)
  ultimately show ?thesis using c' by (auto simp: tb_list_def)
qed


text \<open>Two allocators with four GPU blocks of two tokens, and an empty table.\<close>

definition ex_cg :: CpuGpu where
  "ex_cg = snd (cg_create ''prefix_caching'' 4 1 2 blank_cg)"

definition ex_table :: BlockTable where
  "ex_table = \<lparr>tb_block_size = 2, tb_blocks = \<lparr>bl_blocks = [], bl_block_ids = []\<rparr>,
     tb_max_block_sliding_window = None, tb_num_full_slots = 0, tb_cache_namespace = None\<rparr>"

lemma ex_cg_new: "device_new GPU 2 [0..<4] ex_cg"
proof -
  have pos: "0 < (4::nat)" "0 < (1::nat)" by simp_all
  have ty: "''prefix_caching'' = (if True then ''prefix_caching'' else ''naive'')" by simp
  from create_run [OF pos ty, of 2 blank_cg] obtain t where
    t: "cg_create ''prefix_caching'' 4 1 2 blank_cg = (Inr (), t)"
    "device_new GPU 2 [0..<4] t" "device_new CPU 2 [4..<4 + 1] t"
    "block_ids_to_allocator t = (\<lambda>i. if i < 4 then Some GPU else if i < 4 + 1 then Some CPU else None)"
    "swap_mapping t = []" "null_block t = None" .
  then show ?thesis by (simp add: ex_cg_def)
qed

lemma ex_cg_ok: "device_ok GPU ex_cg" "device_bsize GPU ex_cg = 2" "cg_get_num_free_blocks GPU ex_cg = 4"
  using ex_cg_new by (simp_all add: device_new_def)

lemma ex_table_facts: "\<not> is_allocated ex_table" "tb_block_size ex_table = 2"
  by (simp_all add: ex_table_def is_allocated_def bl_len_def)

theorem table_allocate_holds_witness:
  "\<exists>t' c'. tb_allocate ex_hash [5, 6, 7] GPU (ex_table, ex_cg) = (Inr (), (t', c')) \<and> table_holds t' c' [5, 6, 7] \<and>
    int (length (tb_list t')) = get_num_required_blocks [5, 6, 7] (tb_block_size ex_table) 0 \<and>
    adds_blocks (\<lambda>c a. heap c ! a) (device_used GPU) ex_cg (tb_list t') c' \<and> device_ok GPU c' \<and>
    int (cg_get_num_free_blocks GPU ex_cg) \<le> int (cg_get_num_free_blocks GPU c') + int (length (tb_list t'))"
  by (rule table_allocate_holds [OF ex_cg_ok(1)])
    (simp_all add: ex_table_facts ex_cg_ok get_num_required_blocks_def cdiv_def)

subsection \<open>How many blocks an append touches\<close>

lemma ceiling_quotient: "0 < b \<Longrightarrow> \<lceil>(of_int a :: rat) / of_nat b\<rceil> = - (- a div int b)"
  using ceiling_divide_eq_div [of a "int b", where ?'a = rat] by simp

lemma touched_arith:
  assumes "0 < m" and "0 < f" and "f \<le> (b::nat)"
  shows "1 - ((int f - int m) div int b) = int (Suc ((m - f + b - 1) div b))"
proof (cases "m \<le> f")
  case True
  then have "0 \<le> int f - int m" "int f - int m < int b" using assms by linarith+
  then have "(int f - int m) div int b = 0" by (rule div_pos_pos_trivial)
  moreover have "(m - f + b - 1) div b = 0" using True assms by (intro div_less) linarith
  ultimately show ?thesis by (simp only: of_nat_Suc of_nat_0)
next
  case False
  then have e: "int f - int m = - int (m - f)" by linarith
  have "(int f - int m) div int b = - cdiv (int (m - f)) (int b)"
    unfolding e cdiv_def by (simp only: div_minus_right minus_minus)
  moreover have "cdiv (int (m - f)) (int b) = int ((m - f + b - 1) div b)" using assms by (intro cdiv_nat) linarith
  ultimately show ?thesis by (simp only: of_nat_Suc)
qed

text \<open>
  C14. \<open>get_num_blocks_touched_by_append_slots\<close> is the number of chunks
  \<open>_chunk_token_blocks_for_append\<close> makes of the tokens followed by the lookahead slots, as the
  comment above its formula says, except for an append of nothing to a table whose last block is
  partly filled: the formula gives one block where no chunk is made.
\<close>
theorem touched_counts_chunks:
  assumes "0 < tb_block_size t"
  shows "get_num_blocks_touched_by_append_slots t ts n =
    (if ts = [] \<and> n = 0 \<and> tb_num_full_slots t mod tb_block_size t \<noteq> 0 then 1
     else int (length (chunk_token_blocks_for_append t (ts @ replicate n (-1)))))"
proof -
  let ?b = "tb_block_size t" and ?f = "tb_block_size t - tb_num_full_slots t mod tb_block_size t"
  let ?m = "length ts + n"
  have f: "0 < ?f" "?f \<le> ?b" using assms by simp_all
  have touched: "get_num_blocks_touched_by_append_slots t ts n = 1 - ((int ?f - int ?m) div int ?b)"
    using ceiling_quotient [OF assms, of "int ?m - int ?f"]
    by (simp add: get_num_blocks_touched_by_append_slots_def Let_def)
  show ?thesis
  proof (cases "?m = 0")
    case True
    then have empty: "ts = []" "n = 0" by simp_all
    have "int ?f div int ?b = (if tb_num_full_slots t mod ?b = 0 then 1 else 0)"
      using assms f by (auto simp flip: zdiv_int)
    then show ?thesis using touched empty by (simp add: chunk_token_blocks_for_append_def)
  next
    case False
    have len: "length (chunk_token_blocks_for_append t (ts @ replicate n (-1))) = Suc ((?m - ?f + ?b - 1) div ?b)"
      using False assms by (simp add: chunk_token_blocks_for_append_def Let_def length_chunk_list del: drop_append)
    have "0 < ?m" using False by simp
    from touched_arith [OF this f] have "get_num_blocks_touched_by_append_slots t ts n =
        int (length (chunk_token_blocks_for_append t (ts @ replicate n (-1))))"
      unfolding touched len .
    moreover have "\<not> (ts = [] \<and> n = 0 \<and> tb_num_full_slots t mod ?b \<noteq> 0)" using False by simp
    ultimately show ?thesis by (simp only: if_False)
  qed
qed

theorem touched_counts_chunks_witness:
  "get_num_blocks_touched_by_append_slots (ex_table\<lparr>tb_num_full_slots := 3\<rparr>) [] 0 =
    (if ([] :: int list) = [] \<and> (0::nat) = 0 \<and>
        tb_num_full_slots (ex_table\<lparr>tb_num_full_slots := 3\<rparr>) mod tb_block_size (ex_table\<lparr>tb_num_full_slots := 3\<rparr>) \<noteq> 0
     then 1
     else int (length (chunk_token_blocks_for_append (ex_table\<lparr>tb_num_full_slots := 3\<rparr>) ([] @ replicate 0 (-1)))))"
  by (rule touched_counts_chunks) (simp add: ex_table_def)

end
