(* ===== verification/CacheNamespace.thy ===== *)
theory CacheNamespace
  imports Prelude "HOL-Library.List_Lexorder"
begin

section \<open>Cache namespaces (\<open>vllm/core/block_manager_v2.py\<close>)\<close>

text \<open>
  The block manager gives every request a digest of what its cached blocks may depend on besides
  their tokens: the model, the adapters and the multi-modal inputs. A digest object is the bytes
  it was updated with; \<open>D\<close> stands for the digest of them (SHA-256). Bytes are numbers below 256,
  text is the list of its code points.

  A multi-modal value is what the encoder reads of it: of a tensor its shape, the text of its
  dtype and its bytes (none when they cannot be viewed), of an image its mode, sizes, bytes,
  palette mode, palette and transparency. \<open>MM_Other\<close> is any other object.
\<close>

type_synonym bytes = "nat list"
type_synonym ptext = "nat list"

datatype MMValue =
    MM_None
  | MM_Map "(MMValue \<times> MMValue) list"
  | MM_List "MMValue list"
  | MM_Tuple "MMValue list"
  | MM_Str ptext
  | MM_Bytes bytes
  | MM_Bytearray bytes
  | MM_Bool bool
  | MM_Int int
  | MM_Float nat
  | MM_Tensor "nat list" ptext "bytes option"
  | MM_Image ptext nat nat bytes MMValue MMValue MMValue
  | MM_Other

subsection \<open>The library's encodings\<close>

definition ascii :: "string \<Rightarrow> bytes" where
  "ascii s = map of_char s"

text \<open>The characters of a source text, as code points.\<close>

definition text_of :: "string \<Rightarrow> ptext" where
  "text_of s = map of_char s"

definition utf8_char :: "nat \<Rightarrow> bytes" where
  "utf8_char c =
     (if c < 128 then [c]
      else if c < 2048 then [192 + c div 64, 128 + c mod 64]
      else if c < 65536 then [224 + c div 4096, 128 + c div 64 mod 64, 128 + c mod 64]
      else [240 + c div 262144, 128 + c div 4096 mod 64, 128 + c div 64 mod 64, 128 + c mod 64])"

text \<open>\<open>str.encode\<close> refuses lone surrogates with a \<open>ValueError\<close>.\<close>

definition utf8 :: "ptext \<Rightarrow> exn + bytes" where
  "utf8 s = (if \<exists>c \<in> set s. 55296 \<le> c \<and> c < 57344 then Inl ValueError else Inr (concat (map utf8_char s)))"

fun be_bytes :: "nat \<Rightarrow> nat \<Rightarrow> bytes" where
  "be_bytes 0 n = []"
| "be_bytes (Suc k) n = be_bytes k (n div 256) @ [n mod 256]"

text \<open>\<open>struct.pack\<close> of an unsigned number, eight or four bytes wide.\<close>

definition pack_Q :: "nat \<Rightarrow> exn + bytes" where
  "pack_Q n = (if n < 256 ^ 8 then Inr (be_bytes 8 n) else Inl StructError)"

definition pack_I :: "nat \<Rightarrow> exn + bytes" where
  "pack_I n = (if n < 256 ^ 4 then Inr (be_bytes 4 n) else Inl StructError)"

fun decimal :: "nat \<Rightarrow> bytes" where
  "decimal n = (if n < 10 then [48 + n] else decimal (n div 10) @ [48 + n mod 10])"

declare decimal.simps [simp del]

text \<open>\<open>str\<close> of an integer; the interpreter refuses more than 4300 digits.\<close>

definition str_int :: "int \<Rightarrow> exn + bytes" where
  "str_int i = (let ds = decimal (nat \<bar>i\<bar>) in
     if 4300 < length ds then Inl ValueError else Inr (if i < 0 then 45 # ds else ds))"

subsection \<open>Updates of a digest\<close>

text \<open>Successive updates of a digest; the first one that raises ends them.\<close>

fun updates :: "(exn + bytes) list \<Rightarrow> exn + bytes" where
  "updates [] = Inr []"
| "updates (u # us) = (case u of
     Inl e \<Rightarrow> Inl e
   | Inr b \<Rightarrow> (case updates us of Inl e \<Rightarrow> Inl e | Inr c \<Rightarrow> Inr (b @ c)))"

text \<open>The length of the encoded text, then the text.\<close>

definition sized :: "exn + bytes \<Rightarrow> exn + bytes" where
  "sized u = (case u of Inl e \<Rightarrow> Inl e | Inr b \<Rightarrow> updates [pack_Q (length b), Inr b])"

text \<open>\<open>R\<close> is Python's \<open>repr\<close>, by which the keys of a mapping are sorted.\<close>

definition sort_map_keys :: "(MMValue \<Rightarrow> ptext) \<Rightarrow> (MMValue \<times> MMValue) list \<Rightarrow> (MMValue \<times> MMValue) list" where
  "sort_map_keys R kvs = sort_key (R \<circ> fst) kvs"

lemma set_sort_map_keys [simp]: "set (sort_map_keys R kvs) = set kvs"
  by (simp add: sort_map_keys_def)

lemma size_map_entry:
  assumes "(k, v) \<in> set kvs"
  shows "size k < Suc (size_list (size_prod size size) kvs)" and "size v < Suc (size_list (size_prod size size) kvs)"
  using assms by (induction kvs) auto

lemma size_item: "x \<in> set vs \<Longrightarrow> size x < Suc (size_list size vs)"
  by (induction vs) auto

function hash_multi_modal_obj :: "(MMValue \<Rightarrow> ptext) \<Rightarrow> MMValue \<Rightarrow> exn + bytes" where
  "hash_multi_modal_obj R MM_None = Inr (ascii ''none|'')"
| "hash_multi_modal_obj R (MM_Map kvs) = updates (Inr (ascii ''map|'') # pack_Q (length kvs) #
     concat (map (\<lambda>(k, v). [Inr (ascii ''k|''), hash_multi_modal_obj R k,
                            Inr (ascii ''v|''), hash_multi_modal_obj R v]) (sort_map_keys R kvs)))"
| "hash_multi_modal_obj R (MM_List vs) =
     updates (Inr (ascii ''list|'') # pack_Q (length vs) # map (hash_multi_modal_obj R) vs)"
| "hash_multi_modal_obj R (MM_Tuple vs) =
     updates (Inr (ascii ''tuple|'') # pack_Q (length vs) # map (hash_multi_modal_obj R) vs)"
| "hash_multi_modal_obj R (MM_Str s) = (case utf8 s of Inl e \<Rightarrow> Inl e | Inr b \<Rightarrow>
     updates [Inr (ascii ''str|''), sized (Inr b)])"
| "hash_multi_modal_obj R (MM_Bytes b) = updates [Inr (ascii ''bytes|''), sized (Inr b)]"
| "hash_multi_modal_obj R (MM_Bytearray b) = updates [Inr (ascii ''bytes|''), sized (Inr b)]"
| "hash_multi_modal_obj R (MM_Bool b) = Inr (ascii ''bool|'' @ (if b then ascii ''1'' else ascii ''0''))"
| "hash_multi_modal_obj R (MM_Int i) = updates [Inr (ascii ''int|''), str_int i]"
| "hash_multi_modal_obj R (MM_Float x) = updates [Inr (ascii ''float|''), Inr (be_bytes 8 x)]"
| "hash_multi_modal_obj R (MM_Tensor shape dtype data) =
     updates (Inr (ascii ''tensor|'') # pack_Q (length shape) # map pack_Q shape @
       [utf8 dtype, case data of None \<Rightarrow> Inl RuntimeError | Some b \<Rightarrow> sized (Inr b)])"
| "hash_multi_modal_obj R (MM_Image mode w h b palette_mode palette transparency) =
     updates [Inr (ascii ''image|''), utf8 mode, updates [pack_I w, pack_I h], sized (Inr b),
       Inr (ascii ''palette-mode|''), hash_multi_modal_obj R palette_mode,
       Inr (ascii ''palette|''), hash_multi_modal_obj R palette,
       Inr (ascii ''transparency|''), hash_multi_modal_obj R transparency]"
| "hash_multi_modal_obj R MM_Other = Inl TypeError"
  by pat_completeness auto

termination
  by (relation "measure (\<lambda>(R, v). size v)") (auto simp: size_map_entry size_item)

definition hash_multi_modal_namespace :: "(bytes \<Rightarrow> bytes) \<Rightarrow> (MMValue \<Rightarrow> ptext) \<Rightarrow> MMValue \<Rightarrow> exn + bytes" where
  "hash_multi_modal_namespace D R v = map_sum id D (hash_multi_modal_obj R v)"

definition has_multi_modal_payload :: "MMValue \<Rightarrow> bool" where
  "has_multi_modal_payload v = (case v of MM_None \<Rightarrow> False | MM_Map kvs \<Rightarrow> 0 < length kvs | _ \<Rightarrow> True)"

subsection \<open>The encoding determines the value\<close>

text \<open>
  What is encoded: maps in the order they are walked, and no byte arrays, which are encoded as
  bytes. \<open>wire\<close> encodes such a value.
\<close>

function canonical :: "(MMValue \<Rightarrow> ptext) \<Rightarrow> MMValue \<Rightarrow> MMValue" where
  "canonical R (MM_Map kvs) = MM_Map (map (\<lambda>(k, v). (canonical R k, canonical R v)) (sort_map_keys R kvs))"
| "canonical R (MM_List vs) = MM_List (map (canonical R) vs)"
| "canonical R (MM_Tuple vs) = MM_Tuple (map (canonical R) vs)"
| "canonical R (MM_Bytearray b) = MM_Bytes b"
| "canonical R (MM_Image mode w h b pm p tr) = MM_Image mode w h b (canonical R pm) (canonical R p) (canonical R tr)"
| "canonical R MM_None = MM_None"
| "canonical R (MM_Str s) = MM_Str s"
| "canonical R (MM_Bytes b) = MM_Bytes b"
| "canonical R (MM_Bool x) = MM_Bool x"
| "canonical R (MM_Int i) = MM_Int i"
| "canonical R (MM_Float x) = MM_Float x"
| "canonical R (MM_Tensor sh dt d) = MM_Tensor sh dt d"
| "canonical R MM_Other = MM_Other"
  by pat_completeness auto
termination
  by (relation "measure (\<lambda>(R, v). size v)") (auto simp: size_map_entry size_item)

fun wire :: "MMValue \<Rightarrow> exn + bytes" where
  "wire MM_None = Inr (ascii ''none|'')"
| "wire (MM_Map kvs) = updates (Inr (ascii ''map|'') # pack_Q (length kvs) #
     concat (map (\<lambda>(k, v). [Inr (ascii ''k|''), wire k, Inr (ascii ''v|''), wire v]) kvs))"
| "wire (MM_List vs) = updates (Inr (ascii ''list|'') # pack_Q (length vs) # map wire vs)"
| "wire (MM_Tuple vs) = updates (Inr (ascii ''tuple|'') # pack_Q (length vs) # map wire vs)"
| "wire (MM_Str s) = (case utf8 s of Inl e \<Rightarrow> Inl e | Inr b \<Rightarrow> updates [Inr (ascii ''str|''), sized (Inr b)])"
| "wire (MM_Bytes b) = updates [Inr (ascii ''bytes|''), sized (Inr b)]"
| "wire (MM_Bytearray b) = updates [Inr (ascii ''bytes|''), sized (Inr b)]"
| "wire (MM_Bool b) = Inr (ascii ''bool|'' @ (if b then ascii ''1'' else ascii ''0''))"
| "wire (MM_Int i) = updates [Inr (ascii ''int|''), str_int i]"
| "wire (MM_Float x) = updates [Inr (ascii ''float|''), Inr (be_bytes 8 x)]"
| "wire (MM_Tensor shape dtype data) =
     updates (Inr (ascii ''tensor|'') # pack_Q (length shape) # map pack_Q shape @
       [utf8 dtype, case data of None \<Rightarrow> Inl RuntimeError | Some b \<Rightarrow> sized (Inr b)])"
| "wire (MM_Image mode w h b pm p tr) =
     updates [Inr (ascii ''image|''), utf8 mode, updates [pack_I w, pack_I h], sized (Inr b),
       Inr (ascii ''palette-mode|''), wire pm, Inr (ascii ''palette|''), wire p,
       Inr (ascii ''transparency|''), wire tr]"
| "wire MM_Other = Inl TypeError"

lemma hash_wire: "hash_multi_modal_obj R v = wire (canonical R v)"
proof (induction R v rule: hash_multi_modal_obj.induct)
  case (2 R kvs)
  have "map (\<lambda>(k, v). [Inr (ascii ''k|''), hash_multi_modal_obj R k,
      Inr (ascii ''v|''), hash_multi_modal_obj R v]) (sort_map_keys R kvs) =
    map ((\<lambda>(k, v). [Inr (ascii ''k|''), wire k, Inr (ascii ''v|''), wire v]) \<circ>
      (\<lambda>(k, v). (canonical R k, canonical R v))) (sort_map_keys R kvs)"
    using 2 by (auto intro!: map_cong)
  then show ?case
    by (simp only: hash_multi_modal_obj.simps canonical.simps wire.simps map_map length_map) (simp only: sort_map_keys_def length_sort)
qed (simp_all cong: map_cong)

text \<open>Values the encoder can meet: no embedded zero in the names of dtypes and image modes, and sizes below \<open>2^56\<close>.\<close>

fun mm_ok :: "MMValue \<Rightarrow> bool" where
  "mm_ok (MM_Map kvs) = (\<forall>(k, v) \<in> set kvs. mm_ok k \<and> mm_ok v)"
| "mm_ok (MM_List vs) = (\<forall>v \<in> set vs. mm_ok v)"
| "mm_ok (MM_Tuple vs) = (\<forall>v \<in> set vs. mm_ok v)"
| "mm_ok (MM_Float x) = (x < 256 ^ 8)"
| "mm_ok (MM_Tensor shape dtype data) = (0 \<notin> set dtype \<and> (\<forall>b. data = Some b \<longrightarrow> length b < 256 ^ 7))"
| "mm_ok (MM_Image mode w h b pm p tr) = (0 \<notin> set mode \<and> w < 256 ^ 3 \<and> mm_ok pm \<and> mm_ok p \<and> mm_ok tr)"
| "mm_ok v = True"

lemma updates_ok [simp]: "updates (u # us) = Inr b \<longleftrightarrow> (\<exists>x y. u = Inr x \<and> updates us = Inr y \<and> b = x @ y)"
  by (auto split: sum.splits)

lemma updates_append_ok: "updates (us @ ws) = Inr b \<longleftrightarrow> (\<exists>x y. updates us = Inr x \<and> updates ws = Inr y \<and> b = x @ y)"
  by (induction us arbitrary: b) (auto simp del: updates.simps(2))

lemma length_be_bytes [simp]: "length (be_bytes k n) = k"
  by (induction k arbitrary: n) auto

lemma be_bytes_inj: "be_bytes k n = be_bytes k m \<Longrightarrow> n < 256 ^ k \<Longrightarrow> m < 256 ^ k \<Longrightarrow> n = m"
proof (induction k arbitrary: n m)
  case (Suc k)
  from Suc.prems have "n div 256 = m div 256" "n mod 256 = m mod 256"
    by (auto intro!: Suc.IH simp: less_mult_imp_div_less mult.commute)
  then show ?case by (metis div_mult_mod_eq)
qed simp

lemma be_bytes_zero: "n < 256 ^ k \<Longrightarrow> be_bytes (Suc k) n = 0 # be_bytes k n"
proof (induction k arbitrary: n)
  case (Suc k)
  then have "n div 256 < 256 ^ k" by (auto simp: less_mult_imp_div_less mult.commute)
  from Suc.IH [OF this] show ?case by simp
qed simp

lemma pack_Q_ok: "pack_Q n = Inr b \<longleftrightarrow> n < 256 ^ 8 \<and> b = be_bytes 8 n"
  by (auto simp: pack_Q_def)

lemma pack_I_ok: "pack_I n = Inr b \<longleftrightarrow> n < 256 ^ 4 \<and> b = be_bytes 4 n"
  by (auto simp: pack_I_def)

lemma sized_ok: "sized (Inr b) = Inr x \<longleftrightarrow> length b < 256 ^ 8 \<and> x = be_bytes 8 (length b) @ b"
  by (auto simp: sized_def pack_Q_ok simp del: updates.simps(2))

lemma pack_split:
  assumes "be_bytes k n @ r = be_bytes k m @ s" and "n < 256 ^ k" and "m < 256 ^ k"
  shows "n = m" and "r = s"
  using assms be_bytes_inj by auto

lemma sized_split:
  assumes "sized (Inr b) = Inr x" and "sized (Inr c) = Inr y" and "x @ r = y @ s"
  shows "b = c" and "r = s"
proof -
  from assms have *: "be_bytes 8 (length b) @ b @ r = be_bytes 8 (length c) @ c @ s" "length b < 256 ^ 8" "length c < 256 ^ 8"
    by (auto simp: sized_ok)
  from pack_split [OF this] show "b = c" "r = s" by simp_all
qed


text \<open>Numbers end where the next tag begins, since no tag begins with a digit.\<close>

definition no_digit :: "bytes \<Rightarrow> bool" where
  "no_digit r \<longleftrightarrow> r = [] \<or> hd r < 48 \<or> 57 < hd r"

lemma decimal_small: "n < 10 \<Longrightarrow> decimal n = [48 + n]"
  by (subst decimal.simps) simp

lemma decimal_step: "\<not> n < 10 \<Longrightarrow> decimal n = decimal (n div 10) @ [48 + n mod 10]"
  by (subst decimal.simps) simp

lemma decimal_digits: "(\<forall>d \<in> set (decimal n). 48 \<le> d \<and> d \<le> 57) \<and> decimal n \<noteq> []"
proof (induction n rule: decimal.induct)
  case (1 n)
  then show ?case by (cases "n < 10") (auto simp: decimal_small decimal_step)
qed

lemma decimal_value: "foldl (\<lambda>a d. a * 10 + (d - 48)) 0 (decimal n) = n"
proof (induction n rule: decimal.induct)
  case (1 n)
  then show ?case by (cases "n < 10") (simp_all add: decimal_small decimal_step)
qed

lemma digits_split:
  assumes "xs @ r = ys @ s" and "\<forall>d \<in> set xs. 48 \<le> d \<and> d \<le> 57" and "\<forall>d \<in> set ys. 48 \<le> d \<and> d \<le> (57::nat)"
    and "no_digit r" and "no_digit s"
  shows "xs = ys \<and> r = s"
  using assms
proof (induction xs arbitrary: ys)
  case Nil
  then show ?case by (cases ys) (auto simp: no_digit_def)
next
  case (Cons x xs)
  then show ?case by (cases ys) (auto simp: no_digit_def)
qed

lemma decimal_split:
  assumes "decimal n @ r = decimal m @ s" and "no_digit r" and "no_digit s"
  shows "n = m \<and> r = s"
proof -
  have "decimal n = decimal m \<and> r = s"
    using digits_split [OF assms(1) conjunct1 [OF decimal_digits] conjunct1 [OF decimal_digits] assms(2,3)] .
  then show ?thesis by (metis decimal_value)
qed

lemma minus_not_digit: "decimal n @ q \<noteq> 45 # p" "45 # p \<noteq> decimal n @ q"
  using decimal_digits [of n] by (cases "decimal n"; auto)+

lemma str_int_split:
  assumes "str_int i = Inr x" and "str_int j = Inr y" and "x @ r = y @ s" and "no_digit r" and "no_digit s"
  shows "i = j \<and> r = s"
proof -
  have x: "x = (if i < 0 then [45] else []) @ decimal (nat \<bar>i\<bar>)" and y: "y = (if j < 0 then [45] else []) @ decimal (nat \<bar>j\<bar>)"
    using assms(1,2) by (auto simp: str_int_def Let_def split: if_splits)
  have sign: "(i < 0) = (j < 0)"
    using assms(3) unfolding x y by (cases "i < 0"; cases "j < 0") (simp_all add: minus_not_digit)
  then have "decimal (nat \<bar>i\<bar>) @ r = decimal (nat \<bar>j\<bar>) @ s"
    using assms(3) unfolding x y by (cases "j < 0") simp_all
  from decimal_split [OF this assms(4,5)] sign show ?thesis by auto
qed

text \<open>UTF-8 is prefix free.\<close>

definition utf8_first :: "bytes \<Rightarrow> nat \<times> bytes" where
  "utf8_first x = (let a = x ! 0 in
     if a < 128 then (a, drop 1 x)
     else if a < 224 then ((a - 192) * 64 + (x ! 1 - 128), drop 2 x)
     else if a < 240 then ((a - 224) * 4096 + (x ! 1 - 128) * 64 + (x ! 2 - 128), drop 3 x)
     else ((a - 240) * 262144 + (x ! 1 - 128) * 4096 + (x ! 2 - 128) * 64 + (x ! 3 - 128), drop 4 x))"

lemma utf8_first: "utf8_first (utf8_char c @ r) = (c, r)"
proof -
  have d: "c div 64 div 64 = c div 4096" "c div 4096 div 64 = c div 262144" by (simp_all flip: div_mult2_eq)
  have 1: "c div 64 * 64 + c mod 64 = c" by simp
  have 2: "c div 4096 * 64 + c div 64 mod 64 = c div 64"
    using div_mult_mod_eq [of "c div 64" 64] by (simp only: d)
  have 3: "c div 262144 * 64 + c div 4096 mod 64 = c div 4096"
    using div_mult_mod_eq [of "c div 4096" 64] by (simp only: d)
  consider "c < 128" | "128 \<le> c" "c < 2048" | "2048 \<le> c" "c < 65536" | "65536 \<le> c" by linarith
  then show ?thesis
  proof cases
    case 2
    then have "c div 64 < 32" by simp
    then show ?thesis using 2 by (simp add: utf8_first_def utf8_char_def Let_def)
  next
    case 3
    then have "c div 4096 < 16" by simp
    then have "utf8_first (utf8_char c @ r) = (c div 4096 * 4096 + c div 64 mod 64 * 64 + c mod 64, r)"
      using 3 by (simp add: utf8_first_def utf8_char_def)
    moreover have "c div 4096 * 4096 + c div 64 mod 64 * 64 + c mod 64 = c" using 1 2 by linarith
    ultimately show ?thesis by simp
  next
    case 4
    have "utf8_first (utf8_char c @ r) =
        (c div 262144 * 262144 + c div 4096 mod 64 * 4096 + c div 64 mod 64 * 64 + c mod 64, r)"
      using 4 by (simp add: utf8_first_def utf8_char_def)
    moreover have "c div 262144 * 262144 + c div 4096 mod 64 * 4096 + c div 64 mod 64 * 64 + c mod 64 = c"
      using \<open>c div 64 * 64 + c mod 64 = c\<close> \<open>c div 4096 * 64 + c div 64 mod 64 = c div 64\<close>
        \<open>c div 262144 * 64 + c div 4096 mod 64 = c div 4096\<close> by linarith
    ultimately show ?thesis by simp
  qed (simp_all add: utf8_first_def utf8_char_def)
qed

lemma utf8_char_split:
  assumes "utf8_char c @ r = utf8_char d @ s"
  shows "c = d \<and> r = s"
  using arg_cong [OF assms, of utf8_first] by (simp add: utf8_first)

lemma utf8_split:
  assumes "concat (map utf8_char xs) = concat (map utf8_char ys)"
  shows "xs = ys"
  using assms
proof (induction xs arbitrary: ys)
  case Nil
  then show ?case by (cases ys) (auto simp: utf8_char_def split: if_splits)
next
  case (Cons x xs)
  then show ?case
  proof (cases ys)
    case Nil
    with Cons.prems show ?thesis by (simp add: utf8_char_def split: if_splits)
  next
    case (Cons y zs)
    with Cons.prems have "utf8_char x @ concat (map utf8_char xs) = utf8_char y @ concat (map utf8_char zs)" by simp
    from utf8_char_split [OF this] show ?thesis using Cons.IH Cons by simp
  qed
qed

lemma utf8_ok: "utf8 s = Inr b \<Longrightarrow> b = concat (map utf8_char s)"
  by (auto simp: utf8_def split: if_splits)

lemma utf8_inj: "utf8 s = Inr b \<Longrightarrow> utf8 u = Inr b \<Longrightarrow> s = u"
  by (auto dest!: utf8_ok intro: utf8_split)

lemma utf8_nonzero:
  assumes "utf8 s = Inr b" and "0 \<notin> set s"
  shows "0 \<notin> set b"
proof -
  have "0 \<notin> set (utf8_char c)" if "c \<noteq> 0" for c
    using that by (auto simp: utf8_char_def split: if_splits)
  moreover have "\<exists>c \<in> set s. 0 \<in> set (utf8_char c)" if "0 \<in> set b" using utf8_ok [OF assms(1)] that by auto
  ultimately show ?thesis using assms(2) by metis
qed

text \<open>A name ends at the first zero byte, the first of the length that follows.\<close>

lemma name_split:
  assumes "b @ 0 # r = c @ 0 # s" and "0 \<notin> set b" and "0 \<notin> set (c :: bytes)"
  shows "b = c \<and> r = s"
  using assms
proof (induction b arbitrary: c)
  case Nil
  then show ?case by (cases c) auto
next
  case (Cons x b)
  then show ?case by (cases c) auto
qed


text \<open>Every encoding begins with a tag, and tags tell the constructors apart.\<close>

fun tag :: "MMValue \<Rightarrow> bytes" where
  "tag MM_None = ascii ''none|''"
| "tag (MM_Map _) = ascii ''map|''"
| "tag (MM_List _) = ascii ''list|''"
| "tag (MM_Tuple _) = ascii ''tuple|''"
| "tag (MM_Str _) = ascii ''str|''"
| "tag (MM_Bytes _) = ascii ''bytes|''"
| "tag (MM_Bytearray _) = ascii ''bytes|''"
| "tag (MM_Bool _) = ascii ''bool|''"
| "tag (MM_Int _) = ascii ''int|''"
| "tag (MM_Float _) = ascii ''float|''"
| "tag (MM_Tensor _ _ _) = ascii ''tensor|''"
| "tag (MM_Image _ _ _ _ _ _ _) = ascii ''image|''"
| "tag MM_Other = []"

fun body :: "MMValue \<Rightarrow> exn + bytes" where
  "body MM_None = Inr []"
| "body (MM_Map kvs) = updates (pack_Q (length kvs) #
     concat (map (\<lambda>(k, v). [Inr (ascii ''k|''), wire k, Inr (ascii ''v|''), wire v]) kvs))"
| "body (MM_List vs) = updates (pack_Q (length vs) # map wire vs)"
| "body (MM_Tuple vs) = updates (pack_Q (length vs) # map wire vs)"
| "body (MM_Str s) = (case utf8 s of Inl e \<Rightarrow> Inl e | Inr b \<Rightarrow> sized (Inr b))"
| "body (MM_Bytes b) = sized (Inr b)"
| "body (MM_Bytearray b) = sized (Inr b)"
| "body (MM_Bool b) = Inr (if b then ascii ''1'' else ascii ''0'')"
| "body (MM_Int i) = str_int i"
| "body (MM_Float x) = Inr (be_bytes 8 x)"
| "body (MM_Tensor shape dtype data) = updates (pack_Q (length shape) # map pack_Q shape @
       [utf8 dtype, case data of None \<Rightarrow> Inl RuntimeError | Some b \<Rightarrow> sized (Inr b)])"
| "body (MM_Image mode w h b pm p tr) =
     updates [utf8 mode, updates [pack_I w, pack_I h], sized (Inr b),
       Inr (ascii ''palette-mode|''), wire pm, Inr (ascii ''palette|''), wire p,
       Inr (ascii ''transparency|''), wire tr]"
| "body MM_Other = Inl TypeError"

lemma updates_one: "updates [Inr a, u] = (case u of Inl e \<Rightarrow> Inl e | Inr b \<Rightarrow> Inr (a @ b))"
  by (cases u) simp_all

lemma updates_first: "updates (Inr a # us) = (case updates us of Inl e \<Rightarrow> Inl e | Inr b \<Rightarrow> Inr (a @ b))"
  by simp

lemma wire_body: "wire v = (case body v of Inl e \<Rightarrow> Inl e | Inr b \<Rightarrow> Inr (tag v @ b))"
  by (cases v)
    (simp_all only: wire.simps body.simps tag.simps updates_first updates_one sum.case append_Nil2 split: sum.split, auto)

lemma tag_empty: "tag v = [] \<longleftrightarrow> v = MM_Other"
  by (cases v) (simp_all add: ascii_def)

lemma wire_tag:
  assumes "wire v = Inr b"
  obtains c where "body v = Inr c" "b = tag v @ c" "tag v \<noteq> []"
proof -
  have "v \<noteq> MM_Other" using assms by auto
  then show thesis using assms that by (auto simp: wire_body tag_empty split: sum.splits)
qed

lemma tags_apart:
  assumes "tag v @ x = tag w @ y" and "tag v \<noteq> []" and "tag w \<noteq> []"
  shows "tag v = tag w"
  using assms by (cases v; cases w; simp add: ascii_def)

lemma tag_no_digit: "tag v \<noteq> [] \<Longrightarrow> no_digit (tag v @ x)"
  by (cases v) (simp_all add: ascii_def no_digit_def)

lemma wire_no_digit: "wire v = Inr b \<Longrightarrow> no_digit (b @ x)"
  by (erule wire_tag) (simp add: tag_no_digit)

text \<open>Values without byte arrays.\<close>

fun plain :: "MMValue \<Rightarrow> bool" where
  "plain (MM_Map kvs) = (\<forall>(k, v) \<in> set kvs. plain k \<and> plain v)"
| "plain (MM_List vs) = (\<forall>v \<in> set vs. plain v)"
| "plain (MM_Tuple vs) = (\<forall>v \<in> set vs. plain v)"
| "plain (MM_Image mode w h b pm p tr) = (plain pm \<and> plain p \<and> plain tr)"
| "plain (MM_Bytearray b) = False"
| "plain v = True"

definition wire_splits :: "MMValue \<Rightarrow> bool" where
  "wire_splits v \<longleftrightarrow> (\<forall>w b c r s. wire v = Inr b \<longrightarrow> wire w = Inr c \<longrightarrow> b @ r = c @ s \<longrightarrow> no_digit r \<longrightarrow> no_digit s \<longrightarrow>
     plain v \<longrightarrow> plain w \<longrightarrow> mm_ok v \<longrightarrow> mm_ok w \<longrightarrow> v = w \<and> r = s)"

lemma wire_splitsD:
  assumes "wire_splits v" and "wire v = Inr b" and "wire w = Inr c" and "b @ r = c @ s" and "no_digit r" and "no_digit s"
    and "plain v" and "plain w" and "mm_ok v" and "mm_ok w"
  shows "v = w \<and> r = s"
  using assms unfolding wire_splits_def by blast

lemma wires_no_digit: "updates (map wire vs) = Inr b \<Longrightarrow> no_digit r \<Longrightarrow> no_digit (b @ r)"
  by (cases vs) (auto simp: wire_no_digit simp del: updates.simps(2))

lemma wire_list_split:
  assumes "\<forall>v \<in> set vs. wire_splits v \<and> plain v \<and> mm_ok v" and "\<forall>v \<in> set ws. plain v \<and> mm_ok v"
    and "length vs = length ws" and "updates (map wire vs) = Inr b" and "updates (map wire ws) = Inr c"
    and "b @ r = c @ s" and "no_digit r" and "no_digit s"
  shows "vs = ws \<and> r = s"
  using assms
proof (induction vs arbitrary: ws b c)
  case Nil
  then show ?case by simp
next
  case (Cons v vs)
  then obtain w ws' where ws: "ws = w # ws'" by (cases ws) auto
  from Cons.prems ws obtain x y x' y' where
    x: "wire v = Inr x" "updates (map wire vs) = Inr y" "b = x @ y"
      "wire w = Inr x'" "updates (map wire ws') = Inr y'" "c = x' @ y'"
    by (auto simp del: updates.simps(2))
  have "v = w \<and> y @ r = y' @ s"
    by (rule wire_splitsD [OF _ x(1,4)]) (use Cons.prems ws x in \<open>simp_all add: wires_no_digit\<close>)
  then show ?case using Cons.IH [of ws' y y'] Cons.prems ws x by auto
qed

abbreviation entry :: "MMValue \<times> MMValue \<Rightarrow> (exn + bytes) list" where
  "entry \<equiv> \<lambda>(k, v). [Inr (ascii ''k|''), wire k, Inr (ascii ''v|''), wire v]"

lemma entries_no_digit: "updates (concat (map entry kvs)) = Inr b \<Longrightarrow> no_digit r \<Longrightarrow> no_digit (b @ r)"
  by (cases kvs) (auto simp: no_digit_def ascii_def simp del: updates.simps(2))

lemma wire_entries_split:
  assumes "\<forall>(k, v) \<in> set kvs. wire_splits k \<and> wire_splits v \<and> plain k \<and> plain v \<and> mm_ok k \<and> mm_ok v"
    and "\<forall>(k, v) \<in> set kws. plain k \<and> plain v \<and> mm_ok k \<and> mm_ok v"
    and "length kvs = length kws" and "updates (concat (map entry kvs)) = Inr b" and "updates (concat (map entry kws)) = Inr c"
    and "b @ r = c @ s" and "no_digit r" and "no_digit s"
  shows "kvs = kws \<and> r = s"
  using assms
proof (induction kvs arbitrary: kws b c)
  case Nil
  then show ?case by simp
next
  case (Cons kv kvs)
  obtain k v where kv: "kv = (k, v)" by (cases kv)
  from Cons.prems(3) obtain k' v' kws' where kws: "kws = (k', v') # kws'" by (cases kws) auto
  from Cons.prems(4) kv obtain x1 x2 y where
    x: "wire k = Inr x1" "wire v = Inr x2" "updates (concat (map entry kvs)) = Inr y"
      "b = ascii ''k|'' @ x1 @ ascii ''v|'' @ x2 @ y"
    by (auto simp del: updates.simps(2))
  from Cons.prems(5) kws obtain z1 z2 u where
    z: "wire k' = Inr z1" "wire v' = Inr z2" "updates (concat (map entry kws')) = Inr u"
      "c = ascii ''k|'' @ z1 @ ascii ''v|'' @ z2 @ u"
    by (auto simp del: updates.simps(2))
  have v: "no_digit (ascii ''v|'' @ q)" for q by (simp add: no_digit_def ascii_def)
  have eq: "x1 @ ascii ''v|'' @ x2 @ y @ r = z1 @ ascii ''v|'' @ z2 @ u @ s" using Cons.prems(6) x(4) z(4) by simp
  have 1: "k = k' \<and> ascii ''v|'' @ x2 @ y @ r = ascii ''v|'' @ z2 @ u @ s"
    by (rule wire_splitsD [OF _ x(1) z(1) eq v v]) (use Cons.prems(1,2) kv kws in auto)
  then have eq2: "x2 @ y @ r = z2 @ u @ s" by simp
  have 2: "v = v' \<and> y @ r = u @ s"
    by (rule wire_splitsD [OF _ x(2) z(2) eq2 entries_no_digit [OF x(3) Cons.prems(7)] entries_no_digit [OF z(3) Cons.prems(8)]])
      (use Cons.prems(1,2) kv kws in auto)
  then show ?case using 1 Cons.IH [of kws' y u] Cons.prems kv kws x(3) z(3) by auto
qed

lemma wire_splitsI:
  assumes "\<And>w x y r s. body v = Inr x \<Longrightarrow> body w = Inr y \<Longrightarrow> tag w = tag v \<Longrightarrow> x @ r = y @ s \<Longrightarrow>
    no_digit r \<Longrightarrow> no_digit s \<Longrightarrow> plain v \<Longrightarrow> plain w \<Longrightarrow> mm_ok v \<Longrightarrow> mm_ok w \<Longrightarrow> v = w \<and> r = s"
  shows "wire_splits v"
  unfolding wire_splits_def
proof (intro allI impI)
  fix w b c r s
  assume h: "wire v = Inr b" "wire w = Inr c" "b @ r = c @ s" "no_digit r" "no_digit s"
    "plain v" "plain w" "mm_ok v" "mm_ok w"
  obtain x where x: "body v = Inr x" "b = tag v @ x" "tag v \<noteq> []" using h(1) by (rule wire_tag)
  obtain y where y: "body w = Inr y" "c = tag w @ y" "tag w \<noteq> []" using h(2) by (rule wire_tag)
  have "tag v @ (x @ r) = tag w @ (y @ s)" using h(3) x(2) y(2) by simp
  from tags_apart [OF this x(3) y(3)] this have "tag w = tag v" "x @ r = y @ s" by simp_all
  from assms [OF x(1) y(1) this h(4-9)] show "v = w \<and> r = s" .
qed

lemma counted_ok:
  assumes "updates (pack_Q n # us) = Inr x" and "updates (pack_Q m # ws) = Inr y" and "x @ r = y @ s"
  obtains b c where "n = m" "updates us = Inr b" "updates ws = Inr c" "b @ r = c @ s"
proof -
  from assms(1,2) obtain b c where b: "n < 256 ^ 8" "updates us = Inr b" "x = be_bytes 8 n @ b"
    and c: "m < 256 ^ 8" "updates ws = Inr c" "y = be_bytes 8 m @ c"
    by (auto simp: pack_Q_ok simp del: updates.simps(2))
  have eq: "be_bytes 8 n @ b @ r = be_bytes 8 m @ c @ s" using assms(3) b(3) c(3) by simp
  from pack_split [OF eq b(1) c(1)] b(2) c(2) that show thesis by blast
qed

lemma counted_lists:
  assumes "\<forall>v \<in> set vs. wire_splits v \<and> plain v \<and> mm_ok v" and "\<forall>v \<in> set ws. plain v \<and> mm_ok v"
    and "updates (pack_Q (length vs) # map wire vs) = Inr x" and "updates (pack_Q (length ws) # map wire ws) = Inr y"
    and "x @ r = y @ s" and "no_digit r" and "no_digit s"
  shows "vs = ws \<and> r = s"
proof -
  obtain b c where "length vs = length ws" "updates (map wire vs) = Inr b" "updates (map wire ws) = Inr c"
    "b @ r = c @ s" by (rule counted_ok [OF assms(3-5)])
  from wire_list_split [OF assms(1,2) this assms(6,7)] show ?thesis .
qed

lemma updates_pack_Q:
  assumes "updates (map pack_Q ns) = Inr b" and "updates (map pack_Q ms) = Inr c" and "length ns = length ms"
    and "b @ r = c @ s"
  shows "ns = ms \<and> r = s"
  using assms
proof (induction ns arbitrary: ms b c)
  case Nil
  then show ?case by simp
next
  case (Cons n ns)
  then obtain m ms' where ms: "ms = m # ms'" by (cases ms) auto
  have "updates (pack_Q n # map pack_Q ns) = Inr b" "updates (pack_Q m # map pack_Q ms') = Inr c"
    using Cons.prems(1,2) ms by simp_all
  then obtain b' c' where "n = m" "updates (map pack_Q ns) = Inr b'" "updates (map pack_Q ms') = Inr c'" "b' @ r = c' @ s"
    using Cons.prems(4) by (rule counted_ok)
  then show ?case using Cons.IH [of b' ms' c'] Cons.prems(3) ms by simp
qed

lemma be8:
  assumes "n < 256 ^ 7"
  shows "be_bytes 8 n = 0 # be_bytes 7 n"
proof -
  have e: "(8::nat) = Suc 7" by simp
  show ?thesis unfolding e using assms by (rule be_bytes_zero)
qed

lemma be4:
  assumes "n < 256 ^ 3"
  shows "be_bytes 4 n = 0 # be_bytes 3 n"
proof -
  have e: "(4::nat) = Suc 3" by simp
  show ?thesis unfolding e using assms by (rule be_bytes_zero)
qed

lemma utf8_name_split:
  assumes "utf8 d = Inr b" and "utf8 e = Inr c" and "0 \<notin> set d" and "0 \<notin> set e" and "b @ 0 # r = c @ 0 # s"
  shows "d = e \<and> r = s"
proof -
  from name_split [OF assms(5)] utf8_nonzero assms(1-4) have "b = c \<and> r = s" by blast
  with utf8_inj assms(1,2) show ?thesis by blast
qed

lemma tensor_split:
  assumes "body (MM_Tensor sh d data) = Inr x" and "body (MM_Tensor sh' d' data') = Inr y" and "x @ r = y @ s"
    and "mm_ok (MM_Tensor sh d data)" and "mm_ok (MM_Tensor sh' d' data')"
  shows "sh = sh' \<and> d = d' \<and> data = data' \<and> r = s"
proof -
  have h: "updates (pack_Q (length sh) # map pack_Q sh @ [utf8 d, case data of None \<Rightarrow> Inl RuntimeError | Some b \<Rightarrow> sized (Inr b)]) = Inr x"
    "updates (pack_Q (length sh') # map pack_Q sh' @ [utf8 d', case data' of None \<Rightarrow> Inl RuntimeError | Some b \<Rightarrow> sized (Inr b)]) = Inr y"
    using assms(1,2) by (simp_all only: body.simps)
  obtain b c where l: "length sh = length sh'"
    "updates (map pack_Q sh @ [utf8 d, case data of None \<Rightarrow> Inl RuntimeError | Some b \<Rightarrow> sized (Inr b)]) = Inr b"
    "updates (map pack_Q sh' @ [utf8 d', case data' of None \<Rightarrow> Inl RuntimeError | Some b \<Rightarrow> sized (Inr b)]) = Inr c"
    "b @ r = c @ s" by (rule counted_ok [OF h assms(3)])
  from l(2) obtain b1 b2 b3 D where b: "updates (map pack_Q sh) = Inr b1" "utf8 d = Inr b2" "data = Some D" "sized (Inr D) = Inr b3"
    "b = b1 @ b2 @ b3" by (auto simp: updates_append_ok simp del: updates.simps(2) split: option.splits)
  from l(3) obtain c1 c2 c3 E where c: "updates (map pack_Q sh') = Inr c1" "utf8 d' = Inr c2" "data' = Some E" "sized (Inr E) = Inr c3"
    "c = c1 @ c2 @ c3" by (auto simp: updates_append_ok simp del: updates.simps(2) split: option.splits)
  have "b1 @ (b2 @ b3 @ r) = c1 @ (c2 @ c3 @ s)" using l(4) b(5) c(5) by simp
  from updates_pack_Q [OF b(1) c(1) l(1) this] have 1: "sh = sh'" "b2 @ b3 @ r = c2 @ c3 @ s" by simp_all
  have lens: "length D < 256 ^ 7" "length E < 256 ^ 7" "0 \<notin> set d" "0 \<notin> set d'" using assms(4,5) b(3) c(3) by simp_all
  have z: "b3 = 0 # be_bytes 7 (length D) @ D" "c3 = 0 # be_bytes 7 (length E) @ E"
    using b(4) c(4) by (auto simp: sized_ok be8 [OF lens(1)] be8 [OF lens(2)])
  have "b2 @ 0 # (be_bytes 7 (length D) @ D @ r) = c2 @ 0 # (be_bytes 7 (length E) @ E @ s)" using 1(2) z by simp
  from utf8_name_split [OF b(2) c(2) lens(3,4) this] have 2: "d = d'" "b3 @ r = c3 @ s" using z by simp_all
  from sized_split [OF b(4) c(4) 2(2)] 1(1) 2(1) b(3) c(3) show ?thesis by simp
qed


lemma fixed_split: "a @ p = a @ q \<Longrightarrow> p = (q :: bytes)"
  by simp

lemma image_split:
  assumes "body (MM_Image m w h b pm p tr) = Inr x" and "body (MM_Image m' w' h' b' pm' p' tr') = Inr y"
    and "x @ r = y @ s" and "no_digit r" and "no_digit s"
    and "mm_ok (MM_Image m w h b pm p tr)" and "mm_ok (MM_Image m' w' h' b' pm' p' tr')"
    and "plain (MM_Image m w h b pm p tr)" and "plain (MM_Image m' w' h' b' pm' p' tr')"
    and IH: "wire_splits pm" "wire_splits p" "wire_splits tr"
  shows "m = m' \<and> w = w' \<and> h = h' \<and> b = b' \<and> pm = pm' \<and> p = p' \<and> tr = tr' \<and> r = s"
proof -
  let ?pm = "ascii ''palette-mode|''" and ?p = "ascii ''palette|''" and ?tr = "ascii ''transparency|''"
  have ok: "0 \<notin> set m" "0 \<notin> set m'" "w < 256 ^ 3" "w' < 256 ^ 3" "mm_ok pm" "mm_ok p" "mm_ok tr" "mm_ok pm'" "mm_ok p'" "mm_ok tr'"
    "plain pm" "plain p" "plain tr" "plain pm'" "plain p'" "plain tr'" using assms(6-9) by simp_all
  from assms(1) obtain x1 x2 x3 x4 x5 x6 where
    x: "utf8 m = Inr x1" "h < 256 ^ 4" "w < 256 ^ 4" "x2 = be_bytes 4 w @ be_bytes 4 h" "sized (Inr b) = Inr x3" "wire pm = Inr x4" "wire p = Inr x5" "wire tr = Inr x6"
      "x = x1 @ x2 @ x3 @ ?pm @ x4 @ ?p @ x5 @ ?tr @ x6"
    by (auto simp: pack_I_ok simp del: updates.simps(2) power_strict_increasing_iff)
  from assms(2) obtain y1 y2 y3 y4 y5 y6 where
    y: "utf8 m' = Inr y1" "h' < 256 ^ 4" "w' < 256 ^ 4" "y2 = be_bytes 4 w' @ be_bytes 4 h'" "sized (Inr b') = Inr y3" "wire pm' = Inr y4" "wire p' = Inr y5" "wire tr' = Inr y6"
      "y = y1 @ y2 @ y3 @ ?pm @ y4 @ ?p @ y5 @ ?tr @ y6"
    by (auto simp: pack_I_ok simp del: updates.simps(2))
  have nd: "no_digit (?p @ q)" "no_digit (?tr @ q)" for q by (simp_all add: no_digit_def ascii_def)
  have "x1 @ 0 # (be_bytes 3 w @ be_bytes 4 h @ x3 @ ?pm @ x4 @ ?p @ x5 @ ?tr @ x6 @ r) =
    y1 @ 0 # (be_bytes 3 w' @ be_bytes 4 h' @ y3 @ ?pm @ y4 @ ?p @ y5 @ ?tr @ y6 @ s)"
    using assms(3) x(4,9) y(4,9) by (simp add: be4 [OF ok(3)] be4 [OF ok(4)])
  from utf8_name_split [OF x(1) y(1) ok(1,2) this] have 1: "m = m'"
    and e1: "be_bytes 3 w @ (be_bytes 4 h @ x3 @ ?pm @ x4 @ ?p @ x5 @ ?tr @ x6 @ r) =
      be_bytes 3 w' @ (be_bytes 4 h' @ y3 @ ?pm @ y4 @ ?p @ y5 @ ?tr @ y6 @ s)" by blast+
  from pack_split [OF e1 ok(3,4)] have 2: "w = w'"
    and e2: "be_bytes 4 h @ (x3 @ ?pm @ x4 @ ?p @ x5 @ ?tr @ x6 @ r) =
      be_bytes 4 h' @ (y3 @ ?pm @ y4 @ ?p @ y5 @ ?tr @ y6 @ s)" by blast+
  from pack_split [OF e2 x(2) y(2)] have 3: "h = h'"
    and e3: "x3 @ (?pm @ x4 @ ?p @ x5 @ ?tr @ x6 @ r) = y3 @ (?pm @ y4 @ ?p @ y5 @ ?tr @ y6 @ s)" by blast+
  from sized_split [OF x(5) y(5) e3] have 4: "b = b'"
    and e4: "x4 @ (?p @ x5 @ ?tr @ x6 @ r) = y4 @ (?p @ y5 @ ?tr @ y6 @ s)" by (blast, blast dest: fixed_split)
  from wire_splitsD [OF IH(1) x(6) y(6) e4 nd(1) nd(1)] ok have 5: "pm = pm'"
    and "?p @ (x5 @ ?tr @ x6 @ r) = ?p @ (y5 @ ?tr @ y6 @ s)" by blast+
  from fixed_split [OF this(2)] have e5: "x5 @ (?tr @ x6 @ r) = y5 @ (?tr @ y6 @ s)" .
  from wire_splitsD [OF IH(2) x(7) y(7) e5 nd(2) nd(2)] ok have 6: "p = p'"
    and "?tr @ (x6 @ r) = ?tr @ (y6 @ s)" by blast+
  from fixed_split [OF this(2)] have e6: "x6 @ r = y6 @ s" .
  from wire_splitsD [OF IH(3) x(8) y(8) e6 assms(4,5)] ok have "tr = tr' \<and> r = s" by blast
  with 1 2 3 4 5 6 show ?thesis by blast
qed


lemma entries_split:
  assumes "\<forall>(k, v) \<in> set kvs. wire_splits k \<and> wire_splits v"
    and "body (MM_Map kvs) = Inr x" and "body (MM_Map kws) = Inr y" and "x @ r = y @ s" and "no_digit r" and "no_digit s"
    and "plain (MM_Map kvs)" and "plain (MM_Map kws)" and "mm_ok (MM_Map kvs)" and "mm_ok (MM_Map kws)"
  shows "kvs = kws \<and> r = s"
proof -
  have h: "updates (pack_Q (length kvs) # concat (map entry kvs)) = Inr x"
    "updates (pack_Q (length kws) # concat (map entry kws)) = Inr y" using assms(2,3) by (simp_all only: body.simps)
  obtain b c where bc: "length kvs = length kws" "updates (concat (map entry kvs)) = Inr b"
    "updates (concat (map entry kws)) = Inr c" "b @ r = c @ s" by (rule counted_ok [OF h assms(4)])
  show ?thesis by (rule wire_entries_split [OF _ _ bc assms(5,6)]) (use assms(1,7-10) in auto)
qed

lemma wire_splits: "wire_splits v"
proof (induction v)
  case MM_None
  show ?case
  proof (rule wire_splitsI)
    fix w x y r s
    assume "body MM_None = Inr x" "body w = Inr y" "tag w = tag MM_None" "x @ r = y @ s"
    then show "MM_None = w \<and> r = s" by (cases w) (simp_all add: ascii_def)
  qed
next
  case (MM_Map kvs)
  have IH: "\<forall>(k, v) \<in> set kvs. wire_splits k \<and> wire_splits v" using MM_Map by fastforce
  show ?case
  proof (rule wire_splitsI)
    fix w x y r s
    assume h: "body (MM_Map kvs) = Inr x" "body w = Inr y" "tag w = tag (MM_Map kvs)" "x @ r = y @ s"
      "no_digit r" "no_digit s" "plain (MM_Map kvs)" "plain w" "mm_ok (MM_Map kvs)" "mm_ok w"
    from h(3) obtain kws where w: "w = MM_Map kws" by (cases w) (simp_all add: ascii_def)
    from entries_split [OF IH h(1) h(2) [unfolded w] h(4-7) h(8) [unfolded w] h(9) h(10) [unfolded w]] w
    show "MM_Map kvs = w \<and> r = s" by simp
  qed
next
  case (MM_List vs)
  show ?case
  proof (rule wire_splitsI)
    fix w x y r s
    assume h: "body (MM_List vs) = Inr x" "body w = Inr y" "tag w = tag (MM_List vs)" "x @ r = y @ s"
      "no_digit r" "no_digit s" "plain (MM_List vs)" "plain w" "mm_ok (MM_List vs)" "mm_ok w"
    from h(3) obtain ws where w: "w = MM_List ws" by (cases w) (simp_all add: ascii_def)
    have "vs = ws \<and> r = s"
      by (rule counted_lists [OF _ _ h(1) [unfolded body.simps] h(2) [unfolded w body.simps] h(4-6)])
        (use MM_List h(7-10) w in auto)
    then show "MM_List vs = w \<and> r = s" using w by simp
  qed
next
  case (MM_Tuple vs)
  show ?case
  proof (rule wire_splitsI)
    fix w x y r s
    assume h: "body (MM_Tuple vs) = Inr x" "body w = Inr y" "tag w = tag (MM_Tuple vs)" "x @ r = y @ s"
      "no_digit r" "no_digit s" "plain (MM_Tuple vs)" "plain w" "mm_ok (MM_Tuple vs)" "mm_ok w"
    from h(3) obtain ws where w: "w = MM_Tuple ws" by (cases w) (simp_all add: ascii_def)
    have "vs = ws \<and> r = s"
      by (rule counted_lists [OF _ _ h(1) [unfolded body.simps] h(2) [unfolded w body.simps] h(4-6)])
        (use MM_Tuple h(7-10) w in auto)
    then show "MM_Tuple vs = w \<and> r = s" using w by simp
  qed
next
  case (MM_Str t)
  show ?case
  proof (rule wire_splitsI)
    fix w x y r s
    assume h: "body (MM_Str t) = Inr x" "body w = Inr y" "tag w = tag (MM_Str t)" "x @ r = y @ s"
    from h(3) obtain u where w: "w = MM_Str u" by (cases w) (simp_all add: ascii_def)
    from h(1,2) w obtain b c where b: "utf8 t = Inr b" "sized (Inr b) = Inr x" "utf8 u = Inr c" "sized (Inr c) = Inr y"
      by (auto split: sum.splits)
    from sized_split [OF b(2,4) h(4)] utf8_inj b(1,3) w show "MM_Str t = w \<and> r = s" by blast
  qed
next
  case (MM_Bytes b)
  show ?case
  proof (rule wire_splitsI)
    fix w x y r s
    assume h: "body (MM_Bytes b) = Inr x" "body w = Inr y" "tag w = tag (MM_Bytes b)" "x @ r = y @ s" "plain w"
    from h(3,5) obtain c where w: "w = MM_Bytes c" by (cases w) (simp_all add: ascii_def)
    from sized_split [OF h(1) [unfolded body.simps] h(2) [unfolded w body.simps] h(4)] w show "MM_Bytes b = w \<and> r = s" by simp
  qed
next
  case (MM_Bytearray b)
  show ?case by (rule wire_splitsI) simp
next
  case (MM_Bool b)
  show ?case
  proof (rule wire_splitsI)
    fix w x y r s
    assume h: "body (MM_Bool b) = Inr x" "body w = Inr y" "tag w = tag (MM_Bool b)" "x @ r = y @ s"
    from h(3) obtain c where w: "w = MM_Bool c" by (cases w) (simp_all add: ascii_def)
    then show "MM_Bool b = w \<and> r = s" using h by (cases b; cases c) (auto simp: ascii_def)
  qed
next
  case (MM_Int i)
  show ?case
  proof (rule wire_splitsI)
    fix w x y r s
    assume h: "body (MM_Int i) = Inr x" "body w = Inr y" "tag w = tag (MM_Int i)" "x @ r = y @ s" "no_digit r" "no_digit s"
    from h(3) obtain j where w: "w = MM_Int j" by (cases w) (simp_all add: ascii_def)
    from str_int_split [OF h(1) [unfolded body.simps] h(2) [unfolded w body.simps] h(4-6)] w show "MM_Int i = w \<and> r = s" by simp
  qed
next
  case (MM_Float f)
  show ?case
  proof (rule wire_splitsI)
    fix w x y r s
    assume h: "body (MM_Float f) = Inr x" "body w = Inr y" "tag w = tag (MM_Float f)" "x @ r = y @ s"
      "mm_ok (MM_Float f)" "mm_ok w"
    from h(3) obtain g where w: "w = MM_Float g" by (cases w) (simp_all add: ascii_def)
    have "be_bytes 8 f @ r = be_bytes 8 g @ s" using h(1,2,4) w by simp
    from pack_split [OF this] h(5,6) w show "MM_Float f = w \<and> r = s" by simp
  qed
next
  case (MM_Tensor sh d data)
  show ?case
  proof (rule wire_splitsI)
    fix w x y r s
    assume h: "body (MM_Tensor sh d data) = Inr x" "body w = Inr y" "tag w = tag (MM_Tensor sh d data)" "x @ r = y @ s"
      "mm_ok (MM_Tensor sh d data)" "mm_ok w"
    from h(3) obtain sh' d' data' where w: "w = MM_Tensor sh' d' data'" by (cases w) (simp_all add: ascii_def)
    from tensor_split [OF h(1) h(2) [unfolded w] h(4,5) h(6) [unfolded w]] w
    show "MM_Tensor sh d data = w \<and> r = s" by simp
  qed
next
  case (MM_Image m wd ht b pm p tr)
  show ?case
  proof (rule wire_splitsI)
    fix w x y r s
    assume h: "body (MM_Image m wd ht b pm p tr) = Inr x" "body w = Inr y" "tag w = tag (MM_Image m wd ht b pm p tr)" "x @ r = y @ s"
      "no_digit r" "no_digit s" "plain (MM_Image m wd ht b pm p tr)" "plain w" "mm_ok (MM_Image m wd ht b pm p tr)" "mm_ok w"
    from h(3) obtain m' wd' ht' b' pm' p' tr' where w: "w = MM_Image m' wd' ht' b' pm' p' tr'"
      by (cases w) (simp_all add: ascii_def)
    from image_split [OF h(1) h(2) [unfolded w] h(4-6) h(9) h(10) [unfolded w] h(7) h(8) [unfolded w] MM_Image] w
    show "MM_Image m wd ht b pm p tr = w \<and> r = s" by simp
  qed
next
  case MM_Other
  show ?case by (rule wire_splitsI) simp
qed

lemma canonical_plain: "plain (canonical R v)"
  by (induction R v rule: canonical.induct) auto

lemma canonical_ok: "mm_ok v \<Longrightarrow> mm_ok (canonical R v)"
  by (induction R v rule: canonical.induct) auto

text \<open>
  C9. The digest a multi-modal input is identified by determines the input: two inputs are fed to
  the digest as the same bytes exactly when they are equal up to the order of the entries of
  mappings and up to byte arrays being read as bytes, although the numbers and the names inside
  carry no length.
\<close>
theorem mm_encoding_injective:
  assumes "hash_multi_modal_obj R v = Inr b" and "mm_ok v" and "mm_ok w"
  shows "hash_multi_modal_obj R w = Inr b \<longleftrightarrow> canonical R w = canonical R v"
proof
  assume w: "hash_multi_modal_obj R w = Inr b"
  have 1: "wire (canonical R w) = Inr b" "wire (canonical R v) = Inr b" using w assms(1) by (simp_all add: hash_wire)
  have e: "b @ [] = b @ []" and n: "no_digit []" by (simp_all add: no_digit_def)
  from wire_splitsD [OF wire_splits 1 e n n canonical_plain canonical_plain canonical_ok [OF assms(3)] canonical_ok [OF assms(2)]]
  show "canonical R w = canonical R v" ..
next
  assume "canonical R w = canonical R v"
  then show "hash_multi_modal_obj R w = Inr b" using assms(1) by (simp add: hash_wire)
qed

text \<open>Two mappings that list the same entries in different orders.\<close>

definition ex_mm :: "bool \<Rightarrow> MMValue" where
  "ex_mm swapped = (let e1 = (MM_Str (text_of ''a''), MM_List [MM_Int 12, MM_Int (-3)]);
     e2 = (MM_Str (text_of ''b''), MM_Bytes [1, 2]) in MM_Map (if swapped then [e2, e1] else [e1, e2]))"

definition ex_repr :: "MMValue \<Rightarrow> ptext" where
  "ex_repr v = (case v of MM_Str s \<Rightarrow> s | _ \<Rightarrow> [])"

lemma ex_mm_sorted: "canonical ex_repr (ex_mm swapped) = ex_mm False"
  by (simp add: ex_mm_def ex_repr_def sort_map_keys_def Let_def text_of_def)

lemma ex_mm_ok: "mm_ok (ex_mm swapped)"
  by (simp add: ex_mm_def Let_def)

lemma ex_mm_encodes: "\<exists>b. hash_multi_modal_obj ex_repr (ex_mm False) = Inr b"
  unfolding hash_wire ex_mm_sorted
  by (simp add: ex_mm_def Let_def pack_Q_def sized_def str_int_def utf8_def utf8_char_def text_of_def decimal_step decimal_small)

theorem mm_encoding_injective_witness:
  "\<exists>b. hash_multi_modal_obj ex_repr (ex_mm False) = Inr b \<and>
    (hash_multi_modal_obj ex_repr (ex_mm True) = Inr b \<longleftrightarrow> canonical ex_repr (ex_mm True) = canonical ex_repr (ex_mm False))"
  using ex_mm_encodes mm_encoding_injective [OF _ ex_mm_ok ex_mm_ok] by blast

subsection \<open>The namespace of a request\<close>

text \<open>
  An adapter is the text of its four identifying attributes, in the order of the field names the
  code lists. \<open>int_of\<close> is the number \<open>BI100_PREFIX_TP_SIZE\<close> reads as, if it is one.
\<close>

definition digest_text :: "string \<Rightarrow> ptext \<Rightarrow> exn + bytes" where
  "digest_text label value = (case utf8 value of Inl e \<Rightarrow> Inl e | Inr b \<Rightarrow> updates [Inr (ascii label), sized (Inr b)])"

definition build_runtime_cache_namespace :: "(bytes \<Rightarrow> bytes) \<Rightarrow> ptext \<Rightarrow> ptext \<Rightarrow> int option \<Rightarrow> nat \<Rightarrow> exn + bytes" where
  "build_runtime_cache_namespace D model dtype tp bsize = (case tp of
     None \<Rightarrow> Inl RuntimeError
   | Some tp \<Rightarrow>
       if tp \<le> 0 then Inl RuntimeError
       else map_sum id D (updates [Inr (ascii ''bi100-runtime-prefix-identity-v1|''),
         digest_text ''model'' model, digest_text ''dtype'' dtype,
         digest_text ''tp'' (decimal (nat tp)), digest_text ''block_size'' (decimal bsize)]))"

definition lora_fields :: "string list" where
  "lora_fields = [''lora_name'', ''lora_int_id'', ''lora_path'', ''base_model_name'']"

definition prompt_adapter_fields :: "string list" where
  "prompt_adapter_fields = [''prompt_adapter_name'', ''prompt_adapter_id'', ''prompt_adapter_local_path'',
     ''prompt_adapter_num_virtual_tokens'']"

definition digest_adapter :: "string list \<Rightarrow> ptext list option \<Rightarrow> exn + bytes" where
  "digest_adapter fields adapter = (case adapter of
     None \<Rightarrow> Inr (ascii ''none|'')
   | Some values \<Rightarrow> updates (map2 digest_text fields values))"

definition adapter_cache_bytes :: "ptext list option \<Rightarrow> ptext list option \<Rightarrow> exn + bytes" where
  "adapter_cache_bytes lora prompt_adapter = updates [Inr (ascii ''bi100-adapter-prefix-identity-v1|''),
     Inr (ascii ''lora''), digest_adapter lora_fields lora,
     Inr (ascii ''prompt''), digest_adapter prompt_adapter_fields prompt_adapter]"

definition adapter_cache_namespace :: "(bytes \<Rightarrow> bytes) \<Rightarrow> ptext list option \<Rightarrow> ptext list option \<Rightarrow> exn + bytes" where
  "adapter_cache_namespace D lora prompt_adapter = map_sum id D (adapter_cache_bytes lora prompt_adapter)"

record Namespaces =
  warned_mm_namespace_requests :: "ptext set"
  request_local_namespace :: "ptext \<rightharpoonup> bytes"
  runtime_cache_namespace :: bytes

text \<open>\<open>rnd\<close> is what \<open>os.urandom(32)\<close> returns to the call.\<close>

definition request_local_fallback_cache_namespace :: "(bytes \<Rightarrow> bytes) \<Rightarrow> bytes \<Rightarrow> ptext \<Rightarrow> (Namespaces, bytes) st" where
  "request_local_fallback_cache_namespace D rnd request_id = getM request_local_namespace (\<lambda>m.
     case m request_id of
       Some n \<Rightarrow> retM n
     | None \<Rightarrow> getM runtime_cache_namespace (\<lambda>runtime.
         bindM (liftM (utf8 request_id)) (\<lambda>rid.
         let n = D (ascii ''multimodal-unsupported-request-local-v1|'' @ runtime @ rnd @ rid) in
         thenM (modM (\<lambda>s. s\<lparr>request_local_namespace := m(request_id \<mapsto> n)\<rparr>)) (retM n))))"

definition release_request_cache_namespace :: "ptext \<Rightarrow> (Namespaces, unit) st" where
  "release_request_cache_namespace request_id = modM (\<lambda>s. s\<lparr>
     request_local_namespace := (request_local_namespace s)(request_id := None),
     warned_mm_namespace_requests := warned_mm_namespace_requests s - {request_id}\<rparr>)"

definition mm_namespace :: "(bytes \<Rightarrow> bytes) \<Rightarrow> (MMValue \<Rightarrow> ptext) \<Rightarrow> bytes \<Rightarrow> ptext \<Rightarrow> MMValue \<Rightarrow> (Namespaces, bytes) st" where
  "mm_namespace D R rnd request_id mm = (case hash_multi_modal_namespace D R mm of
     Inr b \<Rightarrow> retM b
   | Inl e \<Rightarrow> if e \<in> {AssertionError, NoFreeBlocksError} then raiseM e
       else thenM (modM (\<lambda>s. s\<lparr>warned_mm_namespace_requests := insert request_id (warned_mm_namespace_requests s)\<rparr>))
                  (request_local_fallback_cache_namespace D rnd request_id))"

definition get_cache_namespace :: "(bytes \<Rightarrow> bytes) \<Rightarrow> (MMValue \<Rightarrow> ptext) \<Rightarrow> bytes \<Rightarrow> ptext \<Rightarrow> MMValue
    \<Rightarrow> ptext list option \<Rightarrow> ptext list option \<Rightarrow> (Namespaces, bytes) st" where
  "get_cache_namespace D R rnd request_id mm lora prompt_adapter = getM runtime_cache_namespace (\<lambda>runtime.
     bindM (liftM (adapter_cache_namespace D lora prompt_adapter)) (\<lambda>adapter.
     let identity = ascii ''bi100-request-prefix-namespace-v1|'' @ runtime @ adapter in
     if has_multi_modal_payload mm then
       bindM (mm_namespace D R rnd request_id mm) (\<lambda>n. retM (D (identity @ ascii ''mm|'' @ n)))
     else retM (D (identity @ ascii ''text|''))))"

subsection \<open>A namespace identifies its request\<close>

lemma updates_map2_split:
  assumes "updates (map2 digest_text fs vs) = Inr b" and "updates (map2 digest_text fs ws) = Inr c"
    and "length vs = length fs" and "length ws = length fs" and "b @ r = c @ s"
  shows "vs = ws \<and> r = s"
  using assms
proof (induction fs arbitrary: vs ws b c)
  case Nil
  then show ?case by simp
next
  case (Cons f fs)
  then obtain v vs' w ws' where v: "vs = v # vs'" "ws = w # ws'" "length vs' = length fs" "length ws' = length fs"
    by (cases vs; cases ws) auto
  from Cons.prems(1) v obtain e x y where
    b: "utf8 v = Inr e" "sized (Inr e) = Inr x" "updates (map2 digest_text fs vs') = Inr y" "b = ascii f @ x @ y"
    by (auto simp: digest_text_def simp del: updates.simps(2) split: sum.splits)
  from Cons.prems(2) v obtain e' x' y' where
    c: "utf8 w = Inr e'" "sized (Inr e') = Inr x'" "updates (map2 digest_text fs ws') = Inr y'" "c = ascii f @ x' @ y'"
    by (auto simp: digest_text_def simp del: updates.simps(2) split: sum.splits)
  have "x @ (y @ r) = x' @ (y' @ s)" using Cons.prems(5) b(4) c(4) by simp
  from sized_split [OF b(2) c(2) this] have "e = e'" "y @ r = y' @ s" by simp_all
  with utf8_inj b(1) c(1) Cons.IH [OF b(3) c(3) v(3,4)] v show ?case by blast
qed

text \<open>An adapter with its four attributes.\<close>

definition adapter_ok :: "ptext list option \<Rightarrow> bool" where
  "adapter_ok a \<longleftrightarrow> (\<forall>vs. a = Some vs \<longrightarrow> length vs = 4)"

lemma digest_adapter_split:
  assumes "digest_adapter fs a = Inr b" and "digest_adapter fs a' = Inr c" and "b @ r = c @ s"
    and "adapter_ok a" and "adapter_ok a'" and "length fs = 4" and "hd (hd fs) \<noteq> CHR ''n''" and "hd fs \<noteq> []"
  shows "a = a' \<and> r = s"
proof (cases a; cases a')
  fix vs ws assume e: "a = Some vs" "a' = Some ws"
  then show ?thesis
    using updates_map2_split [of fs vs b ws c r s] assms(1-6) by (simp add: digest_adapter_def adapter_ok_def)
next
  have first: "b \<noteq> [] \<and> hd b \<noteq> 110" if dg: "digest_adapter fs (Some vs) = Inr b" and len: "length vs = 4" for vs b
  proof -
    obtain f fs' where f: "fs = f # fs'" using assms(6) by (cases fs) auto
    obtain v vs' where v: "vs = v # vs'" using len by (cases vs) auto
    have "of_char (hd f) \<noteq> (of_char (CHR ''n'') :: nat)" using assms(7) f by (simp only: of_char_eq_iff list.sel) simp
    moreover have "f \<noteq> []" using assms(8) f by simp
    ultimately show ?thesis
      using dg f v by (cases f) (auto simp: digest_adapter_def digest_text_def ascii_def simp del: updates.simps(2) split: sum.splits)
  qed
  {
    fix ws assume e: "a = None" "a' = Some ws"
    then have "b = ascii ''none|''" "hd c \<noteq> 110" "c \<noteq> []" using assms(1,2,5) first [of ws c] by (auto simp: digest_adapter_def adapter_ok_def)
    then show ?thesis using assms(3) by (cases c) (auto simp: ascii_def)
  }
  {
    fix vs assume e: "a = Some vs" "a' = None"
    then have "c = ascii ''none|''" "hd b \<noteq> 110" "b \<noteq> []" using assms(1,2,4) first [of vs b] by (auto simp: digest_adapter_def adapter_ok_def)
    then show ?thesis using assms(3) by (cases b) (auto simp: ascii_def)
  }
  assume "a = None" "a' = None"
  then show ?thesis using assms(1-3) by (simp add: digest_adapter_def)
qed

lemma adapter_bytes_inj:
  assumes "adapter_cache_bytes l p = Inr b" and "adapter_cache_bytes l' p' = Inr b"
    and "adapter_ok l" and "adapter_ok p" and "adapter_ok l'" and "adapter_ok p'"
  shows "l = l' \<and> p = p'"
proof -
  let ?h = "ascii ''bi100-adapter-prefix-identity-v1|'' @ ascii ''lora''"
  from assms(1) obtain x y where x: "digest_adapter lora_fields l = Inr x" "digest_adapter prompt_adapter_fields p = Inr y"
    "b = ?h @ x @ ascii ''prompt'' @ y" by (auto simp: adapter_cache_bytes_def simp del: updates.simps(2))
  from assms(2) obtain x' y' where x': "digest_adapter lora_fields l' = Inr x'" "digest_adapter prompt_adapter_fields p' = Inr y'"
    "b = ?h @ x' @ ascii ''prompt'' @ y'" by (auto simp: adapter_cache_bytes_def simp del: updates.simps(2))
  have "?h @ x @ ascii ''prompt'' @ y = ?h @ x' @ ascii ''prompt'' @ y'" using x(3) x'(3) by (rule trans [OF sym])
  then have e: "x @ (ascii ''prompt'' @ y) = x' @ (ascii ''prompt'' @ y')" by (rule fixed_split)
  have "l = l' \<and> ascii ''prompt'' @ y = ascii ''prompt'' @ y'"
    by (rule digest_adapter_split [OF x(1) x'(1) e assms(3,5)]) (simp_all add: lora_fields_def)
  moreover from this have "y @ [] = y' @ []" by simp
  then have "p = p'"
    by (rule conjunct1 [OF digest_adapter_split [OF x(2) x'(2) _ assms(4,6)]]) (simp_all add: prompt_adapter_fields_def)
  ultimately show ?thesis by simp
qed


text \<open>What \<open>_get_cache_namespace\<close> hashes for inputs it can encode.\<close>

definition identity_bytes :: "(bytes \<Rightarrow> bytes) \<Rightarrow> bytes \<Rightarrow> bytes \<Rightarrow> bytes option \<Rightarrow> bytes" where
  "identity_bytes D runtime adapter mm = ascii ''bi100-request-prefix-namespace-v1|'' @ runtime @ D adapter @
     (case mm of None \<Rightarrow> ascii ''text|'' | Some b \<Rightarrow> ascii ''mm|'' @ D b)"

text \<open>The encoding of the multi-modal input, when it is payload and can be encoded.\<close>

definition payload_bytes :: "(MMValue \<Rightarrow> ptext) \<Rightarrow> MMValue \<Rightarrow> bytes option \<Rightarrow> bool" where
  "payload_bytes R mm b \<longleftrightarrow> (if has_multi_modal_payload mm then \<exists>x. hash_multi_modal_obj R mm = Inr x \<and> b = Some x else b = None)"

lemma get_cache_namespace_run:
  assumes "adapter_cache_bytes l p = Inr a" and "payload_bytes R mm b"
  shows "get_cache_namespace D R rnd rid mm l p s = (Inr (D (identity_bytes D (runtime_cache_namespace s) a b)), s)"
  using assms
  by (auto simp: get_cache_namespace_def adapter_cache_namespace_def payload_bytes_def mm_namespace_def
      hash_multi_modal_namespace_def identity_bytes_def run_simps Let_def split: if_splits)

lemma identity_bytes_inj:
  assumes "identity_bytes D rt a b = identity_bytes D rt a' b'" and "\<And>x. length (D x) = 32"
    and "inj_on D ({a, a'} \<union> set_option b \<union> set_option b')"
  shows "a = a' \<and> b = b'"
proof -
  let ?rest = "\<lambda>b. case b of None \<Rightarrow> ascii ''text|'' | Some b \<Rightarrow> ascii ''mm|'' @ D b"
  have "D a @ ?rest b = D a' @ ?rest b'" using assms(1) unfolding identity_bytes_def by (simp only: same_append_eq)
  moreover have len: "length (D a) = length (D a')" by (simp only: assms(2))
  ultimately have "D a = D a' \<and> ?rest b = ?rest b'" by (metis append_eq_append_conv)
  then have d: "D a = D a'" "?rest b = ?rest b'" by blast+
  have "a = a'" by (rule inj_onD [OF assms(3) d(1)]) simp_all
  moreover have "b = b'"
  proof (cases b)
    case None
    then show ?thesis using d(2) by (cases b') (simp_all add: ascii_def)
  next
    case (Some x)
    then obtain y where y: "b' = Some y" "D x = D y" using d(2) by (cases b') (simp_all add: ascii_def)
    have "x = y" by (rule inj_onD [OF assms(3) y(2)]) (simp_all add: Some y(1))
    then show ?thesis using Some y(1) by simp
  qed
  ultimately show ?thesis ..
qed

text \<open>
  C10. The namespace of a request tells apart requests that differ in their LoRA adapter, their
  prompt adapter or their multi-modal input (up to the order of mappings), whatever their ids,
  as long as the digest does not collide on the strings these two requests hash.
\<close>
theorem namespace_identifies:
  assumes "get_cache_namespace D R rnd rid mm l p s = (Inr n, s')"
    and "get_cache_namespace D R rnd' rid' mm' l' p' u = (Inr n, u')"
    and "runtime_cache_namespace u = runtime_cache_namespace s"
    and "adapter_cache_bytes l p = Inr a" and "adapter_cache_bytes l' p' = Inr a'"
    and "payload_bytes R mm b" and "payload_bytes R mm' b'"
    and "adapter_ok l" and "adapter_ok p" and "adapter_ok l'" and "adapter_ok p'" and "mm_ok mm" and "mm_ok mm'"
    and "\<And>x. length (D x) = 32"
    and "inj_on D ({a, a', identity_bytes D (runtime_cache_namespace s) a b, identity_bytes D (runtime_cache_namespace s) a' b'}
      \<union> set_option b \<union> set_option b')"
  shows "l = l' \<and> p = p' \<and> has_multi_modal_payload mm = has_multi_modal_payload mm' \<and>
    (has_multi_modal_payload mm \<longrightarrow> canonical R mm = canonical R mm')"
proof -
  let ?i = "identity_bytes D (runtime_cache_namespace s) a b" and ?i' = "identity_bytes D (runtime_cache_namespace s) a' b'"
  have "n = D ?i" using assms(1) unfolding get_cache_namespace_run [OF assms(4,6)] by auto
  moreover have "n = D ?i'" using assms(2) unfolding get_cache_namespace_run [OF assms(5,7)] assms(3) by auto
  ultimately have "D ?i = D ?i'" by simp
  then have "?i = ?i'" by (rule inj_onD [OF assms(15)]) simp_all
  moreover have "inj_on D ({a, a'} \<union> set_option b \<union> set_option b')" by (rule inj_on_subset [OF assms(15)]) auto
  ultimately have ab: "a = a'" "b = b'" using identity_bytes_inj assms(14) by blast+
  have "l = l' \<and> p = p'" using adapter_bytes_inj [OF assms(4) _ assms(8-11)] assms(5) ab(1) by simp
  moreover have "has_multi_modal_payload mm = has_multi_modal_payload mm'"
    using assms(6,7) ab(2) by (auto simp: payload_bytes_def split: if_splits)
  moreover have "canonical R mm = canonical R mm'" if pl: "has_multi_modal_payload mm"
  proof -
    obtain x where x: "hash_multi_modal_obj R mm = Inr x" "hash_multi_modal_obj R mm' = Inr x"
      using assms(6,7) ab(2) pl by (auto simp: payload_bytes_def split: if_splits)
    have e: "x @ [] = x @ []" and nd: "no_digit []" by (simp_all add: no_digit_def)
    from wire_splitsD [OF wire_splits _ _ e nd nd canonical_plain canonical_plain
        canonical_ok [OF assms(12)] canonical_ok [OF assms(13)]] x
    show ?thesis by (auto simp: hash_wire)
  qed
  ultimately show ?thesis by simp
qed

text \<open>A digest of 32 bytes that tells the strings of a small request apart.\<close>

definition ex_digest :: "bytes \<Rightarrow> bytes" where
  "ex_digest b = replicate 31 0 @ [if length b < 7 then 0 else b ! 6]"

lemma ex_digest_length: "length (ex_digest x) = 32"
  by (simp add: ex_digest_def)

definition ex_ns :: Namespaces where
  "ex_ns = \<lparr>warned_mm_namespace_requests = {}, request_local_namespace = Map.empty, runtime_cache_namespace = replicate 32 7\<rparr>"

lemma ex_adapter: "\<exists>a. adapter_cache_bytes None None = Inr a \<and> ex_digest a = replicate 31 0 @ [97]"
  by (simp add: adapter_cache_bytes_def digest_adapter_def ascii_def ex_digest_def nth_append)

lemma ex_identity: "ex_digest (identity_bytes ex_digest rt a b) = replicate 31 0 @ [114]"
  by (simp add: identity_bytes_def ascii_def ex_digest_def)

lemma be8_small:
  assumes "n < 256"
  shows "be_bytes 8 n = [0, 0, 0, 0, 0, 0, 0, n]"
proof -
  have e: "(8::nat) = Suc (Suc (Suc (Suc (Suc (Suc (Suc (Suc 0)))))))" by simp
  show ?thesis unfolding e using assms by simp
qed

lemma ex_payload: "\<exists>b. hash_multi_modal_obj ex_repr (ex_mm swapped) = Inr b \<and> ex_digest b = replicate 31 0 @ [0]"
  unfolding hash_wire ex_mm_sorted
  by (simp add: ex_mm_def Let_def pack_Q_def sized_def str_int_def utf8_def utf8_char_def text_of_def decimal_step decimal_small
      ascii_def ex_digest_def be8_small)

lemma ex_mm_payload: "has_multi_modal_payload (ex_mm swapped)"
  by (simp add: has_multi_modal_payload_def ex_mm_def Let_def)

theorem namespace_identifies_witness:
  "\<exists>n. get_cache_namespace ex_digest ex_repr [1] [50] (ex_mm False) None None ex_ns = (Inr n, ex_ns) \<and>
    get_cache_namespace ex_digest ex_repr [2] [51] (ex_mm True) None None ex_ns = (Inr n, ex_ns) \<and>
    canonical ex_repr (ex_mm False) = canonical ex_repr (ex_mm True)"
proof -
  obtain a where a: "adapter_cache_bytes None None = Inr a" "ex_digest a = replicate 31 0 @ [97]" using ex_adapter by blast
  obtain b where b: "hash_multi_modal_obj ex_repr (ex_mm False) = Inr b" "ex_digest b = replicate 31 0 @ [0]" using ex_payload by blast
  have b2: "hash_multi_modal_obj ex_repr (ex_mm True) = Inr b" using b(1) by (simp add: hash_wire ex_mm_sorted)
  have pb: "payload_bytes ex_repr (ex_mm swapped) (Some b)" for swapped
    using b(1) b2 ex_mm_payload by (cases swapped) (auto simp: payload_bytes_def)
  let ?i = "identity_bytes ex_digest (runtime_cache_namespace ex_ns) a (Some b)"
  have r: "get_cache_namespace ex_digest ex_repr rnd rid (ex_mm swapped) None None ex_ns = (Inr (ex_digest ?i), ex_ns)" for rnd rid swapped
    by (rule get_cache_namespace_run [OF a(1) pb])
  have ok: "adapter_ok None" by (simp add: adapter_ok_def)
  have "inj_on ex_digest ({a, a, ?i, ?i} \<union> set_option (Some b) \<union> set_option (Some b))"
    using a(2) b(2) ex_identity [of "runtime_cache_namespace ex_ns" a "Some b"] by (auto simp: inj_on_def)
  from namespace_identifies [OF r r refl a(1) a(1) pb pb ok ok ok ok ex_mm_ok ex_mm_ok ex_digest_length this] r ex_mm_payload
  show ?thesis by blast
qed

end
