(* ===== verification/Sequences.thy ===== *)
theory Sequences
  imports CacheNamespace Complex_Main
begin

section \<open>Sequences and groups of sequences (\<open>vllm/sequence.py\<close>)\<close>

text \<open>
  The tokens of a request, their progress through the model, and the status of the group. Token
  ids live in arrays of C longs: \<open>fits_long\<close> is the range \<open>array('l')\<close> accepts. Times and log
  probabilities are rationals: the model does not round them. The optional parts of a request
  the modelled code does not read (embeddings, adapters' weights, traces) are left out.
\<close>

datatype SequenceStatus = WAITING | RUNNING | SWAPPED | FINISHED_STOPPED | FINISHED_LENGTH_CAPPED
  | FINISHED_ABORTED | FINISHED_IGNORED

text \<open>The value of the \<open>IntEnum\<close>.\<close>

fun status_value :: "SequenceStatus \<Rightarrow> nat" where
  "status_value WAITING = 0"
| "status_value RUNNING = 1"
| "status_value SWAPPED = 2"
| "status_value FINISHED_STOPPED = 3"
| "status_value FINISHED_LENGTH_CAPPED = 4"
| "status_value FINISHED_ABORTED = 5"
| "status_value FINISHED_IGNORED = 6"

instantiation SequenceStatus :: linorder
begin

definition less_eq_SequenceStatus :: "SequenceStatus \<Rightarrow> SequenceStatus \<Rightarrow> bool" where
  "less_eq_SequenceStatus a b \<longleftrightarrow> status_value a \<le> status_value b"

definition less_SequenceStatus :: "SequenceStatus \<Rightarrow> SequenceStatus \<Rightarrow> bool" where
  "less_SequenceStatus a b \<longleftrightarrow> status_value a < status_value b"

instance
proof
  fix a b c :: SequenceStatus
  show "a < b \<longleftrightarrow> a \<le> b \<and> \<not> b \<le> a" "a \<le> a" "a \<le> b \<Longrightarrow> b \<le> c \<Longrightarrow> a \<le> c" "a \<le> b \<or> b \<le> a"
    by (auto simp: less_eq_SequenceStatus_def less_SequenceStatus_def)
  show "a \<le> b \<Longrightarrow> b \<le> a \<Longrightarrow> a = b"
    by (cases a; cases b) (simp_all add: less_eq_SequenceStatus_def)
qed

end

definition status_is_finished :: "SequenceStatus \<Rightarrow> bool" where
  "status_is_finished st \<longleftrightarrow> SWAPPED < st"

definition get_finished_reason :: "SequenceStatus \<Rightarrow> string option" where
  "get_finished_reason st = (case st of
     FINISHED_STOPPED \<Rightarrow> Some ''stop''
   | FINISHED_LENGTH_CAPPED \<Rightarrow> Some ''length''
   | FINISHED_ABORTED \<Rightarrow> Some ''abort''
   | FINISHED_IGNORED \<Rightarrow> Some ''length''
   | _ \<Rightarrow> None)"

datatype SequenceStage = PREFILL | DECODE

subsection \<open>The data of a sequence\<close>

definition fits_long :: "int \<Rightarrow> bool" where
  "fits_long x \<longleftrightarrow> - (2 ^ 63) \<le> x \<and> x < 2 ^ 63"

record SequenceDataDelta =
  new_output_token_ids :: "int list"
  new_cumulative_logprob :: rat
  new_num_computed_tokens :: nat
  new_stage :: SequenceStage

record SequenceData =
  sd_prompt_token_ids :: "int list"
  sd_output_token_ids :: "int list"
  sd_cumulative_logprob :: rat
  sd_prompt_token_ids_tuple :: "int list"
  sd_num_computed_tokens :: nat
  sd_num_cached_tokens :: nat
  sd_stage :: SequenceStage
  sd_cached_all_token_ids :: "int list"
  sd_new_appended_tokens :: "int list"
  sd_mrope_position_delta :: "int option"

type_synonym 'a sd = "(SequenceData, 'a) st"

definition update_cached_all_tokens :: "unit sd" where
  "update_cached_all_tokens = modM (\<lambda>s. s\<lparr>sd_cached_all_token_ids := sd_prompt_token_ids s @ sd_output_token_ids s\<rparr>)"

definition sd_post_init :: "unit sd" where
  "sd_post_init = thenM (modM (\<lambda>s. s\<lparr>sd_prompt_token_ids_tuple := sd_prompt_token_ids s\<rparr>)) update_cached_all_tokens"

definition sd_new :: "int list \<Rightarrow> int list \<Rightarrow> SequenceData" where
  "sd_new prompt output = snd (sd_post_init \<lparr>sd_prompt_token_ids = prompt, sd_output_token_ids = output,
     sd_cumulative_logprob = 0, sd_prompt_token_ids_tuple = [], sd_num_computed_tokens = 0, sd_num_cached_tokens = 0,
     sd_stage = PREFILL, sd_cached_all_token_ids = [], sd_new_appended_tokens = [], sd_mrope_position_delta = None\<rparr>)"

text \<open>\<open>array_full(token_id, count)\<close> for the sequences of a profiling run.\<close>

definition from_prompt_token_counts :: "(int \<times> nat) list \<Rightarrow> exn + SequenceData" where
  "from_prompt_token_counts counts =
     (if list_all (\<lambda>(t, n). fits_long t) counts
      then Inr (sd_new (concat (map (\<lambda>(t, n). replicate n t) counts)) []) else Inl OverflowError)"

definition from_seqs :: "int list \<Rightarrow> int list option \<Rightarrow> exn + SequenceData" where
  "from_seqs prompt output =
     (let out = (case output of None \<Rightarrow> [] | Some ts \<Rightarrow> ts) in
      if list_all fits_long prompt \<and> list_all fits_long out then Inr (sd_new prompt out) else Inl OverflowError)"

text \<open>The setter of \<open>output_token_ids\<close>.\<close>

definition sd_set_output_token_ids :: "int list \<Rightarrow> unit sd" where
  "sd_set_output_token_ids ts =
     thenM (guardM (\<not> list_all fits_long ts) OverflowError)
    (thenM (modM (\<lambda>s. s\<lparr>sd_output_token_ids := ts\<rparr>)) update_cached_all_tokens)"

definition sd_append_token_id :: "int \<Rightarrow> rat \<Rightarrow> unit sd" where
  "sd_append_token_id t logprob =
     thenM (guardM (\<not> fits_long t) OverflowError)
    (modM (\<lambda>s. s\<lparr>sd_output_token_ids := sd_output_token_ids s @ [t],
       sd_new_appended_tokens := sd_new_appended_tokens s @ [t],
       sd_cached_all_token_ids := sd_cached_all_token_ids s @ [t],
       sd_cumulative_logprob := sd_cumulative_logprob s + logprob\<rparr>))"

definition sd_get_len :: "SequenceData \<Rightarrow> nat" where
  "sd_get_len s = length (sd_output_token_ids s) + length (sd_prompt_token_ids s)"

definition sd_get_prompt_len :: "SequenceData \<Rightarrow> nat" where
  "sd_get_prompt_len s = length (sd_prompt_token_ids s)"

definition sd_get_output_len :: "SequenceData \<Rightarrow> nat" where
  "sd_get_output_len s = length (sd_output_token_ids s)"

definition sd_get_token_ids :: "SequenceData \<Rightarrow> int list" where
  "sd_get_token_ids s = sd_cached_all_token_ids s"

definition get_prefix_token_ids :: "nat \<Rightarrow> SequenceData \<Rightarrow> int list \<times> int list option" where
  "get_prefix_token_ids n s =
     (if sd_get_prompt_len s < n
      then (sd_prompt_token_ids_tuple s, Some (take (n - sd_get_prompt_len s) (sd_output_token_ids s)))
      else (take n (sd_prompt_token_ids_tuple s), None))"

definition sd_get_num_computed_tokens :: "SequenceData \<Rightarrow> nat" where
  "sd_get_num_computed_tokens s = sd_num_computed_tokens s"

definition sd_get_num_uncomputed_tokens :: "SequenceData \<Rightarrow> int" where
  "sd_get_num_uncomputed_tokens s = int (sd_get_len s) - int (sd_get_num_computed_tokens s)"

definition sd_update_num_computed_tokens :: "nat \<Rightarrow> unit sd" where
  "sd_update_num_computed_tokens n =
     thenM (modM (\<lambda>s. s\<lparr>sd_num_computed_tokens := sd_num_computed_tokens s + n\<rparr>))
    (thenM (getM id (\<lambda>s. assertM (sd_num_computed_tokens s \<le> sd_get_len s)))
    (getM sd_get_num_uncomputed_tokens (\<lambda>u.
       if u = 0 then modM (\<lambda>s. s\<lparr>sd_stage := DECODE\<rparr>) else retM ())))"

definition sd_update_num_cached_tokens :: "nat \<Rightarrow> unit sd" where
  "sd_update_num_cached_tokens n = modM (\<lambda>s. s\<lparr>sd_num_cached_tokens := n\<rparr>)"

definition sd_reset_state_for_recompute :: "unit sd" where
  "sd_reset_state_for_recompute =
     modM (\<lambda>s. s\<lparr>sd_num_computed_tokens := 0, sd_stage := PREFILL, sd_new_appended_tokens := []\<rparr>)"

definition sd_get_last_token_id :: "SequenceData \<Rightarrow> exn + int" where
  "sd_get_last_token_id s =
     (if sd_output_token_ids s = []
      then if sd_prompt_token_ids s = [] then Inl IndexError else Inr (last (sd_prompt_token_ids s))
      else Inr (last (sd_output_token_ids s)))"

definition get_delta_and_reset :: "SequenceDataDelta sd" where
  "get_delta_and_reset = getM id (\<lambda>s.
     thenM (modM (\<lambda>s. s\<lparr>sd_new_appended_tokens := []\<rparr>))
           (retM \<lparr>new_output_token_ids = sd_new_appended_tokens s, new_cumulative_logprob = sd_cumulative_logprob s,
              new_num_computed_tokens = sd_get_num_computed_tokens s, new_stage = sd_stage s\<rparr>))"

definition apply_delta :: "SequenceDataDelta \<Rightarrow> unit sd" where
  "apply_delta d = modM (\<lambda>s. s\<lparr>sd_num_computed_tokens := new_num_computed_tokens d,
     sd_cumulative_logprob := new_cumulative_logprob d, sd_stage := new_stage d,
     sd_output_token_ids := sd_output_token_ids s @ new_output_token_ids d,
     sd_cached_all_token_ids := sd_cached_all_token_ids s @ new_output_token_ids d\<rparr>)"

subsection \<open>A sequence\<close>

text \<open>
  \<open>lora\<close> and \<open>prompt_adapter\<close> hold the integer ids of the request's adapters. \<open>output_text\<close> is
  set by the detokenizer, \<open>status\<close> by the scheduler and the output processor.
\<close>

record Sequence =
  seq_id :: nat
  input_prompt_token_ids :: "int list"
  multi_modal_data :: MMValue
  seq_block_size :: nat
  eos_token_id :: "int option"
  lora_request :: "int option"
  prompt_adapter_request :: "int option"
  seq_data :: SequenceData
  output_logprobs :: "(int \<rightharpoonup> rat) list"
  output_text :: string
  seq_status :: SequenceStatus
  last_output_token_ids_offset :: nat
  last_output_text_offset :: nat

type_synonym 'a sq = "(Sequence, 'a) st"

definition seq_init :: "nat \<Rightarrow> int list \<Rightarrow> MMValue \<Rightarrow> nat \<Rightarrow> int option \<Rightarrow> int option \<Rightarrow> int option \<Rightarrow> exn + Sequence" where
  "seq_init sid prompt mm bsize eos lora padapter = (case from_seqs prompt None of
     Inl e \<Rightarrow> Inl e
   | Inr d \<Rightarrow> Inr \<lparr>seq_id = sid, input_prompt_token_ids = prompt, multi_modal_data = mm, seq_block_size = bsize,
       eos_token_id = eos, lora_request = lora, prompt_adapter_request = padapter, seq_data = d, output_logprobs = [],
       output_text = [], seq_status = WAITING, last_output_token_ids_offset = 0, last_output_text_offset = 0\<rparr>)"

definition dataM :: "'a sd \<Rightarrow> 'a sq" where
  "dataM = zoomM seq_data (\<lambda>d s. s\<lparr>seq_data := d\<rparr>)"

definition seq_get_len :: "Sequence \<Rightarrow> nat" where
  "seq_get_len s = sd_get_len (seq_data s)"

definition n_blocks :: "Sequence \<Rightarrow> nat" where
  "n_blocks s = (seq_get_len s + seq_block_size s - 1) div seq_block_size s"

definition lora_int_id :: "Sequence \<Rightarrow> int" where
  "lora_int_id s = (case lora_request s of Some i \<Rightarrow> i | None \<Rightarrow> 0)"

definition prompt_adapter_id :: "Sequence \<Rightarrow> int" where
  "prompt_adapter_id s = (case prompt_adapter_request s of Some i \<Rightarrow> i | None \<Rightarrow> 0)"

definition seq_is_finished :: "Sequence \<Rightarrow> bool" where
  "seq_is_finished s = status_is_finished (seq_status s)"

text \<open>\<open>output_text[:-n]\<close> drops the last \<open>n\<close> characters.\<close>

definition get_output_text_to_return :: "nat \<Rightarrow> bool \<Rightarrow> string sq" where
  "get_output_text_to_return buffer_length delta = getM id (\<lambda>s.
     let truncate = (buffer_length \<noteq> 0 \<and> \<not> seq_is_finished s); txt = output_text s in
     if \<not> delta then retM (if truncate then take (length txt - buffer_length) txt else txt)
     else
       let len = (if truncate then int (length txt) - int buffer_length else int (length txt)) in
       if int (last_output_text_offset s) < len then
         thenM (modM (\<lambda>s. s\<lparr>last_output_text_offset := nat len\<rparr>))
               (retM (drop (last_output_text_offset s) (take (nat len) txt)))
       else retM [])"

text \<open>A single new token is returned as itself, other numbers of tokens as a list.\<close>

definition get_output_token_ids_to_return :: "bool \<Rightarrow> (int list + int) sq" where
  "get_output_token_ids_to_return delta = getM id (\<lambda>s.
     if \<not> delta then retM (Inl (sd_output_token_ids (seq_data s)))
     else
       let output_len = sd_get_output_len (seq_data s);
           num_new_tokens = int output_len - int (last_output_token_ids_offset s);
           all = sd_cached_all_token_ids (seq_data s) in
       thenM (modM (\<lambda>s. s\<lparr>last_output_token_ids_offset := output_len\<rparr>))
      (if num_new_tokens = 1 then
         bindM (fromM IndexError (if all = [] then None else Some (last all))) (\<lambda>t. retM (Inr t))
       else if num_new_tokens = 0 then retM (Inl [])
       else retM (Inl (if 0 \<le> num_new_tokens then drop (length all - nat num_new_tokens) all
                       else drop (nat (- num_new_tokens)) all))))"

definition num_hashed_tokens_of_block :: "nat \<Rightarrow> Sequence \<Rightarrow> nat" where
  "num_hashed_tokens_of_block logical_idx s = logical_idx * seq_block_size s + seq_block_size s"

text \<open>\<open>P\<close> and \<open>Q\<close> stand for Python's \<open>hash\<close> of the tuples the two methods build.\<close>

definition hash_of_block :: "((int list \<times> int list option) \<times> int \<Rightarrow> int) \<Rightarrow> nat \<Rightarrow> Sequence \<Rightarrow> int" where
  "hash_of_block P logical_idx s =
     P (get_prefix_token_ids (num_hashed_tokens_of_block logical_idx s) (seq_data s), lora_int_id s)"

definition seq_extra_hash :: "(int \<times> int \<Rightarrow> int) \<Rightarrow> Sequence \<Rightarrow> int option" where
  "seq_extra_hash Q s =
     (if prompt_adapter_id s = 0 \<and> lora_int_id s = 0 then None else Some (Q (prompt_adapter_id s, lora_int_id s)))"

definition seq_append_token_id :: "int \<Rightarrow> (int \<rightharpoonup> rat) \<Rightarrow> unit sq" where
  "seq_append_token_id t logprobs =
     bindM (fromM AssertionError (logprobs t)) (\<lambda>lp.
     thenM (modM (\<lambda>s. s\<lparr>output_logprobs := output_logprobs s @ [logprobs]\<rparr>))
           (dataM (sd_append_token_id t lp)))"

definition seq_fork :: "nat \<Rightarrow> Sequence \<Rightarrow> Sequence" where
  "seq_fork new_seq_id s = s\<lparr>seq_id := new_seq_id\<rparr>"

definition get_num_new_tokens :: "Sequence \<Rightarrow> int" where
  "get_num_new_tokens s = (if sd_stage (seq_data s) = DECODE then 1 else sd_get_num_uncomputed_tokens (seq_data s))"

definition seq_is_prefill :: "Sequence \<Rightarrow> bool" where
  "seq_is_prefill s \<longleftrightarrow> sd_stage (seq_data s) = PREFILL"


subsection \<open>A group of sequences\<close>

text \<open>
  \<open>group_lora\<close> and \<open>group_prompt_adapter\<close> are the texts of the identifying attributes of the
  group's adapters. \<open>first_seq\<close> is the object \<open>seqs[0]\<close>; \<open>seqs\<close> is never assigned again.
\<close>

record RequestMetrics =
  arrival_time :: rat
  last_token_time :: rat
  first_scheduled_time :: "rat option"
  first_token_time :: "rat option"
  time_in_queue :: "rat option"
  finished_time :: "rat option"

record SequenceGroup =
  request_id :: ptext
  seqs :: "Sequence list"
  is_single_seq :: bool
  metrics :: RequestMetrics
  last_token_latency :: rat
  state_num_steps :: int
  state_current_step :: int
  encoder_seq :: "Sequence option"
  priority :: int
  group_lora :: "ptext list option"
  group_prompt_adapter :: "ptext list option"

type_synonym 'a sg = "(SequenceGroup, 'a) st"

definition sg_init :: "ptext \<Rightarrow> Sequence list \<Rightarrow> rat \<Rightarrow> Sequence option \<Rightarrow> int \<Rightarrow> ptext list option \<Rightarrow> ptext list option
    \<Rightarrow> SequenceGroup" where
  "sg_init rid ss arrival enc prio lora padapter = \<lparr>request_id = rid, seqs = ss, is_single_seq = (length ss = 1),
     metrics = \<lparr>arrival_time = arrival, last_token_time = arrival, first_scheduled_time = None, first_token_time = None,
       time_in_queue = None, finished_time = None\<rparr>,
     last_token_latency = 0, state_num_steps = 1, state_current_step = 0, encoder_seq = enc, priority = prio,
     group_lora = lora, group_prompt_adapter = padapter\<rparr>"

text \<open>Attributes of \<open>first_seq\<close>, which is \<open>None\<close> in a group without sequences.\<close>

definition first_seq :: "SequenceGroup \<Rightarrow> exn + Sequence" where
  "first_seq g = (case seqs g of [] \<Rightarrow> Inl AttributeError | s # _ \<Rightarrow> Inr s)"

definition remaining_steps :: "SequenceGroup \<Rightarrow> int" where
  "remaining_steps g = state_num_steps g - state_current_step g"

definition init_multi_step :: "int \<Rightarrow> unit sg" where
  "init_multi_step n = modM (\<lambda>g. g\<lparr>state_num_steps := n, state_current_step := 0\<rparr>)"

definition group_is_prefill :: "SequenceGroup \<Rightarrow> exn + bool" where
  "group_is_prefill g = map_sum id seq_is_prefill (first_seq g)"

definition init_multi_step_from_lookahead_slots :: "nat \<Rightarrow> int \<Rightarrow> bool \<Rightarrow> bool \<Rightarrow> unit sg" where
  "init_multi_step_from_lookahead_slots num_lookahead_slots num_scheduler_steps is_multi_step enable_chunking =
     (if \<not> is_multi_step then init_multi_step num_scheduler_steps
      else getM group_is_prefill (\<lambda>p. bindM (liftM p) (\<lambda>is_prefill.
        if is_prefill \<and> enable_chunking then
          thenM (assertM (int num_lookahead_slots = num_scheduler_steps)) (init_multi_step (int num_lookahead_slots))
        else
          thenM (assertM (num_lookahead_slots = 0 \<or> \<not> is_prefill))
         (thenM (assertM (int num_lookahead_slots + 1 = num_scheduler_steps \<or> is_prefill))
                (init_multi_step (int num_lookahead_slots + 1))))))"

definition set_last_token_time :: "rat \<Rightarrow> unit sg" where
  "set_last_token_time now = getM group_is_prefill (\<lambda>p. bindM (liftM p) (\<lambda>is_prefill.
     thenM (assertM (\<not> is_prefill))
    (modM (\<lambda>g. g\<lparr>last_token_latency := now - last_token_time (metrics g),
       metrics := (metrics g)\<lparr>last_token_time := now\<rparr>\<rparr>))))"

definition get_last_token_latency :: "rat sg" where
  "get_last_token_latency = getM group_is_prefill (\<lambda>p. bindM (liftM p) (\<lambda>is_prefill.
     thenM (assertM (\<not> is_prefill)) (getM last_token_latency retM)))"

definition maybe_set_first_token_time :: "rat \<Rightarrow> unit sg" where
  "maybe_set_first_token_time now = getM id (\<lambda>g.
     if first_token_time (metrics g) \<noteq> None then retM ()
     else bindM (liftM (first_seq g)) (\<lambda>s.
       if sd_get_output_len (seq_data s) = 1
       then modM (\<lambda>g. g\<lparr>metrics := (metrics g)\<lparr>first_token_time := Some now\<rparr>\<rparr>) else retM ()))"

definition maybe_set_first_scheduled_time :: "rat \<Rightarrow> unit sg" where
  "maybe_set_first_scheduled_time now = getM metrics (\<lambda>m.
     if first_scheduled_time m = None
     then modM (\<lambda>g. g\<lparr>metrics := m\<lparr>first_scheduled_time := Some now, time_in_queue := Some (now - arrival_time m)\<rparr>\<rparr>)
     else retM ())"

definition set_finished_time :: "rat option \<Rightarrow> unit sg" where
  "set_finished_time t = modM (\<lambda>g. g\<lparr>metrics := (metrics g)\<lparr>finished_time := t\<rparr>\<rparr>)"

definition get_seqs :: "SequenceStatus option \<Rightarrow> SequenceGroup \<Rightarrow> Sequence list" where
  "get_seqs status g = (case status of
     None \<Rightarrow> seqs g
   | Some st \<Rightarrow>
       if is_single_seq g then (if seq_status (hd (seqs g)) = st then seqs g else [])
       else filter (\<lambda>s. seq_status s = st) (seqs g))"

definition is_encoder_decoder :: "SequenceGroup \<Rightarrow> bool" where
  "is_encoder_decoder g \<longleftrightarrow> encoder_seq g \<noteq> None"

definition get_finished_seqs :: "SequenceGroup \<Rightarrow> Sequence list" where
  "get_finished_seqs g =
     (if is_single_seq g then (if seq_is_finished (hd (seqs g)) then seqs g else [])
      else filter seq_is_finished (seqs g))"

definition num_seqs :: "SequenceStatus option \<Rightarrow> SequenceGroup \<Rightarrow> nat" where
  "num_seqs status g = (case status of
     None \<Rightarrow> length (seqs g)
   | Some st \<Rightarrow>
       if is_single_seq g then (if seq_status (seqs g ! 0) = st then 1 else 0)
       else length (get_seqs status g))"

definition num_finished_seqs :: "SequenceGroup \<Rightarrow> nat" where
  "num_finished_seqs g =
     (if is_single_seq g then (if seq_is_finished (seqs g ! 0) then 1 else 0) else length (get_finished_seqs g))"

definition get_max_num_running_seqs :: "SequenceGroup \<Rightarrow> nat" where
  "get_max_num_running_seqs g =
     (if is_single_seq g then (if seq_is_finished (hd (seqs g)) then 0 else 1)
      else num_seqs None g - num_finished_seqs g)"

definition group_is_finished :: "SequenceGroup \<Rightarrow> bool" where
  "group_is_finished g =
     (if is_single_seq g then seq_is_finished (hd (seqs g)) else list_all seq_is_finished (seqs g))"

definition group_get_num_uncomputed_tokens :: "SequenceGroup \<Rightarrow> int" where
  "group_get_num_uncomputed_tokens g =
     sum_list (map (\<lambda>s. if seq_is_finished s then 0 else sd_get_num_uncomputed_tokens (seq_data s)) (seqs g))"

text \<open>The loop over the sequences; the ones before a failing assertion keep their update.\<close>

fun update_all :: "nat \<Rightarrow> Sequence list \<Rightarrow> (exn + unit) \<times> Sequence list" where
  "update_all n [] = (Inr (), [])"
| "update_all n (s # ss) =
     (if seq_is_finished s then (case update_all n ss of (r, ss') \<Rightarrow> (r, s # ss'))
      else (case sd_update_num_computed_tokens n (seq_data s) of
        (Inl e, d) \<Rightarrow> (Inl e, s\<lparr>seq_data := d\<rparr> # ss)
      | (Inr _, d) \<Rightarrow> (case update_all n ss of (r, ss') \<Rightarrow> (r, s\<lparr>seq_data := d\<rparr> # ss'))))"

definition group_update_num_computed_tokens :: "nat \<Rightarrow> unit sg" where
  "group_update_num_computed_tokens n = zoomM seqs (\<lambda>ss g. g\<lparr>seqs := ss\<rparr>) (update_all n)"

subsection \<open>The cached tokens and the progress of a sequence\<close>

definition sd_ok :: "SequenceData \<Rightarrow> bool" where
  "sd_ok s \<longleftrightarrow> sd_cached_all_token_ids s = sd_prompt_token_ids s @ sd_output_token_ids s \<and>
     sd_prompt_token_ids_tuple s = sd_prompt_token_ids s \<and> sd_num_computed_tokens s \<le> sd_get_len s \<and>
     list_all fits_long (sd_cached_all_token_ids s)"

text \<open>What the driver does to a sequence.\<close>

datatype DataCall = Append int rat | Computed nat | Cached nat | Recompute

fun data_call :: "DataCall \<Rightarrow> unit sd" where
  "data_call (Append t lp) = sd_append_token_id t lp"
| "data_call (Computed n) = sd_update_num_computed_tokens n"
| "data_call (Cached n) = sd_update_num_cached_tokens n"
| "data_call Recompute = sd_reset_state_for_recompute"

inductive data_reachable :: "SequenceData \<Rightarrow> bool" where
  start: "from_seqs p out = Inr s \<Longrightarrow> data_reachable s"
| profile: "from_prompt_token_counts counts = Inr s \<Longrightarrow> data_reachable s"
| call: "data_reachable s \<Longrightarrow> data_call c s = (Inr (), t) \<Longrightarrow> data_reachable t"
| delta: "data_reachable s \<Longrightarrow> get_delta_and_reset s = (Inr d, t) \<Longrightarrow> data_reachable t"

lemma sd_new_eq: "sd_new p out = \<lparr>sd_prompt_token_ids = p, sd_output_token_ids = out,
     sd_cumulative_logprob = 0, sd_prompt_token_ids_tuple = p, sd_num_computed_tokens = 0, sd_num_cached_tokens = 0,
     sd_stage = PREFILL, sd_cached_all_token_ids = p @ out, sd_new_appended_tokens = [], sd_mrope_position_delta = None\<rparr>"
  by (simp add: sd_new_def sd_post_init_def update_cached_all_tokens_def run_simps)

lemma sd_new_ok: "list_all fits_long (p @ out) \<Longrightarrow> sd_ok (sd_new p out)"
  by (simp add: sd_ok_def sd_new_eq sd_get_len_def)

lemma data_call_ok: "preserves sd_ok (data_call c)"
proof (cases c)
  case (Append t lp)
  then show ?thesis
    by (auto simp: preserves_def sd_append_token_id_def ok_simps sd_ok_def sd_get_len_def)
next
  case (Computed n)
  then show ?thesis
    by (auto simp: preserves_def sd_update_num_computed_tokens_def ok_simps sd_ok_def sd_get_len_def split: if_splits)
next
  case (Cached n)
  then show ?thesis
    by (auto simp: preserves_def sd_update_num_cached_tokens_def ok_simps sd_ok_def sd_get_len_def)
next
  case Recompute
  then show ?thesis
    by (auto simp: preserves_def sd_reset_state_for_recompute_def ok_simps sd_ok_def sd_get_len_def)
qed

lemma delta_ok: "preserves sd_ok get_delta_and_reset"
  by (auto simp: preserves_def get_delta_and_reset_def ok_simps sd_ok_def sd_get_len_def)

lemma list_all_counts: "list_all (\<lambda>(t, n). P t) counts \<Longrightarrow> list_all P (concat (map (\<lambda>(t, n). replicate n t) counts))"
  by (induction counts) (auto simp: list_all_iff)

lemma data_reachable_ok: "data_reachable s \<Longrightarrow> sd_ok s"
proof (induction rule: data_reachable.induct)
  case (start p out s)
  then have s: "s = sd_new p (case out of None \<Rightarrow> [] | Some ts \<Rightarrow> ts)"
    "list_all fits_long (p @ (case out of None \<Rightarrow> [] | Some ts \<Rightarrow> ts))"
    by (auto simp: from_seqs_def Let_def split: if_splits)
  show ?case unfolding s(1) by (rule sd_new_ok [OF s(2)])
next
  case (profile counts s)
  then show ?case
    by (auto simp: from_prompt_token_counts_def list_all_counts intro!: sd_new_ok split: if_splits)
next
  case (call s c t)
  then show ?case using preservesD [OF data_call_ok] by blast
next
  case (delta s d t)
  then show ?case using preservesD [OF delta_ok] by blast
qed


definition ex_data :: SequenceData where
  "ex_data = snd (sd_append_token_id 9 (1/2) (sd_new [5, 6] []))"

lemma ex_data_reachable: "data_reachable ex_data"
proof -
  have "from_seqs [5, 6] None = Inr (sd_new [5, 6] [])" by (simp add: from_seqs_def fits_long_def)
  then have 1: "data_reachable (sd_new [5, 6] [])" by (rule data_reachable.start)
  have "data_call (Append 9 (1/2)) (sd_new [5, 6] []) = (Inr (), ex_data)"
    by (simp add: ex_data_def sd_append_token_id_def run_simps fits_long_def)
  with 1 show ?thesis by (rule data_reachable.call)
qed


subsection \<open>Replicas kept by deltas\<close>

text \<open>
  A driver sends a worker the data once and a delta after each step; \<open>replicated s r\<close> are the
  states the driver's data \<open>s\<close> and the worker's copy \<open>r\<close> can be in.
\<close>

inductive replicated :: "SequenceData \<Rightarrow> SequenceData \<Rightarrow> bool" where
  start: "from_seqs p out = Inr s \<Longrightarrow> replicated s s"
| append: "replicated s r \<Longrightarrow> sd_append_token_id t lp s = (Inr (), s') \<Longrightarrow> replicated s' r"
| computed: "replicated s r \<Longrightarrow> sd_update_num_computed_tokens n s = (Inr (), s') \<Longrightarrow> replicated s' r"
| sync: "replicated s r \<Longrightarrow> get_delta_and_reset s = (Inr d, s') \<Longrightarrow> apply_delta d r = (Inr (), r') \<Longrightarrow> replicated s' r'"

definition behind :: "SequenceData \<Rightarrow> SequenceData \<Rightarrow> bool" where
  "behind s r \<longleftrightarrow> sd_prompt_token_ids r = sd_prompt_token_ids s \<and>
     sd_prompt_token_ids_tuple r = sd_prompt_token_ids_tuple s \<and> sd_num_cached_tokens r = sd_num_cached_tokens s \<and>
     sd_mrope_position_delta r = sd_mrope_position_delta s \<and>
     sd_new_appended_tokens r = [] \<and> sd_output_token_ids s = sd_output_token_ids r @ sd_new_appended_tokens s \<and>
     sd_cached_all_token_ids s = sd_cached_all_token_ids r @ sd_new_appended_tokens s"

lemma sync_equal:
  assumes "behind s r" and "get_delta_and_reset s = (Inr d, s')"
  shows "apply_delta d r = (Inr (), s')"
  using assms by (auto simp: behind_def get_delta_and_reset_def apply_delta_def ok_simps run_simps sd_get_num_computed_tokens_def
      intro!: SequenceData.equality)

lemma replicated_behind: "replicated s r \<Longrightarrow> behind s r"
proof (induction rule: replicated.induct)
  case (start p out s)
  then show ?case by (auto simp: behind_def from_seqs_def Let_def sd_new_eq split: if_splits)
next
  case (append s r t lp s')
  then show ?case by (auto simp: behind_def sd_append_token_id_def ok_simps)
next
  case (computed s r n s')
  then show ?case by (auto simp: behind_def sd_update_num_computed_tokens_def ok_simps split: if_splits)
next
  case (sync s r d s' r')
  then have "r' = s'" using sync_equal by fastforce
  moreover have "behind s' s'" using sync by (auto simp: behind_def get_delta_and_reset_def ok_simps)
  ultimately show ?case by simp
qed

text \<open>
  C15. A worker that applies every delta has exactly the driver's data after each one: its tokens,
  its progress, its stage and its log probability, whatever was appended and computed between.
\<close>
theorem delta_replicates:
  assumes "replicated s r" and "get_delta_and_reset s = (Inr d, s')"
  shows "apply_delta d r = (Inr (), s')"
  by (rule sync_equal [OF replicated_behind [OF assms(1)] assms(2)])

theorem delta_replicates_witness:
  "\<exists>d s'. get_delta_and_reset ex_data = (Inr d, s') \<and> apply_delta d (sd_new [5, 6] []) = (Inr (), s') \<and>
    sd_output_token_ids s' = [9]"
proof -
  have "from_seqs [5, 6] None = Inr (sd_new [5, 6] [])" by (simp add: from_seqs_def fits_long_def)
  then have "replicated (sd_new [5, 6] []) (sd_new [5, 6] [])" by (rule replicated.start)
  moreover have "sd_append_token_id 9 (1/2) (sd_new [5, 6] []) = (Inr (), ex_data)"
    by (simp add: ex_data_def sd_append_token_id_def run_simps fits_long_def)
  ultimately have r: "replicated ex_data (sd_new [5, 6] [])" by (rule replicated.append)
  obtain d s' where d: "get_delta_and_reset ex_data = (Inr d, s')" by (simp add: get_delta_and_reset_def run_simps)
  have "sd_output_token_ids s' = [9]"
    using d by (auto simp: get_delta_and_reset_def ok_simps ex_data_def sd_append_token_id_def run_simps fits_long_def sd_new_eq)
  with d delta_replicates [OF r d] show ?thesis by blast
qed

subsection \<open>Streaming the output\<close>

text \<open>\<open>streamed out s\<close>: the client of \<open>s\<close> was sent the pieces \<open>out\<close>, while the output grew.\<close>

inductive streamed :: "string \<Rightarrow> Sequence \<Rightarrow> bool" where
  start: "seq_init sid prompt mm bsize eos lora padapter = Inr s \<Longrightarrow> streamed [] s"
| grow: "streamed out s \<Longrightarrow> streamed out (s\<lparr>output_text := output_text s @ x\<rparr>)"
| status: "streamed out s \<Longrightarrow> streamed out (s\<lparr>seq_status := st\<rparr>)"
| send: "streamed out s \<Longrightarrow> get_output_text_to_return buffer_length True s = (Inr x, s') \<Longrightarrow> streamed (out @ x) s'"

lemma take_drop_take: "k \<le> n \<Longrightarrow> take k xs @ drop k (take n xs) = take n xs"
  by (metis append_take_drop_id min.absorb1 take_take)

lemma streamed_prefix: "streamed out s \<Longrightarrow> out = take (last_output_text_offset s) (output_text s) \<and>
    last_output_text_offset s \<le> length (output_text s)"
proof (induction rule: streamed.induct)
  case (start sid prompt mm bsize eos lora padapter s)
  then show ?case by (auto simp: seq_init_def split: sum.splits)
next
  case (send out s buffer_length x s')
  let ?txt = "output_text s" and ?off = "last_output_text_offset s"
  let ?len = "if buffer_length \<noteq> 0 \<and> \<not> seq_is_finished s then int (length ?txt) - int buffer_length else int (length ?txt)"
  have le: "nat ?len \<le> length ?txt" by (simp split: if_split) linarith
  show ?case
  proof (cases "int ?off < ?len")
    case True
    then have "x = drop ?off (take (nat ?len) ?txt)" "s' = s\<lparr>last_output_text_offset := nat ?len\<rparr>"
      using send(2) by (auto simp: get_output_text_to_return_def Let_def ok_simps split: if_splits)
    moreover have "take ?off ?txt @ drop ?off (take (nat ?len) ?txt) = take (nat ?len) ?txt"
      using True by (intro take_drop_take) linarith
    ultimately show ?thesis using send.IH le by simp
  next
    case False
    then have "x = [] \<and> s' = s" using send(2) by (auto simp: get_output_text_to_return_def Let_def ok_simps split: if_splits)
    then show ?thesis using send.IH by simp
  qed
qed auto



definition ex_seq :: Sequence where
  "ex_seq = \<lparr>seq_id = 1, input_prompt_token_ids = [5, 6], multi_modal_data = MM_None, seq_block_size = 2,
     eos_token_id = None, lora_request = None, prompt_adapter_request = None, seq_data = sd_new [5, 6] [],
     output_logprobs = [], output_text = [], seq_status = WAITING, last_output_token_ids_offset = 0,
     last_output_text_offset = 0\<rparr>"

lemma ex_seq_init: "seq_init 1 [5, 6] MM_None 2 None None None = Inr ex_seq"
  by (simp add: seq_init_def from_seqs_def fits_long_def ex_seq_def)

definition ex_streaming :: Sequence where
  "ex_streaming = ex_seq\<lparr>output_text := ''hello'', last_output_text_offset := 3, seq_status := FINISHED_STOPPED\<rparr>"

lemma ex_streamed: "streamed ''hel'' ex_streaming"
proof -
  let ?s = "ex_seq\<lparr>output_text := output_text ex_seq @ ''hello''\<rparr>"
  have "streamed [] ?s" by (rule streamed.grow [OF streamed.start [OF ex_seq_init]])
  moreover have "get_output_text_to_return 2 True ?s = (Inr ''hel'', ?s\<lparr>last_output_text_offset := 3\<rparr>)"
    by (simp add: get_output_text_to_return_def run_simps ex_seq_def seq_is_finished_def status_is_finished_def
        less_SequenceStatus_def numeral_eq_Suc)
  ultimately have "streamed ([] @ ''hel'') (?s\<lparr>last_output_text_offset := 3\<rparr>)" by (rule streamed.send)
  from streamed.status [OF this, of FINISHED_STOPPED] show ?thesis
    by (simp add: ex_streaming_def ex_seq_def)
qed


subsection \<open>Groups\<close>

text \<open>
  The shortcuts for groups of a single sequence do not change any answer: for every group
  that is created with at least one sequence, and whatever the statuses became, the sequences of
  a status, the finished ones, their numbers and the number that can still run are those of the
  general definitions.
\<close>
theorem group_shortcuts:
  assumes "g = (sg_init rid ss arrival enc prio lora padapter)\<lparr>seqs := ss'\<rparr>" and "length ss' = length ss" and "ss \<noteq> []"
  shows "get_seqs (Some st) g = filter (\<lambda>s. seq_status s = st) ss' \<and>
    get_finished_seqs g = filter (\<lambda>s. WAITING \<noteq> seq_status s \<and> seq_status s \<notin> {RUNNING, SWAPPED}) ss' \<and>
    num_seqs (Some st) g = length (filter (\<lambda>s. seq_status s = st) ss') \<and>
    num_finished_seqs g + get_max_num_running_seqs g = length ss' \<and>
    (group_is_finished g \<longleftrightarrow> get_max_num_running_seqs g = 0)"
proof -
  have fin: "seq_is_finished s \<longleftrightarrow> WAITING \<noteq> seq_status s \<and> seq_status s \<notin> {RUNNING, SWAPPED}" for s
    by (cases "seq_status s") (simp_all add: seq_is_finished_def status_is_finished_def less_SequenceStatus_def)
  have fin2: "seq_is_finished = (\<lambda>s. WAITING \<noteq> seq_status s \<and> seq_status s \<notin> {RUNNING, SWAPPED})"
    using fin by (rule ext)
  have filt: "filter (\<lambda>s. WAITING \<noteq> seq_status s \<and> seq_status s \<notin> {RUNNING, SWAPPED}) ss' = filter seq_is_finished ss'"
    unfolding fin2 ..
  have g: "seqs g = ss'" "is_single_seq g = (length ss' = 1)" using assms(1,2) by (simp_all add: sg_init_def)
  show ?thesis
  proof (cases "length ss' = 1")
    case True
    then obtain s where "ss' = [s]" by (cases ss') auto
    then show ?thesis using g
      by (simp add: get_seqs_def get_finished_seqs_def num_seqs_def num_finished_seqs_def get_max_num_running_seqs_def
          group_is_finished_def fin)
  next
    case False
    have "length (filter seq_is_finished ss') \<le> length ss'" by (rule length_filter_le)
    moreover have "list_all seq_is_finished ss' \<longleftrightarrow> length ss' - length (filter seq_is_finished ss') = 0"
      using length_filter_less [of _ ss' seq_is_finished] by (auto simp: list_all_iff) (metis filter_id_conv order_refl)+
    ultimately show ?thesis unfolding filt using g False
      by (simp add: get_seqs_def get_finished_seqs_def num_seqs_def num_finished_seqs_def get_max_num_running_seqs_def
          group_is_finished_def)
  qed
qed

theorem group_shortcuts_witness:
  "get_seqs (Some WAITING) (sg_init [] [ex_seq] 0 None 0 None None) = [ex_seq] \<and>
    num_finished_seqs (sg_init [] [ex_seq] 0 None 0 None None) + get_max_num_running_seqs (sg_init [] [ex_seq] 0 None 0 None None) = 1"
  using group_shortcuts [where g = "sg_init [] [ex_seq] 0 None 0 None None" and ss' = "[ex_seq]" and ss = "[ex_seq]" and rid = "[]" and
      arrival = 0 and enc = None and prio = 0 and lora = None and padapter = None and st = WAITING]
  by (simp add: sg_init_def ex_seq_def)

end
