(* ===== verification/BlockManager.thy ===== *)
theory BlockManager
  imports SequenceBlocks Sequences
begin

section \<open>The block manager (\<open>vllm/core/block_manager_v2.py\<close>)\<close>

text \<open>
  \<open>BlockSpaceManagerV2\<close> keeps a block table per sequence over one two-device allocator, with the
  trackers of computed blocks and access times and the cache namespaces. Its parameters are \<open>H\<close>,
  the hash of blocks, \<open>D\<close>, the digest, \<open>R\<close>, Python's \<open>repr\<close>, and \<open>rnd\<close>, the bytes the operating
  system's random source returns. The cache trace, which prints when an environment variable
  asks for it, is off.
\<close>

datatype AllocStatus = OK | LATER | NEVER

record BlockManager =
  bm_block_size :: nat
  num_total_gpu_blocks :: nat
  num_total_cpu_blocks :: nat
  bm_sliding_window :: "nat option"
  max_block_sliding_window :: "nat option"
  enable_caching :: bool
  watermark_blocks :: int
  block_allocator :: CpuGpu
  block_tables :: "nat \<rightharpoonup> BlockTable"
  cross_block_tables :: "ptext \<rightharpoonup> BlockTable"
  namespaces :: Namespaces
  computed_blocks_tracker :: ComputedBlocksTracker
  last_access_blocks_tracker :: LastAccessBlocksTracker

type_synonym 'a bm = "(BlockManager, 'a) st"

subsection \<open>Construction\<close>

text \<open>\<open>fl\<close> rounds a product of floats; \<open>blank\<close> is an object before \<open>__init__\<close>.\<close>

definition max_blocks_of_window :: "nat option \<Rightarrow> nat \<Rightarrow> nat option" where
  "max_blocks_of_window window bsize = (case window of None \<Rightarrow> None | Some w \<Rightarrow> Some (w div bsize + 1 + 1))"

definition blank_manager :: BlockManager where
  "blank_manager = \<lparr>bm_block_size = 0, num_total_gpu_blocks = 0, num_total_cpu_blocks = 0, bm_sliding_window = None,
     max_block_sliding_window = None, enable_caching = False, watermark_blocks = 0, block_allocator = blank_cg,
     block_tables = Map.empty, cross_block_tables = Map.empty,
     namespaces = \<lparr>warned_mm_namespace_requests = {}, request_local_namespace = Map.empty, runtime_cache_namespace = []\<rparr>,
     computed_blocks_tracker = \<lparr>cached_computed_seq_blocks = Map.empty\<rparr>,
     last_access_blocks_tracker = \<lparr>seq_last_access = Map.empty\<rparr>\<rparr>"

definition bm_init :: "(rat \<Rightarrow> rat) \<Rightarrow> (exn + bytes) \<Rightarrow> nat \<Rightarrow> nat \<Rightarrow> nat \<Rightarrow> rat \<Rightarrow> nat option \<Rightarrow> bool \<Rightarrow> unit bm" where
  "bm_init fl runtime bsize num_gpu_blocks num_cpu_blocks watermark window caching =
     thenM (modM (\<lambda>s. s\<lparr>bm_block_size := bsize, num_total_gpu_blocks := num_gpu_blocks,
        num_total_cpu_blocks := num_cpu_blocks, bm_sliding_window := window,
        max_block_sliding_window := max_blocks_of_window window bsize\<rparr>))
    (thenM (assertM (0 \<le> watermark))
    (thenM (modM (\<lambda>s. s\<lparr>enable_caching := caching, watermark_blocks := \<lfloor>fl (watermark * of_nat num_gpu_blocks)\<rfloor>\<rparr>))
    (thenM (zoomM block_allocator (\<lambda>c s. s\<lparr>block_allocator := c\<rparr>)
        (cg_create (if caching then ''prefix_caching'' else ''naive'') num_gpu_blocks num_cpu_blocks bsize))
    (bindM (liftM runtime) (\<lambda>r.
     modM (\<lambda>s. s\<lparr>block_tables := Map.empty, cross_block_tables := Map.empty,
       namespaces := \<lparr>warned_mm_namespace_requests = {}, request_local_namespace = Map.empty, runtime_cache_namespace = r\<rparr>,
       computed_blocks_tracker := \<lparr>cached_computed_seq_blocks = Map.empty\<rparr>,
       last_access_blocks_tracker := \<lparr>seq_last_access = Map.empty\<rparr>\<rparr>))))))"

subsection \<open>Calls on the parts\<close>

definition allocM :: "'a cg \<Rightarrow> 'a bm" where
  "allocM = zoomM block_allocator (\<lambda>c s. s\<lparr>block_allocator := c\<rparr>)"

definition cbtM :: "(ComputedBlocksTracker, 'a) st \<Rightarrow> 'a bm" where
  "cbtM = zoomM computed_blocks_tracker (\<lambda>x s. s\<lparr>computed_blocks_tracker := x\<rparr>)"

definition latM :: "(LastAccessBlocksTracker, 'a) st \<Rightarrow> 'a bm" where
  "latM = zoomM last_access_blocks_tracker (\<lambda>x s. s\<lparr>last_access_blocks_tracker := x\<rparr>)"

text \<open>A method of a table: its state is the table with the allocator they all share.\<close>

definition on_table :: "BlockTable \<Rightarrow> 'a tb \<Rightarrow> ('a \<times> BlockTable) bm" where
  "on_table t m = (\<lambda>s. case m (t, block_allocator s) of
     (Inl e, (t', c)) \<Rightarrow> (Inl e, s\<lparr>block_allocator := c\<rparr>)
   | (Inr x, (t', c)) \<Rightarrow> (Inr (x, t'), s\<lparr>block_allocator := c\<rparr>))"

text \<open>\<open>self.block_tables[seq_id].method()\<close>: the table in the dictionary changes, also when the method raises.\<close>

definition table_at :: "nat \<Rightarrow> 'a tb \<Rightarrow> 'a bm" where
  "table_at q m = (\<lambda>s. case block_tables s q of
     None \<Rightarrow> (Inl KeyError, s)
   | Some t \<Rightarrow> (case m (t, block_allocator s) of (r, (t', c)) \<Rightarrow>
       (r, s\<lparr>block_allocator := c, block_tables := (block_tables s)(q \<mapsto> t')\<rparr>)))"

definition get_table :: "nat \<Rightarrow> BlockTable bm" where
  "get_table q = getM block_tables (\<lambda>m. fromM KeyError (m q))"

text \<open>Both trackers start to follow a sequence.\<close>

definition track_seq :: "nat \<Rightarrow> unit bm" where
  "track_seq q = thenM (cbtM (cbt_add_seq q)) (latM (lat_add_seq q))"

definition seq_tokens :: "Sequence \<Rightarrow> int list" where
  "seq_tokens q = sd_get_token_ids (seq_data q)"

subsection \<open>Allocation\<close>

definition check_no_caching_or_swa_for_blockmgr_encdec :: "SequenceGroup \<Rightarrow> unit bm" where
  "check_no_caching_or_swa_for_blockmgr_encdec g = getM id (\<lambda>s.
     if is_encoder_decoder g then
       thenM (guardM (max_block_sliding_window s \<noteq> None) NotImplementedError)
             (guardM (enable_caching s) NotImplementedError)
     else retM ())"

text \<open>The number of blocks a group needs, as \<open>can_allocate\<close> counts them.\<close>

definition num_required_blocks :: "BlockManager \<Rightarrow> SequenceGroup \<Rightarrow> Sequence \<Rightarrow> nat \<Rightarrow> int" where
  "num_required_blocks s g q num_lookahead_slots =
     (let n = get_num_required_blocks (seq_tokens q) (bm_block_size s) num_lookahead_slots;
          n = (case encoder_seq g of None \<Rightarrow> n | Some e \<Rightarrow> n + get_num_required_blocks (seq_tokens e) (bm_block_size s) 0) in
      case max_block_sliding_window s of None \<Rightarrow> n | Some w \<Rightarrow> min n (int w))"

definition can_allocate :: "SequenceGroup \<Rightarrow> nat \<Rightarrow> AllocStatus bm" where
  "can_allocate g num_lookahead_slots =
     thenM (check_no_caching_or_swa_for_blockmgr_encdec g)
    (bindM (fromM IndexError (case get_seqs (Some WAITING) g of [] \<Rightarrow> None | q # _ \<Rightarrow> Some q)) (\<lambda>q.
     getM id (\<lambda>s.
     let required = num_required_blocks s g q num_lookahead_slots;
         free = int (cg_get_num_free_blocks GPU (block_allocator s)) in
     if int (num_total_gpu_blocks s) - required < watermark_blocks s then retM NEVER
     else if watermark_blocks s \<le> free - required then retM OK
     else retM LATER)))"

definition allocate_sequence :: "(hash_input \<Rightarrow> int) \<Rightarrow> Sequence \<Rightarrow> bytes option \<Rightarrow> BlockTable bm" where
  "allocate_sequence H q ns = getM id (\<lambda>s.
     bindM (allocM (tb_init (bm_block_size s) [] (max_block_sliding_window s) ns)) (\<lambda>t.
     if seq_tokens q = [] then retM t
     else bindM (on_table t (tb_allocate H (seq_tokens q) GPU)) (\<lambda>(_, t'). retM t')))"

definition seq_cache_namespace :: "(bytes \<Rightarrow> bytes) \<Rightarrow> (MMValue \<Rightarrow> ptext) \<Rightarrow> bytes \<Rightarrow> SequenceGroup \<Rightarrow> Sequence \<Rightarrow> bytes bm" where
  "seq_cache_namespace D R rnd g q =
     zoomM namespaces (\<lambda>n s. s\<lparr>namespaces := n\<rparr>)
       (get_cache_namespace D R rnd (request_id g) (multi_modal_data q) (group_lora g) (group_prompt_adapter g))"

text \<open>The table of one more waiting sequence is a fork of the first one's.\<close>

definition allocate_fork :: "nat \<Rightarrow> nat \<Rightarrow> unit bm" where
  "allocate_fork first q =
     bindM (table_at first tb_fork) (\<lambda>t.
     thenM (modM (\<lambda>s. s\<lparr>block_tables := (block_tables s)(q \<mapsto> t)\<rparr>)) (track_seq q))"

definition bm_allocate :: "(hash_input \<Rightarrow> int) \<Rightarrow> (bytes \<Rightarrow> bytes) \<Rightarrow> (MMValue \<Rightarrow> ptext) \<Rightarrow> bytes \<Rightarrow> SequenceGroup \<Rightarrow> unit bm" where
  "bm_allocate H D R rnd g =
     (let waiting_seqs = get_seqs (Some WAITING) g in
      thenM (getM block_tables (\<lambda>m. assertM (set (map seq_id waiting_seqs) \<inter> dom m = {})))
     (bindM (fromM IndexError (case waiting_seqs of [] \<Rightarrow> None | q # _ \<Rightarrow> Some q)) (\<lambda>q.
      bindM (seq_cache_namespace D R rnd g q) (\<lambda>ns.
      bindM (allocate_sequence H q (Some ns)) (\<lambda>t.
      thenM (modM (\<lambda>s. s\<lparr>block_tables := (block_tables s)(seq_id q \<mapsto> t)\<rparr>))
     (thenM (track_seq (seq_id q))
     (thenM (forM (tl waiting_seqs) (\<lambda>w. allocate_fork (seq_id q) (seq_id w)))
     (thenM (getM cross_block_tables (\<lambda>m. assertM (m (request_id g) = None)))
     (thenM (check_no_caching_or_swa_for_blockmgr_encdec g)
     (case encoder_seq g of
        None \<Rightarrow> retM ()
      | Some e \<Rightarrow>
          bindM (seq_cache_namespace D R rnd g e) (\<lambda>ns.
          bindM (allocate_sequence H e (Some ns)) (\<lambda>t.
          modM (\<lambda>s. s\<lparr>cross_block_tables := (cross_block_tables s)(request_id g \<mapsto> t)\<rparr>)))))))))))))"

subsection \<open>Appending\<close>

definition seq_blocks_touched :: "nat \<Rightarrow> Sequence \<Rightarrow> int bm" where
  "seq_blocks_touched num_lookahead_slots q = bindM (get_table (seq_id q)) (\<lambda>t.
     retM (get_num_blocks_touched_by_append_slots t (get_unseen_token_ids t (seq_tokens q)) num_lookahead_slots))"

definition can_append_slots :: "SequenceGroup \<Rightarrow> nat \<Rightarrow> bool bm" where
  "can_append_slots g num_lookahead_slots =
     bindM (mapM (get_seqs (Some RUNNING) g) (seq_blocks_touched num_lookahead_slots)) (\<lambda>touched.
     getM (\<lambda>s. cg_get_num_free_blocks GPU (block_allocator s)) (\<lambda>free. retM (sum_list touched \<le> int free)))"

definition append_slots :: "(hash_input \<Rightarrow> int) \<Rightarrow> Sequence \<Rightarrow> nat \<Rightarrow> (block_id \<times> block_id) list bm" where
  "append_slots H q num_lookahead_slots =
     bindM (get_table (seq_id q)) (\<lambda>t.
     thenM (table_at (seq_id q) (tb_append_token_ids H (get_unseen_token_ids t (seq_tokens q)) num_lookahead_slots
              (Some (sd_get_num_computed_tokens (seq_data q)))))
           (allocM cg_clear_copy_on_writes))"

subsection \<open>Freeing\<close>

definition bm_free :: "(hash_input \<Rightarrow> int) \<Rightarrow> Sequence \<Rightarrow> unit bm" where
  "bm_free H q = getM block_tables (\<lambda>m. case m (seq_id q) of
     None \<Rightarrow> retM ()
   | Some t \<Rightarrow>
       thenM (zoomM (\<lambda>s. (last_access_blocks_tracker s, block_allocator s))
                (\<lambda>(l, c) s. s\<lparr>last_access_blocks_tracker := l, block_allocator := c\<rparr>)
                (update_seq_blocks_last_access cg_mark_blocks_as_accessed (seq_id q) (physical_block_ids t)))
      (thenM (latM (lat_remove_seq (seq_id q)))
      (thenM (cbtM (cbt_remove_seq (seq_id q)))
      (thenM (table_at (seq_id q) (tb_free H))
             (modM (\<lambda>s. s\<lparr>block_tables := (block_tables s)(seq_id q := None)\<rparr>))))))"

definition free_cross :: "(hash_input \<Rightarrow> int) \<Rightarrow> SequenceGroup \<Rightarrow> unit bm" where
  "free_cross H g = getM cross_block_tables (\<lambda>m. case m (request_id g) of
     None \<Rightarrow> retM ()
   | Some t \<Rightarrow> thenM (bindM (on_table t (tb_free H)) (\<lambda>_. retM ()))
        (modM (\<lambda>s. s\<lparr>cross_block_tables := (cross_block_tables s)(request_id g := None)\<rparr>)))"

definition bm_release_request_cache_namespace :: "ptext \<Rightarrow> unit bm" where
  "bm_release_request_cache_namespace rid =
     zoomM namespaces (\<lambda>n s. s\<lparr>namespaces := n\<rparr>) (release_request_cache_namespace rid)"

subsection \<open>Reading and tracking\<close>

definition get_block_table :: "Sequence \<Rightarrow> block_id list bm" where
  "get_block_table q = bindM (get_table (seq_id q)) (\<lambda>t. retM (physical_block_ids t))"

definition get_cross_block_table :: "SequenceGroup \<Rightarrow> block_id list bm" where
  "get_cross_block_table g = getM cross_block_tables (\<lambda>m.
     bindM (fromM AssertionError (m (request_id g))) (\<lambda>t. retM (physical_block_ids t)))"

definition access_all_blocks_in_seq :: "Sequence \<Rightarrow> py_time \<Rightarrow> unit bm" where
  "access_all_blocks_in_seq q now = getM enable_caching (\<lambda>caching.
     if caching then latM (update_last_access (seq_id q) now) else retM ())"

definition bm_mark_blocks_as_computed :: "SequenceGroup \<Rightarrow> nat \<Rightarrow> unit bm" where
  "bm_mark_blocks_as_computed g token_chunk_size = allocM (cg_mark_blocks_as_computed [])"

text \<open>\<open>get_cached_computed_blocks_and_update\<close> of the manager's tracker, which asks its allocator.\<close>

definition computed_blocks_of :: "nat \<Rightarrow> block_id list bm" where
  "computed_blocks_of q = bindM (get_table q) (\<lambda>t.
     zoomM (\<lambda>s. (computed_blocks_tracker s, block_allocator s))
       (\<lambda>(x, c) s. s\<lparr>computed_blocks_tracker := x, block_allocator := c\<rparr>)
       (get_cached_computed_blocks_and_update cg_get_computed_block_ids q (physical_block_ids t)))"

definition bm_get_common_computed_block_ids :: "Sequence list \<Rightarrow> block_id list bm" where
  "bm_get_common_computed_block_ids qs =
     bindM (mapM qs (\<lambda>q. computed_blocks_of (seq_id q))) (\<lambda>computed.
     getM (\<lambda>s. cg_get_common_computed_block_ids computed (block_allocator s)) retM)"

definition bm_get_content_hashes :: "(hash_input \<Rightarrow> int) \<Rightarrow> (int \<Rightarrow> bytes) \<Rightarrow> Sequence \<Rightarrow> bytes list bm" where
  "bm_get_content_hashes H D q = table_at (seq_id q) (tb_get_content_hashes H D)"

definition bm_get_and_reset_prefix_swaps :: "((block_id \<times> block_id) list \<times> (block_id \<times> block_id) list) bm" where
  "bm_get_and_reset_prefix_swaps = allocM cg_get_and_reset_prefix_swaps"

definition bm_begin_prefix_cache_step :: "unit bm" where
  "bm_begin_prefix_cache_step = allocM cg_begin_prefix_cache_step"

definition get_num_free_gpu_blocks :: "BlockManager \<Rightarrow> nat" where
  "get_num_free_gpu_blocks s = cg_get_num_free_blocks GPU (block_allocator s)"

definition get_num_free_cpu_blocks :: "BlockManager \<Rightarrow> nat" where
  "get_num_free_cpu_blocks s = cg_get_num_free_blocks CPU (block_allocator s)"

definition bm_get_prefix_cache_hit_rate :: "Device \<Rightarrow> BlockManager \<Rightarrow> rat" where
  "bm_get_prefix_cache_hit_rate d s = cg_get_prefix_cache_hit_rate d (block_allocator s)"

definition bm_reset_prefix_cache :: "Device option \<Rightarrow> bool bm" where
  "bm_reset_prefix_cache d = allocM (cg_reset_prefix_cache d)"

text \<open>The tracker has no \<open>get_num_cached_tokens\<close>, so the computed blocks are counted.\<close>

definition bm_get_num_cached_tokens :: "Sequence \<Rightarrow> nat bm" where
  "bm_get_num_cached_tokens q = getM id (\<lambda>s.
     if block_tables s (seq_id q) = None then retM 0
     else bindM (computed_blocks_of (seq_id q)) (\<lambda>computed. retM (length computed * bm_block_size s)))"

subsection \<open>Forking and swapping\<close>

definition bm_fork :: "Sequence \<Rightarrow> Sequence \<Rightarrow> unit bm" where
  "bm_fork parent child = getM block_tables (\<lambda>m.
     if m (seq_id parent) = None then retM () else allocate_fork (seq_id parent) (seq_id child))"

definition can_swap :: "(hash_input \<Rightarrow> int) \<Rightarrow> SequenceGroup \<Rightarrow> Device \<Rightarrow> SequenceStatus \<Rightarrow> nat \<Rightarrow> AllocStatus bm" where
  "can_swap H g d status num_lookahead_slots =
     bindM (mapM (get_seqs (Some status) g) (\<lambda>q.
        bindM (get_table (seq_id q)) (\<lambda>t. retM (get_num_blocks_touched_by_append_slots t
          (get_unseen_token_ids t (seq_tokens q)) num_lookahead_slots, tb_list t)))) (\<lambda>touched.
     bindM (allocM (cg_get_num_full_blocks_touched H (concat (map snd touched)) d)) (\<lambda>full.
     getM id (\<lambda>s.
     let num_blocks_touched = sum_list (map fst touched) + int full;
         watermark = (if d = GPU then watermark_blocks s else 0) in
     if int (cg_get_num_total_blocks d (block_allocator s)) < num_blocks_touched then retM NEVER
     else if watermark \<le> int (cg_get_num_free_blocks d (block_allocator s)) - num_blocks_touched then retM OK
     else retM LATER)))"

definition can_swap_in :: "(hash_input \<Rightarrow> int) \<Rightarrow> SequenceGroup \<Rightarrow> nat \<Rightarrow> AllocStatus bm" where
  "can_swap_in H g num_lookahead_slots =
     (if content_offload_enabled then retM NEVER else can_swap H g GPU SWAPPED num_lookahead_slots)"

definition can_swap_out :: "(hash_input \<Rightarrow> int) \<Rightarrow> SequenceGroup \<Rightarrow> bool bm" where
  "can_swap_out H g =
     (if content_offload_enabled then retM False
      else bindM (can_swap H g CPU RUNNING 0) (\<lambda>st. retM (st = OK)))"

text \<open>The dictionary comprehension over the mapping of one sequence.\<close>

fun physical_mapping :: "Device \<Rightarrow> Device \<Rightarrow> (block_id \<times> block_id) list \<Rightarrow> (nat, nat) dict \<Rightarrow> (nat, nat) dict cg" where
  "physical_mapping src dst [] m = retM m"
| "physical_mapping src dst ((i, j) # ps) m =
     bindM (cg_get_physical_block_id src i) (\<lambda>pi.
     bindM (cg_get_physical_block_id dst j) (\<lambda>pj.
     physical_mapping src dst ps (dict_set pi pj m)))"

definition swap_seq :: "(hash_input \<Rightarrow> int) \<Rightarrow> Device \<Rightarrow> Device \<Rightarrow> Sequence \<Rightarrow> (nat \<times> nat) list bm" where
  "swap_seq H src dst q = bindM (get_table (seq_id q)) (\<lambda>t.
     if length (tb_list t) = 0 then retM []
     else bindM (allocM (cg_swap H (tb_list t) src dst)) (\<lambda>mapping.
       thenM (table_at (seq_id q) (tb_update (tb_list t)))
             (allocM (physical_mapping src dst mapping []))))"

definition swap_in :: "(hash_input \<Rightarrow> int) \<Rightarrow> SequenceGroup \<Rightarrow> (nat \<times> nat) list bm" where
  "swap_in H g = bindM (mapM (get_seqs (Some SWAPPED) g) (swap_seq H CPU GPU)) (\<lambda>ms. retM (concat ms))"

definition swap_out :: "(hash_input \<Rightarrow> int) \<Rightarrow> SequenceGroup \<Rightarrow> (nat \<times> nat) list bm" where
  "swap_out H g = bindM (mapM (get_seqs (Some RUNNING) g) (swap_seq H GPU CPU)) (\<lambda>ms. retM (concat ms))"

subsection \<open>A group that can be allocated\<close>

definition bm_ok :: "BlockManager \<Rightarrow> bool" where
  "bm_ok s \<longleftrightarrow> device_ok GPU (block_allocator s) \<and> device_bsize GPU (block_allocator s) = bm_block_size s \<and>
     0 < bm_block_size s \<and> 0 \<le> watermark_blocks s \<and>
     dom (cached_computed_seq_blocks (computed_blocks_tracker s)) = dom (block_tables s) \<and>
     dom (seq_last_access (last_access_blocks_tracker s)) = dom (block_tables s)"

lemma required_mono: "get_num_required_blocks ts b 0 \<le> get_num_required_blocks ts b n" if "0 < b"
  unfolding get_num_required_blocks_def cdiv_nat [OF that] by (simp add: div_le_mono)

lemma track_seq_run:
  assumes "cached_computed_seq_blocks (computed_blocks_tracker s) q = None" and "seq_last_access (last_access_blocks_tracker s) q = None"
  shows "track_seq q s = (Inr (), s\<lparr>computed_blocks_tracker :=
      (computed_blocks_tracker s)\<lparr>cached_computed_seq_blocks := (cached_computed_seq_blocks (computed_blocks_tracker s))(q \<mapsto> ([], False))\<rparr>,
    last_access_blocks_tracker := (last_access_blocks_tracker s)\<lparr>seq_last_access := (seq_last_access (last_access_blocks_tracker s))(q \<mapsto> None)\<rparr>\<rparr>)"
  using assms by (simp add: track_seq_def cbtM_def latM_def cbt_add_seq_def lat_add_seq_def run_simps)

lemma tb_init_run: "tb_init b [] w ns c = (Inr \<lparr>tb_block_size = b, tb_blocks = \<lparr>bl_blocks = [], bl_block_ids = []\<rparr>,
    tb_max_block_sliding_window = w, tb_num_full_slots = 0, tb_cache_namespace = ns\<rparr>, c)"
  by (simp add: tb_init_def bl_update_def run_simps tb_get_num_token_ids_def)

lemma allocate_sequence_run:
  assumes "bm_ok s" and "seq_tokens q \<noteq> []"
    and "get_num_required_blocks (seq_tokens q) (bm_block_size s) 0 \<le> int (cg_get_num_free_blocks GPU (block_allocator s))"
  obtains t c where "allocate_sequence H q ns s = (Inr t, s\<lparr>block_allocator := c\<rparr>)" "table_holds t c (seq_tokens q)"
    "device_ok GPU c" "device_bsize GPU c = bm_block_size s"
    "int (cg_get_num_free_blocks GPU (block_allocator s)) \<le> int (cg_get_num_free_blocks GPU c) +
      get_num_required_blocks (seq_tokens q) (bm_block_size s) 0"
proof -
  let ?t = "\<lparr>tb_block_size = bm_block_size s, tb_blocks = \<lparr>bl_blocks = [], bl_block_ids = []\<rparr>,
    tb_max_block_sliding_window = max_block_sliding_window s, tb_num_full_slots = 0, tb_cache_namespace = ns\<rparr>"
  let ?c = "block_allocator s"
  have d: "device_ok GPU ?c" "tb_block_size ?t = device_bsize GPU ?c" "0 < tb_block_size ?t" "\<not> is_allocated ?t"
    "get_num_required_blocks (seq_tokens q) (tb_block_size ?t) 0 \<le> int (cg_get_num_free_blocks GPU ?c)"
    using assms(1,3) by (simp_all add: bm_ok_def is_allocated_def bl_len_def)
  from table_allocate_run [OF d(1-4) assms(2) d(5), of H] obtain rs c where
    c: "tb_allocate H (seq_tokens q) GPU (?t, ?c) = (Inr (), (?t\<lparr>tb_blocks := \<lparr>bl_blocks = rs,
        bl_block_ids = map (the \<circ> id_in c) rs\<rparr>, tb_num_full_slots := length (seq_tokens q)\<rparr>, c))"
      "device_ok GPU c" "device_bsize GPU c = device_bsize GPU ?c"
      "adds_blocks (\<lambda>c a. heap c ! a) (device_used GPU) ?c rs c"
      "tokens_at (\<lambda>c a. heap c ! a) c rs = chunk_list (seq_tokens q) (tb_block_size ?t)"
      "int (cg_get_num_free_blocks GPU ?c) \<le> int (cg_get_num_free_blocks GPU c) +
        get_num_required_blocks (seq_tokens q) (tb_block_size ?t) 0" .
  let ?t' = "?t\<lparr>tb_blocks := \<lparr>bl_blocks = rs, bl_block_ids = map (the \<circ> id_in c) rs\<rparr>, tb_num_full_slots := length (seq_tokens q)\<rparr>"
  have "allocate_sequence H q ns s = (Inr ?t', s\<lparr>block_allocator := c\<rparr>)"
    using c(1) assms(2) by (simp add: allocate_sequence_def getM_run bindM_run allocM_def zoomM_run tb_init_run on_table_def retM_run)
  moreover have "table_holds ?t' c (seq_tokens q)"
    by (rule table_holdsI [OF c(4,5)]) (use d(3) assms(2) in simp_all)
  ultimately show thesis using that c(2,3,6) d(2) by simp
qed


lemma can_allocate_ok:
  assumes "can_allocate g n s = (Inr OK, s')" and "get_seqs (Some WAITING) g = q # qs" and "encoder_seq g = None"
    and "max_block_sliding_window s = None" and "bm_ok s"
  shows "watermark_blocks s + get_num_required_blocks (seq_tokens q) (bm_block_size s) 0
      \<le> int (cg_get_num_free_blocks GPU (block_allocator s))"
proof -
  have "watermark_blocks s + get_num_required_blocks (seq_tokens q) (bm_block_size s) n
      \<le> int (cg_get_num_free_blocks GPU (block_allocator s))"
    using assms(1-4) by (auto simp: can_allocate_def check_no_caching_or_swa_for_blockmgr_encdec_def is_encoder_decoder_def
        ok_simps Let_def num_required_blocks_def split: if_splits)
  then show ?thesis using required_mono [of "bm_block_size s" "seq_tokens q" n] assms(5) by (simp add: bm_ok_def)
qed

text \<open>
  C8. When \<open>can_allocate\<close> answers \<open>OK\<close> for a decoder-only group with one waiting sequence and no
  sliding window, \<open>allocate\<close> succeeds: the sequence gets a table that holds exactly its tokens,
  tables of other sequences stay as they are, the manager's invariant is kept, and the number of
  free blocks stays at or above the watermark.
\<close>
theorem allocate_after_ok:
  assumes "can_allocate g n s = (Inr OK, s')" and "get_seqs (Some WAITING) g = [q]" and "encoder_seq g = None"
    and "max_block_sliding_window s = None" and "bm_ok s" and "seq_tokens q \<noteq> []"
    and "block_tables s (seq_id q) = None" and "cross_block_tables s (request_id g) = None"
    and "get_cache_namespace D R rnd (request_id g) (multi_modal_data q) (group_lora g) (group_prompt_adapter g) (namespaces s) = (Inr ns, nss)"
  shows "\<exists>t u. bm_allocate H D R rnd g s = (Inr (), u) \<and> block_tables u = (block_tables s)(seq_id q \<mapsto> t) \<and>
    table_holds t (block_allocator u) (seq_tokens q) \<and> bm_ok u \<and>
    watermark_blocks s \<le> int (get_num_free_gpu_blocks u)"
proof -
  let ?s = "s\<lparr>namespaces := nss\<rparr>"
  have room: "watermark_blocks s + get_num_required_blocks (seq_tokens q) (bm_block_size s) 0
      \<le> int (cg_get_num_free_blocks GPU (block_allocator s))"
    by (rule can_allocate_ok [OF assms(1-5)])
  have s: "bm_ok ?s" using assms(5) by (simp add: bm_ok_def)
  have r: "get_num_required_blocks (seq_tokens q) (bm_block_size ?s) 0 \<le> int (cg_get_num_free_blocks GPU (block_allocator ?s))"
    using room assms(5) by (simp add: bm_ok_def)
  obtain t c where t: "allocate_sequence H q (Some ns) ?s = (Inr t, ?s\<lparr>block_allocator := c\<rparr>)" "table_holds t c (seq_tokens q)"
    "device_ok GPU c" "device_bsize GPU c = bm_block_size ?s"
    "int (cg_get_num_free_blocks GPU (block_allocator ?s)) \<le> int (cg_get_num_free_blocks GPU c) +
      get_num_required_blocks (seq_tokens q) (bm_block_size ?s) 0"
    by (rule allocate_sequence_run [OF s assms(6) r])
  define v where "v = ?s\<lparr>block_allocator := c, block_tables := (block_tables s)(seq_id q \<mapsto> t)\<rparr>"
  have free: "cached_computed_seq_blocks (computed_blocks_tracker v) (seq_id q) = None"
    "seq_last_access (last_access_blocks_tracker v) (seq_id q) = None"
    using assms(5,7) by (auto simp: bm_ok_def v_def)
  obtain u where u: "track_seq (seq_id q) v = (Inr (), u)" "u = v\<lparr>computed_blocks_tracker :=
      (computed_blocks_tracker v)\<lparr>cached_computed_seq_blocks := (cached_computed_seq_blocks (computed_blocks_tracker v))(seq_id q \<mapsto> ([], False))\<rparr>,
    last_access_blocks_tracker := (last_access_blocks_tracker v)\<lparr>seq_last_access := (seq_last_access (last_access_blocks_tracker v))(seq_id q \<mapsto> None)\<rparr>\<rparr>"
    using track_seq_run [OF free] by blast
  have ns: "seq_cache_namespace D R rnd g q s = (Inr ns, ?s)"
    using assms(9) by (simp add: seq_cache_namespace_def zoomM_run)
  have "bm_allocate H D R rnd g s = (Inr (), u)"
    using assms(2,3,7,8) ns t(1) u
    by (simp add: bm_allocate_def Let_def getM_run thenM_run bindM_run assertM_run fromM_run retM_run modM_run v_def
        check_no_caching_or_swa_for_blockmgr_encdec_def is_encoder_decoder_def domIff)
  moreover have "bm_ok u" using s t(3,4) by (auto simp: bm_ok_def u(2) v_def)
  moreover have "watermark_blocks s \<le> int (get_num_free_gpu_blocks u)"
    using room t(5) by (simp add: u(2) v_def get_num_free_gpu_blocks_def)
  ultimately show ?thesis using t(2) by (intro exI [of _ t] exI [of _ u]) (simp add: u(2) v_def)
qed


text \<open>A new manager is in order.\<close>

lemma bm_init_run:
  assumes "0 < bsize" and "0 < num_gpu" and "0 < num_cpu" and "0 \<le> watermark" and "0 \<le> \<lfloor>fl (watermark * of_nat num_gpu)\<rfloor>"
  obtains s where "bm_init fl (Inr r) bsize num_gpu num_cpu watermark window caching blank_manager = (Inr (), s)" "bm_ok s"
    "max_block_sliding_window s = max_blocks_of_window window bsize" "bm_block_size s = bsize"
    "num_total_gpu_blocks s = num_gpu" "watermark_blocks s = \<lfloor>fl (watermark * of_nat num_gpu)\<rfloor>"
    "block_tables s = Map.empty" "cross_block_tables s = Map.empty" "runtime_cache_namespace (namespaces s) = r"
    "enable_caching s = caching" "device_new GPU bsize [0..<num_gpu] (block_allocator s)"
proof -
  let ?ty = "if caching then ''prefix_caching'' else ''naive''"
  from create_run [OF assms(2,3) refl, of caching bsize blank_cg] obtain c where
    c: "cg_create ?ty num_gpu num_cpu bsize blank_cg = (Inr (), c)" "device_new GPU bsize [0..<num_gpu] c"
    "device_new CPU bsize [num_gpu..<num_gpu + num_cpu] c"
    "block_ids_to_allocator c = (\<lambda>i. if i < num_gpu then Some GPU else if i < num_gpu + num_cpu then Some CPU else None)"
    "swap_mapping c = []" "null_block c = None" .
  let ?s = "snd (bm_init fl (Inr r) bsize num_gpu num_cpu watermark window caching blank_manager)"
  have run: "bm_init fl (Inr r) bsize num_gpu num_cpu watermark window caching blank_manager = (Inr (), ?s)"
    using assms(4) c(1) by (simp add: bm_init_def run_simps blank_manager_def)
  have "block_allocator ?s = c" "bm_block_size ?s = bsize" "watermark_blocks ?s = \<lfloor>fl (watermark * of_nat num_gpu)\<rfloor>"
    "block_tables ?s = Map.empty" "cross_block_tables ?s = Map.empty" "max_block_sliding_window ?s = max_blocks_of_window window bsize"
    "num_total_gpu_blocks ?s = num_gpu" "runtime_cache_namespace (namespaces ?s) = r" "enable_caching ?s = caching"
    "cached_computed_seq_blocks (computed_blocks_tracker ?s) = Map.empty"
    "seq_last_access (last_access_blocks_tracker ?s) = Map.empty"
    using assms(4) c(1) by (simp_all add: bm_init_def run_simps blank_manager_def)
  then show thesis using that [OF run] c(2) assms(1,5) by (simp add: bm_ok_def device_new_def)
qed

definition ex_manager :: "nat option \<Rightarrow> bool \<Rightarrow> BlockManager" where
  "ex_manager window caching = snd (bm_init id (Inr []) 2 4 1 0 window caching blank_manager)"

definition ex_group :: SequenceGroup where
  "ex_group = sg_init [50] [ex_seq] 0 None 0 None None"

lemma ex_manager_facts: "bm_ok (ex_manager window caching)"
  "max_block_sliding_window (ex_manager window caching) = max_blocks_of_window window 2"
  "bm_block_size (ex_manager window caching) = 2" "num_total_gpu_blocks (ex_manager window caching) = 4"
  "watermark_blocks (ex_manager window caching) = 0" "block_tables (ex_manager window caching) = Map.empty"
  "cross_block_tables (ex_manager window caching) = Map.empty" "runtime_cache_namespace (namespaces (ex_manager window caching)) = []"
  "enable_caching (ex_manager window caching) = caching"
  "device_new GPU 2 [0..<4] (block_allocator (ex_manager window caching))"
proof -
  have h: "0 < (2::nat)" "0 < (4::nat)" "0 < (1::nat)" "0 \<le> (0::rat)" "0 \<le> \<lfloor>id (0 * of_nat 4 :: rat)\<rfloor>" by simp_all
  obtain s where
    s: "bm_init id (Inr []) 2 4 1 0 window caching blank_manager = (Inr (), s)" "bm_ok s"
    "max_block_sliding_window s = max_blocks_of_window window 2" "bm_block_size s = 2"
    "num_total_gpu_blocks s = 4" "watermark_blocks s = \<lfloor>id (0 * of_nat 4 :: rat)\<rfloor>"
    "block_tables s = Map.empty" "cross_block_tables s = Map.empty" "runtime_cache_namespace (namespaces s) = []"
    "enable_caching s = caching" "device_new GPU 2 [0..<4] (block_allocator s)"
    by (rule bm_init_run [where bsize = 2 and num_gpu = 4 and num_cpu = 1 and watermark = 0 and fl = id and r = "[]" and
        window = window and caching = caching]) (use h in blast)+
  have e: "ex_manager window caching = s" using s(1) by (simp add: ex_manager_def)
  show "bm_ok (ex_manager window caching)"
  "max_block_sliding_window (ex_manager window caching) = max_blocks_of_window window 2"
  "bm_block_size (ex_manager window caching) = 2" "num_total_gpu_blocks (ex_manager window caching) = 4"
  "watermark_blocks (ex_manager window caching) = 0" "block_tables (ex_manager window caching) = Map.empty"
  "cross_block_tables (ex_manager window caching) = Map.empty" "runtime_cache_namespace (namespaces (ex_manager window caching)) = []"
  "enable_caching (ex_manager window caching) = caching"
  "device_new GPU 2 [0..<4] (block_allocator (ex_manager window caching))"
    unfolding e using s(2-11) by simp_all
qed

lemma ex_group_facts: "get_seqs (Some WAITING) ex_group = [ex_seq]" "encoder_seq ex_group = None"
  "seq_tokens ex_seq = [5, 6]" "seq_id ex_seq = 1" "request_id ex_group = [50]" "multi_modal_data ex_seq = MM_None"
  "group_lora ex_group = None" "group_prompt_adapter ex_group = None"
  by (simp_all add: ex_group_def sg_init_def get_seqs_def ex_seq_def seq_tokens_def sd_get_token_ids_def sd_new_eq)

lemma ex_free: "cg_get_num_free_blocks GPU (block_allocator (ex_manager window caching)) = 4"
  using ex_manager_facts(10) by (simp add: device_new_def)

lemma ex_can_allocate: "can_allocate ex_group 1 (ex_manager None caching) = (Inr OK, ex_manager None caching)"
  by (simp add: can_allocate_def check_no_caching_or_swa_for_blockmgr_encdec_def is_encoder_decoder_def run_simps Let_def
      ex_group_facts ex_manager_facts ex_free num_required_blocks_def get_num_required_blocks_def cdiv_def max_blocks_of_window_def)

theorem allocate_after_ok_witness:
  "\<exists>t u. bm_allocate ex_hash ex_digest ex_repr [] ex_group (ex_manager None True) = (Inr (), u) \<and>
    block_tables u = (block_tables (ex_manager None True))(seq_id ex_seq \<mapsto> t) \<and>
    table_holds t (block_allocator u) (seq_tokens ex_seq) \<and> bm_ok u \<and>
    watermark_blocks (ex_manager None True) \<le> int (get_num_free_gpu_blocks u)"
proof -
  have w: "max_block_sliding_window (ex_manager None True) = None"
    by (simp add: ex_manager_facts max_blocks_of_window_def)
  have t: "seq_tokens ex_seq \<noteq> []" by (simp add: ex_group_facts)
  have k: "block_tables (ex_manager None True) (seq_id ex_seq) = None"
    "cross_block_tables (ex_manager None True) (request_id ex_group) = None"
    by (simp_all add: ex_manager_facts)
  obtain a where a: "adapter_cache_bytes None None = Inr a" using ex_adapter by blast
  have "payload_bytes ex_repr MM_None None" by (simp add: payload_bytes_def has_multi_modal_payload_def)
  from get_cache_namespace_run [OF a this] have
    n: "\<exists>ns. get_cache_namespace ex_digest ex_repr [] (request_id ex_group) (multi_modal_data ex_seq) (group_lora ex_group)
      (group_prompt_adapter ex_group) (namespaces (ex_manager None True)) = (Inr ns, namespaces (ex_manager None True))"
    by (simp add: ex_group_facts)
  then obtain ns where "get_cache_namespace ex_digest ex_repr [] (request_id ex_group) (multi_modal_data ex_seq) (group_lora ex_group)
      (group_prompt_adapter ex_group) (namespaces (ex_manager None True)) = (Inr ns, namespaces (ex_manager None True))" ..
  from allocate_after_ok [OF ex_can_allocate ex_group_facts(1,2) w ex_manager_facts(1) t k this] show ?thesis .
qed


subsection \<open>Sliding windows\<close>

lemma na_take_ids_fail:
  assumes "na_ids_ok s" and "length (free_block_indices s) < n"
  shows "\<exists>t. mapM [0..<n] (\<lambda>_. na_allocate_block_id) s = (Inl NoFreeBlocksError, t)"
  using assms
proof (induction n arbitrary: s)
  case 0
  then show ?case by simp
next
  case (Suc n)
  show ?case
  proof (cases "free_block_indices s")
    case Nil
    then show ?thesis using na_allocate_block_id_run [OF Suc.prems(1)] by (simp add: mapM_const_Suc bindM_run del: upt_Suc)
  next
    case (Cons i F)
    let ?t = "s\<lparr>free_block_indices := F, refcounter := (refcounter s)(i \<mapsto> 1)\<rparr>"
    have al: "na_allocate_block_id s = (Inr i, ?t)" using na_allocate_block_id_run [OF Suc.prems(1)] Cons by simp
    have "na_ids_ok ?t" by (rule preserves_idsD [OF na_allocate_block_id_ids Suc.prems(1) al])
    from Suc.IH [OF this] Suc.prems(2) Cons al show ?thesis by (auto simp: mapM_const_Suc bindM_run simp del: upt_Suc)
  qed
qed

lemma full_chunks:
  assumes "0 < n"
  shows "length (filter (\<lambda>c. length c = n) (chunk_list xs n)) = length xs div n"
  using assms
proof (induction xs n rule: chunk_list.induct)
  case (1 xs n)
  show ?case
  proof (cases "xs = []")
    case False
    show ?thesis
    proof (cases "length xs < n")
      case True
      then show ?thesis using False 1(2) by (simp add: chunk_list_step)
    next
      case False2: False
      then have "length xs div n = Suc ((length xs - n) div n)" using 1(2) by (simp add: le_div_geq)
      then show ?thesis using False False2 1 by (simp add: chunk_list_step)
    qed
  qed simp
qed

text \<open>With too few free blocks, the naive allocator runs out.\<close>

lemma table_allocate_naive_fail:
  assumes "device_ok d c" and "allocators c d = NaiveA a" and "0 < tb_block_size t" and "\<not> is_allocated t"
    and "cg_get_num_free_blocks d c < length ts div tb_block_size t"
  shows "\<exists>u. tb_allocate H ts d (t, c) = (Inl NoFreeBlocksError, u)"
proof -
  let ?s = "a\<lparr>objs := heap c\<rparr>"
  let ?full = "filter (\<lambda>x. length x = tb_block_size t) (chunk_list ts (tb_block_size t))"
  have ids: "na_ids_ok ?s" using assms(1) by (simp add: device_ok_def ask_naive [OF assms(2)] na_ok_def)
  have len: "length ?full = length ts div tb_block_size t" by (rule full_chunks [OF assms(3)])
  have few: "length (free_block_indices ?s) < length ?full"
    using assms(5) len by (simp add: cg_get_num_free_blocks_def ask_naive [OF assms(2)] na_get_num_free_blocks_def)
  then have ne: "?full \<noteq> []" "ts \<noteq> []" using len by auto
  from na_take_ids_fail [OF ids few] obtain s' where
    "mapM [0..<length ?full] (\<lambda>_. na_allocate_block_id) ?s = (Inl NoFreeBlocksError, s')" by blast
  then have "na_allocate_immutable_blocks None ?full ?s = (Inl NoFreeBlocksError, s')"
    by (simp add: na_allocate_immutable_blocks_def bindM_run)
  from allocatorM_naive [OF assms(2), of "na_allocate_immutable_blocks None ?full", OF this]
  have im: "\<exists>c'. cg_allocate_immutable_blocks H None ?full d c = (Inl NoFreeBlocksError, c')"
    by (auto simp: cg_allocate_immutable_blocks_def)
  have "\<exists>c'. allocate_blocks_for_token_ids H (tb_block_size t) None ts d c = (Inl NoFreeBlocksError, c')"
    using im ne(1) by (auto simp: allocate_blocks_for_token_ids_def allocate_blocks_for_def Let_def bindM_run)
  then show ?thesis using assms(4) ne(2)
    by (auto simp: tb_allocate_def getM_run thenM_run bindM_run assertM_run cgM_def zoomM_run)
qed

text \<open>
  C12. With a sliding window, \<open>can_allocate\<close> counts no more blocks than the window spans, but
  \<open>allocate\<close> takes a block for every part of the prompt: for a prompt longer than the free blocks
  it answers \<open>OK\<close> and \<open>allocate\<close> then raises \<open>NoFreeBlocksError\<close>.
\<close>
theorem sliding_window_overcommits:
  assumes "bm_ok s" and "allocators (block_allocator s) GPU = NaiveA a" and "max_block_sliding_window s = Some w"
    and "encoder_seq g = None" and "get_seqs (Some WAITING) g = [q]" and "block_tables s (seq_id q) = None"
    and "get_cache_namespace D R rnd (request_id g) (multi_modal_data q) (group_lora g) (group_prompt_adapter g) (namespaces s) = (Inr ns, nss)"
    and "int w + watermark_blocks s \<le> int (get_num_free_gpu_blocks s)" and "int w + watermark_blocks s \<le> int (num_total_gpu_blocks s)"
    and "get_num_free_gpu_blocks s < length (seq_tokens q) div bm_block_size s"
  shows "can_allocate g n s = (Inr OK, s) \<and> fst (bm_allocate H D R rnd g s) = Inl NoFreeBlocksError"
proof
  have b: "0 < bm_block_size s" "0 \<le> watermark_blocks s" "device_ok GPU (block_allocator s)" using assms(1) by (simp_all add: bm_ok_def)
  have "int (length (seq_tokens q) div bm_block_size s) \<le> get_num_required_blocks (seq_tokens q) (bm_block_size s) n"
    unfolding get_num_required_blocks_def cdiv_nat [OF b(1)] using b(1) by (simp add: div_le_mono)
  then have "num_required_blocks s g q n = int w"
    using assms(3,4,8,10) b(2) by (simp add: num_required_blocks_def Let_def)
  then show "can_allocate g n s = (Inr OK, s)"
    using assms(4,5,8,9) by (simp add: can_allocate_def check_no_caching_or_swa_for_blockmgr_encdec_def is_encoder_decoder_def
      run_simps get_num_free_gpu_blocks_def)
  let ?t = "\<lparr>tb_block_size = bm_block_size s, tb_blocks = \<lparr>bl_blocks = [], bl_block_ids = []\<rparr>,
    tb_max_block_sliding_window = max_block_sliding_window s, tb_num_full_slots = 0, tb_cache_namespace = Some ns\<rparr>"
  have "\<exists>u. tb_allocate H (seq_tokens q) GPU (?t, block_allocator s) = (Inl NoFreeBlocksError, u)"
    by (rule table_allocate_naive_fail [OF b(3) assms(2)])
      (use b(1) assms(10) in \<open>simp_all add: is_allocated_def bl_len_def get_num_free_gpu_blocks_def\<close>)
  then obtain t' c' where t': "tb_allocate H (seq_tokens q) GPU (?t, block_allocator s) = (Inl NoFreeBlocksError, (t', c'))" by auto
  have ne: "seq_tokens q \<noteq> []" using assms(10) by auto
  have "allocate_sequence H q (Some ns) (s\<lparr>namespaces := nss\<rparr>) = (Inl NoFreeBlocksError, s\<lparr>namespaces := nss, block_allocator := c'\<rparr>)"
    using t' ne by (simp add: allocate_sequence_def getM_run bindM_run allocM_def zoomM_run tb_init_run on_table_def)
  moreover have "seq_cache_namespace D R rnd g q s = (Inr ns, s\<lparr>namespaces := nss\<rparr>)"
    using assms(7) by (simp add: seq_cache_namespace_def zoomM_run)
  ultimately show "fst (bm_allocate H D R rnd g s) = Inl NoFreeBlocksError"
    using assms(5,6) by (simp add: bm_allocate_def Let_def getM_run thenM_run bindM_run assertM_run fromM_run retM_run domIff)
qed

text \<open>The allocator type \<open>naive\<close> makes naive allocators.\<close>

lemma allocatorM_naive_kept:
  assumes "allocatorM d mn mp c = (r, t)" and "\<exists>a. allocators c d' = NaiveA a"
  shows "\<exists>a. allocators t d' = NaiveA a"
  using assms by (cases "d' = d") (auto simp: allocatorM_def split: Allocator.splits prod.splits)

lemma new_allocator_naive:
  assumes "new_allocator d False n b ids c = (Inr (), t)" and "d' = d \<or> (\<exists>a. allocators c d' = NaiveA a)"
  shows "\<exists>a. allocators t d' = NaiveA a"
  using assms by (auto simp: new_allocator_def ok_simps dest!: allocatorM_naive_kept [where d' = d'] split: if_splits)

lemma create_naive:
  assumes "cg_create ''naive'' ng nc b c = (Inr (), t)"
  shows "\<exists>a. allocators t GPU = NaiveA a"
proof -
  from assms obtain u v where u: "new_allocator GPU False ng b [0..<ng] c = (Inr (), u)"
    "new_allocator CPU False nc b [ng..<ng + nc] u = (Inr (), v)" "cg_init v = (Inr (), t)"
    by (auto simp: cg_create_def Let_def ok_simps)
  have "\<exists>a. allocators v GPU = NaiveA a" using new_allocator_naive [OF u(2)] new_allocator_naive [OF u(1)] by blast
  then show ?thesis using u(3) by (auto simp: cg_init_def ok_simps)
qed

lemma ex_manager_naive: "\<exists>a. allocators (block_allocator (ex_manager window False)) GPU = NaiveA a"
proof -
  have pos: "0 < (4::nat)" "0 < (1::nat)" by simp_all
  have ty: "''naive'' = (if False then ''prefix_caching'' else ''naive'')" by simp
  from create_run [OF pos ty, of 2 blank_cg] obtain c where c: "cg_create ''naive'' 4 1 2 blank_cg = (Inr (), c)" .
  have "block_allocator (ex_manager window False) = c"
    using c by (simp add: ex_manager_def bm_init_def run_simps blank_manager_def)
  with create_naive [OF c] show ?thesis by simp
qed

definition ex_long_group :: SequenceGroup where
  "ex_long_group = sg_init [50] [ex_seq\<lparr>seq_data := sd_new (replicate 10 3) []\<rparr>] 0 None 0 None None"

theorem sliding_window_overcommits_witness:
  "can_allocate ex_long_group 0 (ex_manager (Some 1) False) = (Inr OK, ex_manager (Some 1) False) \<and>
    fst (bm_allocate ex_hash ex_digest ex_repr [] ex_long_group (ex_manager (Some 1) False)) = Inl NoFreeBlocksError"
proof -
  let ?m = "ex_manager (Some 1) False" and ?q = "ex_seq\<lparr>seq_data := sd_new (replicate 10 3) []\<rparr>"
  have g: "encoder_seq ex_long_group = None" "get_seqs (Some WAITING) ex_long_group = [?q]" "request_id ex_long_group = [50]"
    "multi_modal_data ?q = MM_None" "group_lora ex_long_group = None" "group_prompt_adapter ex_long_group = None"
    by (simp_all add: ex_long_group_def sg_init_def get_seqs_def ex_seq_def)
  obtain a where al: "allocators (block_allocator ?m) GPU = NaiveA a"
    using ex_manager_naive by blast
  have w: "max_block_sliding_window ?m = Some 2" by (simp add: ex_manager_facts max_blocks_of_window_def)
  have k: "block_tables ?m (seq_id ?q) = None" by (simp add: ex_manager_facts)
  obtain b where b: "adapter_cache_bytes None None = Inr b" using ex_adapter by blast
  have "payload_bytes ex_repr MM_None None" by (simp add: payload_bytes_def has_multi_modal_payload_def)
  from get_cache_namespace_run [OF b this] g obtain ns where
    ns: "get_cache_namespace ex_digest ex_repr [] (request_id ex_long_group) (multi_modal_data ?q) (group_lora ex_long_group)
      (group_prompt_adapter ex_long_group) (namespaces ?m) = (Inr ns, namespaces ?m)" by simp
  have f: "int 2 + watermark_blocks ?m \<le> int (get_num_free_gpu_blocks ?m)" "int 2 + watermark_blocks ?m \<le> int (num_total_gpu_blocks ?m)"
    "get_num_free_gpu_blocks ?m < length (seq_tokens ?q) div bm_block_size ?m"
    by (simp_all add: ex_manager_facts get_num_free_gpu_blocks_def ex_free [where window = "Some 1", simplified] seq_tokens_def sd_get_token_ids_def sd_new_eq)
  from sliding_window_overcommits [OF ex_manager_facts(1) al w g(1,2) k ns f] show ?thesis .
qed

end
