(* ===== verification/FreeQueue.thy ===== *)
theory FreeQueue
  imports Prelude Complex_Main
begin

section \<open>The queue of free blocks (\<open>vllm/v1/core/kv_cache_utils.py\<close>)\<close>

text \<open>
  \<open>FreeKVCacheBlockQueue\<close> threads a doubly linked list through the blocks themselves. The block
  objects are the list \<open>q_blocks\<close>, and a reference to one is its index, which is its \<open>block_id\<close>.
  Comparing two block objects compares their ids first, which no two blocks share.
\<close>

text \<open>Extra keys of a hash: the id of an adapter, and the hashes of multi-modal inputs.\<close>

datatype ExtraKey = LoraKey int | MMKey string

record BlockHashType =
  hash_value :: int
  hashed_token_ids :: "int list"
  hash_extra_keys :: "ExtraKey list option"

record KVCacheBlock =
  kv_block_id :: nat
  ref_cnt :: int
  kv_block_hash :: "BlockHashType option"
  prev_free_block :: "nat option"
  next_free_block :: "nat option"

record FreeQueue =
  q_blocks :: "KVCacheBlock list"
  free_list_head :: "nat option"
  free_list_tail :: "nat option"
  num_free_blocks :: int

type_synonym ('x, 'a) fq = "('x FreeQueue_scheme, 'a) st"

abbreviation blk :: "nat \<Rightarrow> 'x FreeQueue_scheme \<Rightarrow> KVCacheBlock" where
  "blk b q \<equiv> q_blocks q ! b"

definition mod_blk :: "nat \<Rightarrow> (KVCacheBlock \<Rightarrow> KVCacheBlock) \<Rightarrow> ('x, unit) fq" where
  "mod_blk b f = modM (\<lambda>q. q\<lparr>q_blocks := (q_blocks q)[b := f (blk b q)]\<rparr>)"

subsection \<open>Blocks\<close>

definition new_kv_block :: "nat \<Rightarrow> KVCacheBlock" where
  "new_kv_block i = \<lparr>kv_block_id = i, ref_cnt = 0, kv_block_hash = None, prev_free_block = None, next_free_block = None\<rparr>"

definition incr_ref :: "nat \<Rightarrow> ('x, unit) fq" where
  "incr_ref b = mod_blk b (\<lambda>x. x\<lparr>ref_cnt := ref_cnt x + 1\<rparr>)"

definition decr_ref :: "nat \<Rightarrow> ('x, unit) fq" where
  "decr_ref b = mod_blk b (\<lambda>x. x\<lparr>ref_cnt := ref_cnt x - 1\<rparr>)"

definition set_block_hash :: "nat \<Rightarrow> BlockHashType \<Rightarrow> ('x, unit) fq" where
  "set_block_hash b h =
     thenM (getM (blk b) (\<lambda>x. assertM (kv_block_hash x = None)))
           (mod_blk b (\<lambda>x. x\<lparr>kv_block_hash := Some h\<rparr>))"

definition reset_hash :: "nat \<Rightarrow> ('x, unit) fq" where
  "reset_hash b = mod_blk b (\<lambda>x. x\<lparr>kv_block_hash := None\<rparr>)"

subsection \<open>The queue\<close>

text \<open>The loop of \<open>__init__\<close> that links the blocks \<open>0\<close> to \<open>n - 1\<close>.\<close>

definition link_block :: "nat \<Rightarrow> nat \<Rightarrow> ('x, unit) fq" where
  "link_block n i =
     thenM (if 0 < i then mod_blk i (\<lambda>x. x\<lparr>prev_free_block := Some (i - 1)\<rparr>) else retM ())
           (if i < n - 1 then mod_blk i (\<lambda>x. x\<lparr>next_free_block := Some (i + 1)\<rparr>) else retM ())"

definition fq_init :: "('x, unit) fq" where
  "fq_init = getM (\<lambda>q. length (q_blocks q)) (\<lambda>n.
     thenM (modM (\<lambda>q. q\<lparr>num_free_blocks := int n\<rparr>))
    (thenM (guardM (n = 0) IndexError)
    (thenM (modM (\<lambda>q. q\<lparr>free_list_head := Some 0, free_list_tail := Some (n - 1)\<rparr>))
           (forM [0..<n] (link_block n)))))"

definition fq_remove :: "nat \<Rightarrow> ('x, unit) fq" where
  "fq_remove b =
     thenM (getM (blk b) (\<lambda>x. case prev_free_block x of None \<Rightarrow> retM ()
        | Some p \<Rightarrow> mod_blk p (\<lambda>y. y\<lparr>next_free_block := next_free_block x\<rparr>)))
    (thenM (getM (blk b) (\<lambda>x. case next_free_block x of None \<Rightarrow> retM ()
        | Some n \<Rightarrow> mod_blk n (\<lambda>y. y\<lparr>prev_free_block := prev_free_block x\<rparr>)))
    (thenM (getM free_list_head (\<lambda>h. if h = Some b
        then modM (\<lambda>q. q\<lparr>free_list_head := next_free_block (blk b q)\<rparr>) else retM ()))
    (thenM (getM free_list_tail (\<lambda>t. if t = Some b
        then modM (\<lambda>q. q\<lparr>free_list_tail := prev_free_block (blk b q)\<rparr>) else retM ()))
    (thenM (mod_blk b (\<lambda>x. x\<lparr>prev_free_block := None, next_free_block := None\<rparr>))
           (modM (\<lambda>q. q\<lparr>num_free_blocks := num_free_blocks q - 1\<rparr>))))))"

definition popleft :: "('x, nat) fq" where
  "popleft = getM free_list_head (\<lambda>h.
     bindM (fromM ValueError h) (\<lambda>b. thenM (fq_remove b) (retM b)))"

definition fq_append :: "nat \<Rightarrow> ('x, unit) fq" where
  "fq_append b =
     thenM (getM free_list_tail (\<lambda>t. case t of
        Some t \<Rightarrow>
          thenM (mod_blk t (\<lambda>y. y\<lparr>next_free_block := Some b\<rparr>))
         (thenM (mod_blk b (\<lambda>x. x\<lparr>prev_free_block := Some t\<rparr>))
                (modM (\<lambda>q. q\<lparr>free_list_tail := Some b\<rparr>)))
      | None \<Rightarrow>
          thenM (getM free_list_head (\<lambda>h. assertM (h = None)))
                (modM (\<lambda>q. q\<lparr>free_list_head := Some b, free_list_tail := Some b\<rparr>))))
    (thenM (mod_blk b (\<lambda>x. x\<lparr>next_free_block := None\<rparr>))
           (modM (\<lambda>q. q\<lparr>num_free_blocks := num_free_blocks q + 1\<rparr>)))"

text \<open>The loop of \<open>get_all_free_blocks\<close>; \<open>None\<close> when it does not return.\<close>

partial_function (option) follow_free :: "'x FreeQueue_scheme \<Rightarrow> nat option \<Rightarrow> nat list option" where
  "follow_free q cur = (if cur = None then Some []
     else Option.bind (follow_free q (next_free_block (blk (the cur) q))) (\<lambda>bs. Some (the cur # bs)))"

definition get_all_free_blocks :: "'x FreeQueue_scheme \<Rightarrow> nat list option" where
  "get_all_free_blocks q = follow_free q (free_list_head q)"

subsection \<open>The contract of a queue of free blocks\<close>

text \<open>
  What the block pool needs of the queue: \<open>items\<close> relates a state to the blocks in it, in order;
  \<open>frame\<close> is what the operations leave alone.
\<close>

locale free_queue =
  fixes pop :: "('s, nat) st" and rem :: "nat \<Rightarrow> ('s, unit) st" and app :: "nat \<Rightarrow> ('s, unit) st"
    and size_of :: "'s \<Rightarrow> int" and items :: "'s \<Rightarrow> nat list \<Rightarrow> bool" and valid :: "'s \<Rightarrow> nat \<Rightarrow> bool"
    and frame :: "'s \<Rightarrow> 's \<Rightarrow> bool"
  assumes frame_refl: "frame s s" and frame_trans: "frame s t \<Longrightarrow> frame t u \<Longrightarrow> frame s u"
    and frame_valid: "frame s t \<Longrightarrow> valid t b \<longleftrightarrow> valid s b"
    and size_items: "items s l \<Longrightarrow> size_of s = int (length l)"
    and distinct_items: "items s l \<Longrightarrow> distinct l"
    and pop_empty: "items s [] \<Longrightarrow> pop s = (Inl ValueError, s)"
    and pop_first: "items s (b # l) \<Longrightarrow> \<exists>t. pop s = (Inr b, t) \<and> items t l \<and> frame s t"
    and rem_item: "items s l \<Longrightarrow> b \<in> set l \<Longrightarrow> \<exists>t. rem b s = (Inr (), t) \<and> items t (remove1 b l) \<and> frame s t"
    and app_last: "items s l \<Longrightarrow> valid s b \<Longrightarrow> b \<notin> set l \<Longrightarrow>
      \<exists>t. app b s = (Inr (), t) \<and> items t (l @ [b]) \<and> frame s t"
begin

lemma pop_many:
  assumes "items s l" and "n \<le> length l"
  shows "\<exists>t. mapM [0..<n] (\<lambda>_. pop) s = (Inr (take n l), t) \<and> items t (drop n l) \<and> frame s t"
  using assms
proof (induction n arbitrary: s l)
  case 0
  then show ?case by (auto simp: run_simps frame_refl)
next
  case (Suc n)
  then obtain b l' where l: "l = b # l'" by (cases l) auto
  with pop_first Suc.prems(1) obtain t where t: "pop s = (Inr b, t)" "items t l'" "frame s t" by blast
  from Suc.IH [OF t(2)] Suc.prems(2) l obtain u where
    "mapM [0..<n] (\<lambda>_. pop) t = (Inr (take n l'), u)" "items u (drop n l')" "frame t u" by auto
  with t l frame_trans show ?case by (auto simp: mapM_const_Suc bindM_run retM_run simp del: upt_Suc)
qed

lemma app_many:
  assumes "items s l" and "\<forall>b \<in> set bs. valid s b" and "distinct bs" and "set bs \<inter> set l = {}"
  shows "\<exists>t. forM bs app s = (Inr (), t) \<and> items t (l @ bs) \<and> frame s t"
  using assms
proof (induction bs arbitrary: s l)
  case Nil
  then show ?case by (auto simp: run_simps frame_refl)
next
  case (Cons b bs)
  from app_last [OF Cons.prems(1), of b] Cons.prems(2,4) obtain t where
    t: "app b s = (Inr (), t)" "items t (l @ [b])" "frame s t" by auto
  from Cons.IH [OF t(2)] Cons.prems t(3) frame_valid obtain u where
    "forM bs app t = (Inr (), u)" "items u (l @ [b] @ bs)" "frame t u" by fastforce
  with t frame_trans show ?case by (auto simp: thenM_run)
qed

end

subsection \<open>The linked blocks form a list\<close>

text \<open>
  \<open>linked bs p l n\<close>: the blocks \<open>l\<close> point at each other in order, the first back at \<open>p\<close> and the
  last on to \<open>n\<close>. \<open>queue_is q l\<close>: the queue is the list \<open>l\<close>, and no other block points anywhere.
\<close>

fun linked :: "KVCacheBlock list \<Rightarrow> nat option \<Rightarrow> nat list \<Rightarrow> nat option \<Rightarrow> bool" where
  "linked bs p [] n \<longleftrightarrow> True"
| "linked bs p (b # l) n \<longleftrightarrow> prev_free_block (bs ! b) = p
     \<and> next_free_block (bs ! b) = (case l of [] \<Rightarrow> n | c # _ \<Rightarrow> Some c) \<and> linked bs (Some b) l n"

abbreviation head_of :: "nat list \<Rightarrow> nat option" where
  "head_of l \<equiv> (case l of [] \<Rightarrow> None | b # _ \<Rightarrow> Some b)"

definition last_of :: "nat list \<Rightarrow> nat option" where
  "last_of l = (if l = [] then None else Some (last l))"

lemma last_of_simps [simp]:
  "last_of [] = None" "last_of (xs @ [x]) = Some x" "last_of l = None \<longleftrightarrow> l = []" "last_of l = Some b \<longleftrightarrow> l \<noteq> [] \<and> last l = b"
  by (auto simp: last_of_def)

definition queue_is :: "'x FreeQueue_scheme \<Rightarrow> nat list \<Rightarrow> bool" where
  "queue_is q l \<longleftrightarrow> distinct l \<and> (\<forall>b \<in> set l. b < length (q_blocks q))
     \<and> free_list_head q = head_of l \<and> free_list_tail q = last_of l
     \<and> linked (q_blocks q) None l None \<and> num_free_blocks q = int (length l)
     \<and> (\<forall>b < length (q_blocks q). b \<notin> set l \<longrightarrow>
          prev_free_block (blk b q) = None \<and> next_free_block (blk b q) = None)"

text \<open>What the queue's operations leave alone: everything but the links.\<close>

definition same_blocks :: "KVCacheBlock list \<Rightarrow> KVCacheBlock list \<Rightarrow> bool" where
  "same_blocks bs cs \<longleftrightarrow> length cs = length bs \<and> (\<forall>b < length bs.
     kv_block_id (cs ! b) = kv_block_id (bs ! b) \<and> ref_cnt (cs ! b) = ref_cnt (bs ! b)
     \<and> kv_block_hash (cs ! b) = kv_block_hash (bs ! b))"

definition fq_frame :: "'x FreeQueue_scheme \<Rightarrow> 'x FreeQueue_scheme \<Rightarrow> bool" where
  "fq_frame q r \<longleftrightarrow> same_blocks (q_blocks q) (q_blocks r) \<and> FreeQueue.more r = FreeQueue.more q"

definition fq_valid :: "'x FreeQueue_scheme \<Rightarrow> nat \<Rightarrow> bool" where
  "fq_valid q b \<longleftrightarrow> b < length (q_blocks q)"

lemma linked_other [simp]: "b \<notin> set l \<Longrightarrow> linked (bs[b := v]) p l n \<longleftrightarrow> linked bs p l n"
  by (induction l arbitrary: p) auto

lemma linked_append:
  "linked bs p (xs @ ys) n \<longleftrightarrow>
     linked bs p xs (case ys of [] \<Rightarrow> n | y # _ \<Rightarrow> Some y)
     \<and> linked bs (if xs = [] then p else Some (last xs)) ys n"
  by (induction xs arbitrary: p) (auto split: list.splits)

text \<open>Redirecting the last block's forward link, and the first one's backward link.\<close>

lemma linked_set_next:
  assumes "linked bs p xs n" and "xs \<noteq> []" and "distinct xs" and "\<forall>b \<in> set xs. b < length bs"
  shows "linked (bs[last xs := (bs ! last xs)\<lparr>next_free_block := m\<rparr>]) p xs m"
  using assms
proof (induction xs arbitrary: p)
  case Nil
  then show ?case by simp
next
  case (Cons x xs)
  show ?case
  proof (cases xs)
    case Nil
    with Cons.prems show ?thesis by simp
  next
    case (Cons y ys)
    then have "last xs \<in> set xs" by simp
    with Cons.prems(3) have "x \<noteq> last xs" by auto
    with Cons Cons.IH [of "Some x"] Cons.prems show ?thesis by (auto simp: nth_list_update)
  qed
qed

lemma linked_set_prev:
  assumes "linked bs p (x # xs) n" and "distinct (x # xs)" and "x < length bs"
  shows "linked (bs[x := (bs ! x)\<lparr>prev_free_block := m\<rparr>]) m (x # xs) n"
  using assms by auto

lemma same_blocks_refl: "same_blocks bs bs"
  by (simp add: same_blocks_def)

lemma same_blocks_trans: "same_blocks as bs \<Longrightarrow> same_blocks bs cs \<Longrightarrow> same_blocks as cs"
  by (auto simp: same_blocks_def)

lemma same_blocks_update:
  assumes "kv_block_id v = kv_block_id (bs ! b)" and "ref_cnt v = ref_cnt (bs ! b)"
    and "kv_block_hash v = kv_block_hash (bs ! b)"
  shows "same_blocks bs (bs[b := v])"
  unfolding same_blocks_def
proof (intro conjI allI impI)
  fix c assume "c < length bs"
  then have "bs[b := v] ! c = (if c = b then v else bs ! c)" by simp
  with assms show "kv_block_id (bs[b := v] ! c) = kv_block_id (bs ! c)"
    and "ref_cnt (bs[b := v] ! c) = ref_cnt (bs ! c)"
    and "kv_block_hash (bs[b := v] ! c) = kv_block_hash (bs ! c)" by simp_all
qed simp

text \<open>Setting the links of one block, or leaving it.\<close>

definition set_next :: "nat option \<Rightarrow> nat option \<Rightarrow> KVCacheBlock list \<Rightarrow> KVCacheBlock list" where
  "set_next r m bs = (case r of None \<Rightarrow> bs | Some b \<Rightarrow> bs[b := (bs ! b)\<lparr>next_free_block := m\<rparr>])"

definition set_prev :: "nat option \<Rightarrow> nat option \<Rightarrow> KVCacheBlock list \<Rightarrow> KVCacheBlock list" where
  "set_prev r m bs = (case r of None \<Rightarrow> bs | Some b \<Rightarrow> bs[b := (bs ! b)\<lparr>prev_free_block := m\<rparr>])"

lemma set_link_same: "same_blocks bs (set_next r m bs)" "same_blocks bs (set_prev r m bs)"
  by (auto simp: set_next_def set_prev_def same_blocks_refl intro!: same_blocks_update split: option.splits)

lemma set_link_length [simp]: "length (set_next r m bs) = length bs" "length (set_prev r m bs) = length bs"
  by (simp_all add: set_next_def set_prev_def split: option.splits)

lemma set_link_nth [simp]:
  "r \<noteq> Some c \<Longrightarrow> set_next r m bs ! c = bs ! c" "r \<noteq> Some c \<Longrightarrow> set_prev r m bs ! c = bs ! c"
  by (cases r; simp add: set_next_def set_prev_def)+

lemma linked_set_other [simp]:
  "\<forall>b \<in> set l. r \<noteq> Some b \<Longrightarrow> linked (set_next r m bs) p l n \<longleftrightarrow> linked bs p l n"
  "\<forall>b \<in> set l. r \<noteq> Some b \<Longrightarrow> linked (set_prev r m bs) p l n \<longleftrightarrow> linked bs p l n"
  by (cases r; auto simp: set_next_def set_prev_def)+

text \<open>What \<open>remove\<close> does to the blocks around the one it takes out.\<close>

definition unlink :: "nat list \<Rightarrow> nat \<Rightarrow> nat list \<Rightarrow> KVCacheBlock list \<Rightarrow> KVCacheBlock list" where
  "unlink xs b ys bs =
     (let cs = set_prev (head_of ys) (last_of xs) (set_next (last_of xs) (head_of ys) bs)
      in cs[b := (cs ! b)\<lparr>prev_free_block := None, next_free_block := None\<rparr>])"

lemma unlink_same: "same_blocks bs (unlink xs b ys bs)"
  unfolding unlink_def Let_def
  by (intro same_blocks_trans [OF set_link_same(1) same_blocks_trans [OF set_link_same(2) same_blocks_update]])
    simp_all

lemma mod_blk_run [run_simps]:
  "mod_blk b f q = (Inr (), q\<lparr>q_blocks := (q_blocks q)[b := f (blk b q)]\<rparr>)"
  by (simp add: mod_blk_def run_simps)

lemma linked_unlink:
  assumes l: "linked bs None (xs @ b # ys) None" and d: "distinct (xs @ b # ys)"
    and v: "\<forall>c \<in> set (xs @ b # ys). c < length bs"
  shows "linked (unlink xs b ys bs) None (xs @ ys) None"
proof -
  let ?bs1 = "set_next (last_of xs) (head_of ys) bs"
  let ?bs2 = "set_prev (head_of ys) (last_of xs) ?bs1"
  from l have lx: "linked bs None xs (Some b)" and ly: "linked bs (Some b) ys None"
    by (auto simp: linked_append)
  have "linked ?bs1 None xs (head_of ys)"
  proof (cases "xs = []")
    case False
    with linked_set_next [OF lx] d v show ?thesis by (simp add: set_next_def last_of_def)
  qed simp
  moreover have "\<forall>c \<in> set xs. head_of ys \<noteq> Some c" using d by (cases ys) auto
  ultimately have x: "linked ?bs2 None xs (head_of ys)" by (simp only: linked_set_other)
  have "\<forall>c \<in> set ys. last_of xs \<noteq> Some c" using d last_in_set [of xs] by (auto simp del: last_in_set)
  with ly have y1: "linked ?bs1 (Some b) ys None" by (simp only: linked_set_other)
  have y: "linked ?bs2 (last_of xs) ys None"
  proof (cases ys)
    case (Cons z zs)
    have "linked (?bs1[z := (?bs1 ! z)\<lparr>prev_free_block := last_of xs\<rparr>]) (last_of xs) (z # zs) None"
      using y1 d v Cons by (intro linked_set_prev) simp_all
    with Cons show ?thesis by (simp add: set_prev_def)
  qed simp
  show ?thesis using x y d by (simp add: unlink_def Let_def linked_append last_of_def split: list.splits)
qed


lemma linked_at:
  assumes "linked bs p (xs @ b # ys) n"
  shows "prev_free_block (bs ! b) = (if xs = [] then p else Some (last xs))"
    and "next_free_block (bs ! b) = (case ys of [] \<Rightarrow> n | y # _ \<Rightarrow> Some y)"
  using assms by (auto simp: linked_append)

lemma queue_split:
  assumes "queue_is q l" and "b \<in> set l"
  obtains xs ys where "l = xs @ b # ys" and "remove1 b l = xs @ ys"
    and "prev_free_block (blk b q) = last_of xs" and "next_free_block (blk b q) = head_of ys"
proof -
  from assms(2) obtain xs ys where l: "l = xs @ b # ys" by (auto dest: split_list)
  moreover from assms(1) l have "b \<notin> set xs" by (simp add: queue_is_def)
  ultimately have "remove1 b l = xs @ ys" by (simp add: remove1_append)
  moreover have "linked (q_blocks q) None (xs @ b # ys) None" using assms(1) l by (simp add: queue_is_def)
  ultimately show thesis using that l linked_at [of "q_blocks q" None xs b ys None] by (simp add: last_of_def)
qed

text \<open>The steps of \<open>remove\<close>, each as one update of the queue.\<close>

lemma fq_remove_steps:
  shows "getM (blk b) (\<lambda>x. case prev_free_block x of None \<Rightarrow> retM ()
      | Some p \<Rightarrow> mod_blk p (\<lambda>y. y\<lparr>next_free_block := next_free_block x\<rparr>)) q =
    (Inr (), q\<lparr>q_blocks := set_next (prev_free_block (blk b q)) (next_free_block (blk b q)) (q_blocks q)\<rparr>)"
  and "getM (blk b) (\<lambda>x. case next_free_block x of None \<Rightarrow> retM ()
      | Some n \<Rightarrow> mod_blk n (\<lambda>y. y\<lparr>prev_free_block := prev_free_block x\<rparr>)) q =
    (Inr (), q\<lparr>q_blocks := set_prev (next_free_block (blk b q)) (prev_free_block (blk b q)) (q_blocks q)\<rparr>)"
  and "(if free_list_head q = Some b then next_free_block (blk b q) else free_list_head q) = h' \<Longrightarrow>
    getM free_list_head (\<lambda>h. if h = Some b
      then modM (\<lambda>q. q\<lparr>free_list_head := next_free_block (blk b q)\<rparr>) else retM ()) q = (Inr (), q\<lparr>free_list_head := h'\<rparr>)"
  and "(if free_list_tail q = Some b then prev_free_block (blk b q) else free_list_tail q) = t' \<Longrightarrow>
    getM free_list_tail (\<lambda>t. if t = Some b
      then modM (\<lambda>q. q\<lparr>free_list_tail := prev_free_block (blk b q)\<rparr>) else retM ()) q = (Inr (), q\<lparr>free_list_tail := t'\<rparr>)"
  by (auto simp: run_simps set_next_def set_prev_def split: option.splits)

lemma fq_remove_run:
  assumes "queue_is q l" and l: "l = xs @ b # ys"
  shows "fq_remove b q = (Inr (), q\<lparr>q_blocks := unlink xs b ys (q_blocks q),
    free_list_head := head_of (xs @ ys), free_list_tail := last_of (xs @ ys),
    num_free_blocks := num_free_blocks q - 1\<rparr>)"
proof -
  have k: "linked (q_blocks q) None (xs @ b # ys) None" and d: "distinct (xs @ b # ys)"
    and h: "free_list_head q = head_of (xs @ b # ys)" and t: "free_list_tail q = last_of (xs @ b # ys)"
    using assms by (simp_all add: queue_is_def)
  have p: "prev_free_block (blk b q) = last_of xs" and n: "next_free_block (blk b q) = head_of ys"
    using linked_at [OF k] by (simp_all add: last_of_def)
  have "last_of xs \<noteq> Some b" using d last_in_set [of xs] by (auto simp del: last_in_set)
  then have x: "set_next (last_of xs) m bs ! b = bs ! b" for m bs by (rule set_link_nth(1))
  have "head_of ys \<noteq> Some b" using d by (cases ys) auto
  then have y: "set_prev (head_of ys) m bs ! b = bs ! b" for m bs by (rule set_link_nth(2))
  have h': "(if free_list_head q = Some b then head_of ys else free_list_head q) = head_of (xs @ ys)"
    using h d by (cases xs) auto
  have t': "(if free_list_tail q = Some b then last_of xs else free_list_tail q) = last_of (xs @ ys)"
    using t d by (auto simp: last_of_def)
  show ?thesis
    unfolding fq_remove_def
    by (rule trans, rule thenM_step, rule fq_remove_steps(1), rule trans, rule thenM_step, rule fq_remove_steps(2),
        rule trans, rule thenM_step, rule fq_remove_steps(3) [where h' = "head_of (xs @ ys)"], simp add: p n x y h' cong: if_cong split del: if_split,
        rule trans, rule thenM_step, rule fq_remove_steps(4) [where t' = "last_of (xs @ ys)"], simp add: p n x y t' cong: if_cong split del: if_split,
        simp add: thenM_step [OF mod_blk_run] modM_run p n x y unlink_def Let_def)
qed

text \<open>Taking a block out, and putting one at the end.\<close>

lemma unlink_outside:
  assumes "c \<noteq> b" and "c \<notin> set (xs @ ys)"
  shows "unlink xs b ys bs ! c = bs ! c"
proof -
  have "last_of xs \<noteq> Some c" using assms(2) last_in_set [of xs] by (auto simp del: last_in_set)
  moreover have "head_of ys \<noteq> Some c" using assms(2) by (cases ys) auto
  ultimately show ?thesis using assms(1) by (simp add: unlink_def Let_def)
qed

lemma unlink_self: "b < length bs \<Longrightarrow> prev_free_block (unlink xs b ys bs ! b) = None \<and> next_free_block (unlink xs b ys bs ! b) = None"
  by (simp add: unlink_def Let_def)

lemma unlink_length [simp]: "length (unlink xs b ys bs) = length bs"
  by (simp add: unlink_def Let_def)

lemma fq_remove_item:
  assumes q: "queue_is q l" and "b \<in> set l"
  shows "\<exists>r. fq_remove b q = (Inr (), r) \<and> queue_is r (remove1 b l) \<and> fq_frame q r"
proof -
  obtain xs ys where l: "l = xs @ b # ys" "remove1 b l = xs @ ys" using queue_split [OF assms] by blast
  let ?r = "q\<lparr>q_blocks := unlink xs b ys (q_blocks q),
    free_list_head := head_of (xs @ ys), free_list_tail := last_of (xs @ ys),
    num_free_blocks := num_free_blocks q - 1\<rparr>"
  have "linked (q_blocks ?r) None (xs @ ys) None"
    using q l(1) linked_unlink [of "q_blocks q" xs b ys] by (auto simp: queue_is_def)
  moreover have "\<forall>c < length (q_blocks ?r). c \<notin> set (xs @ ys) \<longrightarrow>
    prev_free_block (blk c ?r) = None \<and> next_free_block (blk c ?r) = None"
  proof (intro allI impI)
    fix c assume c: "c < length (q_blocks ?r)" "c \<notin> set (xs @ ys)"
    show "prev_free_block (blk c ?r) = None \<and> next_free_block (blk c ?r) = None"
    proof (cases "c = b")
      case True
      with c show ?thesis by (simp add: unlink_self)
    next
      case False
      with c l(1) q show ?thesis by (simp add: unlink_outside queue_is_def)
    qed
  qed
  ultimately have "queue_is ?r (xs @ ys)" using q l(1) by (auto simp: queue_is_def)
  moreover have "fq_frame q ?r" by (simp add: fq_frame_def unlink_same)
  ultimately show ?thesis using fq_remove_run [OF q l(1)] l(2) by auto
qed

definition link_last :: "nat list \<Rightarrow> nat \<Rightarrow> KVCacheBlock list \<Rightarrow> KVCacheBlock list" where
  "link_last l b bs = (set_next (last_of l) (Some b) bs)[b := (bs ! b)\<lparr>prev_free_block := last_of l, next_free_block := None\<rparr>]"

lemma link_last_same: "same_blocks bs (link_last l b bs)"
proof -
  let ?cs = "set_next (last_of l) (Some b) bs"
  have "same_blocks bs ?cs" by (rule set_link_same)
  show ?thesis
  proof (cases "b < length bs")
    case True
    have "same_blocks ?cs (?cs[b := (bs ! b)\<lparr>prev_free_block := last_of l, next_free_block := None\<rparr>])"
      using \<open>same_blocks bs ?cs\<close> True by (intro same_blocks_update) (simp_all add: same_blocks_def)
    with \<open>same_blocks bs ?cs\<close> show ?thesis unfolding link_last_def by (rule same_blocks_trans)
  next
    case False
    with \<open>same_blocks bs ?cs\<close> show ?thesis by (simp add: link_last_def list_update_beyond)
  qed
qed

lemma linked_last:
  assumes l: "linked bs None l None" and d: "distinct l" and v: "\<forall>c \<in> set l. c < length bs"
    and b: "b < length bs" "b \<notin> set l"
  shows "linked (link_last l b bs) None (l @ [b]) None"
proof (cases "l = []")
  case True
  with b show ?thesis by (simp add: link_last_def)
next
  case False
  with linked_set_next [OF l False d v] have "linked (set_next (last_of l) (Some b) bs) None l (Some b)"
    by (simp add: set_next_def last_of_def)
  with b False show ?thesis by (simp add: linked_append link_last_def last_of_def)
qed

lemma fq_append_run:
  assumes q: "queue_is q l" and b: "b < length (q_blocks q)" "b \<notin> set l"
  shows "fq_append b q = (Inr (), q\<lparr>q_blocks := link_last l b (q_blocks q),
    free_list_head := head_of (l @ [b]), free_list_tail := Some b, num_free_blocks := num_free_blocks q + 1\<rparr>)"
proof (cases "l = []")
  case True
  with q b have "prev_free_block (blk b q) = None" by (simp add: queue_is_def)
  then have "(blk b q)\<lparr>prev_free_block := None, next_free_block := None\<rparr> = (blk b q)\<lparr>next_free_block := None\<rparr>" by simp
  with q True show ?thesis
    by (simp add: fq_append_def run_simps queue_is_def link_last_def set_next_def)
next
  case False
  then have "last l \<noteq> b" using b last_in_set [of l] by auto
  with False q b show ?thesis
    by (cases l) (simp_all add: fq_append_def run_simps queue_is_def link_last_def set_next_def last_of_def)
qed

lemma fq_append_last:
  assumes q: "queue_is q l" and "fq_valid q b" and b: "b \<notin> set l"
  shows "\<exists>r. fq_append b q = (Inr (), r) \<and> queue_is r (l @ [b]) \<and> fq_frame q r"
proof -
  have v: "b < length (q_blocks q)" using assms(2) by (simp add: fq_valid_def)
  let ?r = "q\<lparr>q_blocks := link_last l b (q_blocks q), free_list_head := head_of (l @ [b]),
    free_list_tail := Some b, num_free_blocks := num_free_blocks q + 1\<rparr>"
  have "linked (q_blocks ?r) None (l @ [b]) None"
    using q linked_last [of "q_blocks q" l b] v b by (simp add: queue_is_def)
  moreover have "prev_free_block (blk c ?r) = None \<and> next_free_block (blk c ?r) = None"
    if c: "c < length (q_blocks ?r)" "c \<notin> set (l @ [b])" for c
  proof -
    have "last_of l \<noteq> Some c" using c(2) last_in_set [of l] by auto
    then have "blk c ?r = blk c q" using c(2) by (simp add: link_last_def)
    with q c show ?thesis by (simp add: queue_is_def link_last_def)
  qed
  ultimately have "queue_is ?r (l @ [b])" using q v b by (auto simp: queue_is_def link_last_def last_of_def)
  moreover have "fq_frame q ?r" by (simp add: fq_frame_def link_last_same)
  ultimately show ?thesis using fq_append_run [OF q v b] by auto
qed

lemma popleft_empty: "queue_is q [] \<Longrightarrow> popleft q = (Inl ValueError, q)"
  by (simp add: popleft_def run_simps queue_is_def)

lemma popleft_first:
  assumes "queue_is q (b # l)"
  shows "\<exists>r. popleft q = (Inr b, r) \<and> queue_is r l \<and> fq_frame q r"
proof -
  obtain r where r: "fq_remove b q = (Inr (), r)" "queue_is r l" "fq_frame q r"
    using fq_remove_item [OF assms, of b] by auto
  have "free_list_head q = Some b" using assms by (simp add: queue_is_def)
  with r show ?thesis by (simp add: popleft_def run_simps)
qed

lemma fq_frame_refl: "fq_frame q q"
  by (simp add: fq_frame_def same_blocks_refl)

lemma fq_frame_trans: "fq_frame q r \<Longrightarrow> fq_frame r s \<Longrightarrow> fq_frame q s"
  by (auto simp: fq_frame_def intro: same_blocks_trans)

interpretation kvq: free_queue popleft fq_remove fq_append num_free_blocks queue_is fq_valid fq_frame
proof
  show "fq_frame s s" for s :: "'x FreeQueue_scheme" by (rule fq_frame_refl)
  show "fq_frame s t \<Longrightarrow> fq_frame t u \<Longrightarrow> fq_frame s u" for s t u :: "'x FreeQueue_scheme" by (rule fq_frame_trans)
  show "fq_frame s t \<Longrightarrow> fq_valid t b = fq_valid s b" for s t :: "'x FreeQueue_scheme" and b
    by (simp add: fq_frame_def fq_valid_def same_blocks_def)
  show "queue_is s l \<Longrightarrow> num_free_blocks s = int (length l)" for s :: "'x FreeQueue_scheme" and l
    by (simp add: queue_is_def)
  show "queue_is s l \<Longrightarrow> distinct l" for s :: "'x FreeQueue_scheme" and l by (simp add: queue_is_def)
qed (rule popleft_empty popleft_first fq_remove_item fq_append_last; assumption)+

text \<open>Walking the queue gives the list, and ends.\<close>

lemma follow_linked:
  assumes "linked (q_blocks q) p l None"
  shows "follow_free q (head_of l) = Some l"
  using assms
proof (induction l arbitrary: p)
  case Nil
  then show ?case by (simp add: follow_free.simps)
next
  case (Cons b l)
  then have "follow_free q (head_of l) = Some l" by (intro Cons.IH [of "Some b"]) simp
  with Cons.prems have "follow_free q (next_free_block (blk b q)) = Some l" by simp
  then show ?case by (subst follow_free.simps) simp
qed

lemma get_all_free_blocks_queue: "queue_is q l \<Longrightarrow> get_all_free_blocks q = Some l"
  using follow_linked [of q None l] by (simp add: get_all_free_blocks_def queue_is_def)

subsection \<open>Building the queue\<close>

definition link_in :: "nat \<Rightarrow> nat \<Rightarrow> KVCacheBlock \<Rightarrow> KVCacheBlock" where
  "link_in n i x = x\<lparr>prev_free_block := if 0 < i then Some (i - 1) else prev_free_block x,
     next_free_block := if i < n - 1 then Some (i + 1) else next_free_block x\<rparr>"

lemma link_block_run:
  assumes "i < length (q_blocks q)"
  shows "link_block n i q = (Inr (), q\<lparr>q_blocks := (q_blocks q)[i := link_in n i (blk i q)]\<rparr>)"
proof (cases "0 < i"; cases "i < n - 1")
  show "0 < i \<Longrightarrow> i < n - 1 \<Longrightarrow> ?thesis" using assms by (simp add: link_block_def run_simps link_in_def)
  show "0 < i \<Longrightarrow> \<not> i < n - 1 \<Longrightarrow> ?thesis" using assms by (simp add: link_block_def run_simps link_in_def)
  show "\<not> 0 < i \<Longrightarrow> i < n - 1 \<Longrightarrow> ?thesis" using assms by (simp add: link_block_def run_simps link_in_def)
  show "\<not> 0 < i \<Longrightarrow> \<not> i < n - 1 \<Longrightarrow> ?thesis" using assms by (simp add: link_block_def run_simps link_in_def)
qed

definition linked_upto :: "nat \<Rightarrow> nat \<Rightarrow> KVCacheBlock list \<Rightarrow> KVCacheBlock list" where
  "linked_upto n k bs = map (\<lambda>i. if i < k then link_in n i (bs ! i) else bs ! i) [0..<length bs]"

lemma linked_upto_0: "linked_upto n 0 bs = bs"
  by (simp add: linked_upto_def map_nth)

lemma linked_upto_Suc:
  assumes "k < length bs"
  shows "(linked_upto n k bs)[k := link_in n k (linked_upto n k bs ! k)] = linked_upto n (Suc k) bs"
  using assms by (intro nth_equalityI) (auto simp: linked_upto_def nth_list_update less_Suc_eq)

lemma forM_link:
  assumes "k \<le> length (q_blocks q)"
  shows "forM [0..<k] (link_block n) q = (Inr (), q\<lparr>q_blocks := linked_upto n k (q_blocks q)\<rparr>)"
  using assms
proof (induction k)
  case 0
  then show ?case by (simp add: run_simps linked_upto_0)
next
  case (Suc k)
  let ?r = "q\<lparr>q_blocks := linked_upto n k (q_blocks q)\<rparr>"
  have "forM [0..<k] (link_block n) q = (Inr (), ?r)" using Suc by simp
  moreover have "link_block n k ?r = (Inr (), q\<lparr>q_blocks := linked_upto n (Suc k) (q_blocks q)\<rparr>)"
  proof -
    have "k < length (q_blocks ?r)" using Suc.prems by (simp add: linked_upto_def)
    from link_block_run [OF this, of n] Suc.prems show ?thesis by (simp add: linked_upto_Suc)
  qed
  ultimately show ?case by (simp add: forM_append thenM_run retM_run)
qed

lemma linked_upto_linked:
  assumes "a \<le> n" and "length bs = n"
    and "\<forall>i < n. prev_free_block (bs ! i) = None \<and> next_free_block (bs ! i) = None"
  shows "linked (linked_upto n n bs) (if a = 0 then None else Some (a - 1)) [a..<n] None"
  using assms(1)
proof (induction a rule: inc_induct)
  case base
  then show ?case by simp
next
  case (step a)
  have "[a..<n] = a # [Suc a..<n]" using step.hyps(2) by (rule upt_conv_Cons)
  moreover have "[Suc a..<n] = (if Suc a < n then Suc a # [Suc (Suc a)..<n] else [])" by (simp add: upt_conv_Cons)
  ultimately show ?case
    using step assms(2,3) by (auto simp: linked_upto_def link_in_def)
qed

lemma fq_init_queue:
  assumes n: "length (q_blocks q) = n" "0 < n"
    and fresh: "\<forall>i < n. prev_free_block (blk i q) = None \<and> next_free_block (blk i q) = None"
  shows "\<exists>r. fq_init q = (Inr (), r) \<and> queue_is r [0..<n] \<and> fq_frame q r"
proof -
  let ?q = "q\<lparr>num_free_blocks := int n, free_list_head := Some 0, free_list_tail := Some (n - 1)\<rparr>"
  let ?r = "?q\<lparr>q_blocks := linked_upto n n (q_blocks q)\<rparr>"
  have len: "length (q_blocks ?r) = n" using n by (simp add: linked_upto_def)
  have "forM [0..<n] (link_block n) ?q = (Inr (), ?r)"
    using forM_link [of n ?q n] n by simp
  then have "fq_init q = (Inr (), ?r)" using n by (simp add: fq_init_def run_simps)
  moreover have "queue_is ?r [0..<n]"
  proof -
    have "linked (q_blocks ?r) None [0..<n] None"
      using linked_upto_linked [of 0 n "q_blocks q"] n fresh by simp
    moreover have "head_of [0..<n] = Some 0" using n(2) by (subst upt_conv_Cons) simp_all
    moreover have "last_of [0..<n] = Some (n - 1)" using n(2) by (simp add: last_of_def last_upt)
    ultimately show ?thesis unfolding queue_is_def len by (simp del: last_of_simps(4))
  qed
  moreover have "fq_frame q ?r"
    using n by (simp add: fq_frame_def same_blocks_def linked_upto_def link_in_def)
  ultimately show ?thesis by blast
qed

subsection \<open>Histories of a queue\<close>

text \<open>
  \<open>queue_history n q l\<close>: a queue built on \<open>n\<close> blocks reaches \<open>q\<close> by calls that returned, while the
  same calls on a list, first in first out with removal in the middle, reach \<open>l\<close>. Callers remove only
  blocks in the queue and append only blocks that are not in it.
\<close>

inductive queue_history :: "nat \<Rightarrow> FreeQueue \<Rightarrow> nat list \<Rightarrow> bool" where
  built: "fq_init \<lparr>q_blocks = map new_kv_block [0..<n], free_list_head = None, free_list_tail = None,
      num_free_blocks = 0\<rparr> = (Inr (), q) \<Longrightarrow> queue_history n q [0..<n]"
| popped: "queue_history n q (b # l) \<Longrightarrow> popleft q = (Inr b', q') \<Longrightarrow> queue_history n q' l"
| removed: "queue_history n q l \<Longrightarrow> b \<in> set l \<Longrightarrow> fq_remove b q = (r, q') \<Longrightarrow> queue_history n q' (remove1 b l)"
| appended: "queue_history n q l \<Longrightarrow> b < n \<Longrightarrow> b \<notin> set l \<Longrightarrow> fq_append b q = (r, q') \<Longrightarrow> queue_history n q' (l @ [b])"

lemma queue_history_is:
  assumes "queue_history n q l"
  shows "queue_is q l \<and> length (q_blocks q) = n"
  using assms
proof (induction rule: queue_history.induct)
  case (built n q)
  let ?s = "\<lparr>q_blocks = map new_kv_block [0..<n], free_list_head = None, free_list_tail = None, num_free_blocks = 0\<rparr>"
  from built have "n \<noteq> 0" by (auto simp: fq_init_def run_simps split: if_splits)
  then obtain r where "fq_init ?s = (Inr (), r)" "queue_is r [0..<n]" "fq_frame ?s r"
    using fq_init_queue [of ?s n] by (auto simp: new_kv_block_def)
  with built show ?case by (simp add: fq_frame_def same_blocks_def)
next
  case (popped n q b l b' q')
  then show ?case using kvq.pop_first [of q b l] by (auto simp: fq_frame_def same_blocks_def)
next
  case (removed n q l b r q')
  then show ?case using kvq.rem_item [of q l b] by (auto simp: fq_frame_def same_blocks_def)
next
  case (appended n q l b r q')
  then show ?case using kvq.app_last [of q l b] by (auto simp: fq_frame_def same_blocks_def fq_valid_def)
qed

text \<open>
  C35. The linked queue of free blocks refines a list: after any history of calls, walking the links
  ends and gives exactly the list the same calls produce, the counter is its length, and \<open>popleft\<close>
  returns its first block, or raises \<open>ValueError\<close> when there is none.
\<close>

theorem queue_refines_list:
  assumes "queue_history n q l"
  shows "get_all_free_blocks q = Some l \<and> num_free_blocks q = int (length l) \<and>
    fst (popleft q) = (case l of [] \<Rightarrow> Inl ValueError | b # _ \<Rightarrow> Inr b)"
proof -
  from queue_history_is [OF assms] have q: "queue_is q l" by simp
  have "fst (popleft q) = (case l of [] \<Rightarrow> Inl ValueError | b # _ \<Rightarrow> Inr b)"
    using q kvq.pop_empty [of q] kvq.pop_first [of q] by (cases l) fastforce+
  with get_all_free_blocks_queue [OF q] kvq.size_items [OF q] show ?thesis by simp
qed

text \<open>Three blocks; the middle one is removed, the first popped, and the middle one put back.\<close>

definition ex_queue :: FreeQueue where
  "ex_queue = snd (fq_init \<lparr>q_blocks = map new_kv_block [0..<3], free_list_head = None, free_list_tail = None, num_free_blocks = 0\<rparr>)"

lemma ex_queue_built: "queue_history 3 ex_queue [0, 1, 2]"
proof -
  let ?s = "\<lparr>q_blocks = map new_kv_block [0..<3], free_list_head = None, free_list_tail = None, num_free_blocks = 0\<rparr>"
  obtain q where "fq_init ?s = (Inr (), q)" using fq_init_queue [of ?s 3] by (auto simp: new_kv_block_def)
  then have "queue_history 3 ex_queue [0..<3]" by (auto simp: ex_queue_def intro: queue_history.built)
  then show ?thesis by (simp add: upt_rec numeral_eq_Suc)
qed

lemma queue_refines_list_witness:
  "\<exists>q. fq_append 1 (snd (popleft (snd (fq_remove 1 ex_queue)))) = (Inr (), q) \<and> get_all_free_blocks q = Some [2, 1]"
proof -
  let ?a = "snd (fq_remove 1 ex_queue)" and ?b = "snd (popleft (snd (fq_remove 1 ex_queue)))"
  let ?c = "snd (fq_append 1 ?b)"
  have a: "queue_history 3 ?a [0, 2]"
    using queue_history.removed [OF ex_queue_built, of 1 "fst (fq_remove 1 ex_queue)" ?a] by simp
  then have b: "queue_history 3 ?b [2]"
    using queue_history.popped [OF a, of 0 ?b] kvq.pop_first [of ?a 0 "[2]"] queue_history_is by auto
  moreover have "fst (fq_append 1 ?b) = Inr ()"
    using kvq.app_last [of ?b "[2]" 1] queue_history_is [OF b] by (auto simp: fq_valid_def)
  moreover from b have "queue_history 3 ?c ([2] @ [1])"
    by (rule queue_history.appended [of 3 ?b "[2]" 1 "fst (fq_append 1 ?b)"]) simp_all
  ultimately show ?thesis using queue_refines_list [of 3 ?c "[2, 1]"]
    by (metis append_Cons append_Nil prod.collapse)
qed

end
