(* ===== verification/KVRequest.thy ===== *)
theory KVRequest
  imports FreeQueue
begin

section \<open>Requests and the hashes of their blocks (\<open>vllm/v1/request.py\<close>, \<open>vllm/v1/core/kv_cache_utils.py\<close>)\<close>

text \<open>
  A request as the V1 core sees it, its stop conditions, and the chain of hashes that names its full
  blocks in the prefix cache. Python's \<open>hash\<close> (or \<open>sha256\<close>) is the parameter \<open>F\<close>, and the seed of the
  chain, \<open>NONE_HASH\<close>, the parameter \<open>none_hash\<close>. Multi-modal inputs count only; their positions and
  hashes are kept. A LoRA request is its \<open>lora_int_id\<close>.
\<close>

subsection \<open>Statuses\<close>

datatype RequestStatus =
    WAITING | WAITING_FOR_FSM | RUNNING | PREEMPTED
  | FINISHED_STOPPED | FINISHED_LENGTH_CAPPED | FINISHED_ABORTED | FINISHED_IGNORED

fun request_status_value :: "RequestStatus \<Rightarrow> nat" where
  "request_status_value WAITING = 1"
| "request_status_value WAITING_FOR_FSM = 2"
| "request_status_value RUNNING = 3"
| "request_status_value PREEMPTED = 4"
| "request_status_value FINISHED_STOPPED = 5"
| "request_status_value FINISHED_LENGTH_CAPPED = 6"
| "request_status_value FINISHED_ABORTED = 7"
| "request_status_value FINISHED_IGNORED = 8"

instantiation RequestStatus :: linorder
begin

definition less_eq_RequestStatus :: "RequestStatus \<Rightarrow> RequestStatus \<Rightarrow> bool" where
  "less_eq_RequestStatus a b \<longleftrightarrow> request_status_value a \<le> request_status_value b"

definition less_RequestStatus :: "RequestStatus \<Rightarrow> RequestStatus \<Rightarrow> bool" where
  "less_RequestStatus a b \<longleftrightarrow> request_status_value a < request_status_value b"

instance
proof
  fix a b :: RequestStatus
  show "a \<le> b \<Longrightarrow> b \<le> a \<Longrightarrow> a = b"
    by (cases a; cases b) (simp_all add: less_eq_RequestStatus_def)
qed (auto simp: less_eq_RequestStatus_def less_RequestStatus_def)

end

definition req_status_is_finished :: "RequestStatus \<Rightarrow> bool" where
  "req_status_is_finished st \<longleftrightarrow> PREEMPTED < st"

datatype FinishReason = REASON_STOP | REASON_LENGTH | REASON_ABORT

fun status_finished_reason :: "RequestStatus \<Rightarrow> FinishReason option" where
  "status_finished_reason FINISHED_STOPPED = Some REASON_STOP"
| "status_finished_reason FINISHED_LENGTH_CAPPED = Some REASON_LENGTH"
| "status_finished_reason FINISHED_ABORTED = Some REASON_ABORT"
| "status_finished_reason FINISHED_IGNORED = Some REASON_LENGTH"
| "status_finished_reason _ = None"

subsection \<open>Requests\<close>

record PlaceholderRange =
  ph_offset :: int
  ph_length :: int

record ReqSamplingParams =
  sp_max_tokens :: "int option"
  sp_ignore_eos :: bool
  sp_stop_token_ids :: "int list option"
  sp_logprobs :: "int option"
  sp_prompt_logprobs :: "int option"
  sp_guided_decoding :: bool

record Request =
  request_id :: string
  sampling_params :: ReqSamplingParams
  eos_token_id :: "int option"
  lora_request :: "int option"
  status :: RequestStatus
  stop_reason :: "int option"
  max_tokens :: int
  prompt_token_ids :: "int list"
  num_prompt_tokens :: nat
  output_token_ids :: "int list"
  all_token_ids :: "int list"
  spec_token_ids :: "int list"
  num_computed_tokens :: int
  mm_positions :: "PlaceholderRange list"
  mm_hashes :: "string option list"
  num_encoder_inputs :: nat
  has_encoder_inputs :: bool

definition request_init :: "string \<Rightarrow> int list \<Rightarrow> nat \<Rightarrow> string option list \<Rightarrow> PlaceholderRange list
    \<Rightarrow> ReqSamplingParams \<Rightarrow> int option \<Rightarrow> int option \<Rightarrow> exn + Request" where
  "request_init rid prompt num_mm_inputs hashes positions sp eos lora =
     (case sp_max_tokens sp of None \<Rightarrow> Inl AssertionError | Some mt \<Rightarrow>
      if num_mm_inputs \<noteq> length positions then Inl AssertionError
      else if hashes \<noteq> [] \<and> num_mm_inputs \<noteq> length hashes then Inl AssertionError
      else Inr \<lparr>request_id = rid, sampling_params = sp, eos_token_id = eos, lora_request = lora,
        status = (if sp_guided_decoding sp then WAITING_FOR_FSM else WAITING), stop_reason = None, max_tokens = mt,
        prompt_token_ids = prompt, num_prompt_tokens = length prompt, output_token_ids = [],
        all_token_ids = prompt, spec_token_ids = [], num_computed_tokens = 0, mm_positions = positions,
        mm_hashes = hashes, num_encoder_inputs = num_mm_inputs, has_encoder_inputs = (0 < num_mm_inputs)\<rparr>)"

type_synonym 'a rq = "(Request, 'a) st"

definition append_output_token_ids :: "int list \<Rightarrow> unit rq" where
  "append_output_token_ids ts = modM (\<lambda>r. r\<lparr>output_token_ids := output_token_ids r @ ts,
     all_token_ids := all_token_ids r @ ts\<rparr>)"

definition req_num_tokens :: "Request \<Rightarrow> int" where
  "req_num_tokens r = int (length (all_token_ids r))"

definition req_num_tokens_with_spec :: "Request \<Rightarrow> int" where
  "req_num_tokens_with_spec r = int (length (all_token_ids r)) + int (length (spec_token_ids r))"

definition req_num_output_tokens :: "Request \<Rightarrow> int" where
  "req_num_output_tokens r = int (length (output_token_ids r))"

definition req_is_finished :: "Request \<Rightarrow> bool" where
  "req_is_finished r = req_status_is_finished (status r)"

definition req_finished_reason :: "Request \<Rightarrow> FinishReason option" where
  "req_finished_reason r = status_finished_reason (status r)"

definition get_num_encoder_tokens :: "Request \<Rightarrow> nat \<Rightarrow> exn + int" where
  "get_num_encoder_tokens r i = (if i < length (mm_positions r) then Inr (ph_length (mm_positions r ! i)) else Inl AssertionError)"

definition use_structured_output :: "Request \<Rightarrow> bool" where
  "use_structured_output r = sp_guided_decoding (sampling_params r)"

definition check_stop :: "int \<Rightarrow> bool rq" where
  "check_stop max_model_len = getM id (\<lambda>r.
     if max_model_len \<le> req_num_tokens r \<or> max_tokens r \<le> req_num_output_tokens r then
       thenM (modM (\<lambda>r. r\<lparr>status := FINISHED_LENGTH_CAPPED\<rparr>)) (retM True)
     else
       bindM (fromM IndexError (if output_token_ids r = [] then None else Some (last (output_token_ids r)))) (\<lambda>t.
       if \<not> sp_ignore_eos (sampling_params r) \<and> Some t = eos_token_id r then
         thenM (modM (\<lambda>r. r\<lparr>status := FINISHED_STOPPED\<rparr>)) (retM True)
       else if t \<in> set (case sp_stop_token_ids (sampling_params r) of None \<Rightarrow> [] | Some ts \<Rightarrow> ts) then
         thenM (modM (\<lambda>r. r\<lparr>status := FINISHED_STOPPED, stop_reason := Some t\<rparr>)) (retM True)
       else retM False))"

subsection \<open>Hashes of blocks\<close>

definition need_extra_keys :: "Request \<Rightarrow> bool" where
  "need_extra_keys r \<longleftrightarrow> mm_positions r \<noteq> [] \<or> lora_request r \<noteq> None"

text \<open>The \<open>while\<close> loop over the multi-modal inputs from index \<open>i\<close> on; it gives the keys and the next index.\<close>

fun mm_keys_loop :: "(PlaceholderRange \<times> string option) list \<Rightarrow> int \<Rightarrow> int \<Rightarrow> int \<Rightarrow> exn + ExtraKey list \<times> int" where
  "mm_keys_loop [] start stop i = Inr ([], i)"
| "mm_keys_loop ((p, h) # ps) start stop i =
     (case h of None \<Rightarrow> Inl AssertionError
      | Some k \<Rightarrow>
          if ph_offset p < stop then
            if ph_offset p + ph_length p < start then mm_keys_loop ps start stop (i + 1)
            else if ph_offset p + ph_length p \<le> stop then
              (case mm_keys_loop ps start stop (i + 1) of Inl e \<Rightarrow> Inl e | Inr (ks, j) \<Rightarrow> Inr (MMKey k # ks, j))
            else Inr ([MMKey k], i)
          else Inr ([], i))"

definition gen_mm_extra_hash_keys :: "Request \<Rightarrow> int \<Rightarrow> int \<Rightarrow> int \<Rightarrow> exn + ExtraKey list \<times> int" where
  "gen_mm_extra_hash_keys r start stop start_mm_idx =
     (if mm_positions r = [] then Inr ([], start_mm_idx)
      else if length (mm_positions r) \<noteq> length (mm_hashes r) then Inl ValueError
      else if ph_offset (last (mm_positions r)) + ph_length (last (mm_positions r)) < start then Inr ([], start_mm_idx)
      else if start_mm_idx < 0 \<and> int (length (mm_positions r)) < - start_mm_idx then Inl AssertionError
      else let i = (if start_mm_idx < 0 then int (length (mm_positions r)) + start_mm_idx else start_mm_idx) in
        mm_keys_loop (drop (nat i) (zip (mm_positions r) (mm_hashes r))) start stop i)"

definition gen_lora_extra_hash_keys :: "Request \<Rightarrow> ExtraKey list" where
  "gen_lora_extra_hash_keys r = (case lora_request r of None \<Rightarrow> [] | Some i \<Rightarrow> [LoraKey i])"

definition generate_block_hash_extra_keys :: "Request \<Rightarrow> int \<Rightarrow> int \<Rightarrow> int \<Rightarrow> exn + ExtraKey list option \<times> int" where
  "generate_block_hash_extra_keys r start stop start_mm_idx =
     (case gen_mm_extra_hash_keys r start stop start_mm_idx of Inl e \<Rightarrow> Inl e
      | Inr (mm_keys, new_start_mm_idx) \<Rightarrow>
          let extra_keys = gen_lora_extra_hash_keys r @ mm_keys in
          Inr (if extra_keys = [] then None else Some extra_keys, new_start_mm_idx))"

type_synonym hash_fn = "int \<times> int list \<times> ExtraKey list option \<Rightarrow> int"

text \<open>\<open>if not parent_block_hash\<close> also holds of the hash \<open>0\<close>.\<close>

definition chain_seed :: "int \<Rightarrow> int option \<Rightarrow> int" where
  "chain_seed none_hash parent = (case parent of None \<Rightarrow> none_hash | Some p \<Rightarrow> if p = 0 then none_hash else p)"

definition kv_hash_block_tokens :: "hash_fn \<Rightarrow> int \<Rightarrow> int option \<Rightarrow> int list \<Rightarrow> ExtraKey list option \<Rightarrow> BlockHashType" where
  "kv_hash_block_tokens F none_hash parent ts keys =
     \<lparr>hash_value = F (chain_seed none_hash parent, ts, keys), hashed_token_ids = ts, hash_extra_keys = keys\<rparr>"

text \<open>The loop of \<open>hash_request_tokens\<close>, on the slices of \<open>block_size\<close> tokens that remain.\<close>

fun hash_blocks :: "hash_fn \<Rightarrow> int \<Rightarrow> nat \<Rightarrow> Request \<Rightarrow> int list list \<Rightarrow> int \<Rightarrow> int option \<Rightarrow> int
    \<Rightarrow> exn + BlockHashType list" where
  "hash_blocks F none_hash bsize r [] start parent mm_idx = Inr []"
| "hash_blocks F none_hash bsize r (c # cs) start parent mm_idx =
     (if length c < bsize then Inr []
      else case (if need_extra_keys r then generate_block_hash_extra_keys r start (start + int bsize) mm_idx
                 else Inr (None, mm_idx)) of
          Inl e \<Rightarrow> Inl e
        | Inr (keys, mm_idx') \<Rightarrow>
            let h = kv_hash_block_tokens F none_hash parent c keys in
            (case hash_blocks F none_hash bsize r cs (start + int bsize) (Some (hash_value h)) mm_idx' of
               Inl e \<Rightarrow> Inl e | Inr hs \<Rightarrow> Inr (h # hs)))"

definition hash_request_tokens :: "hash_fn \<Rightarrow> int \<Rightarrow> nat \<Rightarrow> Request \<Rightarrow> exn + BlockHashType list" where
  "hash_request_tokens F none_hash bsize r =
     hash_blocks F none_hash bsize r (chunk_list (all_token_ids r) bsize) 0 None 0"

subsection \<open>What a hash of a block identifies\<close>

lemma chunk_list_nth:
  assumes "0 < n" and "j < length (chunk_list xs n)"
  shows "chunk_list xs n ! j = take n (drop (j * n) xs)"
  using assms
proof (induction j arbitrary: xs)
  case 0
  then have "xs \<noteq> []" by auto
  with 0 show ?case by (simp add: chunk_list_step)
next
  case (Suc j)
  then have "xs \<noteq> []" by auto
  with Suc show ?case by (simp add: chunk_list_step add.commute)
qed

text \<open>The adapter is part of every key; keys of multi-modal inputs are of another kind.\<close>

definition lora_of_keys :: "ExtraKey list option \<Rightarrow> int option" where
  "lora_of_keys keys = (case keys of Some (LoraKey i # _) \<Rightarrow> Some i | _ \<Rightarrow> None)"

lemma mm_keys_loop_keys: "mm_keys_loop ps start stop i = Inr (ks, j) \<Longrightarrow> \<forall>k \<in> set ks. \<exists>h. k = MMKey h"
  by (induction ps start stop i arbitrary: ks j rule: mm_keys_loop.induct)
    (auto split: option.splits if_splits sum.splits)

lemma generate_keys_lora:
  assumes "generate_block_hash_extra_keys r start stop i = Inr (keys, j)"
  shows "lora_of_keys keys = lora_request r"
proof -
  from assms obtain ks where "gen_mm_extra_hash_keys r start stop i = Inr (ks, j)"
    and k: "keys = (if gen_lora_extra_hash_keys r @ ks = [] then None else Some (gen_lora_extra_hash_keys r @ ks))"
    by (auto simp: generate_block_hash_extra_keys_def Let_def split: sum.splits prod.splits)
  then have "\<forall>k \<in> set ks. \<exists>h. k = MMKey h"
    by (auto simp: gen_mm_extra_hash_keys_def Let_def split: if_splits dest!: mm_keys_loop_keys)
  with k show ?thesis
    by (cases ks; cases "lora_request r") (auto simp: lora_of_keys_def gen_lora_extra_hash_keys_def)
qed

lemma hash_blocks_Cons:
  assumes "hash_blocks F nh bs r (c # cs) start parent mm = Inr hs" and "hs \<noteq> []"
  obtains keys mm' hs' where "bs \<le> length c" and "lora_of_keys keys = lora_request r"
    and "hs = kv_hash_block_tokens F nh parent c keys # hs'"
    and "hash_blocks F nh bs r cs (start + int bs) (Some (hash_value (kv_hash_block_tokens F nh parent c keys))) mm' = Inr hs'"
proof -
  from assms have full: "\<not> length c < bs" by (auto split: if_splits)
  let ?k = "if need_extra_keys r then generate_block_hash_extra_keys r start (start + int bs) mm else Inr (None, mm)"
  from assms(1) full obtain keys mm' where k: "?k = Inr (keys, mm')"
    by (cases ?k) (auto split: if_splits)
  let ?h = "kv_hash_block_tokens F nh parent c keys"
  from assms(1) full k obtain hs' where
    hs': "hash_blocks F nh bs r cs (start + int bs) (Some (hash_value ?h)) mm' = Inr hs'" and hs: "hs = ?h # hs'"
    by (auto simp: Let_def simp del: split_paired_Ex split: sum.splits if_splits)
  have "lora_of_keys keys = lora_request r"
    using k generate_keys_lora [of r start "start + int bs" mm keys mm']
    by (auto simp: need_extra_keys_def lora_of_keys_def split: if_splits)
  with full hs hs' that show thesis by (simp add: not_less)
qed

lemma hash_blocks_nth:
  assumes "hash_blocks F nh bs r cs start parent mm = Inr hs" and "j < length hs"
  shows "j < length cs \<and> hashed_token_ids (hs ! j) = cs ! j \<and> bs \<le> length (cs ! j) \<and>
    lora_of_keys (hash_extra_keys (hs ! j)) = lora_request r \<and>
    hash_value (hs ! j) = F (chain_seed nh (if j = 0 then parent else Some (hash_value (hs ! (j - 1)))), cs ! j, hash_extra_keys (hs ! j))"
  using assms
proof (induction cs arbitrary: start parent mm hs j)
  case Nil
  then show ?case by simp
next
  case (Cons c cs)
  from Cons.prems have "hs \<noteq> []" by auto
  from hash_blocks_Cons [OF Cons.prems(1) this] obtain keys mm' hs' where
    full: "bs \<le> length c" "lora_of_keys keys = lora_request r" and hs: "hs = kv_hash_block_tokens F nh parent c keys # hs'"
    and hs': "hash_blocks F nh bs r cs (start + int bs) (Some (hash_value (kv_hash_block_tokens F nh parent c keys))) mm' = Inr hs'" .
  show ?case
  proof (cases j)
    case 0
    with hs full show ?thesis by (simp add: kv_hash_block_tokens_def)
  next
    case (Suc i)
    with Cons.prems(2) hs have "i < length hs'" by simp
    from Cons.IH [OF hs' this] Suc hs show ?thesis by (cases i) auto
  qed
qed

text \<open>The tuples that were hashed for a chain.\<close>

fun hash_inputs :: "int \<Rightarrow> int \<Rightarrow> BlockHashType list \<Rightarrow> (int \<times> int list \<times> ExtraKey list option) list" where
  "hash_inputs nh p [] = []"
| "hash_inputs nh p (h # hs) = (p, hashed_token_ids h, hash_extra_keys h) # hash_inputs nh (chain_seed nh (Some (hash_value h))) hs"

lemma hash_inputs_nth:
  "j < length hs \<Longrightarrow> (if j = 0 then p else chain_seed nh (Some (hash_value (hs ! (j - 1)))),
     hashed_token_ids (hs ! j), hash_extra_keys (hs ! j)) \<in> set (hash_inputs nh p hs)"
proof (induction nh p hs arbitrary: j rule: hash_inputs.induct)
  case (2 nh p h hs)
  show ?case
  proof (cases j)
    case (Suc i)
    with 2 show ?thesis by (cases i) force+
  qed simp
qed simp

text \<open>Two chains that agree at one index agree before it, when the hash function has no collision on them.\<close>

lemma chains_agree:
  assumes h: "hash_blocks F nh bs r cs 0 None 0 = Inr hs" and h': "hash_blocks F nh bs r' cs' 0 None 0 = Inr hs'"
    and k: "k < length hs" "k < length hs'" and eq: "hs ! k = hs' ! k"
    and inj: "inj_on F (set (hash_inputs nh nh hs) \<union> set (hash_inputs nh nh hs'))"
    and nonzero: "\<forall>h \<in> set hs \<union> set hs'. hash_value h \<noteq> 0"
    and "j \<le> k"
  shows "hs ! j = hs' ! j"
  using \<open>j \<le> k\<close>
proof (induction rule: inc_induct)
  case base
  show ?case by (rule eq)
next
  case (step j)
  let ?i = "\<lambda>hs j. (if j = 0 then nh else chain_seed nh (Some (hash_value (hs ! (j - 1)))), hashed_token_ids (hs ! j), hash_extra_keys (hs ! j))"
  have j: "Suc j < length hs" "Suc j < length hs'" using step.hyps k by auto
  have inp: "?i gs i \<in> set (hash_inputs nh nh gs)" if "i < length gs" for gs i
    using hash_inputs_nth [OF that] .
  have v: "hash_value (hs ! i) = F (?i hs i)" "hash_value (hs' ! i) = F (?i hs' i)" if "i \<le> Suc j" for i
    using hash_blocks_nth [OF h, of i] hash_blocks_nth [OF h', of i] j that
    by (auto simp: chain_seed_def)
  have "?i hs (Suc j) = ?i hs' (Suc j)"
    using v [of "Suc j"] step.IH inp [OF j(1)] inp [OF j(2)] by (intro inj_onD [OF inj]) auto
  then have "chain_seed nh (Some (hash_value (hs ! j))) = chain_seed nh (Some (hash_value (hs' ! j)))" by simp
  then have "hash_value (hs ! j) = hash_value (hs' ! j)"
    using nonzero j by (simp add: chain_seed_def)
  then have "?i hs j = ?i hs' j"
    using v [of j] inp [of j hs] inp [of j hs'] j by (intro inj_onD [OF inj]) auto
  with \<open>hash_value (hs ! j) = hash_value (hs' ! j)\<close> show ?case by simp
qed

lemma take_chunks:
  assumes "0 < n" and "k \<le> length (chunk_list xs n)" and "k \<le> length (chunk_list ys n)"
    and "\<And>j. j < k \<Longrightarrow> chunk_list xs n ! j = chunk_list ys n ! j"
  shows "take (k * n) xs = take (k * n) ys"
  using assms(2-4)
proof (induction k)
  case (Suc k)
  have "take n (drop (k * n) xs) = take n (drop (k * n) ys)"
    using Suc.prems chunk_list_nth [OF assms(1), of k xs] chunk_list_nth [OF assms(1), of k ys] by simp
  moreover have "take (k * n) xs = take (k * n) ys" using Suc by simp
  ultimately show ?case by (simp add: take_add add.commute [of n] del: mult_Suc_right)
qed simp

text \<open>
  C36. A cached block is reused only for the same prefix: when the hashes of the \<open>k\<close>-th blocks of two
  requests are equal, and the hash function has no collision on the two chains and is not \<open>0\<close> on them,
  the requests agree on all tokens up to the end of that block, on the adapter, and on the extra keys
  (the multi-modal inputs) of every block up to it.
\<close>

theorem block_hash_identifies_prefix:
  assumes "hash_request_tokens F none_hash bsize r = Inr hs" and "hash_request_tokens F none_hash bsize r' = Inr hs'"
    and "0 < bsize" and "k < length hs" and "k < length hs'" and "hs ! k = hs' ! k"
    and "inj_on F (set (hash_inputs none_hash none_hash hs) \<union> set (hash_inputs none_hash none_hash hs'))"
    and "\<forall>h \<in> set hs \<union> set hs'. hash_value h \<noteq> 0"
  shows "take (Suc k * bsize) (all_token_ids r) = take (Suc k * bsize) (all_token_ids r') \<and>
    lora_request r = lora_request r' \<and>
    map hash_extra_keys (take (Suc k) hs) = map hash_extra_keys (take (Suc k) hs')"
proof -
  let ?c = "chunk_list (all_token_ids r) bsize" and ?c' = "chunk_list (all_token_ids r') bsize"
  have h: "hash_blocks F none_hash bsize r ?c 0 None 0 = Inr hs" "hash_blocks F none_hash bsize r' ?c' 0 None 0 = Inr hs'"
    using assms(1,2) by (simp_all add: hash_request_tokens_def)
  have agree: "hs ! j = hs' ! j" if "j < Suc k" for j
    using chains_agree [OF h assms(4-8)] that by simp
  note nth = hash_blocks_nth [OF h(1)] hash_blocks_nth [OF h(2)]
  have "?c ! j = ?c' ! j" if "j < Suc k" for j
    using nth [of j] agree [OF that] that assms(4,5) by (metis less_Suc_eq less_trans)
  moreover have "Suc k \<le> length ?c" "Suc k \<le> length ?c'" using nth [of k] assms(4,5) by auto
  ultimately have "take (Suc k * bsize) (all_token_ids r) = take (Suc k * bsize) (all_token_ids r')"
    using take_chunks [OF assms(3), of "Suc k"] by blast
  moreover have "lora_request r = lora_request r'" using nth [of k] assms(4-6) by metis
  moreover have "map hash_extra_keys (take (Suc k) hs) = map hash_extra_keys (take (Suc k) hs')"
    using agree assms(4,5) by (intro nth_equalityI) auto
  ultimately show ?thesis by blast
qed

text \<open>Two requests with the same first block of two tokens; the second differs in the second block.\<close>

definition ex_hash_fn :: hash_fn where
  "ex_hash_fn x = (case x of (p, ts, keys) \<Rightarrow> 10000 * p + foldl (\<lambda>a t. 100 * a + t) 1 ts)"

definition ex_request :: "int list \<Rightarrow> Request" where
  "ex_request ts = \<lparr>request_id = ''r'', sampling_params = \<lparr>sp_max_tokens = Some 16, sp_ignore_eos = False,
     sp_stop_token_ids = None, sp_logprobs = None, sp_prompt_logprobs = None, sp_guided_decoding = False\<rparr>, eos_token_id = Some 2,
     lora_request = None, status = WAITING, stop_reason = None, max_tokens = 16, prompt_token_ids = ts,
     num_prompt_tokens = length ts, output_token_ids = [], all_token_ids = ts, spec_token_ids = [],
     num_computed_tokens = 0, mm_positions = [], mm_hashes = [], num_encoder_inputs = 0, has_encoder_inputs = False\<rparr>"

lemma block_hash_identifies_prefix_witness:
  "\<exists>hs hs'. hash_request_tokens ex_hash_fn 7 2 (ex_request [5, 6, 8, 9, 1]) = Inr hs \<and>
    hash_request_tokens ex_hash_fn 7 2 (ex_request [5, 6, 9, 9]) = Inr hs' \<and> hs ! 0 = hs' ! 0 \<and> hs ! 1 \<noteq> hs' ! 1 \<and>
    take 2 (all_token_ids (ex_request [5, 6, 8, 9, 1])) = take 2 (all_token_ids (ex_request [5, 6, 9, 9]))"
proof -
  let ?h = "\<lambda>v ts. \<lparr>hash_value = v, hashed_token_ids = ts, hash_extra_keys = None\<rparr>"
  let ?hs = "[?h 80506 [5, 6], ?h 805070809 [8, 9]]" and ?hs' = "[?h 80506 [5, 6], ?h 805070909 [9, 9]]"
  have a: "hash_request_tokens ex_hash_fn 7 2 (ex_request [5, 6, 8, 9, 1]) = Inr ?hs"
    "hash_request_tokens ex_hash_fn 7 2 (ex_request [5, 6, 9, 9]) = Inr ?hs'"
    by (simp_all add: hash_request_tokens_def chunk_list.simps need_extra_keys_def ex_request_def kv_hash_block_tokens_def
        chain_seed_def ex_hash_fn_def Let_def)
  have "take (Suc 0 * 2) (all_token_ids (ex_request [5, 6, 8, 9, 1])) = take (Suc 0 * 2) (all_token_ids (ex_request [5, 6, 9, 9]))"
    using block_hash_identifies_prefix [OF a, of 0]
    by (simp add: inj_on_def chain_seed_def ex_hash_fn_def)
  with a show ?thesis by simp
qed

end
