(* ===== verification/KVBlockPool.thy ===== *)
theory KVBlockPool
  imports KVRequest
begin

section \<open>The pool of KV-cache blocks (\<open>vllm/v1/core/block_pool.py\<close>)\<close>

text \<open>
  \<open>BlockPool\<close> owns the blocks, the queue of free ones and the table from hashes to cached blocks. The
  table's inner dictionaries map a block's id to the block. The record extends the queue's, since the
  pool, its queue and every caller share the block objects; the manager in turn extends this one.
\<close>

record KVBlockPool = FreeQueue +
  num_gpu_blocks :: nat
  enable_caching :: bool
  cached_block_hash_to_block :: "BlockHashType \<Rightarrow> (nat, nat) dict option"
  null_block :: nat

type_synonym ('x, 'a) kp = "('x KVBlockPool_scheme, 'a) st"

text \<open>\<open>blocks[a:b]\<close> of Python, with negative bounds counted from the end.\<close>

definition py_slice :: "int \<Rightarrow> int \<Rightarrow> 'a list \<Rightarrow> 'a list" where
  "py_slice a b xs = (let n = int (length xs); clip = (\<lambda>i. nat (max 0 (min n (if i < 0 then n + i else i)))) in
     drop (clip a) (take (clip b) xs))"

definition pool_init :: "nat \<Rightarrow> bool \<Rightarrow> ('x, unit) kp" where
  "pool_init n caching =
     thenM (assertM (0 < n))
    (thenM (modM (\<lambda>s. s\<lparr>num_gpu_blocks := n, enable_caching := caching, q_blocks := map new_kv_block [0..<n]\<rparr>))
    (thenM fq_init
    (thenM (modM (\<lambda>s. s\<lparr>cached_block_hash_to_block := (\<lambda>h. None)\<rparr>))
    (bindM popleft (\<lambda>b. modM (\<lambda>s. s\<lparr>null_block := b\<rparr>))))))"

definition get_cached_block :: "BlockHashType \<Rightarrow> ('x, nat option) kp" where
  "get_cached_block h = getM cached_block_hash_to_block (\<lambda>cached. case cached h of
     None \<Rightarrow> retM None
   | Some d \<Rightarrow> bindM (fromM IndexError (case d of [] \<Rightarrow> None | p # _ \<Rightarrow> Some (fst p))) (\<lambda>i.
       bindM (fromM KeyError (dict_get d i)) (\<lambda>b. retM (Some b))))"

text \<open>\<open>cached[h][block.block_id] = block\<close> on the default dictionary.\<close>

definition cache_block :: "BlockHashType \<Rightarrow> nat \<Rightarrow> ('x, unit) kp" where
  "cache_block h b = modM (\<lambda>s. s\<lparr>cached_block_hash_to_block := (cached_block_hash_to_block s)(h \<mapsto>
     dict_set (kv_block_id (blk b s)) b (case cached_block_hash_to_block s h of None \<Rightarrow> [] | Some d \<Rightarrow> d))\<rparr>)"

text \<open>
  The hash of a full block of the request: the one already computed, or a new one. \<open>push\<close> appends to
  the request's list of hashes, which the caller passed by reference.
\<close>

definition full_block_hash :: "hash_fn \<Rightarrow> int \<Rightarrow> Request \<Rightarrow> nat \<Rightarrow> BlockHashType list
    \<Rightarrow> (BlockHashType \<Rightarrow> ('x, unit) kp) \<Rightarrow> int \<Rightarrow> nat \<Rightarrow> int option \<Rightarrow> ('x, BlockHashType) kp" where
  "full_block_hash F none_hash r bsize new_hashes push num_cached i prev =
     (if i < length new_hashes then retM (new_hashes ! i)
      else let blk_idx = num_cached + int i;
               start = blk_idx * int bsize; stop = (blk_idx + 1) * int bsize;
               ts = py_slice start stop (all_token_ids r) in
        thenM (assertM (length ts = bsize))
       (bindM (liftM (generate_block_hash_extra_keys r start stop (- 1))) (\<lambda>(keys, _).
        let h = kv_hash_block_tokens F none_hash prev ts keys in
        thenM (push h) (retM h))))"

fun cache_blocks_loop :: "hash_fn \<Rightarrow> int \<Rightarrow> Request \<Rightarrow> nat \<Rightarrow> BlockHashType list
    \<Rightarrow> (BlockHashType \<Rightarrow> ('x, unit) kp) \<Rightarrow> int \<Rightarrow> nat list \<Rightarrow> nat \<Rightarrow> int option \<Rightarrow> ('x, unit) kp" where
  "cache_blocks_loop F none_hash r bsize new_hashes push num_cached [] i prev = retM ()"
| "cache_blocks_loop F none_hash r bsize new_hashes push num_cached (b # bs) i prev =
     thenM (getM (blk b) (\<lambda>x. assertM (kv_block_hash x = None)))
    (bindM (full_block_hash F none_hash r bsize new_hashes push num_cached i prev) (\<lambda>h.
     thenM (set_block_hash b h)
    (thenM (cache_block h b)
           (cache_blocks_loop F none_hash r bsize new_hashes push num_cached bs (Suc i) (Some (hash_value h))))))"

definition cache_full_blocks :: "hash_fn \<Rightarrow> int \<Rightarrow> Request \<Rightarrow> nat list \<Rightarrow> BlockHashType list
    \<Rightarrow> (BlockHashType \<Rightarrow> ('x, unit) kp) \<Rightarrow> int \<Rightarrow> int \<Rightarrow> nat \<Rightarrow> ('x, unit) kp" where
  "cache_full_blocks F none_hash r blocks block_hashes push num_cached num_full bsize =
     (if num_cached = num_full then retM ()
      else
        thenM (assertM (num_cached \<le> int (length block_hashes)))
       (bindM (if num_cached = 0 then retM None
          else bindM (fromM IndexError (let i = (if num_cached < 1 then int (length blocks) else 0) + num_cached - 1 in
                  if 0 \<le> i \<and> i < int (length blocks) then Some (blocks ! nat i) else None)) (\<lambda>p.
               getM (blk p) (\<lambda>x. bindM (fromM AssertionError (kv_block_hash x)) (\<lambda>h. retM (Some (hash_value h)))))) (\<lambda>prev.
        cache_blocks_loop F none_hash r bsize (py_slice num_cached (int (length block_hashes)) block_hashes) push num_cached
          (py_slice num_cached num_full blocks) 0 prev)))"

definition maybe_evict_cached_block :: "nat \<Rightarrow> ('x, bool) kp" where
  "maybe_evict_cached_block b = getM id (\<lambda>s.
     case kv_block_hash (blk b s) of None \<Rightarrow> retM False
     | Some h \<Rightarrow> (case cached_block_hash_to_block s h of None \<Rightarrow> retM False
       | Some d \<Rightarrow>
           thenM (reset_hash b)
          (thenM (guardM (dict_get d (kv_block_id (blk b s)) = None) KeyError)
          (let d' = dict_del (kv_block_id (blk b s)) d in
           thenM (modM (\<lambda>s. s\<lparr>cached_block_hash_to_block := (cached_block_hash_to_block s)(h := if d' = [] then None else Some d')\<rparr>))
                 (retM True)))))"

definition get_num_free_blocks :: "'x KVBlockPool_scheme \<Rightarrow> int" where
  "get_num_free_blocks s = num_free_blocks s"

text \<open>One round of the loop of \<open>get_new_blocks\<close>.\<close>

definition get_new_block :: "('x, nat) kp" where
  "get_new_block =
     bindM popleft (\<lambda>b.
     thenM (getM (blk b) (\<lambda>x. assertM (ref_cnt x = 0)))
    (thenM (getM enable_caching (\<lambda>c. if c then bindM (maybe_evict_cached_block b) (\<lambda>_. retM ()) else retM ()))
    (thenM (incr_ref b) (retM b))))"

definition get_new_blocks :: "int \<Rightarrow> ('x, nat list) kp" where
  "get_new_blocks n =
     thenM (getM get_num_free_blocks (\<lambda>free. guardM (free < n) ValueError))
           (mapM [0..<nat n] (\<lambda>_. get_new_block))"

definition touch_block :: "nat \<Rightarrow> ('x, unit) kp" where
  "touch_block b =
     thenM (getM id (\<lambda>s. if ref_cnt (blk b s) = 0 \<and> b \<noteq> null_block s then fq_remove b else retM ()))
           (incr_ref b)"

definition touch :: "nat list \<Rightarrow> ('x, unit) kp" where
  "touch bs = forM bs touch_block"

definition free_kv_block :: "nat \<Rightarrow> ('x, unit) kp" where
  "free_kv_block b =
     thenM (decr_ref b)
           (getM id (\<lambda>s. if ref_cnt (blk b s) = 0 \<and> b \<noteq> null_block s then fq_append b else retM ()))"

definition free_blocks :: "nat list \<Rightarrow> ('x, unit) kp" where
  "free_blocks bs = forM bs free_kv_block"

definition pool_reset_prefix_cache :: "('x, bool) kp" where
  "pool_reset_prefix_cache = getM id (\<lambda>s.
     if int (num_gpu_blocks s) - get_num_free_blocks s \<noteq> 1 then retM False
     else thenM (modM (\<lambda>s. s\<lparr>cached_block_hash_to_block := (\<lambda>h. None)\<rparr>))
         (thenM (forM [0..<length (q_blocks s)] reset_hash)
                (retM True)))"

definition get_usage :: "'x KVBlockPool_scheme \<Rightarrow> rat" where
  "get_usage s = 1 - of_int (get_num_free_blocks s) / of_nat (num_gpu_blocks s)"

subsection \<open>The invariant of the pool\<close>

text \<open>
  \<open>hashes_ok\<close>: the table and the blocks' hashes say the same. \<open>pool_is s l\<close>: the queue is \<open>l\<close>, the blocks
  in it are exactly those nobody uses, and the null block is never in it.
\<close>

definition hash_table_ok :: "nat \<Rightarrow> (nat \<Rightarrow> BlockHashType option) \<Rightarrow> (BlockHashType \<Rightarrow> (nat, nat) dict option) \<Rightarrow> bool" where
  "hash_table_ok n hash_of cached \<longleftrightarrow>
     (\<forall>h d. cached h = Some d \<longrightarrow> d \<noteq> [] \<and> dict_ok d \<and> (\<forall>i b. (i, b) \<in> set d \<longrightarrow> i = b \<and> b < n \<and> hash_of b = Some h)) \<and>
     (\<forall>b h. b < n \<longrightarrow> hash_of b = Some h \<longrightarrow> (\<exists>d. cached h = Some d \<and> b \<in> dict_keys d))"

definition hashes_ok :: "'x KVBlockPool_scheme \<Rightarrow> bool" where
  "hashes_ok s = hash_table_ok (length (q_blocks s)) (\<lambda>b. kv_block_hash (blk b s)) (cached_block_hash_to_block s)"

lemma hash_table_evict:
  assumes ok: "hash_table_ok n hash_of cached" and h: "hash_of b = Some h" and d: "cached h = Some d"
  shows "hash_table_ok n (hash_of(b := None)) (cached(h := if dict_del b d = [] then None else Some (dict_del b d)))"
proof -
  have dok: "dict_ok d" "\<forall>i c. (i, c) \<in> set d \<longrightarrow> i = c \<and> c < n \<and> hash_of c = Some h"
    using ok d unfolding hash_table_ok_def by blast+
  have e: "dict_ok (dict_del b d)" "\<forall>i c. (i, c) \<in> set (dict_del b d) \<longrightarrow> i = c \<and> c < n \<and> hash_of c = Some h \<and> c \<noteq> b"
    using dok(1) by simp (use dok(2) in \<open>auto simp: AList.delete_eq\<close>)
  have keys: "c \<in> dict_keys (dict_del b d)" if "c \<noteq> b" "c \<in> dict_keys d" for c
    using that by (force simp: AList.delete_eq)
  show ?thesis unfolding hash_table_ok_def
  proof (intro conjI allI impI)
    fix g e' assume g: "(cached(h := if dict_del b d = [] then None else Some (dict_del b d))) g = Some e'"
    show "e' \<noteq> []" "dict_ok e'" using g e(1) ok by (auto simp: hash_table_ok_def split: if_splits)
    fix i c assume ic: "(i, c) \<in> set e'"
    have "i = c \<and> c < n \<and> hash_of c = Some g \<and> c \<noteq> b"
    proof (cases "g = h")
      case True
      with g e(2) ic show ?thesis by (auto split: if_splits)
    next
      case False
      with g ok ic have "i = c \<and> c < n \<and> hash_of c = Some g" by (auto simp: hash_table_ok_def)
      with False h show ?thesis by auto
    qed
    then show "i = c" "c < n" "(hash_of(b := None)) c = Some g" by auto
  next
    fix c g assume c: "c < n" "(hash_of(b := None)) c = Some g"
    then have "c \<noteq> b" "hash_of c = Some g" by (auto split: if_splits)
    with ok c(1) obtain d' where d': "cached g = Some d'" "c \<in> dict_keys d'" unfolding hash_table_ok_def by blast
    show "\<exists>e'. (cached(h := if dict_del b d = [] then None else Some (dict_del b d))) g = Some e' \<and> c \<in> dict_keys e'"
    proof (cases "g = h")
      case True
      with d' d keys [OF \<open>c \<noteq> b\<close>] have "c \<in> dict_keys (dict_del b d)" by simp
      moreover from this have "dict_del b d \<noteq> []" by auto
      ultimately show ?thesis using True by simp
    next
      case False
      with d' show ?thesis by simp
    qed
  qed
qed

lemma hash_table_insert:
  assumes ok: "hash_table_ok n hash_of cached" and b: "b < n" "hash_of b = None"
  shows "hash_table_ok n (hash_of(b \<mapsto> h)) (cached(h \<mapsto> dict_set b b (case cached h of None \<Rightarrow> [] | Some d \<Rightarrow> d)))"
proof -
  define d where "d = (case cached h of None \<Rightarrow> [] | Some d \<Rightarrow> d)"
  have "dict_ok d" "\<forall>i c. (i, c) \<in> set d \<longrightarrow> i = c \<and> c < n \<and> hash_of c = Some h"
    using ok unfolding hash_table_ok_def d_def by (cases "cached h"; simp)+
  moreover have "set (dict_set b b d) \<subseteq> insert (b, b) (set d)" by (induction d) auto
  moreover have "dict_set b b d \<noteq> []" by (cases d) auto
  ultimately have e: "dict_set b b d \<noteq> []" "dict_ok (dict_set b b d)"
    "\<forall>i c. (i, c) \<in> set (dict_set b b d) \<longrightarrow> i = c \<and> c < n \<and> (hash_of(b \<mapsto> h)) c = Some h"
    using b(1) by auto
  have keys: "c \<in> dict_keys (dict_set b b d) \<longleftrightarrow> c = b \<or> c \<in> dict_keys d" for c
    by (auto simp: dict_keys_iff)
  show ?thesis unfolding hash_table_ok_def d_def [symmetric]
  proof (intro conjI allI impI)
    fix g e' assume g: "(cached(h \<mapsto> dict_set b b d)) g = Some e'"
    show "e' \<noteq> []" "dict_ok e'" using g e(1,2) ok by (auto simp: hash_table_ok_def split: if_splits)
    fix i c assume ic: "(i, c) \<in> set e'"
    have "i = c \<and> c < n \<and> (hash_of(b \<mapsto> h)) c = Some g"
    proof (cases "g = h")
      case True
      with g e(3) ic show ?thesis by (auto split: if_splits)
    next
      case False
      with g ok ic have "i = c \<and> c < n \<and> hash_of c = Some g" by (auto simp: hash_table_ok_def)
      with b(2) show ?thesis by auto
    qed
    then show "i = c" "c < n" "(hash_of(b \<mapsto> h)) c = Some g" by auto
  next
    fix c g assume c: "c < n" "(hash_of(b \<mapsto> h)) c = Some g"
    show "\<exists>e'. (cached(h \<mapsto> dict_set b b d)) g = Some e' \<and> c \<in> dict_keys e'"
    proof (cases "c = b")
      case True
      with c(2) have "g = h" by simp
      with True keys [of b] show ?thesis by simp
    next
      case False
      with c(2) have "hash_of c = Some g" by simp
      with c(1) ok obtain d' where "cached g = Some d'" "c \<in> dict_keys d'" unfolding hash_table_ok_def by blast
      with keys [of c] show ?thesis by (cases "g = h") (auto simp: d_def)
    qed
  qed
qed

definition pool_core :: "'x KVBlockPool_scheme \<Rightarrow> nat list \<Rightarrow> bool" where
  "pool_core s l \<longleftrightarrow> queue_is s l \<and> 0 < length (q_blocks s) \<and> num_gpu_blocks s = length (q_blocks s) \<and> null_block s = 0
     \<and> (\<forall>b < length (q_blocks s). kv_block_id (blk b s) = b)
     \<and> (\<forall>b. 0 < b \<longrightarrow> b < length (q_blocks s) \<longrightarrow> 0 \<le> ref_cnt (blk b s)) \<and> hashes_ok s"

definition idle_blocks :: "'x KVBlockPool_scheme \<Rightarrow> nat set" where
  "idle_blocks s = {b. 0 < b \<and> b < length (q_blocks s) \<and> ref_cnt (blk b s) = 0}"

definition pool_is :: "'x KVBlockPool_scheme \<Rightarrow> nat list \<Rightarrow> bool" where
  "pool_is s l \<longleftrightarrow> pool_core s l \<and> set l = idle_blocks s"

text \<open>What an operation changes: \<open>d b\<close> more users of block \<open>b\<close>.\<close>

definition pool_frame :: "(nat \<Rightarrow> int) \<Rightarrow> 'x KVBlockPool_scheme \<Rightarrow> 'x KVBlockPool_scheme \<Rightarrow> bool" where
  "pool_frame d s t \<longleftrightarrow> length (q_blocks t) = length (q_blocks s) \<and> enable_caching t = enable_caching s
     \<and> KVBlockPool.more t = KVBlockPool.more s
     \<and> (\<forall>b < length (q_blocks s). ref_cnt (blk b t) = ref_cnt (blk b s) + d b)"

lemma pool_frame_refl: "pool_frame (\<lambda>b. 0) s s"
  by (simp add: pool_frame_def)

lemma pool_frame_trans: "pool_frame d s t \<Longrightarrow> pool_frame e t u \<Longrightarrow> pool_frame (\<lambda>b. d b + e b) s u"
  by (simp add: pool_frame_def)

lemma fq_frame_pool:
  assumes "fq_frame s t"
  shows "num_gpu_blocks t = num_gpu_blocks s" "enable_caching t = enable_caching s"
    "cached_block_hash_to_block t = cached_block_hash_to_block s" "null_block t = null_block s"
    "KVBlockPool.more t = KVBlockPool.more s" "length (q_blocks t) = length (q_blocks s)"
  using assms by (cases s; cases t; simp add: fq_frame_def same_blocks_def)+

lemma fq_frame_blk:
  assumes "fq_frame s t" and "b < length (q_blocks s)"
  shows "kv_block_id (blk b t) = kv_block_id (blk b s)" "ref_cnt (blk b t) = ref_cnt (blk b s)"
    "kv_block_hash (blk b t) = kv_block_hash (blk b s)"
  using assms by (simp_all add: fq_frame_def same_blocks_def)

lemma hash_table_same:
  assumes ok: "hash_table_ok n hash_of cached" and same: "\<And>b. b < n \<Longrightarrow> hash_of' b = hash_of b"
  shows "hash_table_ok n hash_of' cached"
  unfolding hash_table_ok_def
proof (intro conjI allI impI)
  fix h d assume d: "cached h = Some d"
  with ok show "d \<noteq> []" "dict_ok d" by (simp_all add: hash_table_ok_def)
  fix i b assume "(i, b) \<in> set d"
  with ok d have "i = b" "b < n" "hash_of b = Some h" unfolding hash_table_ok_def by blast+
  with same show "i = b" "b < n" "hash_of' b = Some h" by simp_all
next
  fix b h assume "b < n" "hash_of' b = Some h"
  with ok same show "\<exists>d. cached h = Some d \<and> b \<in> dict_keys d" unfolding hash_table_ok_def by metis
qed

lemma hash_table_cong:
  assumes "\<And>b. b < n \<Longrightarrow> hash_of' b = hash_of b"
  shows "hash_table_ok n hash_of' cached \<longleftrightarrow> hash_table_ok n hash_of cached"
  using hash_table_same [of n hash_of cached hash_of'] hash_table_same [of n hash_of' cached hash_of] assms by auto

lemma fq_frame_hashes_ok: "fq_frame s t \<Longrightarrow> hashes_ok t \<longleftrightarrow> hashes_ok s"
  unfolding hashes_ok_def fq_frame_pool by (rule hash_table_cong) (rule fq_frame_blk(3))

text \<open>Changing what is not a link of one block keeps the queue.\<close>

lemma linked_cong:
  assumes "length cs = length bs" and "\<And>b. prev_free_block (cs ! b) = prev_free_block (bs ! b) \<and> next_free_block (cs ! b) = next_free_block (bs ! b)"
  shows "linked cs p l n \<longleftrightarrow> linked bs p l n"
  using assms(2) by (induction l arbitrary: p) auto

lemma queue_is_mod:
  assumes "queue_is s l" and "\<And>x. prev_free_block (f x) = prev_free_block x \<and> next_free_block (f x) = next_free_block x"
    and "q_blocks t = (q_blocks s)[b := f (blk b s)]" and "free_list_head t = free_list_head s"
    and "free_list_tail t = free_list_tail s" and "num_free_blocks t = num_free_blocks s"
  shows "queue_is t l"
proof -
  have "prev_free_block (blk c t) = prev_free_block (blk c s) \<and> next_free_block (blk c t) = next_free_block (blk c s)" for c
    using assms(2,3) by (cases "c = b"; cases "b < length (q_blocks s)") (auto simp: list_update_beyond)
  moreover have "length (q_blocks t) = length (q_blocks s)" using assms(3) by simp
  ultimately show ?thesis
    using assms(1,4-6) linked_cong [of "q_blocks t" "q_blocks s"] by (simp add: queue_is_def)
qed

lemma pool_core_fq:
  assumes "pool_core s l" and "fq_frame s t" and "queue_is t l'"
  shows "pool_core t l'" and "pool_frame (\<lambda>b. 0) s t" and "idle_blocks t = idle_blocks s"
  using assms fq_frame_pool [OF assms(2)] fq_frame_blk [OF assms(2)] fq_frame_hashes_ok [OF assms(2)]
  by (auto simp: pool_core_def pool_frame_def idle_blocks_def)

lemma hashes_ok_ref:
  assumes "hashes_ok s" and "cached_block_hash_to_block t = cached_block_hash_to_block s"
    and "length (q_blocks t) = length (q_blocks s)" and "\<And>c. kv_block_hash (blk c t) = kv_block_hash (blk c s)"
  shows "hashes_ok t"
  using assms by (simp add: hashes_ok_def)

lemma add_ref_pool:
  assumes "pool_core s l" and "b < length (q_blocks s)" and "0 < b \<Longrightarrow> 0 \<le> ref_cnt (blk b s) + k"
  defines "t \<equiv> s\<lparr>q_blocks := (q_blocks s)[b := (blk b s)\<lparr>ref_cnt := ref_cnt (blk b s) + k\<rparr>]\<rparr>"
  shows "pool_core t l" and "pool_frame (\<lambda>c. if c = b then k else 0) s t"
proof -
  have at: "blk c t = (if c = b then (blk b s)\<lparr>ref_cnt := ref_cnt (blk b s) + k\<rparr> else blk c s)" for c
    using assms(2) by (simp add: t_def)
  have "queue_is t l"
    using assms(1) by (intro queue_is_mod [of s l "\<lambda>x. x\<lparr>ref_cnt := ref_cnt x + k\<rparr>" t b]) (simp_all add: pool_core_def t_def)
  moreover have "hashes_ok t"
    using assms(1) by (intro hashes_ok_ref [of s t]) (simp_all add: pool_core_def at, simp_all add: t_def)
  ultimately show "pool_core t l"
    using assms(1,3) by (auto simp: pool_core_def at) (simp_all add: t_def)
  show "pool_frame (\<lambda>c. if c = b then k else 0) s t"
    by (auto simp: pool_frame_def at) (simp_all add: t_def)
qed

lemma incr_ref_pool:
  assumes "pool_core s l" and "b < length (q_blocks s)"
  shows "\<exists>t. incr_ref b s = (Inr (), t) \<and> pool_core t l \<and> pool_frame (\<lambda>c. if c = b then 1 else 0) s t"
  using add_ref_pool [OF assms, of 1] assms by (simp add: incr_ref_def mod_blk_run pool_core_def)

lemma decr_ref_pool:
  assumes "pool_core s l" and "b < length (q_blocks s)" and "0 < b \<Longrightarrow> 1 \<le> ref_cnt (blk b s)"
  shows "\<exists>t. decr_ref b s = (Inr (), t) \<and> pool_core t l \<and> pool_frame (\<lambda>c. if c = b then - 1 else 0) s t"
  proof -
  have "0 < b \<Longrightarrow> 0 \<le> ref_cnt (blk b s) + - 1" using assms(3) by simp
  from add_ref_pool [OF assms(1,2) this] show ?thesis by (simp add: decr_ref_def mod_blk_run)
qed

text \<open>Taking a cached block out of the table.\<close>

lemma maybe_evict_pool:
  assumes "pool_core s l" and b: "b < length (q_blocks s)"
  shows "\<exists>r t. maybe_evict_cached_block b s = (Inr r, t) \<and> pool_core t l \<and> pool_frame (\<lambda>c. 0) s t
    \<and> kv_block_hash (blk b t) = None \<and> (\<forall>c. c \<noteq> b \<longrightarrow> kv_block_hash (blk c t) = kv_block_hash (blk c s))"
proof (cases "kv_block_hash (blk b s)")
  case None
  with assms pool_frame_refl show ?thesis by (auto simp: maybe_evict_cached_block_def run_simps)
next
  case (Some h)
  have ok: "hashes_ok s" and id: "kv_block_id (blk b s) = b" using assms by (simp_all add: pool_core_def)
  from ok Some b obtain d where d: "cached_block_hash_to_block s h = Some d" "b \<in> dict_keys d"
    unfolding hashes_ok_def hash_table_ok_def by blast
  let ?d = "dict_del b d"
  let ?t = "s\<lparr>q_blocks := (q_blocks s)[b := (blk b s)\<lparr>kv_block_hash := None\<rparr>],
    cached_block_hash_to_block := (cached_block_hash_to_block s)(h := if ?d = [] then None else Some ?d)\<rparr>"
  have at: "blk c ?t = (if c = b then (blk b s)\<lparr>kv_block_hash := None\<rparr> else blk c s)" for c
    using b by simp
  have run: "maybe_evict_cached_block b s = (Inr True, ?t)"
    using Some d id by (auto simp: maybe_evict_cached_block_def run_simps reset_hash_def mod_blk_run dict_keys_iff Let_def)
  have "queue_is ?t l"
    using assms(1) by (intro queue_is_mod [of s l "\<lambda>x. x\<lparr>kv_block_hash := None\<rparr>" ?t b]) (simp_all add: pool_core_def)
  moreover have "hashes_ok ?t"
  proof -
    have "(\<lambda>c. kv_block_hash (blk c ?t)) = (\<lambda>c. kv_block_hash (blk c s))(b := None)"
      using b by (simp add: fun_eq_iff)
    with hash_table_evict [OF ok [unfolded hashes_ok_def] Some d(1)] show ?thesis by (simp add: hashes_ok_def)
  qed
  ultimately have "pool_core ?t l"
    using assms(1) unfolding pool_core_def at by simp
  moreover have "pool_frame (\<lambda>c. 0) s ?t"
    unfolding pool_frame_def at by simp
  moreover have "kv_block_hash (blk b ?t) = None" by (simp add: b)
  moreover have "\<forall>c. c \<noteq> b \<longrightarrow> kv_block_hash (blk c ?t) = kv_block_hash (blk c s)" by simp
  ultimately show ?thesis using run by blast
qed

subsection \<open>The operations keep the invariant\<close>

lemma pool_frame_more: "pool_frame d s t \<Longrightarrow> length (q_blocks t) = length (q_blocks s) \<and> enable_caching t = enable_caching s
    \<and> KVBlockPool.more t = KVBlockPool.more s"
  by (simp add: pool_frame_def)

lemma pool_frame_ref: "pool_frame d s t \<Longrightarrow> b < length (q_blocks s) \<Longrightarrow> ref_cnt (blk b t) = ref_cnt (blk b s) + d b"
  by (simp add: pool_frame_def)

lemma idle_blocks_frame:
  "pool_frame d s t \<Longrightarrow> idle_blocks t = {b. 0 < b \<and> b < length (q_blocks s) \<and> ref_cnt (blk b s) + d b = 0}"
  by (auto simp: idle_blocks_def pool_frame_def)

lemma idle_blocks_add:
  assumes "pool_frame (\<lambda>c. if c = b then k else 0) s t" and "b < length (q_blocks s)"
  shows "idle_blocks t = (if 0 < b \<and> ref_cnt (blk b s) + k = 0 then insert b (idle_blocks s) else idle_blocks s - {b})"
proof -
  have "c \<in> idle_blocks t \<longleftrightarrow> (if c = b then 0 < b \<and> ref_cnt (blk b s) + k = 0 else c \<in> idle_blocks s)" for c
    unfolding idle_blocks_frame [OF assms(1)] using assms(2) by (simp add: idle_blocks_def)
  then show ?thesis by (intro set_eqI) (simp only: split: if_split, blast)
qed

lemma pool_core_queue: "pool_core s l \<Longrightarrow> queue_is s l"
  by (simp add: pool_core_def)

lemma touch_block_pool:
  assumes s: "pool_is s l" and b: "b < length (q_blocks s)"
  shows "\<exists>t l'. touch_block b s = (Inr (), t) \<and> pool_is t l' \<and> pool_frame (\<lambda>c. if c = b then 1 else 0) s t"
proof -
  have core: "pool_core s l" and l: "set l = idle_blocks s" using s by (simp_all add: pool_is_def)
  have refs: "\<forall>c. 0 < c \<longrightarrow> c < length (q_blocks s) \<longrightarrow> 0 \<le> ref_cnt (blk c s)" and null: "null_block s = 0"
    using core by (simp_all add: pool_core_def)
  show ?thesis
  proof (cases "b \<in> set l")
    case True
    with l have idle: "ref_cnt (blk b s) = 0 \<and> b \<noteq> null_block s" using null by (simp add: idle_blocks_def)
    obtain u where u: "fq_remove b s = (Inr (), u)" "queue_is u (remove1 b l)" "fq_frame s u"
      using fq_remove_item [OF pool_core_queue [OF core] True] by blast
    note c = pool_core_fq [OF core u(3,2)]
    have "b < length (q_blocks u)" using b fq_frame_pool(6) [OF u(3)] by simp
    from incr_ref_pool [OF c(1) this] obtain t where
      t: "incr_ref b u = (Inr (), t)" "pool_core t (remove1 b l)" "pool_frame (\<lambda>c. if c = b then 1 else 0) u t" by blast
    from pool_frame_trans [OF c(2) t(3)] have f: "pool_frame (\<lambda>c. if c = b then 1 else 0) s t" by simp
    have "distinct l" using pool_core_queue [OF core] by (rule kvq.distinct_items)
    then have "set (remove1 b l) = idle_blocks t"
      unfolding idle_blocks_add [OF f b] using l idle by simp
    with t(2) have "pool_is t (remove1 b l)" by (simp add: pool_is_def)
    moreover have "touch_block b s = (Inr (), t)"
      using u(1) t(1) idle by (simp add: touch_block_def run_simps)
    ultimately show ?thesis using f by blast
  next
    case False
    with l b null have busy: "\<not> (ref_cnt (blk b s) = 0 \<and> b \<noteq> null_block s)" by (auto simp: idle_blocks_def)
    from incr_ref_pool [OF core b] obtain t where
      t: "incr_ref b s = (Inr (), t)" "pool_core t l" and f: "pool_frame (\<lambda>c. if c = b then 1 else 0) s t" by blast
    have "ref_cnt (blk b s) + 1 \<noteq> 0" if "0 < b" using refs [rule_format, OF that b] by linarith
    then have "set l = idle_blocks t"
      unfolding idle_blocks_add [OF f b] using l False by auto
    with t(2) have "pool_is t l" by (simp add: pool_is_def)
    moreover have "touch_block b s = (Inr (), t)"
      unfolding touch_block_def thenM_run getM_run id_apply if_not_P [OF busy] retM_run using t(1) by simp
    ultimately show ?thesis using f by blast
  qed
qed

lemma free_kv_block_pool:
  assumes s: "pool_is s l" and b: "b < length (q_blocks s)" and ref: "0 < b \<Longrightarrow> 1 \<le> ref_cnt (blk b s)"
  shows "\<exists>t l'. free_kv_block b s = (Inr (), t) \<and> pool_is t l' \<and> pool_frame (\<lambda>c. if c = b then - 1 else 0) s t"
proof -
  have core: "pool_core s l" and l: "set l = idle_blocks s" using s by (simp_all add: pool_is_def)
  from decr_ref_pool [OF core b ref] obtain u where
    u: "decr_ref b s = (Inr (), u)" "pool_core u l" and f: "pool_frame (\<lambda>c. if c = b then - 1 else 0) s u" by blast
  have nb: "b \<notin> set l" unfolding l using ref by (cases "0 < b") (simp_all add: idle_blocks_def)
  have null: "null_block u = 0" using u(2) by (simp add: pool_core_def)
  have bu: "b < length (q_blocks u)" using b f by (simp add: pool_frame_def)
  show ?thesis
  proof (cases "ref_cnt (blk b u) = 0 \<and> b \<noteq> null_block u")
    case True
    obtain t where t: "fq_append b u = (Inr (), t)" "queue_is t (l @ [b])" "fq_frame u t"
      using fq_append_last [OF pool_core_queue [OF u(2)] bu [folded fq_valid_def] nb] by blast
    note c = pool_core_fq [OF u(2) t(3,2)]
    have "set (l @ [b]) = idle_blocks t"
      unfolding c(3) idle_blocks_add [OF f b] using l True null pool_frame_ref [OF f b] by simp
    with c(1) have "pool_is t (l @ [b])" by (simp add: pool_is_def)
    moreover have "free_kv_block b s = (Inr (), t)"
      using u(1) t(1) True by (simp add: free_kv_block_def run_simps)
    moreover have "pool_frame (\<lambda>c. if c = b then - 1 else 0) s t" using pool_frame_trans [OF f c(2)] by simp
    ultimately show ?thesis by blast
  next
    case False
    have "set l = idle_blocks u"
      unfolding idle_blocks_add [OF f b] using l False null pool_frame_ref [OF f b] nb by auto
    with u(2) have "pool_is u l" by (simp add: pool_is_def)
    moreover have "free_kv_block b s = (Inr (), u)"
      unfolding free_kv_block_def using u(1) by (simp add: thenM_run getM_run if_not_P [OF False] retM_run)
    ultimately show ?thesis using f by blast
  qed
qed

text \<open>Lists of blocks: \<open>touch\<close> and \<open>free_blocks\<close> add and take one user for each occurrence.\<close>

lemma touch_pool:
  assumes "pool_is s l" and "\<forall>b \<in> set bs. b < length (q_blocks s)"
  shows "\<exists>t l'. touch bs s = (Inr (), t) \<and> pool_is t l' \<and> pool_frame (\<lambda>c. int (count_list bs c)) s t"
  using assms
proof (induction bs arbitrary: s l)
  case Nil
  then show ?case using pool_frame_refl [of s] by (auto simp: touch_def run_simps)
next
  case (Cons b bs)
  then obtain u l1 where u: "touch_block b s = (Inr (), u)" "pool_is u l1"
    and f: "pool_frame (\<lambda>c. if c = b then 1 else 0) s u" using touch_block_pool [of s l b] by auto
  have "\<forall>b \<in> set bs. b < length (q_blocks u)" using Cons.prems(2) f by (simp add: pool_frame_def)
  with Cons.IH [OF u(2)] obtain t l2 where
    t: "touch bs u = (Inr (), t)" "pool_is t l2" and g: "pool_frame (\<lambda>c. int (count_list bs c)) u t" by blast
  have "(\<lambda>c. (if c = b then 1 else 0) + int (count_list bs c)) = (\<lambda>c. int (count_list (b # bs) c))" by (simp add: fun_eq_iff)
  with pool_frame_trans [OF f g] have "pool_frame (\<lambda>c. int (count_list (b # bs) c)) s t" by simp
  moreover have "touch (b # bs) s = (Inr (), t)" using u(1) t(1) by (simp add: touch_def thenM_run)
  ultimately show ?case using t(2) by blast
qed

lemma free_blocks_pool:
  assumes "pool_is s l" and "\<forall>b \<in> set bs. b < length (q_blocks s)"
    and "\<forall>b \<in> set bs. 0 < b \<longrightarrow> int (count_list bs b) \<le> ref_cnt (blk b s)"
  shows "\<exists>t l'. free_blocks bs s = (Inr (), t) \<and> pool_is t l' \<and> pool_frame (\<lambda>c. - int (count_list bs c)) s t"
  using assms
proof (induction bs arbitrary: s l)
  case Nil
  then show ?case using pool_frame_refl [of s] by (auto simp: free_blocks_def run_simps)
next
  case (Cons b bs)
  have b: "b < length (q_blocks s)" using Cons.prems(2) by simp
  have "1 \<le> ref_cnt (blk b s)" if "0 < b"
  proof -
    have "int (count_list (b # bs) b) \<le> ref_cnt (blk b s)" using Cons.prems(3) that by simp
    then show ?thesis by simp
  qed
  from free_kv_block_pool [OF Cons.prems(1) b this] obtain u l1 where u: "free_kv_block b s = (Inr (), u)" "pool_is u l1"
    and f: "pool_frame (\<lambda>c. if c = b then - 1 else 0) s u" by blast
  have len: "\<forall>b \<in> set bs. b < length (q_blocks u)" using Cons.prems(2) f by (simp add: pool_frame_def)
  have "\<forall>c \<in> set bs. 0 < c \<longrightarrow> int (count_list bs c) \<le> ref_cnt (blk c u)"
  proof (intro ballI impI)
    fix c assume c: "c \<in> set bs" "0 < c"
    have "int (count_list (b # bs) c) \<le> ref_cnt (blk c s)" using Cons.prems(3) c by simp
    moreover have "ref_cnt (blk c u) = ref_cnt (blk c s) + (if c = b then - 1 else 0)"
      using pool_frame_ref [OF f] Cons.prems(2) c(1) by simp
    ultimately show "int (count_list bs c) \<le> ref_cnt (blk c u)" by (simp split: if_splits)
  qed
  with Cons.IH [OF u(2) len] obtain t l2 where
    t: "free_blocks bs u = (Inr (), t)" "pool_is t l2" and g: "pool_frame (\<lambda>c. - int (count_list bs c)) u t" by blast
  have "(\<lambda>c. (if c = b then - 1 else 0) + - int (count_list bs c)) = (\<lambda>c. - int (count_list (b # bs) c))" by (simp add: fun_eq_iff)
  with pool_frame_trans [OF f g] have "pool_frame (\<lambda>c. - int (count_list (b # bs) c)) s t" by simp
  moreover have "free_blocks (b # bs) s = (Inr (), t)" using u(1) t(1) by (simp add: free_blocks_def thenM_run)
  ultimately show ?case using t(2) by blast
qed

text \<open>A new block is the first of the queue; it gets its first user and loses its hash.\<close>

lemma get_new_block_pool:
  assumes s: "pool_is s (b # l)"
  shows "\<exists>t. get_new_block s = (Inr b, t) \<and> pool_is t l \<and> pool_frame (\<lambda>c. if c = b then 1 else 0) s t \<and>
    (enable_caching s \<longrightarrow> kv_block_hash (blk b t) = None) \<and>
    (\<forall>c < length (q_blocks s). c \<noteq> b \<longrightarrow> kv_block_hash (blk c t) = kv_block_hash (blk c s))"
proof -
  have core: "pool_core s (b # l)" and l: "set (b # l) = idle_blocks s" using s by (simp_all add: pool_is_def)
  have "b \<in> idle_blocks s" using l by auto
  then have b: "0 < b" "b < length (q_blocks s)" "ref_cnt (blk b s) = 0" by (simp_all add: idle_blocks_def)
  obtain u where u: "popleft s = (Inr b, u)" "queue_is u l" "fq_frame s u"
    using popleft_first [OF pool_core_queue [OF core]] by blast
  note c = pool_core_fq [OF core u(3,2)]
  have bu: "b < length (q_blocks u)" "ref_cnt (blk b u) = 0" "enable_caching u = enable_caching s"
    using b c(2) pool_frame_ref [OF c(2) b(2)] by (simp_all add: pool_frame_def)
  let ?evict = "getM enable_caching (\<lambda>c. if c then bindM (maybe_evict_cached_block b) (\<lambda>_. retM ()) else retM ())"
  obtain v where v: "?evict u = (Inr (), v)" "pool_core v l" "pool_frame (\<lambda>c. 0) u v"
    "enable_caching s \<longrightarrow> kv_block_hash (blk b v) = None" "\<forall>c. c \<noteq> b \<longrightarrow> kv_block_hash (blk c v) = kv_block_hash (blk c u)"
  proof (cases "enable_caching s")
    case True
    obtain r v where "maybe_evict_cached_block b u = (Inr r, v)" "pool_core v l" "pool_frame (\<lambda>c. 0) u v"
      "kv_block_hash (blk b v) = None" "\<forall>c. c \<noteq> b \<longrightarrow> kv_block_hash (blk c v) = kv_block_hash (blk c u)"
      using maybe_evict_pool [OF c(1) bu(1)] by blast
    with True bu(3) show thesis by (intro that [of v]) (simp_all add: run_simps)
  next
    case False
    with bu(3) c(1) pool_frame_refl show thesis by (intro that [of u]) (simp_all add: run_simps)
  qed
  have bv: "b < length (q_blocks v)" using bu(1) v(3) by (simp add: pool_frame_def)
  from incr_ref_pool [OF v(2) this] obtain t where
    t: "incr_ref b v = (Inr (), t)" "pool_core t l" "pool_frame (\<lambda>c. if c = b then 1 else 0) v t" by blast
  from pool_frame_trans [OF pool_frame_trans [OF c(2) v(3)] t(3)]
  have f: "pool_frame (\<lambda>c. if c = b then 1 else 0) s t" by simp
  have "distinct (b # l)" using pool_core_queue [OF core] by (rule kvq.distinct_items)
  then have "set l = idle_blocks t"
    unfolding idle_blocks_add [OF f b(2)] l [symmetric] using b(3) by auto
  with t(2) have "pool_is t l" by (simp add: pool_is_def)
  moreover have "get_new_block s = (Inr b, t)"
  proof -
    have a: "getM (blk b) (\<lambda>x. assertM (ref_cnt x = 0)) u = (Inr (), u)" using bu(2) by (simp add: run_simps)
    have e: "thenM (incr_ref b) (retM b) v = (Inr b, t)" using t(1) by (simp add: run_simps)
    show ?thesis unfolding get_new_block_def
      by (rule bindM_goes, rule u(1), rule thenM_goes, rule a, rule thenM_goes, rule v(1), rule e)
  qed
  moreover have "kv_block_hash (blk b t) = None" if "enable_caching s"
    using v(4) that t(1) bv by (auto simp: incr_ref_def mod_blk_run)
  moreover have "kv_block_hash (blk c t) = kv_block_hash (blk c s)" if "c < length (q_blocks s)" "c \<noteq> b" for c
    using v(5) that t(1) fq_frame_blk(3) [OF u(3) that(1)] by (auto simp: incr_ref_def mod_blk_run)
  ultimately show ?thesis using f by blast
qed

lemma get_new_blocks_loop:
  assumes "pool_is s l" and "k \<le> length l"
  shows "\<exists>t. mapM [0..<k] (\<lambda>_. get_new_block) s = (Inr (take k l), t) \<and> pool_is t (drop k l)
    \<and> pool_frame (\<lambda>c. int (count_list (take k l) c)) s t
    \<and> (enable_caching s \<longrightarrow> (\<forall>b \<in> set (take k l). kv_block_hash (blk b t) = None))
    \<and> (\<forall>c < length (q_blocks s). c \<notin> set (take k l) \<longrightarrow> kv_block_hash (blk c t) = kv_block_hash (blk c s))"
  using assms
proof (induction k arbitrary: s l)
  case 0
  with pool_frame_refl [of s] show ?case by (auto simp: run_simps)
next
  case (Suc k)
  then obtain b l' where l: "l = b # l'" and k: "k \<le> length l'" by (cases l) auto
  from get_new_block_pool [of s b l'] Suc.prems(1) l obtain u where
    u: "get_new_block s = (Inr b, u)" "pool_is u l'" and f: "pool_frame (\<lambda>c. if c = b then 1 else 0) s u"
    and h: "enable_caching s \<longrightarrow> kv_block_hash (blk b u) = None"
      "\<forall>c < length (q_blocks s). c \<noteq> b \<longrightarrow> kv_block_hash (blk c u) = kv_block_hash (blk c s)" by auto
  from Suc.IH [OF u(2) k] obtain t where
    t: "mapM [0..<k] (\<lambda>_. get_new_block) u = (Inr (take k l'), t)" "pool_is t (drop k l')"
    and g: "pool_frame (\<lambda>c. int (count_list (take k l') c)) u t"
    and i: "enable_caching u \<longrightarrow> (\<forall>b \<in> set (take k l'). kv_block_hash (blk b t) = None)"
      "\<forall>c < length (q_blocks u). c \<notin> set (take k l') \<longrightarrow> kv_block_hash (blk c t) = kv_block_hash (blk c u)" by blast
  have core: "pool_core s l" using Suc.prems(1) by (simp add: pool_is_def)
  have "b \<in> set l" using l by simp
  then have b: "b < length (q_blocks s)" using core by (simp add: pool_core_def queue_is_def)
  have "distinct l" using pool_core_queue [OF core] by (rule kvq.distinct_items)
  then have nb: "b \<notin> set (take k l')" using l by (auto dest: in_set_takeD)
  note m = pool_frame_more [OF f]
  have "mapM [0..<Suc k] (\<lambda>_. get_new_block) s = (Inr (take (Suc k) l), t)"
    unfolding mapM_const_Suc by (rule bindM_goes, rule u(1), rule bindM_goes, rule t(1)) (simp add: l retM_run)
  moreover have "pool_is t (drop (Suc k) l)" using t(2) l by simp
  moreover have "pool_frame (\<lambda>c. int (count_list (take (Suc k) l) c)) s t"
  proof -
    have "(\<lambda>c. (if c = b then 1 else 0) + int (count_list (take k l') c)) = (\<lambda>c. int (count_list (take (Suc k) l) c))"
      by (simp add: fun_eq_iff l)
    with pool_frame_trans [OF f g] show ?thesis by simp
  qed
  moreover have "kv_block_hash (blk c t) = None" if "enable_caching s" "c \<in> set (take (Suc k) l)" for c
    using that l h(1) i m b nb by (cases "c = b") auto
  moreover have "kv_block_hash (blk c t) = kv_block_hash (blk c s)"
    if "c < length (q_blocks s)" "c \<notin> set (take (Suc k) l)" for c
    using that l h(2) i(2) m by auto
  ultimately show ?case by blast
qed

lemma get_new_blocks_pool:
  assumes s: "pool_is s l" and n: "n \<le> int (length l)"
  shows "\<exists>t. get_new_blocks n s = (Inr (take (nat n) l), t) \<and> pool_is t (drop (nat n) l)
    \<and> pool_frame (\<lambda>c. int (count_list (take (nat n) l) c)) s t
    \<and> (enable_caching s \<longrightarrow> (\<forall>b \<in> set (take (nat n) l). kv_block_hash (blk b t) = None))
    \<and> (\<forall>c < length (q_blocks s). c \<notin> set (take (nat n) l) \<longrightarrow> kv_block_hash (blk c t) = kv_block_hash (blk c s))"
proof -
  have "get_num_free_blocks s = int (length l)"
    using s by (simp add: get_num_free_blocks_def pool_is_def pool_core_def queue_is_def)
  with n have g: "getM get_num_free_blocks (\<lambda>free. guardM (free < n) ValueError) s = (Inr (), s)" by (simp add: run_simps)
  have "nat n \<le> length l" using n by simp
  moreover have "get_new_blocks n s = mapM [0..<nat n] (\<lambda>_. get_new_block) s"
    unfolding get_new_blocks_def by (rule thenM_goes, rule g, rule refl)
  ultimately show ?thesis using get_new_blocks_loop [OF s, of "nat n"] by simp
qed

subsection \<open>Caching full blocks\<close>

lemma cache_block_pool:
  assumes s: "pool_is s l" and b: "b < length (q_blocks s)" and u: "kv_block_hash (blk b s) = None"
  shows "\<exists>t. thenM (set_block_hash b h) (cache_block h b) s = (Inr (), t) \<and> pool_is t l \<and> pool_frame (\<lambda>c. 0) s t
    \<and> kv_block_hash (blk b t) = Some h \<and> (\<forall>c. c \<noteq> b \<longrightarrow> kv_block_hash (blk c t) = kv_block_hash (blk c s))"
proof -
  have core: "pool_core s l" and l: "set l = idle_blocks s" using s by (simp_all add: pool_is_def)
  have ok: "hashes_ok s" and id: "kv_block_id (blk b s) = b" using core b by (simp_all add: pool_core_def)
  let ?d = "dict_set b b (case cached_block_hash_to_block s h of None \<Rightarrow> [] | Some d \<Rightarrow> d)"
  let ?t = "s\<lparr>q_blocks := (q_blocks s)[b := (blk b s)\<lparr>kv_block_hash := Some h\<rparr>],
    cached_block_hash_to_block := (cached_block_hash_to_block s)(h \<mapsto> ?d)\<rparr>"
  have at: "blk c ?t = (if c = b then (blk b s)\<lparr>kv_block_hash := Some h\<rparr> else blk c s)" for c using b by simp
  have "thenM (set_block_hash b h) (cache_block h b) s = (Inr (), ?t)"
    using u id b by (simp add: set_block_hash_def cache_block_def run_simps)
  moreover have "queue_is ?t l"
    using core by (intro queue_is_mod [of s l "\<lambda>x. x\<lparr>kv_block_hash := Some h\<rparr>" ?t b]) (simp_all add: pool_core_def)
  moreover have "hashes_ok ?t"
  proof -
    have "(\<lambda>c. kv_block_hash (blk c ?t)) = (\<lambda>c. kv_block_hash (blk c s))(b \<mapsto> h)" using b by (simp add: fun_eq_iff)
    with hash_table_insert [OF ok [unfolded hashes_ok_def] b u, of h] show ?thesis by (simp add: hashes_ok_def)
  qed
  moreover have f: "pool_frame (\<lambda>c. 0) s ?t" unfolding pool_frame_def at by simp
  ultimately have t: "thenM (set_block_hash b h) (cache_block h b) s = (Inr (), ?t)" "pool_core ?t l"
    using core unfolding pool_core_def at by simp_all
  have "idle_blocks ?t = idle_blocks s" unfolding idle_blocks_frame [OF f] by (simp add: idle_blocks_def)
  with t(2) l have "pool_is ?t l" by (simp add: pool_is_def)
  moreover have "kv_block_hash (blk b ?t) = Some h" using b by simp
  moreover have "\<forall>c. c \<noteq> b \<longrightarrow> kv_block_hash (blk c ?t) = kv_block_hash (blk c s)" by simp
  ultimately show ?thesis using t(1) f by blast
qed

text \<open>
  The caller's \<open>push\<close> writes its own fields only: the pool it leaves is the one it found. Everything
  \<open>pool_is\<close> says is about those fields.
\<close>

definition same_pool :: "'x KVBlockPool_scheme \<Rightarrow> 'x KVBlockPool_scheme \<Rightarrow> bool" where
  "same_pool s t \<longleftrightarrow> KVBlockPool.truncate t = KVBlockPool.truncate s"

lemma same_pool_fields:
  assumes "same_pool s t"
  shows "q_blocks t = q_blocks s" "free_list_head t = free_list_head s" "free_list_tail t = free_list_tail s"
    "num_free_blocks t = num_free_blocks s" "num_gpu_blocks t = num_gpu_blocks s" "enable_caching t = enable_caching s"
    "cached_block_hash_to_block t = cached_block_hash_to_block s" "null_block t = null_block s"
  using assms by (cases s; cases t; simp add: same_pool_def KVBlockPool.truncate_def)+

lemma same_pool_is: "same_pool s t \<Longrightarrow> pool_is t l \<longleftrightarrow> pool_is s l"
  using same_pool_fields [of s t]
  by (simp add: pool_is_def pool_core_def queue_is_def hashes_ok_def idle_blocks_def)

definition pushes :: "(BlockHashType \<Rightarrow> ('x, unit) kp) \<Rightarrow> bool" where
  "pushes push \<longleftrightarrow> (\<forall>h s r t. push h s = (r, t) \<longrightarrow> same_pool s t)"

text \<open>\<open>cached_frame s t\<close>: users and caching as before; other fields may have been pushed to.\<close>

definition cached_frame :: "'x KVBlockPool_scheme \<Rightarrow> 'x KVBlockPool_scheme \<Rightarrow> bool" where
  "cached_frame s t \<longleftrightarrow> length (q_blocks t) = length (q_blocks s) \<and> enable_caching t = enable_caching s
     \<and> (\<forall>b < length (q_blocks s). ref_cnt (blk b t) = ref_cnt (blk b s))"

lemma cached_frame_refl: "cached_frame s s"
  by (simp add: cached_frame_def)

lemma cached_frame_trans: "cached_frame s t \<Longrightarrow> cached_frame t u \<Longrightarrow> cached_frame s u"
  by (simp add: cached_frame_def)

lemma full_block_hash_pool:
  assumes "full_block_hash F nh r bsize hs push nc i prev s = (Inr h, t)" and "pushes push"
  shows "same_pool s t"
proof -
  have "same_pool s s" for s :: "'a KVBlockPool_scheme" by (simp add: same_pool_def)
  with assms show ?thesis
    by (auto simp: full_block_hash_def Let_def ok_simps pushes_def split: if_splits prod.splits)
qed

lemma cache_blocks_loop_pool:
  assumes "cache_blocks_loop F nh r bsize hs push nc bs i prev s = (Inr (), t)" and "pushes push"
    and "pool_is s l" and "\<forall>b \<in> set bs. b < length (q_blocks s)"
  shows "pool_is t l \<and> cached_frame s t"
  using assms
proof (induction bs arbitrary: i prev s)
  case Nil
  then show ?case by (simp add: ok_simps cached_frame_refl)
next
  case (Cons b bs)
  from Cons.prems(1) obtain h u v where u: "kv_block_hash (blk b s) = None"
      "full_block_hash F nh r bsize hs push nc i prev s = (Inr h, u)"
    and v: "thenM (set_block_hash b h) (cache_block h b) u = (Inr (), v)"
    and t: "cache_blocks_loop F nh r bsize hs push nc bs (Suc i) (Some (hash_value h)) v = (Inr (), t)"
    by (auto simp: ok_simps)
  have same: "same_pool s u" by (rule full_block_hash_pool [OF u(2) Cons.prems(2)])
  note fields = same_pool_fields [OF same]
  have b: "b < length (q_blocks u)" "kv_block_hash (blk b u) = None" "pool_is u l"
    using Cons.prems(3,4) u(1) same_pool_is [OF same] by (simp_all add: fields)
  from cache_block_pool [OF b(3,1,2), of h] v have w: "pool_is v l" "pool_frame (\<lambda>c. 0) u v" by auto
  then have len: "length (q_blocks v) = length (q_blocks s)" by (simp add: pool_frame_def fields)
  have "pool_is t l \<and> cached_frame v t"
    using Cons.prems(4) by (intro Cons.IH [OF t Cons.prems(2) w(1)]) (simp add: len)
  moreover have "cached_frame s v" using w(2) by (simp add: cached_frame_def pool_frame_def fields)
  ultimately show ?case using cached_frame_trans by blast
qed

lemma set_py_slice: "set (py_slice a b xs) \<subseteq> set xs"
  by (auto simp: py_slice_def Let_def dest: in_set_dropD in_set_takeD)

lemma cache_full_blocks_pool:
  assumes "cache_full_blocks F nh r bs hs push nc nf bsize s = (Inr (), t)" and "pushes push"
    and "pool_is s l" and "\<forall>b \<in> set bs. b < length (q_blocks s)"
  shows "pool_is t l \<and> cached_frame s t"
proof (cases "nc = nf")
  case True
  with assms show ?thesis by (simp add: cache_full_blocks_def ok_simps cached_frame_refl)
next
  case False
  with assms(1) obtain hs' prev where
    "cache_blocks_loop F nh r bsize hs' push nc (py_slice nc nf bs) 0 prev s = (Inr (), t)"
    by (auto simp: cache_full_blocks_def ok_simps split: if_splits)
  from cache_blocks_loop_pool [OF this assms(2,3)] assms(4) set_py_slice show ?thesis by fast
qed

subsection \<open>Building and resetting the pool\<close>

definition unhash :: "nat list \<Rightarrow> KVCacheBlock list \<Rightarrow> KVCacheBlock list" where
  "unhash bs = fold (\<lambda>b q. q[b := (q ! b)\<lparr>kv_block_hash := None\<rparr>]) bs"

lemma reset_all_run: "forM bs reset_hash s = (Inr (), s\<lparr>q_blocks := unhash bs (q_blocks s)\<rparr>)"
  by (induction bs arbitrary: s) (simp_all add: unhash_def run_simps reset_hash_def)

lemma unhash_nth:
  assumes "\<forall>b \<in> set bs. b < length q"
  shows "length (unhash bs q) = length q \<and>
    unhash bs q ! c = (if c \<in> set bs then (q ! c)\<lparr>kv_block_hash := None\<rparr> else q ! c)"
  using assms
proof (induction bs arbitrary: q)
  case (Cons b bs)
  have "unhash (b # bs) q = unhash bs (q[b := (q ! b)\<lparr>kv_block_hash := None\<rparr>])" by (simp add: unhash_def)
  with Cons.IH [of "q[b := (q ! b)\<lparr>kv_block_hash := None\<rparr>]"] Cons.prems show ?case by (cases "c = b") simp_all
qed (simp add: unhash_def)

lemma unhash_all:
  "length (unhash [0..<length q] q) = length q" "c < length q \<Longrightarrow> unhash [0..<length q] q ! c = (q ! c)\<lparr>kv_block_hash := None\<rparr>"
  using unhash_nth [of "[0..<length q]" q c] by simp_all

lemma queue_is_blocks:
  assumes "queue_is s l" and "length (q_blocks t) = length (q_blocks s)"
    and "\<And>b. b < length (q_blocks s) \<Longrightarrow> prev_free_block (blk b t) = prev_free_block (blk b s) \<and> next_free_block (blk b t) = next_free_block (blk b s)"
    and "free_list_head t = free_list_head s" and "free_list_tail t = free_list_tail s" and "num_free_blocks t = num_free_blocks s"
  shows "queue_is t l"
proof -
  have "linked (q_blocks t) p l n" if "linked (q_blocks s) p l n" "\<forall>b \<in> set l. b < length (q_blocks s)" for p l n
    using that assms(3) by (induction l arbitrary: p) auto
  with assms show ?thesis by (simp add: queue_is_def)
qed

lemma pool_reset_pool:
  assumes s: "pool_is s l" and r: "pool_reset_prefix_cache s = (Inr r, t)"
  shows "pool_is t l \<and> cached_frame s t \<and> KVBlockPool.more t = KVBlockPool.more s \<and>
    (r \<longleftrightarrow> idle_blocks s = {0<..<length (q_blocks s)}) \<and>
    (r \<longrightarrow> cached_block_hash_to_block t = (\<lambda>h. None))"
proof -
  have core: "pool_core s l" and l: "set l = idle_blocks s" using s by (simp_all add: pool_is_def)
  let ?n = "length (q_blocks s)"
  have n: "num_gpu_blocks s = ?n" "0 < ?n" using core by (simp_all add: pool_core_def)
  have "distinct l" "num_free_blocks s = int (length l)" using pool_core_queue [OF core] by (simp_all add: queue_is_def)
  then have free: "get_num_free_blocks s = int (card (idle_blocks s))" by (simp add: get_num_free_blocks_def l [symmetric] distinct_card)
  have sub: "idle_blocks s \<subseteq> {0<..<?n}" by (auto simp: idle_blocks_def)
  have all: "int (num_gpu_blocks s) - get_num_free_blocks s = 1 \<longleftrightarrow> idle_blocks s = {0<..<?n}"
  proof
    assume "int (num_gpu_blocks s) - get_num_free_blocks s = 1"
    then have "card (idle_blocks s) = card {0<..<?n}" using n free by simp
    then show "idle_blocks s = {0<..<?n}" using sub by (simp add: card_subset_eq)
  next
    assume "idle_blocks s = {0<..<?n}"
    then show "int (num_gpu_blocks s) - get_num_free_blocks s = 1" using n free by (cases "q_blocks s") auto
  qed
  show ?thesis
  proof (cases "idle_blocks s = {0<..<?n}")
    case False
    with all r have "t = s" "\<not> r" by (simp_all add: pool_reset_prefix_cache_def run_simps)
    with s False show ?thesis by (simp add: cached_frame_refl)
  next
    case True
    let ?t = "s\<lparr>cached_block_hash_to_block := (\<lambda>h. None), q_blocks := unhash [0..<?n] (q_blocks s)\<rparr>"
    have t: "t = ?t" "r" using all True r by (simp_all add: pool_reset_prefix_cache_def run_simps reset_all_run)
    have at: "blk c ?t = (blk c s)\<lparr>kv_block_hash := None\<rparr>" if "c < ?n" for c using unhash_all that by simp
    have len: "length (q_blocks ?t) = ?n" using unhash_all by simp
    have "queue_is ?t l" using pool_core_queue [OF core] at len by (intro queue_is_blocks [of s l ?t]) simp_all
    moreover have "hashes_ok ?t" unfolding hashes_ok_def hash_table_ok_def len using at by simp
    ultimately have "pool_core ?t l" using core unfolding pool_core_def len using at by simp
    moreover have "idle_blocks ?t = idle_blocks s" unfolding idle_blocks_def len using at by auto
    ultimately have "pool_is ?t l" using l by (simp add: pool_is_def)
    moreover have "cached_frame s ?t" unfolding cached_frame_def len using at by simp
    ultimately show ?thesis using t True by simp
  qed
qed

lemma pool_init_pool:
  assumes "0 < n"
  shows "\<exists>t. pool_init n caching s = (Inr (), t) \<and> pool_is t [1..<n] \<and> length (q_blocks t) = n \<and>
    enable_caching t = caching \<and> KVBlockPool.more t = KVBlockPool.more s \<and> (\<forall>b < n. ref_cnt (blk b t) = 0)"
proof -
  let ?a = "s\<lparr>num_gpu_blocks := n, enable_caching := caching, q_blocks := map new_kv_block [0..<n]\<rparr>"
  have fresh: "\<forall>i < n. prev_free_block (blk i ?a) = None \<and> next_free_block (blk i ?a) = None" by (simp add: new_kv_block_def)
  obtain u where u: "fq_init ?a = (Inr (), u)" "queue_is u [0..<n]" "fq_frame ?a u"
    using fq_init_queue [of ?a n] fresh assms by auto
  let ?v = "u\<lparr>cached_block_hash_to_block := (\<lambda>h. None)\<rparr>"
  have "queue_is ?v (0 # [1..<n])" using u(2) assms by (simp add: queue_is_def upt_conv_Cons [symmetric])
  then obtain w where w: "popleft ?v = (Inr 0, w)" "queue_is w [1..<n]" "fq_frame ?v w" using popleft_first by blast
  let ?t = "w\<lparr>null_block := 0\<rparr>"
  have run: "pool_init n caching s = (Inr (), ?t)"
    using assms u(1) w(1) by (simp add: pool_init_def run_simps)
  note f = fq_frame_pool [OF u(3)] fq_frame_pool [OF w(3)]
  have len: "length (q_blocks ?t) = n" using f by simp
  have at: "kv_block_id (blk b ?t) = b \<and> ref_cnt (blk b ?t) = 0 \<and> kv_block_hash (blk b ?t) = None" if "b < n" for b
  proof -
    have "b < length (q_blocks ?a)" "b < length (q_blocks ?v)" using that f by simp_all
    from fq_frame_blk [OF u(3) this(1)] fq_frame_blk [OF w(3) this(2)] that show ?thesis by (simp add: new_kv_block_def)
  qed
  have "hashes_ok ?t" unfolding hashes_ok_def hash_table_ok_def len using at f by simp
  moreover have "queue_is ?t [1..<n]" using w(2) by (simp add: queue_is_def)
  ultimately have "pool_core ?t [1..<n]" using assms f at unfolding pool_core_def len by simp
  moreover have "idle_blocks ?t = {1..<n}" unfolding idle_blocks_def len using at by auto
  ultimately have "pool_is ?t [1..<n]" by (simp add: pool_is_def)
  then show ?thesis using run len at f by auto
qed

end
