(* ===== verification/KVCacheManager.thy ===== *)
theory KVCacheManager
  imports KVBlockPool
begin

section \<open>The manager of the KV cache (\<open>vllm/v1/core/kv_cache_manager.py\<close>, \<open>specialized_manager.py\<close>)\<close>

text \<open>
  \<open>KVCacheManager\<close> keeps, for each request, the blocks it uses and the hashes of its full blocks, and
  draws on the pool. The list of a request's blocks is the one \<open>req_to_blocks\<close> holds, so what the code
  does to it in place is written back to the dictionary.
\<close>

record AttentionSpec =
  spec_block_size :: nat
  num_kv_heads :: nat
  head_size :: nat
  spec_dtype :: string
  use_mla :: bool

datatype KVCacheSpec = FullAttentionSpec AttentionSpec | SlidingWindowSpec AttentionSpec int

fun attention_spec :: "KVCacheSpec \<Rightarrow> AttentionSpec" where
  "attention_spec (FullAttentionSpec a) = a"
| "attention_spec (SlidingWindowSpec a w) = a"

record PrefixCacheStats =
  stat_reset :: bool
  stat_requests :: int
  stat_queries :: int
  stat_hits :: int

definition new_prefix_cache_stats :: PrefixCacheStats where
  "new_prefix_cache_stats = \<lparr>stat_reset = False, stat_requests = 0, stat_queries = 0, stat_hits = 0\<rparr>"

record KVCacheManager = KVBlockPool +
  m_block_size :: nat
  m_spec :: KVCacheSpec
  max_num_blocks_per_req :: int
  num_preallocate_blocks :: int
  req_to_blocks :: "(string, nat list) dict"
  req_to_block_hashes :: "(string, BlockHashType list) dict"
  num_cached_block :: "string \<Rightarrow> int option"
  prefix_cache_stats :: PrefixCacheStats

type_synonym 'a km = "(KVCacheManager, 'a) st"

definition manager_init :: "KVCacheSpec list \<Rightarrow> nat \<Rightarrow> int \<Rightarrow> bool \<Rightarrow> int \<Rightarrow> unit km" where
  "manager_init groups num_blocks max_model_len caching num_preallocate_tokens =
     thenM (assertM (length groups = 1))
    (let spec = hd groups; bsize = spec_block_size (attention_spec spec) in
     thenM (modM (\<lambda>s. s\<lparr>m_block_size := bsize, m_spec := spec,
       max_num_blocks_per_req := cdiv max_model_len (int bsize),
       num_preallocate_blocks := cdiv num_preallocate_tokens (int bsize)\<rparr>))
    (thenM (pool_init num_blocks caching)
           (modM (\<lambda>s. s\<lparr>req_to_blocks := [], req_to_block_hashes := [], num_cached_block := (\<lambda>r. None),
              prefix_cache_stats := new_prefix_cache_stats\<rparr>))))"

definition km_usage :: "KVCacheManager \<Rightarrow> rat" where
  "km_usage s = get_usage s"

definition make_prefix_cache_stats :: "PrefixCacheStats km" where
  "make_prefix_cache_stats = getM prefix_cache_stats (\<lambda>st.
     thenM (modM (\<lambda>s. s\<lparr>prefix_cache_stats := new_prefix_cache_stats\<rparr>)) (retM st))"

subsection \<open>Full and sliding-window attention\<close>

fun full_longest_cache_hit :: "BlockHashType list \<Rightarrow> ('x, nat list) kp" where
  "full_longest_cache_hit [] = retM []"
| "full_longest_cache_hit (h # hs) = bindM (get_cached_block h) (\<lambda>c. case c of
     None \<Rightarrow> retM []
   | Some b \<Rightarrow> bindM (full_longest_cache_hit hs) (\<lambda>bs. retM (b # bs)))"

text \<open>The loop over the indices below the third argument, from right to left.\<close>

fun sliding_hit_loop :: "BlockHashType list \<Rightarrow> int \<Rightarrow> nat \<Rightarrow> nat list \<Rightarrow> nat \<Rightarrow> ('x, nat list) kp" where
  "sliding_hit_loop hs needed 0 computed n = retM (take n computed)"
| "sliding_hit_loop hs needed (Suc i) computed n = bindM (get_cached_block (hs ! i)) (\<lambda>c. case c of
     Some b \<Rightarrow>
       if needed \<le> int (Suc n) then retM (take (i + Suc n) (computed[i := b]))
       else sliding_hit_loop hs needed i (computed[i := b]) (Suc n)
   | None \<Rightarrow> sliding_hit_loop hs needed i computed 0)"

definition sliding_longest_cache_hit :: "nat \<Rightarrow> int \<Rightarrow> BlockHashType list \<Rightarrow> ('x, nat list) kp" where
  "sliding_longest_cache_hit bsize window hs = getM null_block (\<lambda>null.
     sliding_hit_loop hs (cdiv (window - 1) (int bsize)) (length hs) (replicate (length hs) null) 0)"

definition find_longest_cache_hit :: "KVCacheSpec \<Rightarrow> BlockHashType list \<Rightarrow> ('x, nat list) kp" where
  "find_longest_cache_hit spec hs = (case spec of
     FullAttentionSpec a \<Rightarrow> full_longest_cache_hit hs
   | SlidingWindowSpec a w \<Rightarrow> sliding_longest_cache_hit (spec_block_size a) w hs)"

fun remove_skipped_loop :: "nat \<Rightarrow> nat \<Rightarrow> nat list \<Rightarrow> exn + nat list \<times> nat list" where
  "remove_skipped_loop null 0 bs = Inr ([], bs)"
| "remove_skipped_loop null (Suc i) bs =
     (if length bs \<le> i then Inl IndexError
      else if bs ! i = null then Inr ([], bs)
      else (case remove_skipped_loop null i (bs[i := null]) of Inl e \<Rightarrow> Inl e
        | Inr (removed, bs') \<Rightarrow> Inr (bs ! i # removed, bs')))"

text \<open>The removed blocks, and the list with the null block in their place.\<close>

definition remove_skipped_blocks :: "KVCacheSpec \<Rightarrow> nat \<Rightarrow> nat list \<Rightarrow> int \<Rightarrow> exn + nat list \<times> nat list" where
  "remove_skipped_blocks spec null bs num_computed = (case spec of
     FullAttentionSpec a \<Rightarrow> Inr ([], bs)
   | SlidingWindowSpec a w \<Rightarrow>
       let last_useful_token = num_computed - w + 1;
           last_useful_block = last_useful_token div int (spec_block_size a) in
       remove_skipped_loop null (nat last_useful_block) bs)"

subsection \<open>The manager's operations\<close>

text \<open>\<open>d[key]\<close> on a default dictionary of lists.\<close>

definition get_req_blocks :: "string \<Rightarrow> nat list km" where
  "get_req_blocks rid =
     thenM (modM (\<lambda>s. if dict_get (req_to_blocks s) rid = None then s\<lparr>req_to_blocks := dict_set rid [] (req_to_blocks s)\<rparr> else s))
           (getM req_to_blocks (\<lambda>d. fromM KeyError (dict_get d rid)))"

definition set_req_blocks :: "string \<Rightarrow> nat list \<Rightarrow> unit km" where
  "set_req_blocks rid bs = modM (\<lambda>s. s\<lparr>req_to_blocks := dict_set rid bs (req_to_blocks s)\<rparr>)"

definition get_req_hashes :: "string \<Rightarrow> BlockHashType list km" where
  "get_req_hashes rid =
     thenM (modM (\<lambda>s. if dict_get (req_to_block_hashes s) rid = None then s\<lparr>req_to_block_hashes := dict_set rid [] (req_to_block_hashes s)\<rparr> else s))
           (getM req_to_block_hashes (\<lambda>d. fromM KeyError (dict_get d rid)))"

definition set_req_hashes :: "string \<Rightarrow> BlockHashType list \<Rightarrow> unit km" where
  "set_req_hashes rid hs = modM (\<lambda>s. s\<lparr>req_to_block_hashes := dict_set rid hs (req_to_block_hashes s)\<rparr>)"

definition push_req_hash :: "string \<Rightarrow> BlockHashType \<Rightarrow> unit km" where
  "push_req_hash rid h = modM (\<lambda>s. s\<lparr>req_to_block_hashes := dict_set rid
     ((case dict_get (req_to_block_hashes s) rid of None \<Rightarrow> [] | Some hs \<Rightarrow> hs) @ [h]) (req_to_block_hashes s)\<rparr>)"

definition add_stats :: "int \<Rightarrow> int \<Rightarrow> int \<Rightarrow> unit km" where
  "add_stats requests queries hits = modM (\<lambda>s. s\<lparr>prefix_cache_stats := (prefix_cache_stats s)\<lparr>
     stat_requests := stat_requests (prefix_cache_stats s) + requests,
     stat_queries := stat_queries (prefix_cache_stats s) + queries,
     stat_hits := stat_hits (prefix_cache_stats s) + hits\<rparr>\<rparr>)"

definition get_computed_blocks :: "hash_fn \<Rightarrow> int \<Rightarrow> Request \<Rightarrow> (nat list \<times> int) km" where
  "get_computed_blocks F none_hash r = getM id (\<lambda>s.
     if \<not> enable_caching s then retM ([], 0)
     else
       bindM (get_req_hashes (request_id r)) (\<lambda>hs.
       bindM (if hs = [] then bindM (liftM (hash_request_tokens F none_hash (m_block_size s) r)) (\<lambda>hs.
                thenM (set_req_hashes (request_id r) hs) (retM hs))
              else retM hs) (\<lambda>hs.
       thenM (add_stats 1 0 0)
      (if sp_prompt_logprobs (sampling_params r) = None then
         bindM (if int (length hs) * int (m_block_size s) = req_num_tokens r
                then thenM (guardM (hs = []) IndexError)
                    (thenM (set_req_hashes (request_id r) (butlast hs))
                    (bindM (find_longest_cache_hit (m_spec s) (butlast hs)) (\<lambda>bs.
                     thenM (set_req_hashes (request_id r) hs) (retM bs))))
                else find_longest_cache_hit (m_spec s) hs) (\<lambda>computed.
         thenM (add_stats 0 (int (length hs)) (int (length computed)))
               (retM (computed, int (length computed) * int (m_block_size s))))
       else retM ([], 0)))))"

text \<open>The part of \<open>allocate_slots\<close> after the check for free blocks.\<close>

definition take_new_blocks :: "string \<Rightarrow> int \<Rightarrow> nat list km" where
  "take_new_blocks rid num_new_blocks =
     (if num_new_blocks \<le> 0 then retM []
      else bindM (get_req_blocks rid) (\<lambda>req_blocks. getM id (\<lambda>s.
        let n = min (num_new_blocks + num_preallocate_blocks s)
          (min (get_num_free_blocks s) (max_num_blocks_per_req s - int (length req_blocks))) in
        thenM (assertM (0 < n))
       (bindM (get_new_blocks n) (\<lambda>new.
        thenM (set_req_blocks rid (req_blocks @ new)) (retM new))))))"

definition cache_request_blocks :: "hash_fn \<Rightarrow> int \<Rightarrow> Request \<Rightarrow> int \<Rightarrow> nat list \<Rightarrow> unit km" where
  "cache_request_blocks F none_hash r num_tokens_after new_computed = getM id (\<lambda>s.
     let num_cached = (case num_cached_block s (request_id r) of None \<Rightarrow> int (length new_computed) | Some n \<Rightarrow> n);
         num_full = (num_tokens_after - int (length (spec_token_ids r))) div int (m_block_size s) in
     bindM (get_req_blocks (request_id r)) (\<lambda>req_blocks.
     bindM (get_req_hashes (request_id r)) (\<lambda>hs.
     thenM (cache_full_blocks F none_hash r req_blocks hs (push_req_hash (request_id r)) num_cached num_full (m_block_size s))
           (modM (\<lambda>s. s\<lparr>num_cached_block := (num_cached_block s)(request_id r \<mapsto> num_full)\<rparr>)))))"

definition allocate_slots :: "hash_fn \<Rightarrow> int \<Rightarrow> Request \<Rightarrow> int \<Rightarrow> nat list \<Rightarrow> nat list option km" where
  "allocate_slots F none_hash r num_tokens new_computed =
     thenM (guardM (num_tokens = 0) ValueError)
    (bindM (get_req_blocks (request_id r)) (\<lambda>req_blocks. getM id (\<lambda>s.
     bindM (liftM (remove_skipped_blocks (m_spec s) (null_block s) req_blocks (num_computed_tokens r))) (\<lambda>(removed, req_blocks).
     thenM (set_req_blocks (request_id r) req_blocks)
    (thenM (free_blocks removed)
    (getM id (\<lambda>s.
     let computed = num_computed_tokens r + int (length new_computed) * int (m_block_size s);
         num_required = cdiv (computed + num_tokens) (int (m_block_size s));
         num_new = num_required - int (length req_blocks) - int (length new_computed);
         num_evictable = int (length (filter (\<lambda>b. ref_cnt (blk b s) = 0) new_computed)) in
     if get_num_free_blocks s - num_evictable < num_new then retM None
     else
       thenM (if enable_caching s then touch new_computed else assertM (new_computed = []))
      (thenM (set_req_blocks (request_id r) (req_blocks @ new_computed))
      (bindM (take_new_blocks (request_id r) num_new) (\<lambda>new_blocks.
       if \<not> enable_caching s then retM (Some new_blocks)
       else thenM (cache_request_blocks F none_hash r (computed + num_tokens) new_computed)
                  (retM (Some new_blocks)))))))))))) "

definition km_free :: "Request \<Rightarrow> unit km" where
  "km_free r = getM id (\<lambda>s.
     let blocks = (case dict_get (req_to_blocks s) (request_id r) of None \<Rightarrow> [] | Some bs \<Rightarrow> bs) in
     thenM (modM (\<lambda>s. s\<lparr>req_to_blocks := dict_del (request_id r) (req_to_blocks s)\<rparr>))
    (thenM (free_blocks (if enable_caching s then rev blocks else blocks))
           (modM (\<lambda>s. s\<lparr>num_cached_block := (num_cached_block s)(request_id r := None)\<rparr>))))"

definition km_reset_prefix_cache :: "bool km" where
  "km_reset_prefix_cache = bindM pool_reset_prefix_cache (\<lambda>ok.
     if ok then thenM (modM (\<lambda>s. s\<lparr>prefix_cache_stats := (prefix_cache_stats s)\<lparr>stat_reset := True\<rparr>\<rparr>)) (retM True)
     else retM False)"

definition get_num_common_prefix_blocks :: "Request \<Rightarrow> int \<Rightarrow> nat km" where
  "get_num_common_prefix_blocks r num_running =
     thenM (assertM (status r = RUNNING))
    (bindM (get_req_blocks (request_id r)) (\<lambda>bs. getM id (\<lambda>s.
     retM (length (takeWhile (\<lambda>b. ref_cnt (blk b s) = num_running) bs)))))"

definition free_block_hashes :: "Request \<Rightarrow> unit km" where
  "free_block_hashes r = modM (\<lambda>s. s\<lparr>req_to_block_hashes := dict_del (request_id r) (req_to_block_hashes s)\<rparr>)"

subsection \<open>Every use of a block is accounted for\<close>

text \<open>
  \<open>total_refs d b\<close>: how often the requests of \<open>d\<close> use block \<open>b\<close>. \<open>km_inv e s\<close>: the pool's invariant holds,
  and the users the pool counts are the requests' uses and \<open>e\<close> more; between two calls \<open>e\<close> is zero.
\<close>

definition total_refs :: "(string, nat list) dict \<Rightarrow> nat \<Rightarrow> int" where
  "total_refs d b = (\<Sum>(r, bs) \<leftarrow> d. int (count_list bs b))"

definition km_inv :: "(nat \<Rightarrow> int) \<Rightarrow> KVCacheManager \<Rightarrow> bool" where
  "km_inv e s \<longleftrightarrow> (\<exists>l. pool_is s l) \<and> dict_ok (req_to_blocks s) \<and>
     (\<forall>r bs b. dict_get (req_to_blocks s) r = Some bs \<longrightarrow> b \<in> set bs \<longrightarrow> b < length (q_blocks s)) \<and>
     (\<forall>b. 0 < b \<longrightarrow> b < length (q_blocks s) \<longrightarrow> ref_cnt (blk b s) = total_refs (req_to_blocks s) b + e b)"

lemma total_refs_nonneg: "0 \<le> total_refs d b"
  by (induction d) (auto simp: total_refs_def)

lemma total_refs_set:
  "dict_ok d \<Longrightarrow> total_refs (dict_set r bs d) b =
    total_refs d b + int (count_list bs b) - int (count_list (case dict_get d r of None \<Rightarrow> [] | Some bs \<Rightarrow> bs) b)"
proof (induction d)
  case (Cons p d)
  then have "fst p \<noteq> r \<or> dict_get d r = None" by (auto simp: dict_ok_def map_of_eq_None_iff)
  with Cons show ?case by (cases p) (auto simp: total_refs_def dict_ok_def)
qed (simp add: total_refs_def)

lemma total_refs_del:
  "dict_ok d \<Longrightarrow> total_refs (dict_del r d) b =
    total_refs d b - int (count_list (case dict_get d r of None \<Rightarrow> [] | Some bs \<Rightarrow> bs) b)"
proof (induction d)
  case (Cons p d)
  show ?case
  proof (cases "fst p = r")
    case True
    with Cons.prems have "r \<notin> dict_keys d" by (auto simp: dict_ok_def)
    then have "dict_del r d = d" by (simp add: delete_idem image_iff)
    with True show ?thesis by (cases p) (simp add: total_refs_def)
  next
    case False
    with Cons show ?thesis by (cases p) (auto simp: total_refs_def dict_ok_def)
  qed
qed (simp add: total_refs_def)

lemma total_refs_ge:
  assumes "dict_ok d" and "dict_get d r = Some bs"
  shows "int (count_list bs b) \<le> total_refs d b"
  using total_refs_del [OF assms(1), of r b] total_refs_nonneg [of "dict_del r d" b] assms(2) by simp

lemma more_fields:
  fixes s t :: KVCacheManager
  assumes "KVBlockPool.more t = KVBlockPool.more s"
  shows "m_block_size t = m_block_size s" "m_spec t = m_spec s" "max_num_blocks_per_req t = max_num_blocks_per_req s"
    "num_preallocate_blocks t = num_preallocate_blocks s" "req_to_blocks t = req_to_blocks s"
    "req_to_block_hashes t = req_to_block_hashes s" "num_cached_block t = num_cached_block s"
  using assms by (cases s; cases t; simp)+

lemma km_inv_cong: "(\<And>b. 0 < b \<Longrightarrow> e b = e' b) \<Longrightarrow> km_inv e s \<Longrightarrow> km_inv e' s"
  unfolding km_inv_def by simp

lemma km_inv_frame:
  assumes "km_inv e s" and "pool_is t l" and "pool_frame d s t"
  shows "km_inv (\<lambda>b. e b + d b) t"
  using assms more_fields(5) [of t s] by (auto simp: km_inv_def pool_frame_def)

lemma same_pool_upd:
  "same_pool s (s\<lparr>req_to_blocks := d\<rparr>)" "same_pool s (s\<lparr>req_to_block_hashes := e\<rparr>)" "same_pool s (s\<lparr>num_cached_block := n\<rparr>)"
  "same_pool s (s\<lparr>prefix_cache_stats := p\<rparr>)"
  by (simp_all add: same_pool_def KVBlockPool.truncate_def)

text \<open>Writes of the manager's own fields.\<close>

lemma km_inv_same:
  assumes "km_inv e s" and "same_pool s t" and "req_to_blocks t = req_to_blocks s"
  shows "km_inv e t"
  using assms same_pool_fields [OF assms(2)] same_pool_is [OF assms(2)] by (simp add: km_inv_def)

lemma km_inv_set_blocks:
  assumes s: "km_inv e s" and bs: "\<forall>b \<in> set bs. b < length (q_blocks s)"
  shows "km_inv (\<lambda>b. e b + int (count_list (case dict_get (req_to_blocks s) r of None \<Rightarrow> [] | Some old \<Rightarrow> old) b) - int (count_list bs b))
    (s\<lparr>req_to_blocks := dict_set r bs (req_to_blocks s)\<rparr>)"
proof -
  let ?t = "s\<lparr>req_to_blocks := dict_set r bs (req_to_blocks s)\<rparr>"
  note f = same_pool_fields [OF same_pool_upd(1) [of s "dict_set r bs (req_to_blocks s)"]] same_pool_is [OF same_pool_upd(1) [of s "dict_set r bs (req_to_blocks s)"]]
  have ok: "dict_ok (req_to_blocks s)" using s by (simp add: km_inv_def)
  show ?thesis using s bs total_refs_set [OF ok] by (auto simp: km_inv_def f split: if_splits)
qed

lemma km_inv_del_blocks:
  assumes s: "km_inv e s"
  shows "km_inv (\<lambda>b. e b + int (count_list (case dict_get (req_to_blocks s) r of None \<Rightarrow> [] | Some old \<Rightarrow> old) b))
    (s\<lparr>req_to_blocks := dict_del r (req_to_blocks s)\<rparr>)"
proof -
  note f = same_pool_fields [OF same_pool_upd(1) [of s "dict_del r (req_to_blocks s)"]] same_pool_is [OF same_pool_upd(1) [of s "dict_del r (req_to_blocks s)"]]
  have ok: "dict_ok (req_to_blocks s)" using s by (simp add: km_inv_def)
  show ?thesis using s total_refs_del [OF ok] by (auto simp: km_inv_def f split: if_splits)
qed

subsection \<open>The steps of \<open>allocate_slots\<close>\<close>

lemma count_list_update:
  "i < length bs \<Longrightarrow> int (count_list (bs[i := v]) b) + (if bs ! i = b then 1 else 0) = int (count_list bs b) + (if v = b then 1 else 0)"
proof (induction bs arbitrary: i)
  case (Cons x bs)
  show ?case
  proof (cases i)
    case (Suc j)
    with Cons.prems Cons.IH [of j] show ?thesis by (auto split: if_splits)
  qed auto
qed simp

lemma remove_skipped_loop_not_null: "remove_skipped_loop null i bs = Inr (removed, bs') \<Longrightarrow> null \<notin> set removed"
  by (induction null i bs arbitrary: removed bs' rule: remove_skipped_loop.induct) (auto split: if_splits sum.splits)

lemma remove_skipped_loop_count:
  assumes "remove_skipped_loop null i bs = Inr (removed, bs')"
  shows "length bs' = length bs \<and> set removed \<subseteq> set bs \<and> set bs' \<subseteq> insert null (set bs) \<and>
    (\<forall>b. b \<noteq> null \<longrightarrow> int (count_list removed b) + int (count_list bs' b) = int (count_list bs b))"
  using assms
proof (induction i arbitrary: bs removed bs')
  case (Suc i)
  show ?case
  proof (cases "bs ! i = null")
    case True
    with Suc.prems show ?thesis by (auto split: if_splits)
  next
    case False
    with Suc.prems obtain rem where i: "i < length bs" and r: "remove_skipped_loop null i (bs[i := null]) = Inr (rem, bs')"
      and removed: "removed = bs ! i # rem" by (auto split: if_splits sum.splits)
    from Suc.IH [OF r] have ih: "length bs' = length bs" "set rem \<subseteq> set (bs[i := null])" "set bs' \<subseteq> insert null (set (bs[i := null]))"
      "\<forall>b. b \<noteq> null \<longrightarrow> int (count_list rem b) + int (count_list bs' b) = int (count_list (bs[i := null]) b)" by simp_all
    have nn: "null \<notin> set rem" by (rule remove_skipped_loop_not_null [OF r])
    have "set (bs[i := null]) \<subseteq> insert null (set bs)" by (rule set_update_subset_insert)
    with ih(2,3) i removed nn have "set removed \<subseteq> set bs" "set bs' \<subseteq> insert null (set bs)" by auto
    moreover have "int (count_list removed b) + int (count_list bs' b) = int (count_list bs b)" if "b \<noteq> null" for b
      using ih(4) that count_list_update [OF i, of null b] removed by auto
    ultimately show ?thesis using ih(1) by blast
  qed
qed (auto simp: subset_insertI)

lemma remove_skipped_count:
  assumes "remove_skipped_blocks spec null bs k = Inr (removed, bs')"
  shows "length bs' = length bs \<and> set removed \<subseteq> set bs \<and> set bs' \<subseteq> insert null (set bs) \<and>
    (\<forall>b. b \<noteq> null \<longrightarrow> int (count_list removed b) + int (count_list bs' b) = int (count_list bs b))"
  using assms remove_skipped_loop_count
  by (cases spec) (auto simp: remove_skipped_blocks_def Let_def)

abbreviation blocks_of :: "KVCacheManager \<Rightarrow> string \<Rightarrow> nat list" where
  "blocks_of s r \<equiv> (case dict_get (req_to_blocks s) r of None \<Rightarrow> [] | Some bs \<Rightarrow> bs)"

lemma get_req_blocks_run:
  "get_req_blocks r s = (Inr (blocks_of s r), s\<lparr>req_to_blocks := if dict_get (req_to_blocks s) r = None
     then dict_set r [] (req_to_blocks s) else req_to_blocks s\<rparr>)"
  by (auto simp: get_req_blocks_def run_simps split: option.splits)

text \<open>What a step that is not about blocks leaves alone.\<close>

definition km_same :: "KVCacheManager \<Rightarrow> KVCacheManager \<Rightarrow> bool" where
  "km_same s t \<longleftrightarrow> m_block_size t = m_block_size s \<and> m_spec t = m_spec s
     \<and> max_num_blocks_per_req t = max_num_blocks_per_req s \<and> num_preallocate_blocks t = num_preallocate_blocks s"

lemma get_req_blocks_inv:
  assumes s: "km_inv e s" and run: "get_req_blocks r s = (Inr bs, t)"
  shows "km_inv e t \<and> same_pool s t \<and> km_same s t \<and> bs = blocks_of s r \<and> dict_get (req_to_blocks t) r = Some bs
    \<and> (\<forall>q. blocks_of t q = blocks_of s q) \<and> num_cached_block t = num_cached_block s"
proof (cases "dict_get (req_to_blocks s) r")
  case None
  with run have t: "bs = []" "t = s\<lparr>req_to_blocks := dict_set r [] (req_to_blocks s)\<rparr>" by (simp_all add: get_req_blocks_run)
  have "km_inv e t" using km_inv_set_blocks [OF s, of "[]" r] None unfolding t(2) by simp
  then show ?thesis using t None by (simp add: same_pool_upd km_same_def)
next
  case (Some bs')
  with run have "bs = bs'" "t = s" by (simp_all add: get_req_blocks_run)
  with s Some show ?thesis by (simp add: same_pool_def km_same_def)
qed

lemma take_new_blocks_inv:
  assumes s: "km_inv e s" and old: "dict_get (req_to_blocks s) r = Some bs"
    and run: "take_new_blocks r n s = (Inr new, t)"
  shows "\<exists>l. pool_is s l \<and> km_inv e t \<and> km_same s t \<and> enable_caching t = enable_caching s \<and> num_cached_block t = num_cached_block s
    \<and> length (q_blocks t) = length (q_blocks s) \<and> req_to_blocks t = (if n \<le> 0 then req_to_blocks s else dict_set r (bs @ new) (req_to_blocks s))
    \<and> new = take (length new) l \<and> int (length new) = (if n \<le> 0 then 0 else min (n + num_preallocate_blocks s)
        (min (get_num_free_blocks s) (max_num_blocks_per_req s - int (length bs))))
    \<and> (n \<le> 0 \<or> new \<noteq> [])
    \<and> (\<forall>b < length (q_blocks s). ref_cnt (blk b t) = ref_cnt (blk b s) + int (count_list new b))"
proof -
  from s obtain l where l: "pool_is s l" by (auto simp: km_inv_def)
  show ?thesis
  proof (cases "n \<le> 0")
    case True
    with run have "new = []" "t = s" by (simp_all add: take_new_blocks_def run_simps)
    with True l s show ?thesis by (auto simp: km_same_def)
  next
    case False
    define k where "k = min (n + num_preallocate_blocks s) (min (get_num_free_blocks s) (max_num_blocks_per_req s - int (length bs)))"
    from run False old obtain u where k: "0 < k" and u: "get_new_blocks k s = (Inr new, u)" and t: "t = u\<lparr>req_to_blocks := dict_set r (bs @ new) (req_to_blocks u)\<rparr>"
      by (auto simp: take_new_blocks_def ok_simps get_req_blocks_run set_req_blocks_def Let_def k_def)
    have free: "get_num_free_blocks s = int (length l)"
      using l by (simp add: get_num_free_blocks_def pool_is_def pool_core_def queue_is_def)
    then have kl: "k \<le> int (length l)" by (simp add: k_def)
    from get_new_blocks_pool [OF l kl] u have new: "new = take (nat k) l" and pu: "pool_is u (drop (nat k) l)"
      and f: "pool_frame (\<lambda>c. int (count_list new c)) s u" by auto
    note m = pool_frame_more [OF f]
    note mf = more_fields [of u s]
    have len: "int (length new) = k" using new k kl by simp
    have iu: "km_inv (\<lambda>b. e b + int (count_list new b)) u" by (rule km_inv_frame [OF s pu f])
    have "\<forall>b \<in> set (bs @ new). b < length (q_blocks u)"
    proof -
      have "\<forall>b \<in> set l. b < length (q_blocks s)" using l by (auto simp: pool_is_def idle_blocks_def)
      with s old new m show ?thesis by (auto simp: km_inv_def dest: in_set_takeD)
    qed
    from km_inv_set_blocks [OF iu this, of r] old mf m have "km_inv (\<lambda>b. e b) t" by (simp add: t)
    moreover have "new = take (length new) l"
    proof -
      have nk: "length new = nat k" using len by simp
      show ?thesis unfolding nk by (rule new)
    qed
    moreover have "new \<noteq> []" using len k by auto
    ultimately show ?thesis
      using False l len m mf f by (auto simp: t k_def km_same_def pool_frame_def)
  qed
qed

lemma push_req_hash_pushes: "pushes (push_req_hash r)"
  by (auto simp: pushes_def push_req_hash_def run_simps same_pool_def KVBlockPool.truncate_def)

text \<open>Caching writes no block list.\<close>

definition keeps_lists :: "KVCacheManager \<Rightarrow> KVCacheManager \<Rightarrow> bool" where
  "keeps_lists s t \<longleftrightarrow> req_to_blocks t = req_to_blocks s \<and> km_same s t"

lemma cache_blocks_loop_lists:
  "cache_blocks_loop F nh r bsize hs (push_req_hash q) nc bs i prev s = (Inr (), t) \<Longrightarrow> keeps_lists s t"
proof (induction bs arbitrary: i prev s)
  case Nil
  then show ?case by (simp add: ok_simps keeps_lists_def km_same_def)
next
  case (Cons b bs)
  then obtain h u v w where u: "full_block_hash F nh r bsize hs (push_req_hash q) nc i prev s = (Inr h, u)"
    and v: "set_block_hash b h u = (Inr (), v)" "cache_block h b v = (Inr (), w)"
    and t: "cache_blocks_loop F nh r bsize hs (push_req_hash q) nc bs (Suc i) (Some (hash_value h)) w = (Inr (), t)"
    by (auto simp: ok_simps)
  have "keeps_lists s u" using u
    by (auto simp: full_block_hash_def Let_def ok_simps push_req_hash_def keeps_lists_def km_same_def split: if_splits prod.splits)
  moreover have "keeps_lists u w" using v
    by (auto simp: set_block_hash_def cache_block_def ok_simps mod_blk_def keeps_lists_def km_same_def)
  ultimately show ?case using Cons.IH [OF t] by (simp add: keeps_lists_def km_same_def)
qed

lemma cache_full_blocks_lists:
  assumes "cache_full_blocks F nh r bs hs (push_req_hash q) nc nf bsize s = (Inr (), t)"
  shows "keeps_lists s t"
proof (cases "nc = nf")
  case True
  with assms show ?thesis by (simp add: cache_full_blocks_def ok_simps keeps_lists_def km_same_def)
next
  case False
  with assms obtain hs' prev where
    "cache_blocks_loop F nh r bsize hs' (push_req_hash q) nc (py_slice nc nf bs) 0 prev s = (Inr (), t)"
    by (auto simp: cache_full_blocks_def ok_simps split: if_splits)
  then show ?thesis by (rule cache_blocks_loop_lists)
qed

lemma get_req_hashes_run:
  "get_req_hashes r s = (Inr (case dict_get (req_to_block_hashes s) r of None \<Rightarrow> [] | Some hs \<Rightarrow> hs),
     s\<lparr>req_to_block_hashes := if dict_get (req_to_block_hashes s) r = None
       then dict_set r [] (req_to_block_hashes s) else req_to_block_hashes s\<rparr>)"
  by (auto simp: get_req_hashes_def run_simps split: option.splits)

lemma cache_request_blocks_inv:
  assumes s: "km_inv e s" and run: "cache_request_blocks F nh r k nc0 s = (Inr (), t)"
  shows "km_inv e t \<and> km_same s t \<and> (\<forall>q. blocks_of t q = blocks_of s q) \<and> cached_frame s t"
proof -
  from run obtain bs u v w nc nf where bs: "get_req_blocks (request_id r) s = (Inr bs, u)"
    and v: "v = u\<lparr>req_to_block_hashes := if dict_get (req_to_block_hashes u) (request_id r) = None
       then dict_set (request_id r) [] (req_to_block_hashes u) else req_to_block_hashes u\<rparr>"
    and w: "cache_full_blocks F nh r bs (case dict_get (req_to_block_hashes u) (request_id r) of None \<Rightarrow> [] | Some hs \<Rightarrow> hs)
      (push_req_hash (request_id r)) nc nf (m_block_size s) v = (Inr (), w)"
    and t: "t = w\<lparr>num_cached_block := (num_cached_block w)(request_id r \<mapsto> nf)\<rparr>"
    by (auto simp: cache_request_blocks_def Let_def ok_simps get_req_hashes_run)
  from get_req_blocks_inv [OF s bs] have u: "km_inv e u" "same_pool s u" "km_same s u" "dict_get (req_to_blocks u) (request_id r) = Some bs"
    "\<forall>q. blocks_of u q = blocks_of s q" by simp_all
  have iv: "km_inv e v" and fv: "same_pool u v" "req_to_blocks v = req_to_blocks u" "km_same u v"
    using u(1) by (auto simp: v same_pool_upd km_same_def intro!: km_inv_same [OF u(1)])
  note fields = same_pool_fields [OF u(2)] same_pool_fields [OF fv(1)]
  from iv obtain l where l: "pool_is v l" by (auto simp: km_inv_def)
  have "\<forall>b \<in> set bs. b < length (q_blocks v)" using iv u(4) fv(2) by (auto simp: km_inv_def)
  from cache_full_blocks_pool [OF w push_req_hash_pushes l this] have pw: "pool_is w l" and cw: "cached_frame v w" by simp_all
  have kw: "keeps_lists v w" by (rule cache_full_blocks_lists [OF w])
  have "km_inv e w" using iv pw cw kw by (auto simp: km_inv_def cached_frame_def keeps_lists_def)
  then have "km_inv e t" using t by (auto intro!: km_inv_same [where s = w] simp: same_pool_upd)
  moreover have "cached_frame s t" using cw by (simp add: t cached_frame_def fields)
  ultimately show ?thesis using kw u(3,5) fv by (simp add: t keeps_lists_def km_same_def)
qed

subsection \<open>\<open>allocate_slots\<close>\<close>

lemma same_pool_trans: "same_pool s t \<Longrightarrow> same_pool t u \<Longrightarrow> same_pool s u"
  by (simp add: same_pool_def)

lemma km_same_trans: "km_same s t \<Longrightarrow> km_same t u \<Longrightarrow> km_same s u"
  by (simp add: km_same_def)

text \<open>Up to the check for free blocks: the skipped blocks are freed.\<close>

lemma allocate_slots_skip:
  assumes s: "km_inv (\<lambda>b. 0) s" and g: "get_req_blocks rid s = (Inr bs, s1)"
    and r: "remove_skipped_blocks (m_spec s1) (null_block s1) bs k = Inr (removed, kept)"
    and f: "free_blocks removed (s1\<lparr>req_to_blocks := dict_set rid kept (req_to_blocks s1)\<rparr>) = (Inr (), u)"
  shows "km_inv (\<lambda>b. 0) u \<and> km_same s u \<and> enable_caching u = enable_caching s \<and> length (q_blocks u) = length (q_blocks s)
    \<and> bs = blocks_of s rid \<and> m_spec s1 = m_spec s \<and> null_block s1 = null_block s
    \<and> dict_get (req_to_blocks u) rid = Some kept \<and> (\<forall>q. q \<noteq> rid \<longrightarrow> blocks_of u q = blocks_of s q)
    \<and> num_cached_block u = num_cached_block s
    \<and> (removed = [] \<longrightarrow> get_num_free_blocks u = get_num_free_blocks s \<and> (\<forall>b < length (q_blocks s). ref_cnt (blk b u) = ref_cnt (blk b s)))"
proof -
  let ?s2 = "s1\<lparr>req_to_blocks := dict_set rid kept (req_to_blocks s1)\<rparr>"
  from get_req_blocks_inv [OF s g] have s1: "km_inv (\<lambda>b. 0) s1" "same_pool s s1" "km_same s s1" "bs = blocks_of s rid"
    "dict_get (req_to_blocks s1) rid = Some bs" "\<forall>q. blocks_of s1 q = blocks_of s q" "num_cached_block s1 = num_cached_block s" by simp_all
  note fields = same_pool_fields [OF s1(2)]
  have null: "null_block s1 = 0" and pos: "0 < length (q_blocks s1)" using s1(1) by (auto simp: km_inv_def pool_is_def pool_core_def)
  from remove_skipped_count [OF r] have c: "set removed \<subseteq> set bs" "set kept \<subseteq> insert 0 (set bs)"
    "\<forall>b. b \<noteq> 0 \<longrightarrow> int (count_list removed b) + int (count_list kept b) = int (count_list bs b)" by (simp_all add: null)
  have v: "\<forall>b \<in> set bs. b < length (q_blocks s1)" using s1(1,5) by (auto simp: km_inv_def)
  have "\<forall>b \<in> set kept. b < length (q_blocks s1)" using v c(2) pos by auto
  from km_inv_set_blocks [OF s1(1) this, of rid] s1(5)
  have "km_inv (\<lambda>b. int (count_list bs b) - int (count_list kept b)) ?s2" by simp
  moreover have "int (count_list bs b) - int (count_list kept b) = int (count_list removed b)" if "0 < b" for b
    using c(3) [rule_format, of b] that by simp
  ultimately have i2: "km_inv (\<lambda>b. int (count_list removed b)) ?s2" by (rule km_inv_cong [rotated])
  then obtain l where l: "pool_is ?s2 l" by (auto simp: km_inv_def)
  have len2: "length (q_blocks ?s2) = length (q_blocks s1)" by simp
  have "\<forall>b \<in> set removed. 0 < b \<longrightarrow> int (count_list removed b) \<le> ref_cnt (blk b ?s2)"
  proof (intro ballI impI)
    fix b assume b: "b \<in> set removed" "0 < b"
    then have "b < length (q_blocks ?s2)" using c(1) v by auto
    with i2 b(2) have "ref_cnt (blk b ?s2) = total_refs (req_to_blocks ?s2) b + int (count_list removed b)"
      unfolding km_inv_def by blast
    with total_refs_nonneg [of "req_to_blocks ?s2" b] show "int (count_list removed b) \<le> ref_cnt (blk b ?s2)" by linarith
  qed
  with free_blocks_pool [OF l, of removed] c(1) v f obtain l' where l': "pool_is u l'"
    and fr: "pool_frame (\<lambda>b. - int (count_list removed b)) ?s2 u" by (auto simp del: FreeQueue.simps)
  have "km_inv (\<lambda>b. int (count_list removed b) + - int (count_list removed b)) u" by (rule km_inv_frame [OF i2 l' fr])
  then have "km_inv (\<lambda>b. 0) u" by simp
  moreover note m = pool_frame_more [OF fr] 
  moreover note mf = more_fields [of u ?s2]
  moreover have "get_num_free_blocks u = get_num_free_blocks s \<and> (\<forall>b < length (q_blocks s). ref_cnt (blk b u) = ref_cnt (blk b s))"
    if "removed = []"
  proof -
    have "u = ?s2" using f that by (simp add: free_blocks_def run_simps)
    then show ?thesis by (simp add: get_num_free_blocks_def fields)
  qed
  ultimately show ?thesis using s1(3-7) by (simp add: fields km_same_def)
qed

lemma length_idle_touch:
  assumes s: "pool_is s l" and t: "pool_is t l'" and f: "pool_frame (\<lambda>b. int (count_list bs b)) s t"
  shows "get_num_free_blocks s - int (length (filter (\<lambda>b. ref_cnt (blk b s) = 0) bs)) \<le> get_num_free_blocks t"
    and "\<forall>b \<in> set l'. b \<notin> set bs"
proof -
  have card: "get_num_free_blocks s = int (card (idle_blocks s))" if "pool_is s l" for s :: "'a KVBlockPool_scheme" and l
  proof -
    have "distinct l" "set l = idle_blocks s" "num_free_blocks s = int (length l)"
      using that by (simp_all add: pool_is_def pool_core_def queue_is_def)
    then show ?thesis by (metis distinct_card get_num_free_blocks_def)
  qed
  have refs: "0 \<le> ref_cnt (blk b s)" if "0 < b" "b < length (q_blocks s)" for b
    using s that by (auto simp: pool_is_def pool_core_def)
  have idle: "idle_blocks t = idle_blocks s - set bs"
  proof (rule set_eqI)
    fix b
    show "b \<in> idle_blocks t \<longleftrightarrow> b \<in> idle_blocks s - set bs"
      unfolding idle_blocks_frame [OF f] using refs [of b] count_list_0_iff [of bs b] by (auto simp: idle_blocks_def)
  qed
  have "set l' = idle_blocks t" using t by (simp add: pool_is_def)
  with idle show "\<forall>b \<in> set l'. b \<notin> set bs" by simp
  let ?e = "filter (\<lambda>b. ref_cnt (blk b s) = 0) bs"
  have fin: "finite (idle_blocks s)" by (simp add: idle_blocks_def)
  have "idle_blocks s - set bs = idle_blocks s - set ?e" by (auto simp: idle_blocks_def)
  then have "card (idle_blocks s) - card (set ?e) \<le> card (idle_blocks t)"
    unfolding idle using diff_card_le_card_Diff [of "set ?e" "idle_blocks s"] by simp
  moreover have "card (set ?e) \<le> length ?e" by (rule card_length)
  ultimately show "get_num_free_blocks s - int (length ?e) \<le> get_num_free_blocks t"
    unfolding card [OF s] card [OF t] by linarith
qed

lemma pool_is_in_queue: "pool_is s l \<Longrightarrow> b \<in> set l \<Longrightarrow> 0 < b \<and> b < length (q_blocks s) \<and> ref_cnt (blk b s) = 0"
  by (simp add: pool_is_def idle_blocks_def)

lemma count_list_distinct: "distinct xs \<Longrightarrow> x \<in> set xs \<Longrightarrow> count_list xs x = 1"
  by (induction xs) (auto simp: count_list_0_iff)

text \<open>From the check on, for a list of new computed blocks.\<close>

lemma allocate_slots_take:
  assumes s: "km_inv (\<lambda>b. 0) s" and kept: "dict_get (req_to_blocks s) rid = Some kept"
    and hits: "\<forall>b \<in> set hits. b < length (q_blocks s)"
    and touch: "(if enable_caching s then touch hits else assertM (hits = [])) s = (Inr (), u)"
    and take: "take_new_blocks rid n (u\<lparr>req_to_blocks := dict_set rid (kept @ hits) (req_to_blocks u)\<rparr>) = (Inr new, t)"
    and room: "n \<le> get_num_free_blocks s - int (length (filter (\<lambda>b. ref_cnt (blk b s) = 0) hits))"
  shows "km_inv (\<lambda>b. 0) t \<and> km_same s t \<and> enable_caching t = enable_caching s \<and> length (q_blocks t) = length (q_blocks s)
    \<and> blocks_of t rid = kept @ hits @ new \<and> (\<forall>q. q \<noteq> rid \<longrightarrow> blocks_of t q = blocks_of s q)
    \<and> distinct new \<and> (\<forall>b \<in> set new. 0 < b \<and> b < length (q_blocks s) \<and> ref_cnt (blk b t) = 1)
    \<and> (n \<le> 0 \<longrightarrow> new = []) \<and> (0 < n \<longrightarrow> int (length new) \<le> n + num_preallocate_blocks s
        \<and> int (length (kept @ hits @ new)) \<le> max_num_blocks_per_req s)
    \<and> (0 < n \<longrightarrow> 0 \<le> num_preallocate_blocks s \<longrightarrow> int (length (kept @ hits)) + n \<le> max_num_blocks_per_req s \<longrightarrow> n \<le> int (length new))"
proof -
  from s obtain l where l: "pool_is s l" by (auto simp: km_inv_def)
  have "\<exists>l'. pool_is u l' \<and> pool_frame (\<lambda>b. int (count_list hits b)) s u"
  proof (cases "enable_caching s")
    case True
    with touch_pool [OF l hits] touch show ?thesis by auto
  next
    case False
    with touch have "hits = []" "u = s" by (simp_all add: ok_simps)
    with l pool_frame_refl [of s] show ?thesis by auto
  qed
  then obtain l' where l': "pool_is u l'" and f: "pool_frame (\<lambda>b. int (count_list hits b)) s u" by blast
  note m = pool_frame_more [OF f]
  note mf = more_fields [of u s]
  have iu: "km_inv (\<lambda>b. int (count_list hits b)) u" using km_inv_frame [OF s l' f] by simp
  have ku: "dict_get (req_to_blocks u) rid = Some kept" using kept mf m by simp
  let ?v = "u\<lparr>req_to_blocks := dict_set rid (kept @ hits) (req_to_blocks u)\<rparr>"
  have "\<forall>b \<in> set (kept @ hits). b < length (q_blocks u)" using s kept hits m by (auto simp: km_inv_def)
  from km_inv_set_blocks [OF iu this, of rid] ku have iv: "km_inv (\<lambda>b. 0) ?v" by simp
  have kv: "dict_get (req_to_blocks ?v) rid = Some (kept @ hits)" by simp
  have same: "same_pool u ?v" by (rule same_pool_upd)
  from take_new_blocks_inv [OF iv kv take] obtain lv where lv: "pool_is ?v lv" "km_inv (\<lambda>b. 0) t" "km_same ?v t"
    "enable_caching t = enable_caching ?v" "length (q_blocks t) = length (q_blocks ?v)"
    "req_to_blocks t = (if n \<le> 0 then req_to_blocks ?v else dict_set rid ((kept @ hits) @ new) (req_to_blocks ?v))"
    and new: "new = take (length new) lv" and len: "int (length new) = (if n \<le> 0 then 0 else min (n + num_preallocate_blocks ?v)
        (min (get_num_free_blocks ?v) (max_num_blocks_per_req ?v - int (length (kept @ hits)))))"
    and refs: "\<forall>b < length (q_blocks ?v). ref_cnt (blk b t) = ref_cnt (blk b ?v) + int (count_list new b)" by auto
  have pv: "pool_is u lv" using lv(1) same_pool_is [OF same] by simp
  have "distinct lv" using pv by (simp add: pool_is_def pool_core_def queue_is_def)
  then have dn: "distinct new" by (subst new) simp
  have new_in: "b \<in> set lv" if "b \<in> set new" for b using that new by (metis in_set_takeD)
  have nr: "0 < b \<and> b < length (q_blocks s) \<and> ref_cnt (blk b t) = 1" if "b \<in> set new" for b
  proof -
    have b: "0 < b" "b < length (q_blocks u)" "ref_cnt (blk b u) = 0" using pool_is_in_queue [OF pv new_in [OF that]] by simp_all
    have "count_list new b = 1" using dn that by (rule count_list_distinct)
    with refs b m show ?thesis by simp
  qed
  have free: "get_num_free_blocks s - int (length (filter (\<lambda>b. ref_cnt (blk b s) = 0) hits)) \<le> get_num_free_blocks ?v"
    using length_idle_touch(1) [OF l l' f] by (simp add: get_num_free_blocks_def)
  have "blocks_of t rid = kept @ hits @ new"
    using lv(6) len by (cases "n \<le> 0") auto
  moreover have "blocks_of t q = blocks_of s q" if "q \<noteq> rid" for q
    using lv(6) that mf m by (cases "n \<le> 0") auto
  moreover have "km_same s t" using lv(3) mf m by (simp add: km_same_def)
  moreover have "n \<le> 0 \<longrightarrow> new = []" using len by auto
  moreover have "0 < n \<longrightarrow> int (length new) \<le> n + num_preallocate_blocks s \<and> int (length (kept @ hits @ new)) \<le> max_num_blocks_per_req s"
    using len mf m by auto
  moreover have "0 < n \<longrightarrow> 0 \<le> num_preallocate_blocks s \<longrightarrow> int (length (kept @ hits)) + n \<le> max_num_blocks_per_req s \<longrightarrow> n \<le> int (length new)"
    using len mf m free room by auto
  ultimately show ?thesis using lv m dn nr by simp
qed

text \<open>A call that returned, in its three parts; \<open>u\<close> is the state at the check for free blocks.\<close>

definition blocks_needed :: "KVCacheManager \<Rightarrow> Request \<Rightarrow> int \<Rightarrow> nat list \<Rightarrow> int" where
  "blocks_needed s r num_tokens hits = cdiv (num_computed_tokens r + int (length hits) * int (m_block_size s) + num_tokens) (int (m_block_size s))"

definition alloc_parts :: "KVCacheManager \<Rightarrow> Request \<Rightarrow> int \<Rightarrow> nat list \<Rightarrow> nat list option \<Rightarrow> KVCacheManager
    \<Rightarrow> nat list \<Rightarrow> nat list \<Rightarrow> KVCacheManager \<Rightarrow> int \<Rightarrow> bool" where
  "alloc_parts s r k hits res t removed kept u n \<longleftrightarrow>
     remove_skipped_blocks (m_spec s) (null_block s) (blocks_of s (request_id r)) (num_computed_tokens r) = Inr (removed, kept)
    \<and> n = blocks_needed s r k hits - int (length kept) - int (length hits)
    \<and> km_inv (\<lambda>b. 0) u \<and> km_same s u \<and> enable_caching u = enable_caching s \<and> length (q_blocks u) = length (q_blocks s)
    \<and> (\<forall>q. q \<noteq> request_id r \<longrightarrow> blocks_of u q = blocks_of s q)
    \<and> (removed = [] \<longrightarrow> get_num_free_blocks u = get_num_free_blocks s \<and> (\<forall>b < length (q_blocks s). ref_cnt (blk b u) = ref_cnt (blk b s)))
    \<and> (if get_num_free_blocks u - int (length (filter (\<lambda>b. ref_cnt (blk b u) = 0) hits)) < n
       then res = None \<and> t = u \<and> blocks_of t (request_id r) = kept
       else \<exists>new. res = Some new \<and> km_inv (\<lambda>b. 0) t \<and> km_same s t \<and> enable_caching t = enable_caching s \<and> length (q_blocks t) = length (q_blocks s)
        \<and> blocks_of t (request_id r) = kept @ hits @ new \<and> (\<forall>q. q \<noteq> request_id r \<longrightarrow> blocks_of t q = blocks_of s q)
        \<and> distinct new \<and> (\<forall>b \<in> set new. 0 < b \<and> b < length (q_blocks s) \<and> ref_cnt (blk b t) = 1)
        \<and> (n \<le> 0 \<longrightarrow> new = []) \<and> (0 < n \<longrightarrow> int (length new) \<le> n + num_preallocate_blocks s
            \<and> int (length (kept @ hits @ new)) \<le> max_num_blocks_per_req s)
        \<and> (0 < n \<longrightarrow> 0 \<le> num_preallocate_blocks s \<longrightarrow> int (length (kept @ hits)) + n \<le> max_num_blocks_per_req s \<longrightarrow> n \<le> int (length new)))"

lemma allocate_slots_parts:
  assumes s: "km_inv (\<lambda>b. 0) s" and hits: "\<forall>b \<in> set hits. b < length (q_blocks s)"
    and run: "allocate_slots F nh r k hits s = (Inr res, t)"
  shows "\<exists>removed kept u n. alloc_parts s r k hits res t removed kept u n"
proof -
  define chk :: "nat list \<Rightarrow> KVCacheManager \<Rightarrow> bool" where "chk = (\<lambda>kept u. get_num_free_blocks u - int (length (filter (\<lambda>b. ref_cnt (blk b u) = 0) hits))
    < blocks_needed u r k hits - int (length kept) - int (length hits))"
  define rest :: "nat list \<Rightarrow> KVCacheManager \<Rightarrow> nat list option km" where "rest = (\<lambda>kept u. if chk kept u then retM None
     else thenM (if enable_caching u then touch hits else assertM (hits = []))
      (thenM (set_req_blocks (request_id r) (kept @ hits))
      (bindM (take_new_blocks (request_id r) (blocks_needed u r k hits - int (length kept) - int (length hits))) (\<lambda>new_blocks.
       if \<not> enable_caching u then retM (Some new_blocks)
       else thenM (cache_request_blocks F nh r (num_computed_tokens r + int (length hits) * int (m_block_size u) + k) hits)
                  (retM (Some new_blocks))))))"
  have "allocate_slots F nh r k hits = thenM (guardM (k = 0) ValueError)
    (bindM (get_req_blocks (request_id r)) (\<lambda>bs. getM id (\<lambda>s.
     bindM (liftM (remove_skipped_blocks (m_spec s) (null_block s) bs (num_computed_tokens r))) (\<lambda>(removed, kept).
     thenM (set_req_blocks (request_id r) kept) (thenM (free_blocks removed) (getM id (rest kept)))))))"
    unfolding allocate_slots_def rest_def chk_def blocks_needed_def Let_def by (rule refl)
  with run obtain bs s1 removed kept u where g: "get_req_blocks (request_id r) s = (Inr bs, s1)"
    and sk: "remove_skipped_blocks (m_spec s1) (null_block s1) bs (num_computed_tokens r) = Inr (removed, kept)"
    and fr: "free_blocks removed (s1\<lparr>req_to_blocks := dict_set (request_id r) kept (req_to_blocks s1)\<rparr>) = (Inr (), u)"
    and rest: "rest kept u u = (Inr res, t)"
    by (auto simp: ok_simps set_req_blocks_def split: prod.splits)
  note u = allocate_slots_skip [OF s g sk fr]
  let ?n = "blocks_needed s r k hits - int (length kept) - int (length hits)"
  have n: "blocks_needed u r k hits = blocks_needed s r k hits" using u by (simp add: blocks_needed_def km_same_def)
  have sk': "remove_skipped_blocks (m_spec s) (null_block s) (blocks_of s (request_id r)) (num_computed_tokens r) = Inr (removed, kept)"
    using sk u by simp
  show ?thesis
  proof (cases "chk kept u")
    case True
    with rest have "res = None" "t = u" by (simp_all add: rest_def ok_simps)
    with u True sk' n show ?thesis
      by (intro exI [of _ removed] exI [of _ kept] exI [of _ u] exI [of _ ?n]) (simp add: alloc_parts_def chk_def)
  next
    case False
    from rest False obtain v new w where to: "(if enable_caching u then touch hits else assertM (hits = [])) u = (Inr (), v)"
      and ta: "take_new_blocks (request_id r) ?n (v\<lparr>req_to_blocks := dict_set (request_id r) (kept @ hits) (req_to_blocks v)\<rparr>) = (Inr new, w)"
      and ca: "if enable_caching u then cache_request_blocks F nh r (num_computed_tokens r + int (length hits) * int (m_block_size u) + k) hits w = (Inr (), t)
        else t = w" and res: "res = Some new"
      by (auto simp: rest_def ok_simps set_req_blocks_def n split: if_splits)
    have hu: "\<forall>b \<in> set hits. b < length (q_blocks u)" using hits u by simp
    have room: "?n \<le> get_num_free_blocks u - int (length (filter (\<lambda>b. ref_cnt (blk b u) = 0) hits))"
      using False n by (simp add: chk_def)
    have ku: "dict_get (req_to_blocks u) (request_id r) = Some kept" and iu: "km_inv (\<lambda>b. 0) u" using u by simp_all
    note w = allocate_slots_take [OF iu ku hu to ta room]
    have "km_inv (\<lambda>b. 0) t \<and> km_same w t \<and> (\<forall>q. blocks_of t q = blocks_of w q) \<and> cached_frame w t"
    proof (cases "enable_caching u")
      case True
      with ca w cache_request_blocks_inv [of "\<lambda>b. 0" w F nh r _ hits t] show ?thesis by auto
    next
      case False
      with ca w show ?thesis by (simp add: cached_frame_refl km_same_def)
    qed
    then have t: "km_inv (\<lambda>b. 0) t" "km_same w t" "\<forall>q. blocks_of t q = blocks_of w q" "cached_frame w t" by simp_all
    have "km_same s t" using u w t(2) by (simp add: km_same_def)
    moreover have "enable_caching t = enable_caching s" "length (q_blocks t) = length (q_blocks s)"
      "\<forall>b < length (q_blocks s). ref_cnt (blk b t) = ref_cnt (blk b w)"
      using t(4) u w by (simp_all add: cached_frame_def)
    moreover have "num_preallocate_blocks u = num_preallocate_blocks s" "max_num_blocks_per_req u = max_num_blocks_per_req s"
      using u by (simp_all add: km_same_def)
    ultimately show ?thesis using u w t(1,3) res False sk' n
      by (intro exI [of _ removed] exI [of _ kept] exI [of _ u] exI [of _ ?n]) (simp add: alloc_parts_def chk_def)
  qed
qed

subsection \<open>Cache hits\<close>

definition first_cached :: "'x KVBlockPool_scheme \<Rightarrow> BlockHashType \<Rightarrow> nat" where
  "first_cached s h = (case cached_block_hash_to_block s h of Some ((i, b) # _) \<Rightarrow> b | _ \<Rightarrow> 0)"

abbreviation is_cached :: "'x KVBlockPool_scheme \<Rightarrow> BlockHashType \<Rightarrow> bool" where
  "is_cached s h \<equiv> cached_block_hash_to_block s h \<noteq> None"

lemma get_cached_block_pool:
  assumes "pool_is s l"
  shows "get_cached_block h s = (Inr (if is_cached s h then Some (first_cached s h) else None), s) \<and>
    (is_cached s h \<longrightarrow> first_cached s h < length (q_blocks s) \<and> kv_block_hash (blk (first_cached s h) s) = Some h)"
proof (cases "cached_block_hash_to_block s h")
  case None
  then show ?thesis by (simp add: get_cached_block_def run_simps)
next
  case (Some d)
  have "hashes_ok s" using assms by (simp add: pool_is_def pool_core_def)
  with Some have d: "d \<noteq> []" "\<forall>i b. (i, b) \<in> set d \<longrightarrow> i = b \<and> b < length (q_blocks s) \<and> kv_block_hash (blk b s) = Some h"
    unfolding hashes_ok_def hash_table_ok_def by blast+
  from d(1) obtain i b d' where "d = (i, b) # d'" by (cases d) auto
  with Some d(2) show ?thesis by (auto simp: get_cached_block_def run_simps first_cached_def)
qed

lemma full_longest_hit:
  assumes "pool_is s l"
  shows "full_longest_cache_hit hs s = (Inr (map (first_cached s) (takeWhile (is_cached s) hs)), s)"
  using get_cached_block_pool [OF assms]
  by (induction hs) (simp_all add: run_simps)

text \<open>
  The longest prefix a sliding window can reuse: its last \<open>needed\<close> blocks, or all of them when it is
  shorter, must be cached.
\<close>

definition window_cached :: "(nat \<Rightarrow> bool) \<Rightarrow> nat \<Rightarrow> nat \<Rightarrow> bool" where
  "window_cached ok needed m \<longleftrightarrow> (\<forall>j. m \<le> j + needed \<longrightarrow> j < m \<longrightarrow> ok j)"

definition longest_window :: "(nat \<Rightarrow> bool) \<Rightarrow> nat \<Rightarrow> nat \<Rightarrow> nat" where
  "longest_window ok needed n = Max {m. m \<le> n \<and> window_cached ok needed m}"

lemma longest_windowI:
  assumes "m \<le> n" and "window_cached ok needed m" and "\<And>k. m < k \<Longrightarrow> k \<le> n \<Longrightarrow> \<not> window_cached ok needed k"
  shows "longest_window ok needed n = m"
  unfolding longest_window_def
proof (rule Max_eqI)
  show "finite {m. m \<le> n \<and> window_cached ok needed m}" by simp
  show "m \<in> {m. m \<le> n \<and> window_cached ok needed m}" using assms(1,2) by simp
  show "k \<le> m" if "k \<in> {m. m \<le> n \<and> window_cached ok needed m}" for k
    using assms(3) [of k] that by (cases "k \<le> m") auto
qed

definition window_blocks :: "(nat \<Rightarrow> bool) \<Rightarrow> (nat \<Rightarrow> nat) \<Rightarrow> nat \<Rightarrow> nat \<Rightarrow> nat \<Rightarrow> nat list" where
  "window_blocks ok block_of null needed n = (let m = longest_window ok needed n in
     map (\<lambda>j. if m \<le> j + needed then block_of j else null) [0..<m])"

text \<open>The loop: \<open>n\<close> hits run from index \<open>i\<close> on, no window ends further right.\<close>

lemma sliding_loop_longest:
  fixes s :: "'x KVBlockPool_scheme" and null :: nat and needed :: int and hs :: "BlockHashType list"
  assumes s: "pool_is s l" and "i \<le> length hs" and "length computed = length hs"
  defines "ok \<equiv> \<lambda>j. is_cached s (hs ! j)" and "N \<equiv> nat (max 1 needed)"
  assumes "\<And>j. j < i \<Longrightarrow> computed ! j = null" and "\<And>j. i \<le> j \<Longrightarrow> j < i + n \<Longrightarrow> ok j \<and> computed ! j = first_cached s (hs ! j)"
    and "n < N" and "i + n \<le> length hs"
    and "\<And>m. i + n < m \<Longrightarrow> m \<le> length hs \<Longrightarrow> \<not> window_cached ok N m"
  shows "sliding_hit_loop hs needed i computed n s = (Inr (window_blocks ok (\<lambda>j. first_cached s (hs ! j)) null N (length hs)), s)"
  using assms(2,3,6-)
proof (induction i arbitrary: computed n)
  case 0
  have "window_cached ok N n" using 0(4) by (simp add: window_cached_def)
  then have m: "longest_window ok N (length hs) = n" using 0(6,7) by (intro longest_windowI) auto
  have "take n computed = map (\<lambda>j. if n \<le> j + N then first_cached s (hs ! j) else null) [0..<n]"
    using 0 by (intro nth_equalityI) auto
  then show ?case by (simp add: run_simps window_blocks_def m)
next
  case (Suc i)
  show ?case
  proof (cases "ok i")
    case True
    then have g: "get_cached_block (hs ! i) s = (Inr (Some (first_cached s (hs ! i))), s)"
      using get_cached_block_pool [OF s, of "hs ! i"] by (simp add: ok_def)
    let ?c = "computed[i := first_cached s (hs ! i)]"
    have run: "ok j \<and> ?c ! j = first_cached s (hs ! j)" if "i \<le> j" "j < i + Suc n" for j
      using Suc.prems(4) [of j] Suc.prems(1,2) that True by (cases "j = i") auto
    have null: "?c ! j = null" if "j < i" for j using Suc.prems(3) [of j] that by simp
    show ?thesis
    proof (cases "N \<le> Suc n")
      case True
      then have N: "N = Suc n" using Suc.prems(5) by simp
      have "needed \<le> int (Suc n)" using N by (simp add: N_def)
      with g have r: "sliding_hit_loop hs needed (Suc i) computed n s = (Inr (take (i + Suc n) ?c), s)"
        by (simp add: bindM_run retM_run)
      have "window_cached ok N (i + Suc n)" using run N by (simp add: window_cached_def)
      then have m: "longest_window ok N (length hs) = i + Suc n" using Suc.prems(6,7) by (intro longest_windowI) auto
      have "take (i + Suc n) ?c = map (\<lambda>j. if i + Suc n \<le> j + N then first_cached s (hs ! j) else null) [0..<i + Suc n]"
        using Suc.prems(2,6) run null N by (intro nth_equalityI) (auto simp del: upt_Suc)
      with r m show ?thesis by (simp add: window_blocks_def)
    next
      case False
      then have "\<not> needed \<le> int (Suc n)" by (simp add: N_def)
      with g have "sliding_hit_loop hs needed (Suc i) computed n s = sliding_hit_loop hs needed i ?c (Suc n) s"
        by (simp add: bindM_run)
      also have "\<dots> = (Inr (window_blocks ok (\<lambda>j. first_cached s (hs ! j)) null N (length hs)), s)"
        using Suc.prems(1,2,6,7) False run null by (intro Suc.IH) auto
      finally show ?thesis .
    qed
  next
    case False
    then have "get_cached_block (hs ! i) s = (Inr None, s)"
      using get_cached_block_pool [OF s, of "hs ! i"] by (simp add: ok_def)
    then have "sliding_hit_loop hs needed (Suc i) computed n s = sliding_hit_loop hs needed i computed 0 s"
      by (simp add: bindM_run)
    also have "\<dots> = (Inr (window_blocks ok (\<lambda>j. first_cached s (hs ! j)) null N (length hs)), s)"
    proof (rule Suc.IH)
      show "\<not> window_cached ok N m" if m: "i + 0 < m" "m \<le> length hs" for m
      proof (cases "Suc i + n < m")
        case True
        with Suc.prems(7) m show ?thesis by simp
      next
        case False2: False
        then have "m \<le> i + N" using Suc.prems(5) by simp
        with False m(1) show ?thesis by (auto simp: window_cached_def)
      qed
    qed (use Suc.prems in \<open>auto simp: N_def\<close>)
    finally show ?thesis .
  qed
qed

lemma sliding_hit_window:
  assumes "pool_is s l"
  shows "find_longest_cache_hit (SlidingWindowSpec a w) hs s =
    (Inr (window_blocks (\<lambda>j. is_cached s (hs ! j)) (\<lambda>j. first_cached s (hs ! j)) (null_block s)
      (nat (max 1 (cdiv (w - 1) (int (spec_block_size a))))) (length hs)), s)"
  unfolding find_longest_cache_hit_def sliding_longest_cache_hit_def getM_def KVCacheSpec.case
  by (rule sliding_loop_longest [OF assms]) simp_all

text \<open>
  C39. A sliding-window lookup returns the longest reusable prefix: the greatest number of blocks
  whose last \<open>cdiv (window - 1) block_size\<close> (at least one) are all cached; those are the first cached
  block of each hash, and the blocks before them are the null block.
\<close>

theorem sliding_hit_longest:
  assumes "pool_is s l"
  shows "find_longest_cache_hit (SlidingWindowSpec a w) hs s =
    (Inr (window_blocks (\<lambda>j. is_cached s (hs ! j)) (\<lambda>j. first_cached s (hs ! j)) (null_block s)
      (nat (max 1 (cdiv (w - 1) (int (spec_block_size a))))) (length hs)), s)"
  by (rule sliding_hit_window [OF assms])

text \<open>Three usable blocks, two of them cached; the prompt's blocks 1 and 2 hit, 0 and 3 do not.\<close>

definition ex_block_hash :: "int \<Rightarrow> BlockHashType" where
  "ex_block_hash k = \<lparr>hash_value = k, hashed_token_ids = [k], hash_extra_keys = None\<rparr>"

definition ex_attention :: AttentionSpec where
  "ex_attention = \<lparr>spec_block_size = 2, num_kv_heads = 1, head_size = 1, spec_dtype = ''float16'', use_mla = False\<rparr>"

definition blank_manager :: KVCacheManager where
  "blank_manager = \<lparr>q_blocks = [], free_list_head = None, free_list_tail = None, num_free_blocks = 0,
     num_gpu_blocks = 0, enable_caching = False, cached_block_hash_to_block = (\<lambda>h. None), null_block = 0,
     m_block_size = 2, m_spec = FullAttentionSpec ex_attention, max_num_blocks_per_req = 0, num_preallocate_blocks = 0,
     req_to_blocks = [], req_to_block_hashes = [], num_cached_block = (\<lambda>r. None), prefix_cache_stats = new_prefix_cache_stats\<rparr>"

definition ex_pool :: KVCacheManager where
  "ex_pool = snd (thenM (pool_init 4 True) (thenM (thenM (set_block_hash 1 (ex_block_hash 1)) (cache_block (ex_block_hash 1) 1))
     (thenM (set_block_hash 2 (ex_block_hash 2)) (cache_block (ex_block_hash 2) 2))) blank_manager)"

lemma ex_pool_is: "pool_is ex_pool [1..<4]"
proof -
  obtain a where a: "pool_init 4 True blank_manager = (Inr (), a)" "pool_is a [1..<4]" "length (q_blocks a) = 4"
    using pool_init_pool [of 4 True blank_manager] by auto
  have "kv_block_hash (blk 1 (snd (pool_init 4 True blank_manager))) = None" by code_simp
  moreover have "kv_block_hash (blk 2 (snd (pool_init 4 True blank_manager))) = None" by code_simp
  ultimately have n: "kv_block_hash (blk 1 a) = None" "kv_block_hash (blk 2 a) = None" using a(1) by simp_all
  obtain b where b: "thenM (set_block_hash 1 (ex_block_hash 1)) (cache_block (ex_block_hash 1) 1) a = (Inr (), b)"
    "pool_is b [1..<4]" "pool_frame (\<lambda>c. 0) a b" "kv_block_hash (blk 2 b) = kv_block_hash (blk 2 a)"
    using cache_block_pool [OF a(2), of 1 "ex_block_hash 1"] a(3) n(1) by auto
  have "length (q_blocks b) = 4" using b(3) a(3) by (simp add: pool_frame_def)
  then obtain c where c: "thenM (set_block_hash 2 (ex_block_hash 2)) (cache_block (ex_block_hash 2) 2) b = (Inr (), c)" "pool_is c [1..<4]"
    using cache_block_pool [OF b(2), of 2 "ex_block_hash 2"] b(4) n(2) by auto
  have "thenM (pool_init 4 True) (thenM (thenM (set_block_hash 1 (ex_block_hash 1)) (cache_block (ex_block_hash 1) 1))
     (thenM (set_block_hash 2 (ex_block_hash 2)) (cache_block (ex_block_hash 2) 2))) blank_manager = (Inr (), c)"
    by (rule thenM_goes, rule a(1), rule thenM_goes, rule b(1), rule c(1))
  then have "ex_pool = c" by (simp only: ex_pool_def snd_conv)
  with c(2) show ?thesis by simp
qed

lemma sliding_hit_longest_witness:
  "find_longest_cache_hit (SlidingWindowSpec ex_attention 5) (map ex_block_hash [7, 1, 2, 9]) ex_pool = (Inr [0, 1, 2], ex_pool)"
proof -
  let ?hs = "map ex_block_hash [7, 1, 2, 9]"
  have ok: "is_cached ex_pool (?hs ! 1)" "is_cached ex_pool (?hs ! 2)" "\<not> is_cached ex_pool (?hs ! 3)" by code_simp+
  have first: "first_cached ex_pool (?hs ! 1) = 1" "first_cached ex_pool (?hs ! 2) = 2" "null_block ex_pool = 0" by code_simp+
  have "longest_window (\<lambda>j. is_cached ex_pool (?hs ! j)) 2 4 = 3"
  proof (rule longest_windowI)
    show "window_cached (\<lambda>j. is_cached ex_pool (?hs ! j)) 2 3"
      unfolding window_cached_def
    proof (intro allI impI)
      fix j :: nat assume "3 \<le> j + 2" "j < 3"
      then have "j = 1 \<or> j = 2" by auto
      with ok(1,2) show "is_cached ex_pool (?hs ! j)" by auto
    qed
    show "\<not> window_cached (\<lambda>j. is_cached ex_pool (?hs ! j)) 2 k" if "3 < k" "k \<le> 4" for k
    proof -
      from that have "k = 4" by simp
      with ok(3) show ?thesis unfolding window_cached_def by (intro notI) (drule spec [of _ 3], simp)
    qed
  qed simp
  moreover have "window_blocks ok f null 2 4 = [null, f 1, f 2]" if "longest_window ok 2 4 = 3" for ok f and null :: nat
    using that by (simp add: window_blocks_def upt_rec numeral_2_eq_2)
  ultimately have w: "window_blocks (\<lambda>j. is_cached ex_pool (?hs ! j)) (\<lambda>j. first_cached ex_pool (?hs ! j)) (null_block ex_pool) 2 4 = [0, 1, 2]"
    using first by simp
  have n: "nat (max 1 (cdiv (5 - 1) (int (spec_block_size ex_attention)))) = 2" by code_simp
  have l: "length ?hs = 4" by simp
  show ?thesis unfolding sliding_hit_longest [OF ex_pool_is] n l w by (rule refl)
qed

subsection \<open>Every operation keeps the accounts\<close>

text \<open>A lookup reads the pool and writes hashes and statistics only.\<close>

definition lookup_frame :: "KVCacheManager \<Rightarrow> KVCacheManager \<Rightarrow> bool" where
  "lookup_frame s t \<longleftrightarrow> same_pool s t \<and> req_to_blocks t = req_to_blocks s \<and> km_same s t \<and> num_cached_block t = num_cached_block s"

lemma lookup_frame_refl: "lookup_frame s s"
  by (simp add: lookup_frame_def same_pool_def km_same_def)

lemma lookup_frame_trans: "lookup_frame s t \<Longrightarrow> lookup_frame t u \<Longrightarrow> lookup_frame s u"
  by (simp add: lookup_frame_def same_pool_def km_same_def)

lemma lookup_frame_upd:
  "lookup_frame s (s\<lparr>req_to_block_hashes := e\<rparr>)" "lookup_frame s (s\<lparr>prefix_cache_stats := p\<rparr>)"
  by (simp_all add: lookup_frame_def same_pool_upd km_same_def)

lemma lookup_frame_inv: "km_inv e s \<Longrightarrow> lookup_frame s t \<Longrightarrow> km_inv e t"
  by (rule km_inv_same) (simp_all add: lookup_frame_def)

lemma lookup_writes:
  "get_req_hashes rid s = (Inr hs, t) \<Longrightarrow> lookup_frame s t"
  "set_req_hashes rid hs s = (Inr (), t) \<Longrightarrow> lookup_frame s t"
  "add_stats a b c s = (Inr (), t) \<Longrightarrow> lookup_frame s t"
  by (auto simp: get_req_hashes_run set_req_hashes_def add_stats_def ok_simps intro: lookup_frame_upd)

lemma find_longest_hit_pool:
  assumes s: "pool_is s l"
  shows "\<exists>bs. find_longest_cache_hit spec hs s = (Inr bs, s) \<and> length bs \<le> length hs \<and> (\<forall>b \<in> set bs. b < length (q_blocks s))"
proof (cases spec)
  case (FullAttentionSpec a)
  have "first_cached s h < length (q_blocks s)" if "h \<in> set (takeWhile (is_cached s) hs)" for h
    using get_cached_block_pool [OF s, of h] set_takeWhileD [OF that] by blast
  then show ?thesis using FullAttentionSpec full_longest_hit [OF s, of hs]
    by (auto simp: find_longest_cache_hit_def length_takeWhile_le)
next
  case (SlidingWindowSpec a w)
  let ?ok = "\<lambda>j. is_cached s (hs ! j)" and ?n = "nat (max 1 (cdiv (w - 1) (int (spec_block_size a))))"
  let ?m = "longest_window ?ok ?n (length hs)" and ?S = "{m. m \<le> length hs \<and> window_cached ?ok ?n m}"
  have "window_cached ?ok ?n 0" by (simp add: window_cached_def)
  then have "?S \<noteq> {}" by auto
  moreover have "finite ?S" by simp
  ultimately have "?m \<in> ?S" unfolding longest_window_def by (rule Max_in [rotated])
  then have m: "?m \<le> length hs" "window_cached ?ok ?n ?m" by simp_all
  have null: "null_block s < length (q_blocks s)" using s by (simp add: pool_is_def pool_core_def)
  have "b < length (q_blocks s)"
    if b: "b \<in> set (window_blocks ?ok (\<lambda>j. first_cached s (hs ! j)) (null_block s) ?n (length hs))" for b
  proof -
    from b have "b \<in> (\<lambda>j. if ?m \<le> j + ?n then first_cached s (hs ! j) else null_block s) ` {0..<?m}"
      by (simp only: window_blocks_def Let_def set_map set_upt)
    then obtain j where "b = (if ?m \<le> j + ?n then first_cached s (hs ! j) else null_block s)" "j \<in> {0..<?m}"
      by (rule imageE)
    then have j: "j < ?m" "b = (if ?m \<le> j + ?n then first_cached s (hs ! j) else null_block s)" by simp_all
    show ?thesis
    proof (cases "?m \<le> j + ?n")
      case True
      with m(2) j(1) have "?ok j" unfolding window_cached_def by blast
      with True j(2) get_cached_block_pool [OF s, of "hs ! j"] show ?thesis by simp
    next
      case False
      with j(2) null show ?thesis by simp
    qed
  qed
  moreover have "length (window_blocks ?ok (\<lambda>j. first_cached s (hs ! j)) (null_block s) ?n (length hs)) \<le> length hs"
    using m(1) by (simp add: window_blocks_def Let_def)
  ultimately show ?thesis unfolding SlidingWindowSpec sliding_hit_window [OF s] by blast
qed

lemma get_computed_blocks_frame:
  assumes s: "pool_is s l" and run: "get_computed_blocks F nh r s = (Inr (bs, k), t)"
  shows "lookup_frame s t \<and> (\<forall>b \<in> set bs. b < length (q_blocks s)) \<and> k = int (length bs) * int (m_block_size s)"
proof (cases "enable_caching s")
  case False
  with run show ?thesis by (simp add: get_computed_blocks_def ok_simps lookup_frame_refl)
next
  case True
  define look where "look = (\<lambda>hs. if int (length hs) * int (m_block_size s) = req_num_tokens r
                then thenM (guardM (hs = []) IndexError)
                    (thenM (set_req_hashes (request_id r) (butlast hs))
                    (bindM (find_longest_cache_hit (m_spec s) (butlast hs)) (\<lambda>bs.
                     thenM (set_req_hashes (request_id r) hs) (retM bs))))
                else find_longest_cache_hit (m_spec s) hs)"
  have look: "lookup_frame u v \<and> (\<forall>b \<in> set bs. b < length (q_blocks s))"
    if "look hs u = (Inr bs, v)" "lookup_frame s u" for hs u bs v
  proof -
    have fields: "pool_is u' l \<and> length (q_blocks u') = length (q_blocks s)" if "lookup_frame s u'" for u'
      using that s same_pool_is same_pool_fields(1) by (metis lookup_frame_def)
    show ?thesis
    proof (cases "int (length hs) * int (m_block_size s) = req_num_tokens r")
      case True
      with that(1) obtain a w where a: "set_req_hashes (request_id r) (butlast hs) u = (Inr (), a)"
        and f: "find_longest_cache_hit (m_spec s) (butlast hs) a = (Inr bs, w)"
        and v: "set_req_hashes (request_id r) hs w = (Inr (), v)"
        by (auto simp: look_def ok_simps)
      have sa: "lookup_frame s a" using that(2) lookup_writes(2) [OF a] by (rule lookup_frame_trans)
      with find_longest_hit_pool [of a l "m_spec s" "butlast hs"] fields f
      have "w = a" "\<forall>b \<in> set bs. b < length (q_blocks s)" by auto
      moreover have "lookup_frame u v"
        using lookup_frame_trans [OF lookup_writes(2) [OF a] lookup_writes(2) [OF v [unfolded \<open>w = a\<close>]]] .
      ultimately show ?thesis by simp
    next
      case False
      with that(1) have "find_longest_cache_hit (m_spec s) hs u = (Inr bs, v)" by (simp add: look_def)
      with find_longest_hit_pool [of u l "m_spec s" hs] fields [OF that(2)] show ?thesis by (auto simp: lookup_frame_refl)
    qed
  qed
  define known where "known = (\<lambda>hs. if hs = [] then bindM (liftM (hash_request_tokens F nh (m_block_size s) r)) (\<lambda>hs.
                thenM (set_req_hashes (request_id r) hs) (retM hs)) else retM hs)"
  define count where "count = (\<lambda>hs. if sp_prompt_logprobs (sampling_params r) = None then
         bindM (look hs) (\<lambda>computed. thenM (add_stats 0 (int (length hs)) (int (length computed)))
               (retM (computed, int (length computed) * int (m_block_size s))))
       else retM ([], 0))"
  have "get_computed_blocks F nh r s = bindM (get_req_hashes (request_id r)) (\<lambda>hs. bindM (known hs) (\<lambda>hs. thenM (add_stats 1 0 0) (count hs))) s"
    unfolding get_computed_blocks_def getM_run id_apply known_def count_def look_def using True by (simp only: not_True_eq_False if_False)
  with run obtain hs0 a hs b c where a: "get_req_hashes (request_id r) s = (Inr hs0, a)"
    and b: "known hs0 a = (Inr hs, b)" and c: "add_stats 1 0 0 b = (Inr (), c)" and d: "count hs c = (Inr (bs, k), t)"
    by (auto simp only: bindM_ok thenM_ok)
  have "lookup_frame a b" using b by (auto simp: known_def ok_simps lookup_frame_refl dest: lookup_writes(2) split: if_splits)
  then have sc: "lookup_frame s c" using lookup_writes(1) [OF a] lookup_writes(3) [OF c] lookup_frame_trans by blast
  show ?thesis
  proof (cases "sp_prompt_logprobs (sampling_params r) = None")
    case True
    with d obtain v where v: "look hs c = (Inr bs, v)" "add_stats 0 (int (length hs)) (int (length bs)) v = (Inr (), t)"
      "k = int (length bs) * int (m_block_size s)" by (auto simp: count_def ok_simps)
    with look [OF v(1) sc] lookup_writes(3) [OF v(2)] sc lookup_frame_trans show ?thesis by blast
  next
    case False
    with d sc show ?thesis by (simp add: count_def ok_simps)
  qed
qed

lemma km_free_inv:
  assumes s: "km_inv (\<lambda>b. 0) s"
  shows "\<exists>t. km_free r s = (Inr (), t) \<and> km_inv (\<lambda>b. 0) t \<and> blocks_of t (request_id r) = []
    \<and> (\<forall>q. q \<noteq> request_id r \<longrightarrow> blocks_of t q = blocks_of s q)"
proof -
  let ?bs = "blocks_of s (request_id r)"
  let ?a = "s\<lparr>req_to_blocks := dict_del (request_id r) (req_to_blocks s)\<rparr>"
  let ?o = "if enable_caching s then rev ?bs else ?bs"
  have o: "set ?o = set ?bs" "count_list ?o b = count_list ?bs b" for b by simp_all
  have a: "km_inv (\<lambda>b. int (count_list ?o b)) ?a" using km_inv_del_blocks [OF s, of "request_id r"] o(2) by simp
  then obtain l where l: "pool_is ?a l" by (auto simp: km_inv_def)
  have v: "\<forall>b \<in> set ?o. b < length (q_blocks ?a)" using s o(1) by (auto simp: km_inv_def split: option.splits)
  have "\<forall>b \<in> set ?o. 0 < b \<longrightarrow> int (count_list ?o b) \<le> ref_cnt (blk b ?a)"
  proof (intro ballI impI)
    fix b assume b: "b \<in> set ?o" "0 < b"
    then have "b < length (q_blocks ?a)" using v by blast
    with a b(2) have "ref_cnt (blk b ?a) = total_refs (req_to_blocks ?a) b + int (count_list ?o b)" unfolding km_inv_def by blast
    with total_refs_nonneg [of "req_to_blocks ?a" b] show "int (count_list ?o b) \<le> ref_cnt (blk b ?a)" by linarith
  qed
  from free_blocks_pool [OF l v this] obtain u l' where u: "free_blocks ?o ?a = (Inr (), u)" "pool_is u l'"
    and f: "pool_frame (\<lambda>b. - int (count_list ?o b)) ?a u" by blast
  have "km_inv (\<lambda>b. int (count_list ?o b) + - int (count_list ?o b)) u" by (rule km_inv_frame [OF a u(2) f])
  then have iu: "km_inv (\<lambda>b. 0) u" by simp
  let ?t = "u\<lparr>num_cached_block := (num_cached_block u)(request_id r := None)\<rparr>"
  have "km_free r s = (Inr (), ?t)"
    using u(1) by (cases "enable_caching s") (simp_all add: km_free_def run_simps Let_def)
  moreover have "km_inv (\<lambda>b. 0) ?t" by (rule km_inv_same [OF iu]) (simp_all add: same_pool_upd)
  moreover have "req_to_blocks ?t = dict_del (request_id r) (req_to_blocks s)"
    using more_fields(5) [of u ?a] pool_frame_more [OF f] by simp
  ultimately show ?thesis by auto
qed

subsection \<open>Histories of the manager\<close>

text \<open>
  \<open>km_reachable F none_hash s\<close>: the manager was built and reached \<open>s\<close> by calls that returned. The new
  computed blocks passed to \<open>allocate_slots\<close> are blocks of the pool, as \<open>get_computed_blocks\<close> returns them.
\<close>

inductive km_reachable :: "hash_fn \<Rightarrow> int \<Rightarrow> KVCacheManager \<Rightarrow> bool" for F none_hash where
  built: "manager_init groups n max_len caching pre s = (Inr (), t) \<Longrightarrow> km_reachable F none_hash t"
| looked_up: "km_reachable F none_hash s \<Longrightarrow> get_computed_blocks F none_hash r s = (Inr x, t) \<Longrightarrow> km_reachable F none_hash t"
| allocated: "km_reachable F none_hash s \<Longrightarrow> \<forall>b \<in> set hits. b < num_gpu_blocks s \<Longrightarrow>
    allocate_slots F none_hash r k hits s = (Inr res, t) \<Longrightarrow> km_reachable F none_hash t"
| freed: "km_reachable F none_hash s \<Longrightarrow> km_free r s = (Inr (), t) \<Longrightarrow> km_reachable F none_hash t"
| hashes_dropped: "km_reachable F none_hash s \<Longrightarrow> free_block_hashes r s = (Inr (), t) \<Longrightarrow> km_reachable F none_hash t"
| cache_reset: "km_reachable F none_hash s \<Longrightarrow> km_reset_prefix_cache s = (Inr ok, t) \<Longrightarrow> km_reachable F none_hash t"
| prefix_counted: "km_reachable F none_hash s \<Longrightarrow> get_num_common_prefix_blocks r n s = (Inr m, t) \<Longrightarrow> km_reachable F none_hash t"
| stats_taken: "km_reachable F none_hash s \<Longrightarrow> make_prefix_cache_stats s = (Inr st, t) \<Longrightarrow> km_reachable F none_hash t"

lemma alloc_parts_inv: "alloc_parts s r k hits res t removed kept u n \<Longrightarrow> km_inv (\<lambda>b. 0) t"
  unfolding alloc_parts_def by (elim conjE, split if_split_asm) (blast, blast)

lemma km_reachable_inv:
  assumes "km_reachable F nh s"
  shows "km_inv (\<lambda>b. 0) s"
  using assms
proof (induction rule: km_reachable.induct)
  case (built groups n max_len caching pre s t)
  then obtain a u where u: "pool_init n caching a = (Inr (), u)"
    and t: "t = u\<lparr>req_to_blocks := [], req_to_block_hashes := [], num_cached_block := (\<lambda>r. None), prefix_cache_stats := new_prefix_cache_stats\<rparr>"
    by (auto simp: manager_init_def ok_simps Let_def)
  from u have n: "0 < n" by (simp add: pool_init_def ok_simps)
  from pool_init_pool [OF n, of caching a] u have p: "pool_is u [1..<n]" "length (q_blocks u) = n" "\<forall>b < n. ref_cnt (blk b u) = 0" by auto
  have "same_pool u t" by (simp add: t same_pool_def KVBlockPool.truncate_def)
  then have "pool_is t [1..<n]" "q_blocks t = q_blocks u" using p(1) same_pool_is same_pool_fields(1) by blast+
  moreover have "req_to_blocks t = []" by (simp add: t)
  ultimately show ?case using p(2,3) unfolding km_inv_def by (auto simp: total_refs_def)
next
  case (looked_up s r x t)
  obtain bs k where "x = (bs, k)" by (cases x)
  moreover obtain l where "pool_is s l" using looked_up.IH by (auto simp: km_inv_def)
  ultimately have "lookup_frame s t" using get_computed_blocks_frame looked_up.hyps(2) by blast
  with looked_up.IH show ?case by (rule lookup_frame_inv)
next
  case (allocated s hits r k res t)
  then obtain l where "pool_is s l" by (auto simp: km_inv_def)
  then have "\<forall>b \<in> set hits. b < length (q_blocks s)" using allocated.hyps(2) by (simp add: pool_is_def pool_core_def)
  from allocate_slots_parts [OF allocated.IH this allocated.hyps(3)] show ?case by (elim exE) (rule alloc_parts_inv)
next
  case (freed s r t)
  with km_free_inv [OF freed.IH, of r] show ?case by auto
next
  case (hashes_dropped s r t)
  then show ?case by (auto simp: free_block_hashes_def ok_simps intro: lookup_frame_inv lookup_frame_upd)
next
  case (cache_reset s ok t)
  then obtain u ok' where u: "pool_reset_prefix_cache s = (Inr ok', u)" "lookup_frame u t"
    by (auto simp: km_reset_prefix_cache_def ok_simps lookup_frame_refl lookup_frame_upd split: if_splits)
  from cache_reset.IH obtain l where "pool_is s l" by (auto simp: km_inv_def)
  from pool_reset_pool [OF this u(1)] have p: "pool_is u l" "cached_frame s u" "KVBlockPool.more u = KVBlockPool.more s" by simp_all
  then have "km_inv (\<lambda>b. 0) u" using cache_reset.IH more_fields(5) [OF p(3)] by (auto simp: km_inv_def cached_frame_def)
  then show ?case using u(2) by (rule lookup_frame_inv)
next
  case (prefix_counted s r n m t)
  then obtain bs where "get_req_blocks (request_id r) s = (Inr bs, t)"
    by (auto simp: get_num_common_prefix_blocks_def ok_simps)
  with get_req_blocks_inv [OF prefix_counted.IH] show ?case by blast
next
  case (stats_taken s st t)
  then show ?case by (auto simp: make_prefix_cache_stats_def ok_simps intro: lookup_frame_inv lookup_frame_upd)
qed

lemma total_refs_zero:
  assumes "dict_ok d"
  shows "total_refs d b = 0 \<longleftrightarrow> (\<forall>r bs. dict_get d r = Some bs \<longrightarrow> b \<notin> set bs)"
proof -
  have "total_refs d b = 0 \<longleftrightarrow> (\<forall>(r, bs) \<in> set d. b \<notin> set bs)"
    unfolding total_refs_def by (subst sum_list_nonneg_eq_0_iff) (auto simp: count_list_0_iff)
  also have "\<dots> \<longleftrightarrow> (\<forall>r bs. dict_get d r = Some bs \<longrightarrow> b \<notin> set bs)"
    using assms dict_get_in dict_in_get by (metis (mono_tags, lifting) case_prodD case_prodI2)
  finally show ?thesis .
qed


lemma sole_user:
  assumes "km_inv (\<lambda>b. 0) t" and "b \<in> set (blocks_of t rid)" and "0 < b" "b < length (q_blocks t)" "ref_cnt (blk b t) = 1"
  shows "count_list (blocks_of t rid) b = 1 \<and> (\<forall>q. q \<noteq> rid \<longrightarrow> b \<notin> set (blocks_of t q))"
proof -
  have ok: "dict_ok (req_to_blocks t)" using assms(1) by (simp add: km_inv_def)
  have "total_refs (req_to_blocks t) b = 1" using assms by (auto simp: km_inv_def)
  moreover have "1 \<le> count_list (blocks_of t rid) b"
    using assms(2) count_list_0_iff [of "blocks_of t rid" b] by (cases "count_list (blocks_of t rid) b") auto
  moreover note total_refs_del [OF ok, of rid b] total_refs_nonneg [of "dict_del rid (req_to_blocks t)" b]
  ultimately have one: "count_list (blocks_of t rid) b = 1" and z: "total_refs (dict_del rid (req_to_blocks t)) b = 0"
    by linarith+
  from total_refs_zero [OF dict_ok_del [OF ok]] z
  have "\<forall>q bs. dict_get (dict_del rid (req_to_blocks t)) q = Some bs \<longrightarrow> b \<notin> set bs" by blast
  then have "b \<notin> set bs" if "q \<noteq> rid" "dict_get (req_to_blocks t) q = Some bs" for q bs
    using that by (simp only: dict_get_del) (metis fun_upd_other)
  with one show ?thesis by (auto split: option.splits)
qed

text \<open>Five usable blocks of two tokens; a request of three tokens takes two of them.\<close>

definition ex_km0 :: KVCacheManager where
  "ex_km0 = snd (manager_init [FullAttentionSpec ex_attention] 6 16 True 0 blank_manager)"

definition ex_km :: KVCacheManager where
  "ex_km = snd (allocate_slots ex_hash_fn 7 (ex_request [5, 6, 8]) 3 [] ex_km0)"

lemma ex_km0_reachable: "km_reachable ex_hash_fn 7 ex_km0"
proof -
  have "fst (manager_init [FullAttentionSpec ex_attention] 6 16 True 0 blank_manager) = Inr ()" by code_simp
  then show ?thesis unfolding ex_km0_def by (metis km_reachable.built prod.collapse)
qed

lemma ex_km_run: "allocate_slots ex_hash_fn 7 (ex_request [5, 6, 8]) 3 [] ex_km0 = (Inr (Some [1, 2]), ex_km)"
proof -
  have "fst (allocate_slots ex_hash_fn 7 (ex_request [5, 6, 8]) 3 [] ex_km0) = Inr (Some [1, 2])" by code_simp
  then show ?thesis unfolding ex_km_def by (metis prod.collapse)
qed

lemma ex_km_reachable: "km_reachable ex_hash_fn 7 ex_km"
  by (rule km_reachable.allocated [OF ex_km0_reachable _ ex_km_run]) simp


text \<open>
  C38. Full attention: \<open>allocate_slots\<close> returns \<open>None\<close> exactly when the free blocks, less the hits
  among them, do not cover the blocks still needed, and then no request's blocks change. Otherwise it
  appends the hits and new blocks to the request's list and leaves the others; each new block is used
  once, by this request; and the list holds all tokens, unless that takes more blocks than a request may have.
\<close>

theorem allocate_slots_full:
  assumes "km_reachable F none_hash s" and "m_spec s = FullAttentionSpec a" and "0 \<le> num_preallocate_blocks s"
    and "\<forall>b \<in> set hits. b < num_gpu_blocks s" and "allocate_slots F none_hash r k hits s = (Inr res, t)"
  defines "old \<equiv> blocks_of s (request_id r)" and "needed \<equiv> blocks_needed s r k hits"
  shows "(res = None \<longleftrightarrow> get_num_free_blocks s - int (length (filter (\<lambda>b. ref_cnt (blk b s) = 0) hits))
      < needed - int (length old) - int (length hits)) \<and>
    (\<forall>q. q \<noteq> request_id r \<longrightarrow> blocks_of t q = blocks_of s q) \<and>
    (case res of None \<Rightarrow> blocks_of t (request_id r) = old
     | Some new \<Rightarrow> blocks_of t (request_id r) = old @ hits @ new \<and>
        (\<forall>b \<in> set new. count_list (blocks_of t (request_id r)) b = 1 \<and> (\<forall>q. q \<noteq> request_id r \<longrightarrow> b \<notin> set (blocks_of t q))) \<and>
        (needed \<le> max_num_blocks_per_req s \<longrightarrow> needed \<le> int (length (blocks_of t (request_id r)))))"
proof -
  have i: "km_inv (\<lambda>b. 0) s" by (rule km_reachable_inv [OF assms(1)])
  then have "num_gpu_blocks s = length (q_blocks s)" by (auto simp: km_inv_def pool_is_def pool_core_def)
  with assms(4) have h: "\<forall>b \<in> set hits. b < length (q_blocks s)" by simp
  let ?free = "\<lambda>u. get_num_free_blocks u - int (length (filter (\<lambda>b. ref_cnt (blk b u) = 0) hits))"
  let ?n = "needed - int (length old) - int (length hits)"
  from allocate_slots_parts [OF i h assms(5)] obtain removed kept u n where
    parts: "alloc_parts s r k hits res t removed kept u n" by blast
  have sk: "remove_skipped_blocks (m_spec s) (null_block s) (blocks_of s (request_id r)) (num_computed_tokens r) = Inr (removed, kept)"
    and n: "n = blocks_needed s r k hits - int (length kept) - int (length hits)"
    and u0: "km_inv (\<lambda>b. 0) u" "km_same s u" "enable_caching u = enable_caching s" "length (q_blocks u) = length (q_blocks s)"
      "\<forall>q. q \<noteq> request_id r \<longrightarrow> blocks_of u q = blocks_of s q"
      "removed = [] \<longrightarrow> get_num_free_blocks u = get_num_free_blocks s \<and> (\<forall>b < length (q_blocks s). ref_cnt (blk b u) = ref_cnt (blk b s))"
    and cases0: "if ?free u < n then res = None \<and> t = u \<and> blocks_of t (request_id r) = kept
      else \<exists>new. res = Some new \<and> km_inv (\<lambda>b. 0) t \<and> km_same s t \<and> enable_caching t = enable_caching s \<and> length (q_blocks t) = length (q_blocks s)
        \<and> blocks_of t (request_id r) = kept @ hits @ new \<and> (\<forall>q. q \<noteq> request_id r \<longrightarrow> blocks_of t q = blocks_of s q)
        \<and> distinct new \<and> (\<forall>b \<in> set new. 0 < b \<and> b < length (q_blocks s) \<and> ref_cnt (blk b t) = 1)
        \<and> (n \<le> 0 \<longrightarrow> new = []) \<and> (0 < n \<longrightarrow> int (length new) \<le> n + num_preallocate_blocks s
            \<and> int (length (kept @ hits @ new)) \<le> max_num_blocks_per_req s)
        \<and> (0 < n \<longrightarrow> 0 \<le> num_preallocate_blocks s \<longrightarrow> int (length (kept @ hits)) + n \<le> max_num_blocks_per_req s \<longrightarrow> n \<le> int (length new))"
    using parts unfolding alloc_parts_def by blast+
  have old: "removed = []" "kept = old" using sk assms(2) by (simp_all add: remove_skipped_blocks_def old_def)
  have n': "n = ?n" by (simp add: n old needed_def)
  note cases = cases0 [unfolded old n'] and u = u0(6) [rule_format, OF old(1), THEN conjunct1] u0(6) [rule_format, OF old(1), THEN conjunct2] u0(5)
  have "filter (\<lambda>b. ref_cnt (blk b u) = 0) hits = filter (\<lambda>b. ref_cnt (blk b s) = 0) hits"
    using u(2) h by (intro filter_cong) auto
  with u(1) have free: "?free u = ?free s" by simp
  show ?thesis
  proof (cases "?free u < ?n")
    case True
    have c: "res = None \<and> t = u \<and> blocks_of t (request_id r) = old" using cases unfolding if_P [OF True] .
    then have "\<forall>q. q \<noteq> request_id r \<longrightarrow> blocks_of t q = blocks_of s q" using u(3) by blast
    moreover have "res = None" "blocks_of t (request_id r) = old" using c by blast+
    ultimately show ?thesis using True free by simp
  next
    case False
    with cases obtain new where res: "res = Some new" and inv: "km_inv (\<lambda>b. 0) t" and len: "length (q_blocks t) = length (q_blocks s)"
      and bt: "blocks_of t (request_id r) = old @ hits @ new" and others: "\<forall>q. q \<noteq> request_id r \<longrightarrow> blocks_of t q = blocks_of s q"
      and one: "\<forall>b \<in> set new. 0 < b \<and> b < length (q_blocks s) \<and> ref_cnt (blk b t) = 1"
      and cap: "0 < ?n \<longrightarrow> 0 \<le> num_preallocate_blocks s \<longrightarrow> int (length (old @ hits)) + ?n \<le> max_num_blocks_per_req s \<longrightarrow> ?n \<le> int (length new)"
      by auto
    have "count_list (blocks_of t (request_id r)) b = 1 \<and> (\<forall>q. q \<noteq> request_id r \<longrightarrow> b \<notin> set (blocks_of t q))" if b: "b \<in> set new" for b
    proof (rule sole_user [OF inv])
      show "b \<in> set (blocks_of t (request_id r))" unfolding bt using b by simp
      show "0 < b" "b < length (q_blocks t)" "ref_cnt (blk b t) = 1" using one b len by simp_all
    qed
    moreover have "needed \<le> max_num_blocks_per_req s \<longrightarrow> needed \<le> int (length (blocks_of t (request_id r)))"
      using cap assms(3) unfolding bt by auto
    ultimately show ?thesis using False free res bt others by simp
  qed
qed

lemma allocate_slots_full_witness:
  "allocate_slots ex_hash_fn 7 (ex_request [5, 6, 8]) 3 [] ex_km0 = (Inr (Some [1, 2]), ex_km) \<and>
   blocks_of ex_km ''r'' = [1, 2] \<and> count_list (blocks_of ex_km ''r'') 1 = 1 \<and> 1 \<notin> set (blocks_of ex_km ''q'')"
proof -
  have "m_spec ex_km0 = FullAttentionSpec ex_attention" "0 \<le> num_preallocate_blocks ex_km0" by code_simp+
  note T = allocate_slots_full [OF ex_km0_reachable this _ ex_km_run]
  have r: "request_id (ex_request [5, 6, 8]) = ''r''" "blocks_of ex_km ''r'' = [1, 2]" by code_simp+
  have "\<forall>b \<in> set [1, 2]. count_list (blocks_of ex_km ''r'') b = 1 \<and> (\<forall>q. q \<noteq> ''r'' \<longrightarrow> b \<notin> set (blocks_of ex_km q))" (is "\<forall>b \<in> _. ?P b")
    by (rule T [THEN conjunct2, THEN conjunct2, unfolded r(1) option.case, THEN conjunct2, THEN conjunct1]) simp
  then have "?P 1" by (rule bspec) simp
  moreover from this have "1 \<notin> set (blocks_of ex_km ''q'')" by (elim conjE allE [of _ "''q''"]) simp_all
  ultimately show ?thesis using ex_km_run r(2) by blast
qed

subsection \<open>Draft tokens beyond the budget\<close>

text \<open>
  A request with a prompt of four tokens in two cached blocks, then with one output token and three
  draft tokens of which the budget allows none, then with one token more and no drafts.
\<close>

definition ex_prompt :: Request where
  "ex_prompt = ex_request [1, 2, 3, 4]"

definition ex_drafted :: Request where
  "ex_drafted = ex_prompt\<lparr>all_token_ids := [1, 2, 3, 4, 5], output_token_ids := [5], spec_token_ids := [6, 7, 8], num_computed_tokens := 4\<rparr>"

definition ex_next :: Request where
  "ex_next = ex_prompt\<lparr>all_token_ids := [1, 2, 3, 4, 5, 6], output_token_ids := [5, 6], num_computed_tokens := 5\<rparr>"

definition ex_km1 :: KVCacheManager where
  "ex_km1 = snd (get_computed_blocks ex_hash_fn 7 ex_prompt ex_km0)"

definition ex_km2 :: KVCacheManager where
  "ex_km2 = snd (allocate_slots ex_hash_fn 7 ex_prompt 4 [] ex_km1)"

definition ex_km3 :: KVCacheManager where
  "ex_km3 = snd (allocate_slots ex_hash_fn 7 ex_drafted 1 [] ex_km2)"

lemma ex_km3_reachable: "km_reachable ex_hash_fn 7 ex_km3"
proof -
  have "fst (get_computed_blocks ex_hash_fn 7 ex_prompt ex_km0) = Inr ([], 0)" by code_simp
  then have "get_computed_blocks ex_hash_fn 7 ex_prompt ex_km0 = (Inr ([], 0), ex_km1)" unfolding ex_km1_def by (metis prod.collapse)
  then have r1: "km_reachable ex_hash_fn 7 ex_km1" by (rule km_reachable.looked_up [OF ex_km0_reachable])
  have "fst (allocate_slots ex_hash_fn 7 ex_prompt 4 [] ex_km1) = Inr (Some [1, 2])" by code_simp
  then have a2: "allocate_slots ex_hash_fn 7 ex_prompt 4 [] ex_km1 = (Inr (Some [1, 2]), ex_km2)" unfolding ex_km2_def by (metis prod.collapse)
  have r2: "km_reachable ex_hash_fn 7 ex_km2" by (rule km_reachable.allocated [OF r1 _ a2]) simp
  have "fst (allocate_slots ex_hash_fn 7 ex_drafted 1 [] ex_km2) = Inr (Some [3])" by code_simp
  then have a3: "allocate_slots ex_hash_fn 7 ex_drafted 1 [] ex_km2 = (Inr (Some [3]), ex_km3)" unfolding ex_km3_def by (metis prod.collapse)
  show ?thesis by (rule km_reachable.allocated [OF r2 _ a3]) simp
qed


end
