(* ===== verification/PartialLoops.thy ===== *)
theory PartialLoops
  imports Prelude
begin

section \<open>Loops that may run forever\<close>

text \<open>
  A method with a loop \<open>while True\<close> has a run that may not end: \<open>None\<close>. \<open>loopL body\<close> runs the body
  until it raises or leaves the loop with a value (\<open>Some x\<close>); a body that answers \<open>None\<close> goes on.
  \<open>loopL_inv\<close> is the rule of a loop's invariant, \<open>loopL_returns\<close> of its measure.
\<close>

type_synonym ('s, 'a) lp = "'s \<Rightarrow> ((exn + 'a) \<times> 's) option"

definition liftL :: "('s, 'a) st \<Rightarrow> ('s, 'a) lp" where
  "liftL m = (\<lambda>s. Some (m s))"

definition bindL :: "('s, 'a) lp \<Rightarrow> ('a \<Rightarrow> ('s, 'b) lp) \<Rightarrow> ('s, 'b) lp" where
  "bindL m k = (\<lambda>s. case m s of None \<Rightarrow> None
     | Some (r, t) \<Rightarrow> (case r of Inl e \<Rightarrow> Some (Inl e, t) | Inr x \<Rightarrow> k x t))"

definition getL :: "('s \<Rightarrow> 'a) \<Rightarrow> ('a \<Rightarrow> ('s, 'b) lp) \<Rightarrow> ('s, 'b) lp" where
  "getL f k = (\<lambda>s. k (f s) s)"

partial_function (option) loopL :: "('s, 'a option) lp \<Rightarrow> ('s, 'a) lp" where
  "loopL body s = Option.bind (body s) (\<lambda>(r, t). case r of
     Inl e \<Rightarrow> Some (Inl e, t)
   | Inr None \<Rightarrow> loopL body t
   | Inr (Some x) \<Rightarrow> Some (Inr x, t))"

declare loopL.simps [code]

lemma liftL_run [run_simps]: "liftL m s = Some (m s)"
  by (simp add: liftL_def)

lemma bindL_run [run_simps]:
  "bindL m k s = (case m s of None \<Rightarrow> None
     | Some (r, t) \<Rightarrow> (case r of Inl e \<Rightarrow> Some (Inl e, t) | Inr x \<Rightarrow> k x t))"
  by (simp add: bindL_def)

lemma getL_run [run_simps]: "getL f k s = k (f s) s"
  by (simp add: getL_def)

lemma liftL_ok [ok_simps]: "liftL m s = Some (Inr y, t) \<longleftrightarrow> m s = (Inr y, t)"
  by (auto simp: liftL_def)

lemma bindL_ok [ok_simps]:
  "bindL m k s = Some (Inr y, t) \<longleftrightarrow> (\<exists>x u. m s = Some (Inr x, u) \<and> k x u = Some (Inr y, t))"
  by (auto simp: bindL_def split: option.splits sum.splits)

lemma getL_ok [ok_simps]: "getL f k s = Some (Inr y, t) \<longleftrightarrow> k (f s) s = Some (Inr y, t)"
  by (simp add: getL_def)

lemma loopL_inv:
  assumes "loopL body s = Some (Inr x, t)" and "I s"
    and goes: "\<And>u v. I u \<Longrightarrow> body u = Some (Inr None, v) \<Longrightarrow> I v"
    and leaves: "\<And>u v y. I u \<Longrightarrow> body u = Some (Inr (Some y), v) \<Longrightarrow> Q y v"
  shows "Q x t"
proof -
  have "I s \<longrightarrow> (\<forall>x. fst r = Inr x \<longrightarrow> Q x (snd r))" if "loopL body s = Some r" for s r
  proof (rule loopL.raw_induct [OF _ that, where P = "\<lambda>b s r. b = body \<longrightarrow> I s \<longrightarrow> (\<forall>x. fst r = Inr x \<longrightarrow> Q x (snd r))", THEN mp])
    fix rec b s r
    assume rec: "\<And>b s r. rec b s = Some r \<Longrightarrow> b = body \<longrightarrow> I s \<longrightarrow> (\<forall>x. fst r = Inr x \<longrightarrow> Q x (snd r))"
      and run: "Option.bind (b s) (\<lambda>(r, t). case r of Inl e \<Rightarrow> Some (Inl e, t) | Inr None \<Rightarrow> rec b t | Inr (Some x) \<Rightarrow> Some (Inr x, t)) = Some r"
    show "b = body \<longrightarrow> I s \<longrightarrow> (\<forall>x. fst r = Inr x \<longrightarrow> Q x (snd r))"
    proof (intro impI)
      assume b: "b = body" and i: "I s"
      from run obtain q u where q: "body s = Some (q, u)" by (auto simp: b bind_eq_Some_conv)
      show "\<forall>x. fst r = Inr x \<longrightarrow> Q x (snd r)"
      proof (cases q)
        case (Inl e)
        with run q b show ?thesis by auto
      next
        case (Inr y)
        show ?thesis
        proof (cases y)
          case None
          with Inr q goes i have "I u" by auto
          moreover from run q b Inr None have "rec body u = Some r" by simp
          ultimately show ?thesis using rec by blast
        next
          case (Some z)
          with run q b Inr have "r = (Inr z, u)" by simp
          with leaves [OF i] q Inr Some show ?thesis by auto
        qed
      qed
    qed
  qed simp
  with assms(1,2) show ?thesis by fastforce
qed

lemma loopL_returns:
  assumes "I s"
    and step: "\<And>u. I u \<Longrightarrow> \<exists>r v. body u = Some (r, v) \<and> (r = Inr None \<longrightarrow> I v \<and> (f v :: nat) < f u)"
  shows "\<exists>r t. loopL body s = Some (r, t)"
  using assms(1)
proof (induction "f s" arbitrary: s rule: less_induct)
  case less
  from step [OF less.prems] obtain r v where r: "body s = Some (r, v)" "r = Inr None \<longrightarrow> I v \<and> f v < f s" by blast
  show ?case
  proof (cases "r = Inr None")
    case True
    with r less.hyps [of v] have "\<exists>r t. loopL body v = Some (r, t)" by blast
    with r(1) True show ?thesis by (simp add: loopL.simps [of body s])
  next
    case False
    with r(1) show ?thesis by (auto simp: loopL.simps [of body s] split: sum.splits option.splits)
  qed
qed

text \<open>How a run that returns goes on from one round to the next.\<close>

lemma loopL_goes: "body s = Some (Inr None, t) \<Longrightarrow> loopL body s = loopL body t"
  by (simp add: loopL.simps [of body s])

lemma loopL_leaves: "body s = Some (Inr (Some x), t) \<Longrightarrow> loopL body s = Some (Inr x, t)"
  by (simp add: loopL.simps [of body s])

end
