(* ===== verification/EncoderCache.thy ===== *)
theory EncoderCache
  imports KVRequest
begin

section \<open>The cache of encoder outputs (\<open>vllm/v1/core/encoder_cache_manager.py\<close>)\<close>

text \<open>
  \<open>EncoderCacheManager\<close> counts the slots the outputs of multi-modal inputs take on the workers. A
  slot is a token of encoder output. \<open>cached\<close> maps a request's id to the set of its cached inputs;
  a Python set has no order the code may rely on, so \<open>iter\<close> stands for the order in which the
  interpreter runs through one.
\<close>

record EncoderCacheManager =
  cache_size :: int
  num_free_slots :: int
  cached :: "string \<Rightarrow> nat set option"
  freed :: "(string \<times> nat) list"

type_synonym 'a ec = "(EncoderCacheManager, 'a) st"

type_synonym set_order = "nat set \<Rightarrow> nat list"

definition enc_init :: "int \<Rightarrow> EncoderCacheManager" where
  "enc_init n = \<lparr>cache_size = n, num_free_slots = n, cached = (\<lambda>r. None), freed = []\<rparr>"

definition get_cached_input_ids :: "EncoderCacheManager \<Rightarrow> Request \<Rightarrow> nat set" where
  "get_cached_input_ids s r = (case cached s (request_id r) of None \<Rightarrow> {} | Some A \<Rightarrow> A)"

definition has_cache :: "EncoderCacheManager \<Rightarrow> Request \<Rightarrow> nat \<Rightarrow> bool" where
  "has_cache s r i \<longleftrightarrow> (case cached s (request_id r) of None \<Rightarrow> False | Some A \<Rightarrow> i \<in> A)"

definition enc_can_allocate :: "EncoderCacheManager \<Rightarrow> Request \<Rightarrow> nat \<Rightarrow> exn + bool" where
  "enc_can_allocate s r i = (case get_num_encoder_tokens r i of Inl e \<Rightarrow> Inl e | Inr n \<Rightarrow> Inr (n \<le> num_free_slots s))"

definition enc_allocate :: "Request \<Rightarrow> nat \<Rightarrow> unit ec" where
  "enc_allocate r i =
     thenM (modM (\<lambda>s. s\<lparr>cached := (cached s)(request_id r \<mapsto> insert i (get_cached_input_ids s r))\<rparr>))
    (bindM (liftM (get_num_encoder_tokens r i)) (\<lambda>n.
       modM (\<lambda>s. s\<lparr>num_free_slots := num_free_slots s - n\<rparr>)))"

definition free_encoder_input :: "Request \<Rightarrow> nat \<Rightarrow> unit ec" where
  "free_encoder_input r i = getM (\<lambda>s. cached s (request_id r)) (\<lambda>c. case c of
     None \<Rightarrow> retM ()
   | Some A \<Rightarrow>
       thenM (modM (\<lambda>s. s\<lparr>cached := (cached s)(request_id r := if A - {i} = {} then None else Some (A - {i}))\<rparr>))
      (bindM (liftM (get_num_encoder_tokens r i)) (\<lambda>n.
       modM (\<lambda>s. s\<lparr>num_free_slots := num_free_slots s + n, freed := freed s @ [(request_id r, i)]\<rparr>))))"

definition enc_free :: "set_order \<Rightarrow> Request \<Rightarrow> unit ec" where
  "enc_free iter r = getM (\<lambda>s. get_cached_input_ids s r) (\<lambda>A. forM (iter A) (free_encoder_input r))"

definition get_freed_ids :: "(string \<times> nat) list ec" where
  "get_freed_ids = getM freed (\<lambda>l. thenM (modM (\<lambda>s. s\<lparr>freed := []\<rparr>)) (retM l))"

text \<open>
  The budgets, from whether the model is multi-modal, the largest number of tokens an item of each
  modality takes, and the two limits of the scheduler's configuration.
\<close>

definition compute_encoder_budget_multimodal :: "(string \<times> int) list \<Rightarrow> int \<Rightarrow> int \<Rightarrow> int \<times> int" where
  "compute_encoder_budget_multimodal max_tokens_by_modality max_input_tokens max_cache =
     (if max_tokens_by_modality = [] then (0, 0)
      else let per_item = Max (snd ` set max_tokens_by_modality) in (max max_input_tokens per_item, max max_cache per_item))"

definition compute_encoder_budget :: "bool \<Rightarrow> (string \<times> int) list \<Rightarrow> int \<Rightarrow> int \<Rightarrow> int \<times> int" where
  "compute_encoder_budget multimodal max_tokens_by_modality max_input_tokens max_cache =
     (if \<not> multimodal then (0, 0) else compute_encoder_budget_multimodal max_tokens_by_modality max_input_tokens max_cache)"

subsection \<open>Slots and inputs\<close>

text \<open>
  \<open>enc_used len s\<close> is the number of slots the cached inputs take, where \<open>len r i\<close> is the length of
  input \<open>i\<close> of request \<open>r\<close>: \<open>enc_exact\<close> says that these and the free ones are all.
\<close>

definition iterates :: "set_order \<Rightarrow> bool" where
  "iterates iter \<longleftrightarrow> (\<forall>A. finite A \<longrightarrow> set (iter A) = A \<and> distinct (iter A))"

definition input_length :: "Request \<Rightarrow> nat \<Rightarrow> int" where
  "input_length r i = ph_length (mm_positions r ! i)"

definition slots_of :: "Request \<Rightarrow> EncoderCacheManager \<Rightarrow> int" where
  "slots_of r s = sum (input_length r) (get_cached_input_ids s r)"

definition inputs_ok :: "Request \<Rightarrow> EncoderCacheManager \<Rightarrow> bool" where
  "inputs_ok r s \<longleftrightarrow> get_cached_input_ids s r \<subseteq> {0..<length (mm_positions r)}"

lemma inputs_ok_finite: "inputs_ok r s \<Longrightarrow> finite (get_cached_input_ids s r)"
  unfolding inputs_ok_def by (erule finite_subset) (rule finite_atLeastLessThan)

lemma num_encoder_tokens: "i < length (mm_positions r) \<Longrightarrow> get_num_encoder_tokens r i = Inr (input_length r i)"
  by (simp add: get_num_encoder_tokens_def input_length_def)

lemma enc_allocate_run:
  assumes "i < length (mm_positions r)"
  shows "enc_allocate r i s = (Inr (), s\<lparr>cached := (cached s)(request_id r \<mapsto> insert i (get_cached_input_ids s r)),
    num_free_slots := num_free_slots s - input_length r i\<rparr>)"
  using assms by (simp add: enc_allocate_def run_simps num_encoder_tokens)

lemma free_encoder_input_run:
  assumes "i < length (mm_positions r)" and "cached s (request_id r) = Some A"
  shows "free_encoder_input r i s = (Inr (), s\<lparr>cached := (cached s)(request_id r := if A - {i} = {} then None else Some (A - {i})),
    num_free_slots := num_free_slots s + input_length r i, freed := freed s @ [(request_id r, i)]\<rparr>)"
  using assms by (simp add: free_encoder_input_def run_simps num_encoder_tokens)

lemma slots_allocate:
  assumes "inputs_ok r s" and "i < length (mm_positions r)" and "enc_allocate r i s = (Inr (), t)" and "\<not> has_cache s r i"
  shows "inputs_ok r t \<and> slots_of r t + num_free_slots t = slots_of r s + num_free_slots s \<and> has_cache t r i \<and>
    (\<forall>q. q \<noteq> request_id r \<longrightarrow> cached t q = cached s q) \<and> freed t = freed s \<and> cache_size t = cache_size s"
proof -
  have "i \<notin> get_cached_input_ids s r" using assms(4) by (simp add: has_cache_def get_cached_input_ids_def split: option.splits)
  moreover have t: "t = s\<lparr>cached := (cached s)(request_id r \<mapsto> insert i (get_cached_input_ids s r)),
    num_free_slots := num_free_slots s - input_length r i\<rparr>" using enc_allocate_run [OF assms(2), of s] assms(3) by simp
  moreover have "get_cached_input_ids t r = insert i (get_cached_input_ids s r)" by (simp add: t get_cached_input_ids_def)
  ultimately show ?thesis using assms(1,2) inputs_ok_finite [OF assms(1)]
    by (simp add: slots_of_def inputs_ok_def has_cache_def)
qed

text \<open>Freeing the inputs of a list, each once, gives their slots back and reports them in order.\<close>

lemma free_inputs_run:
  assumes "inputs_ok r s" and "distinct is" and "set is \<subseteq> get_cached_input_ids s r"
  shows "\<exists>t. forM is (free_encoder_input r) s = (Inr (), t) \<and>
    get_cached_input_ids t r = get_cached_input_ids s r - set is \<and>
    slots_of r t + num_free_slots t = slots_of r s + num_free_slots s \<and>
    (\<forall>q. q \<noteq> request_id r \<longrightarrow> cached t q = cached s q) \<and>
    freed t = freed s @ map (Pair (request_id r)) is \<and> cache_size t = cache_size s \<and>
    (is \<noteq> [] \<longrightarrow> get_cached_input_ids t r = {} \<longrightarrow> cached t (request_id r) = None)"
  using assms
proof (induction "is" arbitrary: s)
  case Nil
  then show ?case by (simp add: run_simps)
next
  case (Cons i "is")
  let ?A = "get_cached_input_ids s r"
  from Cons.prems obtain A where A: "cached s (request_id r) = Some A" "A = ?A" "i \<in> A"
    by (auto simp: get_cached_input_ids_def split: option.splits)
  have i: "i < length (mm_positions r)" using Cons.prems(1) A by (auto simp: inputs_ok_def)
  obtain u where u: "free_encoder_input r i s = (Inr (), u)"
    and ueq: "u = s\<lparr>cached := (cached s)(request_id r := if A - {i} = {} then None else Some (A - {i})),
      num_free_slots := num_free_slots s + input_length r i, freed := freed s @ [(request_id r, i)]\<rparr>"
    using free_encoder_input_run [OF i A(1)] by simp
  have ids: "get_cached_input_ids u r = ?A - {i}" using A by (auto simp: ueq get_cached_input_ids_def)
  then have "inputs_ok r u" using Cons.prems(1) by (auto simp: inputs_ok_def)
  moreover have "set is \<subseteq> get_cached_input_ids u r" using Cons.prems(2,3) ids by auto
  ultimately obtain t where t: "forM is (free_encoder_input r) u = (Inr (), t)"
      "get_cached_input_ids t r = get_cached_input_ids u r - set is"
      "slots_of r t + num_free_slots t = slots_of r u + num_free_slots u"
      "\<forall>q. q \<noteq> request_id r \<longrightarrow> cached t q = cached u q" "freed t = freed u @ map (Pair (request_id r)) is" "cache_size t = cache_size u"
      "is \<noteq> [] \<longrightarrow> get_cached_input_ids t r = {} \<longrightarrow> cached t (request_id r) = None"
    using Cons.IH [of u] Cons.prems(2) by auto
  have "slots_of r u + num_free_slots u = slots_of r s + num_free_slots s"
    using A ids inputs_ok_finite [OF Cons.prems(1)] by (simp add: slots_of_def ueq sum_diff1)
  moreover have "get_cached_input_ids t r = {} \<longrightarrow> cached t (request_id r) = None"
  proof (cases "is = []")
    case True
    then have "t = u" using t(1) by (simp add: run_simps)
    then show ?thesis using ids A by (auto simp: ueq)
  next
    case False
    with t(7) show ?thesis by simp
  qed
  moreover have "get_cached_input_ids t r = ?A - set (i # is)" using t(2) ids by auto
  ultimately show ?case using t u by (simp add: run_simps ueq)
qed

text \<open>Freeing a request's inputs leaves none of them.\<close>

lemma enc_free_run:
  assumes "inputs_ok r s" and "iterates iter"
  shows "\<exists>t. enc_free iter r s = (Inr (), t) \<and> get_cached_input_ids t r = {} \<and>
    num_free_slots t = num_free_slots s + slots_of r s \<and> (\<forall>q. q \<noteq> request_id r \<longrightarrow> cached t q = cached s q) \<and>
    cache_size t = cache_size s"
proof -
  have it: "set (iter (get_cached_input_ids s r)) = get_cached_input_ids s r" "distinct (iter (get_cached_input_ids s r))"
    using assms inputs_ok_finite by (auto simp: iterates_def)
  from free_inputs_run [OF assms(1) it(2)] it obtain t where
    "forM (iter (get_cached_input_ids s r)) (free_encoder_input r) s = (Inr (), t)" "get_cached_input_ids t r = {}"
    "slots_of r t + num_free_slots t = slots_of r s + num_free_slots s" "\<forall>q. q \<noteq> request_id r \<longrightarrow> cached t q = cached s q"
    "cache_size t = cache_size s" by auto
  then show ?thesis by (auto simp: enc_free_def run_simps slots_of_def)
qed

end
