(* ===== verification/SchedulerV1.thy ===== *)
theory SchedulerV1
  imports KVCacheManager EncoderCache PartialLoops
begin

section \<open>The scheduler of the V1 core (\<open>vllm/v1/core/sched/scheduler.py\<close>)\<close>

text \<open>
  \<open>Scheduler\<close> moves requests between the queues \<open>waiting\<close> and \<open>running\<close> and decides how many tokens
  each computes in a step. The queues, the table \<open>requests\<close> and the caller share the request objects,
  so these live in the heap \<open>reqs\<close> and the queues hold addresses. The managers of the KV cache and of
  the encoder cache are fields; \<open>kvM\<close> and \<open>encM\<close> run their methods.

  Parameters: \<open>F\<close> and \<open>none_hash\<close> as for blocks, \<open>iter\<close> the order of a set, \<open>ready r\<close> that the grammar
  of a request with structured output has been compiled, \<open>now\<close> the clock. The bitmask the
  structured-output manager computes for the output is a tensor the scheduler does not read and is left
  out; the tokens handed to a request's grammar are recorded in \<open>grammar_tokens\<close>, in the order of the calls.
\<close>

subsection \<open>State\<close>

datatype EngineCoreEventType = QUEUED_EVENT | SCHEDULED_EVENT | PREEMPTED_EVENT

record CachedRequestData =
  cd_req_id :: string
  cd_resumed_from_preemption :: bool
  cd_new_token_ids :: "int list"
  cd_new_block_ids :: "nat list"
  cd_num_computed_tokens :: int

record NewRequestData =
  nd_req_id :: string
  nd_prompt_token_ids :: "int list"
  nd_mm_hashes :: "string option list"
  nd_mm_positions :: "PlaceholderRange list"
  nd_sampling_params :: ReqSamplingParams
  nd_block_ids :: "nat list"
  nd_num_computed_tokens :: int
  nd_lora_request :: "int option"

record SchedulerOutput =
  scheduled_new_reqs :: "NewRequestData list"
  scheduled_cached_reqs :: "CachedRequestData list"
  out_num_scheduled_tokens :: "(string, int) dict"
  total_num_scheduled_tokens :: int
  out_spec_decode_tokens :: "(string, int list) dict"
  out_encoder_inputs :: "(string, nat list) dict"
  num_common_prefix_blocks :: nat
  out_finished_req_ids :: "string set"
  free_encoder_input_ids :: "(string \<times> nat) list"
  out_structured_output_request_ids :: "(string, nat) dict"

record SpecDecodingStats =
  num_draft_tokens :: int
  num_accepted_tokens :: int

record SchedulerStats =
  num_running_reqs :: nat
  num_waiting_reqs :: nat
  gpu_cache_usage :: rat
  stats_prefix_cache :: PrefixCacheStats
  stats_spec_decoding :: "SpecDecodingStats option"

record Scheduler =
  max_num_running_reqs :: int
  max_num_scheduled_tokens :: int
  sched_max_model_len :: int
  long_prefill_token_threshold :: int
  max_loras :: "int option"
  log_stats :: bool
  include_finished_set :: bool
  max_num_encoder_input_tokens :: int
  kv_cache_manager :: KVCacheManager
  encoder_cache_manager :: EncoderCacheManager
  reqs :: "Request list"
  req_events :: "nat \<Rightarrow> (EngineCoreEventType \<times> rat) list"
  requests :: "(string, nat) dict"
  waiting :: "nat list"
  running :: "nat list"
  scheduled_req_ids :: "string set"
  finished_req_ids :: "string set"
  cached_reqs_data :: "(string, CachedRequestData) dict"
  grammar_tokens :: "(string \<times> int list) list"

type_synonym ('x, 'a) sc = "('x Scheduler_scheme, 'a) st"

definition kvM :: "'a km \<Rightarrow> ('x, 'a) sc" where
  "kvM = zoomM kv_cache_manager (\<lambda>k s. s\<lparr>kv_cache_manager := k\<rparr>)"

definition encM :: "'a ec \<Rightarrow> ('x, 'a) sc" where
  "encM = zoomM encoder_cache_manager (\<lambda>k s. s\<lparr>encoder_cache_manager := k\<rparr>)"

definition reqM :: "nat \<Rightarrow> 'a rq \<Rightarrow> ('x, 'a) sc" where
  "reqM a = zoomM (\<lambda>s. reqs s ! a) (\<lambda>r s. s\<lparr>reqs := (reqs s)[a := r]\<rparr>)"

abbreviation rq :: "nat \<Rightarrow> 'x Scheduler_scheme \<Rightarrow> Request" where
  "rq a s \<equiv> reqs s ! a"

abbreviation rid :: "nat \<Rightarrow> 'x Scheduler_scheme \<Rightarrow> string" where
  "rid a s \<equiv> request_id (reqs s ! a)"

definition mod_req :: "nat \<Rightarrow> (Request \<Rightarrow> Request) \<Rightarrow> ('x, unit) sc" where
  "mod_req a f = reqM a (modM f)"

text \<open>\<open>record_event\<close> and \<open>take_events\<close> of a request; the first is called when statistics are logged.\<close>

definition add_event :: "bool \<Rightarrow> nat \<Rightarrow> EngineCoreEventType \<times> rat \<Rightarrow> (nat \<Rightarrow> (EngineCoreEventType \<times> rat) list) \<Rightarrow> nat \<Rightarrow> (EngineCoreEventType \<times> rat) list" where
  "add_event logging a e events = (if logging then events(a := events a @ [e]) else events)"

definition record_event :: "nat \<Rightarrow> EngineCoreEventType \<Rightarrow> rat \<Rightarrow> ('x, unit) sc" where
  "record_event a ty now = modM (\<lambda>s. s\<lparr>req_events := add_event (log_stats s) a (ty, now) (req_events s)\<rparr>)"

definition take_events :: "nat \<Rightarrow> ('x, (EngineCoreEventType \<times> rat) list option) sc" where
  "take_events a = getM (\<lambda>s. req_events s a) (\<lambda>es. if es = [] then retM None
     else thenM (modM (\<lambda>s. s\<lparr>req_events := (req_events s)(a := [])\<rparr>)) (retM (Some es)))"

text \<open>The limits come from the configuration; the KV-cache manager preallocates for 64 tokens.\<close>

definition scheduler_init :: "int \<Rightarrow> int \<Rightarrow> int \<Rightarrow> int \<Rightarrow> int option \<Rightarrow> bool \<Rightarrow> bool \<Rightarrow> KVCacheSpec list \<Rightarrow> nat \<Rightarrow> bool
    \<Rightarrow> int \<times> int \<Rightarrow> ('x, unit) sc" where
  "scheduler_init max_seqs max_batched max_len threshold loras logging fin groups num_blocks caching budget =
     thenM (modM (\<lambda>s. s\<lparr>max_num_running_reqs := max_seqs, max_num_scheduled_tokens := max_batched, sched_max_model_len := max_len,
       long_prefill_token_threshold := threshold, max_loras := loras, log_stats := logging, include_finished_set := fin\<rparr>))
    (thenM (kvM (manager_init groups num_blocks max_len caching 64))
           (modM (\<lambda>s. s\<lparr>reqs := [], req_events := (\<lambda>a. []), requests := [], waiting := [], running := [],
              scheduled_req_ids := {}, finished_req_ids := {}, cached_reqs_data := [], grammar_tokens := [],
              max_num_encoder_input_tokens := fst budget, encoder_cache_manager := enc_init (snd budget)\<rparr>)))"

subsection \<open>Requests enter and leave\<close>

definition add_request :: "Request \<Rightarrow> rat \<Rightarrow> ('x, unit) sc" where
  "add_request r now = getM (\<lambda>s. length (reqs s)) (\<lambda>a.
     thenM (modM (\<lambda>s. s\<lparr>reqs := reqs s @ [r], waiting := waiting s @ [a], requests := dict_set (request_id r) a (requests s)\<rparr>))
           (record_event a QUEUED_EVENT now))"

definition free_request :: "set_order \<Rightarrow> nat \<Rightarrow> ('x, unit) sc" where
  "free_request iter a = getM (rq a) (\<lambda>r.
     thenM (assertM (req_is_finished r))
    (thenM (kvM (km_free r))
    (thenM (kvM (free_block_hashes r))
    (thenM (encM (enc_free iter r))
    (thenM (modM (\<lambda>s. s\<lparr>cached_reqs_data := dict_del (request_id r) (cached_reqs_data s)\<rparr>))
    (getM requests (\<lambda>d.
     thenM (guardM (dict_get d (request_id r) = None) KeyError)
           (modM (\<lambda>s. s\<lparr>requests := dict_del (request_id r) (requests s),
              finished_req_ids := insert (request_id r) (finished_req_ids s)\<rparr>)))))))))"

text \<open>The ids in the order in which the set is run through.\<close>

definition finish_one :: "set_order \<Rightarrow> RequestStatus \<Rightarrow> string \<Rightarrow> ('x, unit) sc" where
  "finish_one iter st i = getM (\<lambda>s. dict_get (requests s) i) (\<lambda>d. case d of
     None \<Rightarrow> retM ()
   | Some a \<Rightarrow> getM id (\<lambda>s.
       thenM (if status (rq a s) = RUNNING then
                thenM (guardM (a \<notin> set (running s)) ValueError)
                      (modM (\<lambda>s. s\<lparr>running := remove1 a (running s), scheduled_req_ids := scheduled_req_ids s - {rid a s}\<rparr>))
              else
                thenM (guardM (a \<notin> set (waiting s)) ValueError)
                      (modM (\<lambda>s. s\<lparr>waiting := remove1 a (waiting s)\<rparr>)))
      (thenM (mod_req a (\<lambda>r. r\<lparr>status := st\<rparr>))
             (free_request iter a))))"

definition finish_requests :: "set_order \<Rightarrow> string list \<Rightarrow> RequestStatus \<Rightarrow> ('x, unit) sc" where
  "finish_requests iter ids st = thenM (assertM (req_status_is_finished st)) (forM ids (finish_one iter st))"

definition get_num_unfinished_requests :: "'x Scheduler_scheme \<Rightarrow> nat" where
  "get_num_unfinished_requests s = length (waiting s) + length (running s)"

definition has_finished_requests :: "'x Scheduler_scheme \<Rightarrow> bool" where
  "has_finished_requests s \<longleftrightarrow> finished_req_ids s \<noteq> {}"

definition get_num_unscheduled_requests :: "'x Scheduler_scheme \<Rightarrow> int" where
  "get_num_unscheduled_requests s = int (get_num_unfinished_requests s) - int (card (scheduled_req_ids s))"

definition sched_reset_prefix_cache :: "('x, bool) sc" where
  "sched_reset_prefix_cache = kvM km_reset_prefix_cache"

subsection \<open>Encoder inputs of a step\<close>

text \<open>
  The loop of \<open>_try_schedule_encoder_inputs\<close> over the numbered positions. The encoder cache is only
  read: the slots of the inputs it picks are taken by the caller afterwards.
\<close>

fun encoder_inputs_loop :: "EncoderCacheManager \<Rightarrow> Request \<Rightarrow> int \<Rightarrow> (nat \<times> PlaceholderRange) list \<Rightarrow> nat list \<Rightarrow> int \<Rightarrow> int
    \<Rightarrow> exn + nat list \<times> int \<times> int" where
  "encoder_inputs_loop e r computed [] picked num_new budget = Inr (picked, num_new, budget)"
| "encoder_inputs_loop e r computed ((i, p) # ps) picked num_new budget =
     (if computed + num_new \<le> ph_offset p then Inr (picked, num_new, budget)
      else if ph_offset p + ph_length p \<le> computed then encoder_inputs_loop e r computed ps picked num_new budget
      else if has_cache e r i then encoder_inputs_loop e r computed ps picked num_new budget
      else (case enc_can_allocate e r i of Inl x \<Rightarrow> Inl x | Inr fits \<Rightarrow>
        if \<not> fits \<or> budget < ph_length p then
          Inr (picked, if computed < ph_offset p then ph_offset p - computed else 0, budget)
        else encoder_inputs_loop e r computed ps (picked @ [i]) num_new (budget - ph_length p)))"

definition try_schedule_encoder_inputs :: "Request \<Rightarrow> int \<Rightarrow> int \<Rightarrow> int \<Rightarrow> ('x, nat list \<times> int \<times> int) sc" where
  "try_schedule_encoder_inputs r computed num_new budget =
     thenM (assertM (mm_positions r \<noteq> []))
    (getM encoder_cache_manager (\<lambda>e.
     liftM (encoder_inputs_loop e r computed (enumerate 0 (mm_positions r)) [] num_new budget)))"

subsection \<open>A step\<close>

text \<open>The local variables of \<open>schedule\<close>.\<close>

record ScheduleStep = Scheduler +
  step_new :: "nat list"
  step_resumed :: "nat list"
  step_running :: "nat list"
  step_preempted :: "nat list"
  structured_output_request_ids :: "(string, nat) dict"
  req_to_new_block_ids :: "(string, nat list) dict"
  num_scheduled_tokens :: "(string, int) dict"
  token_budget :: int
  scheduled_encoder_inputs :: "(string, nat list) dict"
  encoder_budget :: int
  scheduled_spec_decode_tokens :: "(string, int list) dict"
  req_index :: nat
  scheduled_loras :: "int set"
  skipped_waiting_requests :: "nat list"

type_synonym 'a ss = "(ScheduleStep, 'a) st"

definition step_init :: "Scheduler \<Rightarrow> ScheduleStep" where
  "step_init s = Scheduler.extend s \<lparr>step_new = [], step_resumed = [], step_running = [], step_preempted = [],
     structured_output_request_ids = [], req_to_new_block_ids = [], num_scheduled_tokens = [],
     token_budget = max_num_scheduled_tokens s, scheduled_encoder_inputs = [], encoder_budget = max_num_encoder_input_tokens s,
     scheduled_spec_decode_tokens = [], req_index = 0, scheduled_loras = {}, skipped_waiting_requests = []\<rparr>"

text \<open>\<open>num_new_tokens\<close> of a request that lacks \<open>n\<close> tokens, under the threshold and the budget.\<close>

definition limit_tokens :: "int \<Rightarrow> ScheduleStep \<Rightarrow> int" where
  "limit_tokens n s = min (if 0 < long_prefill_token_threshold s \<and> long_prefill_token_threshold s < n
     then long_prefill_token_threshold s else n) (token_budget s)"

text \<open>The encoder inputs to schedule, the tokens and the encoder budget left.\<close>

definition encoder_part :: "Request \<Rightarrow> int \<Rightarrow> int \<Rightarrow> (nat list \<times> int \<times> int) ss" where
  "encoder_part r computed num_new = getM encoder_budget (\<lambda>b.
     if has_encoder_inputs r then try_schedule_encoder_inputs r computed num_new b else retM ([], num_new, b))"

text \<open>\<open>if encoder_inputs_to_schedule:\<close>, for both kinds of requests.\<close>

definition take_encoder_inputs :: "nat \<Rightarrow> nat list \<Rightarrow> int \<Rightarrow> unit ss" where
  "take_encoder_inputs a inputs budget = (if inputs = [] then retM () else getM (rq a) (\<lambda>r.
     thenM (modM (\<lambda>s. s\<lparr>scheduled_encoder_inputs := dict_set (request_id r) inputs (scheduled_encoder_inputs s)\<rparr>))
    (thenM (forM inputs (\<lambda>i. encM (enc_allocate r i)))
           (modM (\<lambda>s. s\<lparr>encoder_budget := budget\<rparr>)))))"

text \<open>\<open>self.running.pop()\<close> and what happens to the request.\<close>

definition preempt_last :: "rat \<Rightarrow> nat ss" where
  "preempt_last now = getM running (\<lambda>q.
     thenM (guardM (q = []) IndexError)
    (let a = last q in
     thenM (modM (\<lambda>s. s\<lparr>running := butlast q\<rparr>))
    (getM (rq a) (\<lambda>r.
     thenM (kvM (km_free r))
    (thenM (mod_req a (\<lambda>r. r\<lparr>status := PREEMPTED, num_computed_tokens := 0\<rparr>))
    (thenM (record_event a PREEMPTED_EVENT now)
    (thenM (modM (\<lambda>s. s\<lparr>waiting := a # waiting s, step_preempted := step_preempted s @ [a]\<rparr>))
           (retM a))))))))"

text \<open>
  \<open>while True\<close>: allocate the slots of the request at \<open>a\<close>, preempting from the end of the queue as
  long as there is no room. \<open>None\<close> when the request itself was preempted.
\<close>

definition preempt_round :: "hash_fn \<Rightarrow> int \<Rightarrow> rat \<Rightarrow> nat \<Rightarrow> int \<Rightarrow> nat list option option ss" where
  "preempt_round F none_hash now a n = getM (rq a) (\<lambda>r.
     bindM (kvM (allocate_slots F none_hash r n [])) (\<lambda>new. case new of
       Some bs \<Rightarrow> retM (Some (Some bs))
     | None \<Rightarrow> bindM (preempt_last now) (\<lambda>b. retM (if b = a then Some None else None))))"

definition allocate_or_preempt :: "hash_fn \<Rightarrow> int \<Rightarrow> rat \<Rightarrow> nat \<Rightarrow> int \<Rightarrow> (ScheduleStep, nat list option) lp" where
  "allocate_or_preempt F none_hash now a n = loopL (liftL (preempt_round F none_hash now a n))"

definition schedule_spec_tokens :: "nat \<Rightarrow> int \<Rightarrow> unit ss" where
  "schedule_spec_tokens a num_new = getM (rq a) (\<lambda>r.
     let num_spec = num_new + num_computed_tokens r - req_num_tokens r in
     if spec_token_ids r \<noteq> [] \<and> 0 < num_spec then
       thenM (mod_req a (\<lambda>r. r\<lparr>spec_token_ids := take (nat num_spec) (spec_token_ids r)\<rparr>))
             (modM (\<lambda>s. s\<lparr>scheduled_spec_decode_tokens :=
                dict_set (request_id r) (take (nat num_spec) (spec_token_ids r)) (scheduled_spec_decode_tokens s)\<rparr>))
     else retM ())"

definition schedule_running :: "nat \<Rightarrow> int \<Rightarrow> nat list \<Rightarrow> nat list \<Rightarrow> int \<Rightarrow> unit ss" where
  "schedule_running a num_new new_blocks inputs budget = getM (rq a) (\<lambda>r.
     thenM (modM (\<lambda>s. s\<lparr>step_running := step_running s @ [a],
       scheduled_req_ids := insert (request_id r) (scheduled_req_ids s),
       structured_output_request_ids := (if use_structured_output r
         then dict_set (request_id r) (req_index s) (structured_output_request_ids s) else structured_output_request_ids s),
       req_to_new_block_ids := dict_set (request_id r) new_blocks (req_to_new_block_ids s),
       num_scheduled_tokens := dict_set (request_id r) num_new (num_scheduled_tokens s),
       token_budget := token_budget s - num_new, req_index := Suc (req_index s)\<rparr>))
    (thenM (schedule_spec_tokens a num_new)
           (take_encoder_inputs a inputs budget)))"

text \<open>
  One round of the first loop. The part before the allocation answers \<open>None\<close> to go on with the next
  request; the round answers \<open>Some ()\<close> to leave the loop.
\<close>

definition plan_running :: "nat \<Rightarrow> (int \<times> nat list \<times> int) option ss" where
  "plan_running a = getM id (\<lambda>s. let r = rq a s in
     if request_id r \<in> scheduled_req_ids s then thenM (modM (\<lambda>s. s\<lparr>req_index := Suc (req_index s)\<rparr>)) (retM None)
     else let n = limit_tokens (req_num_tokens_with_spec r - num_computed_tokens r) s in
       thenM (assertM (0 < n))
      (bindM (encoder_part r (num_computed_tokens r) n) (\<lambda>(inputs, n, budget).
       if has_encoder_inputs r \<and> n = 0 then thenM (modM (\<lambda>s. s\<lparr>req_index := Suc (req_index s)\<rparr>)) (retM None)
       else retM (Some (n, inputs, budget)))))"

definition running_round :: "hash_fn \<Rightarrow> int \<Rightarrow> rat \<Rightarrow> (ScheduleStep, unit option) lp" where
  "running_round F none_hash now = getL id (\<lambda>s.
     if \<not> (req_index s < length (running s) \<and> 0 < token_budget s) then liftL (retM (Some ()))
     else let a = running s ! req_index s in
       bindL (liftL (plan_running a)) (\<lambda>plan. case plan of
         None \<Rightarrow> liftL (retM None)
       | Some (n, inputs, budget) \<Rightarrow>
           bindL (allocate_or_preempt F none_hash now a n) (\<lambda>new. case new of
             None \<Rightarrow> liftL (retM (Some ()))
           | Some bs \<Rightarrow> liftL (thenM (schedule_running a n bs inputs budget) (retM None)))))"

definition record_loras :: "unit ss" where
  "record_loras = getM id (\<lambda>s. case max_loras s of
     None \<Rightarrow> retM ()
   | Some m \<Rightarrow>
       let loras = set (filter (\<lambda>l. 0 < l) (List.map_filter (\<lambda>a. lora_request (rq a s)) (step_running s))) in
       thenM (modM (\<lambda>s. s\<lparr>scheduled_loras := loras\<rparr>)) (assertM (int (card loras) \<le> m)))"

text \<open>One round of the second loop; \<open>Some ()\<close> leaves it.\<close>

definition skip_waiting :: "nat \<Rightarrow> unit option ss" where
  "skip_waiting a = thenM (modM (\<lambda>s. s\<lparr>waiting := tl (waiting s), skipped_waiting_requests := a # skipped_waiting_requests s\<rparr>))
     (retM None)"

definition admit_waiting :: "rat \<Rightarrow> nat \<Rightarrow> nat list \<Rightarrow> nat list \<Rightarrow> int \<Rightarrow> int \<Rightarrow> nat list \<Rightarrow> int \<Rightarrow> unit ss" where
  "admit_waiting now a computed_blocks new_blocks computed num_new inputs budget = getM (rq a) (\<lambda>r.
     thenM (modM (\<lambda>s. s\<lparr>waiting := tl (waiting s),
       structured_output_request_ids := (if use_structured_output r
         then dict_set (request_id r) (req_index s) (structured_output_request_ids s) else structured_output_request_ids s),
       req_index := Suc (req_index s), running := running s @ [a],
       scheduled_req_ids := insert (request_id r) (scheduled_req_ids s)\<rparr>))
    (thenM (record_event a SCHEDULED_EVENT now)
    (thenM (if status r = WAITING then modM (\<lambda>s. s\<lparr>step_new := step_new s @ [a]\<rparr>)
            else if status r = PREEMPTED then modM (\<lambda>s. s\<lparr>step_resumed := step_resumed s @ [a]\<rparr>)
            else raiseM RuntimeError)
    (thenM (modM (\<lambda>s. s\<lparr>scheduled_loras := (case (max_loras s, lora_request r) of
         (Some m, Some l) \<Rightarrow> insert l (scheduled_loras s) | _ \<Rightarrow> scheduled_loras s),
       req_to_new_block_ids := dict_set (request_id r) (computed_blocks @ new_blocks) (req_to_new_block_ids s),
       num_scheduled_tokens := dict_set (request_id r) num_new (num_scheduled_tokens s),
       token_budget := token_budget s - num_new\<rparr>))
    (thenM (mod_req a (\<lambda>r. r\<lparr>status := RUNNING, num_computed_tokens := computed\<rparr>))
           (take_encoder_inputs a inputs budget))))))"

definition exceeds_loras :: "Request \<Rightarrow> ScheduleStep \<Rightarrow> bool" where
  "exceeds_loras r s \<longleftrightarrow> (case (max_loras s, lora_request r) of
     (Some m, Some l) \<Rightarrow> int (card (scheduled_loras s)) = m \<and> l \<notin> scheduled_loras s | _ \<Rightarrow> False)"

definition schedule_waiting :: "hash_fn \<Rightarrow> int \<Rightarrow> rat \<Rightarrow> nat \<Rightarrow> unit option ss" where
  "schedule_waiting F none_hash now a = getM (rq a) (\<lambda>r.
     bindM (kvM (get_computed_blocks F none_hash r)) (\<lambda>(computed_blocks, computed). getM id (\<lambda>s.
     let n = limit_tokens (req_num_tokens r - computed) s in
     thenM (assertM (0 < n))
    (bindM (encoder_part r computed n) (\<lambda>(inputs, n, budget).
     if has_encoder_inputs r \<and> n = 0 then retM (Some ())
     else bindM (kvM (allocate_slots F none_hash r n computed_blocks)) (\<lambda>new. case new of
       None \<Rightarrow> retM (Some ())
     | Some bs \<Rightarrow> thenM (admit_waiting now a computed_blocks bs computed n inputs budget) (retM None)))))))"

definition waiting_round :: "hash_fn \<Rightarrow> int \<Rightarrow> (Request \<Rightarrow> bool) \<Rightarrow> rat \<Rightarrow> unit option ss" where
  "waiting_round F none_hash ready now = getM id (\<lambda>s.
     if \<not> (waiting s \<noteq> [] \<and> 0 < token_budget s) then retM (Some ())
     else if int (length (running s)) = max_num_running_reqs s then retM (Some ())
     else let a = hd (waiting s); r = rq a s in
       if status r = WAITING_FOR_FSM \<and> \<not> ready r then skip_waiting a
       else
         thenM (if status r = WAITING_FOR_FSM then mod_req a (\<lambda>r. r\<lparr>status := WAITING\<rparr>) else retM ())
        (if exceeds_loras r s then skip_waiting a
         else schedule_waiting F none_hash now a))"

definition schedule_requests :: "hash_fn \<Rightarrow> int \<Rightarrow> (Request \<Rightarrow> bool) \<Rightarrow> rat \<Rightarrow> (ScheduleStep, unit) lp" where
  "schedule_requests F none_hash ready now =
     bindL (loopL (running_round F none_hash now)) (\<lambda>_.
     bindL (liftL record_loras) (\<lambda>_.
     bindL (getL step_preempted (\<lambda>p. if p = [] then loopL (liftL (waiting_round F none_hash ready now)) else liftL (retM ()))) (\<lambda>_.
     liftL (modM (\<lambda>s. s\<lparr>waiting := rev (skipped_waiting_requests s) @ waiting s\<rparr>)))))"

text \<open>The assertions after the loops.\<close>

definition constraints_hold :: "ScheduleStep \<Rightarrow> bool" where
  "constraints_hold s \<longleftrightarrow> sum_list (map snd (num_scheduled_tokens s)) \<le> max_num_scheduled_tokens s \<and> 0 \<le> token_budget s \<and>
     int (length (running s)) \<le> max_num_running_reqs s \<and>
     length (step_new s) + length (step_resumed s) + length (step_running s) \<le> length (running s)"

definition new_request_data :: "nat \<Rightarrow> NewRequestData ss" where
  "new_request_data a = getM id (\<lambda>s. let r = rq a s in
     bindM (fromM KeyError (dict_get (req_to_new_block_ids s) (request_id r))) (\<lambda>bs.
     retM \<lparr>nd_req_id = request_id r, nd_prompt_token_ids = prompt_token_ids r, nd_mm_hashes = mm_hashes r,
       nd_mm_positions = mm_positions r, nd_sampling_params = sampling_params r, nd_block_ids = bs,
       nd_num_computed_tokens = num_computed_tokens r, nd_lora_request = lora_request r\<rparr>))"

text \<open>
  \<open>_make_cached_request_data\<close>: the cached object is overwritten, which gives the fields of a new one.
\<close>

definition make_cached_request_data :: "Request \<Rightarrow> int \<Rightarrow> int \<Rightarrow> nat list \<Rightarrow> bool \<Rightarrow> ('x, CachedRequestData) sc" where
  "make_cached_request_data r num_scheduled num_spec new_block_ids resumed =
     (let d = \<lparr>cd_req_id = request_id r, cd_resumed_from_preemption = resumed,
        cd_new_token_ids = py_slice (num_computed_tokens r) (num_computed_tokens r + (num_scheduled - num_spec)) (all_token_ids r),
        cd_new_block_ids = new_block_ids, cd_num_computed_tokens = num_computed_tokens r\<rparr> in
      thenM (modM (\<lambda>s. s\<lparr>cached_reqs_data := dict_set (request_id r) d (cached_reqs_data s)\<rparr>)) (retM d))"

definition cached_request_data :: "bool \<Rightarrow> nat \<Rightarrow> CachedRequestData ss" where
  "cached_request_data resumed a = getM id (\<lambda>s. let r = rq a s in
     bindM (fromM KeyError (dict_get (num_scheduled_tokens s) (request_id r))) (\<lambda>n.
     bindM (fromM KeyError (dict_get (req_to_new_block_ids s) (request_id r))) (\<lambda>bs.
     make_cached_request_data r n
       (int (length (case dict_get (scheduled_spec_decode_tokens s) (request_id r) of None \<Rightarrow> [] | Some ts \<Rightarrow> ts))) bs resumed)))"

definition advance_computed :: "string \<times> int \<Rightarrow> ('x, unit) sc" where
  "advance_computed p = getM (\<lambda>s. dict_get (requests s) (fst p)) (\<lambda>d. bindM (fromM KeyError d) (\<lambda>a.
     mod_req a (\<lambda>r. r\<lparr>num_computed_tokens := num_computed_tokens r + snd p\<rparr>)))"

definition schedule_output :: "SchedulerOutput ss" where
  "schedule_output = getM id (\<lambda>s.
     thenM (assertM (constraints_hold s))
    (bindM (case running s of [] \<Rightarrow> retM 0
            | a # q \<Rightarrow> kvM (get_num_common_prefix_blocks (rq a s) (int (length (running s))))) (\<lambda>common.
     bindM (mapM (step_new s) new_request_data) (\<lambda>new_data.
     bindM (mapM (step_resumed s) (cached_request_data True)) (\<lambda>resumed_data.
     bindM (mapM (step_running s) (cached_request_data False)) (\<lambda>running_data.
     bindM (encM get_freed_ids) (\<lambda>freed_ids.
     thenM (forM (num_scheduled_tokens s) advance_computed)
    (thenM (modM (\<lambda>s. s\<lparr>finished_req_ids := {}\<rparr>))
           (retM \<lparr>scheduled_new_reqs = new_data, scheduled_cached_reqs = resumed_data @ running_data,
              out_num_scheduled_tokens = num_scheduled_tokens s,
              total_num_scheduled_tokens = sum_list (map snd (num_scheduled_tokens s)),
              out_spec_decode_tokens = scheduled_spec_decode_tokens s, out_encoder_inputs = scheduled_encoder_inputs s,
              num_common_prefix_blocks = common, out_finished_req_ids = finished_req_ids s,
              free_encoder_input_ids = freed_ids,
              out_structured_output_request_ids = structured_output_request_ids s\<rparr>)))))))))"

definition schedule :: "hash_fn \<Rightarrow> int \<Rightarrow> (Request \<Rightarrow> bool) \<Rightarrow> rat \<Rightarrow> (Scheduler, SchedulerOutput) lp" where
  "schedule F none_hash ready now s =
     (case bindL (schedule_requests F none_hash ready now) (\<lambda>_. liftL schedule_output) (step_init s) of
        None \<Rightarrow> None | Some (r, t) \<Rightarrow> Some (r, Scheduler.truncate t))"

subsection \<open>The outcome of a step\<close>

text \<open>
  What the model runner returns. Log probabilities and prompt log probabilities are tensors: the model
  keeps whether there are any, the index a request's rows have, and the handle of a prompt's tensors.
\<close>

record ModelRunnerOutput =
  req_id_to_index :: "string \<Rightarrow> nat option"
  sampled_token_ids :: "int list list"
  runner_spec_token_ids :: "int list list option"
  has_logprobs :: bool
  prompt_logprobs_dict :: "string \<Rightarrow> nat option"

record EngineCoreOutput =
  eo_request_id :: string
  eo_new_token_ids :: "int list"
  eo_finish_reason :: "FinishReason option"
  eo_logprobs_row :: "nat option"
  eo_prompt_logprobs :: "nat option"
  eo_stop_reason :: "int option"
  eo_events :: "(EngineCoreEventType \<times> rat) list option"

record EngineCoreOutputs =
  eco_outputs :: "EngineCoreOutput list"
  eco_stats :: "SchedulerStats option"
  eco_finished_requests :: "string set option"

record UpdateStep = Scheduler +
  new_running :: "nat list"
  step_outputs :: "EngineCoreOutput list"
  spec_decoding_stats :: "SpecDecodingStats option"

type_synonym 'a us = "(UpdateStep, 'a) st"

definition spec_observe :: "SpecDecodingStats \<Rightarrow> int \<Rightarrow> int \<Rightarrow> SpecDecodingStats" where
  "spec_observe st drafts accepted = st\<lparr>num_draft_tokens := num_draft_tokens st + drafts,
     num_accepted_tokens := num_accepted_tokens st + accepted\<rparr>"

definition make_spec_decoding_stats :: "bool \<Rightarrow> SpecDecodingStats option \<Rightarrow> int \<Rightarrow> int \<Rightarrow> SpecDecodingStats option" where
  "make_spec_decoding_stats logging st drafts accepted =
     (if \<not> logging then None
      else Some (spec_observe (case st of None \<Rightarrow> \<lparr>num_draft_tokens = 0, num_accepted_tokens = 0\<rparr> | Some st \<Rightarrow> st) drafts accepted))"

definition make_stats :: "SpecDecodingStats option \<Rightarrow> ('x, SchedulerStats option) sc" where
  "make_stats spec = getM id (\<lambda>s.
     if \<not> log_stats s then retM None
     else bindM (kvM make_prefix_cache_stats) (\<lambda>p.
       retM (Some \<lparr>num_running_reqs = length (running s), num_waiting_reqs = length (waiting s),
         gpu_cache_usage = km_usage (kv_cache_manager s), stats_prefix_cache = p, stats_spec_decoding = spec\<rparr>)))"

text \<open>\<open>xs[i]\<close> for an index the runner gives.\<close>

definition nth_or_raise :: "'a list \<Rightarrow> nat \<Rightarrow> exn + 'a" where
  "nth_or_raise xs i = (if i < length xs then Inr (xs ! i) else Inl IndexError)"

text \<open>Rejected draft tokens are taken back from the computed ones.\<close>

definition reject_drafts :: "SchedulerOutput \<Rightarrow> nat \<Rightarrow> int list \<Rightarrow> unit us" where
  "reject_drafts out a generated = getM id (\<lambda>s.
     case dict_get (out_spec_decode_tokens out) (rid a s) of
       None \<Rightarrow> retM ()
     | Some drafts \<Rightarrow>
         if drafts = [] then retM ()
         else
           let n = int (length drafts); k = int (length generated) in
           thenM (mod_req a (\<lambda>r. r\<lparr>num_computed_tokens := num_computed_tokens r - (n + 1 - k)\<rparr>))
                 (modM (\<lambda>s. s\<lparr>spec_decoding_stats := make_spec_decoding_stats (log_stats s) (spec_decoding_stats s) n (k - 1)\<rparr>)))"

definition free_processed_input :: "nat \<Rightarrow> nat \<Rightarrow> ('x, unit) sc" where
  "free_processed_input a i = getM (rq a) (\<lambda>r.
     bindM (liftM (nth_or_raise (mm_positions r) i)) (\<lambda>p.
     if ph_offset p + ph_length p \<le> num_computed_tokens r then encM (free_encoder_input r i) else retM ()))"

definition free_processed_inputs :: "set_order \<Rightarrow> nat \<Rightarrow> ('x, unit) sc" where
  "free_processed_inputs iter a = getM id (\<lambda>s.
     forM (iter (get_cached_input_ids (encoder_cache_manager s) (rq a s))) (free_processed_input a))"

text \<open>The loop over the generated tokens: those appended before the request stopped, and whether it did.\<close>

fun append_tokens :: "set_order \<Rightarrow> nat \<Rightarrow> int list \<Rightarrow> int list \<Rightarrow> ('x, int list \<times> bool) sc" where
  "append_tokens iter a taken [] = retM (taken, False)"
| "append_tokens iter a taken (t # ts) =
     thenM (reqM a (append_output_token_ids [t]))
    (getM sched_max_model_len (\<lambda>m.
     bindM (reqM a (check_stop m)) (\<lambda>stopped.
     if stopped then thenM (free_request iter a) (retM (taken @ [t], True))
     else append_tokens iter a (taken @ [t]) ts)))"

definition emit_output :: "ModelRunnerOutput \<Rightarrow> nat \<Rightarrow> nat \<Rightarrow> int list \<Rightarrow> unit us" where
  "emit_output mro a row new_tokens = getM (rq a) (\<lambda>r.
     if new_tokens \<noteq> [] then
       bindM (take_events a) (\<lambda>events.
       modM (\<lambda>s. s\<lparr>step_outputs := step_outputs s @ [\<lparr>eo_request_id = request_id r, eo_new_token_ids = new_tokens,
         eo_finish_reason = req_finished_reason r,
         eo_logprobs_row = (if sp_logprobs (sampling_params r) \<noteq> None \<and> has_logprobs mro then Some row else None),
         eo_prompt_logprobs = prompt_logprobs_dict mro (request_id r), eo_stop_reason = stop_reason r,
         eo_events = events\<rparr>]\<rparr>))
     else assertM (prompt_logprobs_dict mro (request_id r) = None))"

text \<open>What follows the tokens: the grammar, the output, the sets of scheduled and running requests.\<close>

definition report_tokens :: "ModelRunnerOutput \<Rightarrow> nat \<Rightarrow> nat \<Rightarrow> int list \<Rightarrow> bool \<Rightarrow> unit us" where
  "report_tokens mro a row new_tokens stopped = getM (rid a) (\<lambda>i.
     thenM (modM (\<lambda>s. if new_tokens \<noteq> [] \<and> use_structured_output (rq a s)
         then s\<lparr>grammar_tokens := grammar_tokens s @ [(i, new_tokens)]\<rparr> else s))
    (thenM (emit_output mro a row new_tokens)
    (getM scheduled_req_ids (\<lambda>ids.
     thenM (guardM (i \<notin> ids) KeyError)
    (thenM (modM (\<lambda>s. s\<lparr>scheduled_req_ids := scheduled_req_ids s - {i}\<rparr>))
           (if stopped then retM () else modM (\<lambda>s. s\<lparr>new_running := new_running s @ [a]\<rparr>)))))))"

text \<open>The body of the loop over \<open>self.running\<close>.\<close>

definition update_scheduled :: "set_order \<Rightarrow> SchedulerOutput \<Rightarrow> ModelRunnerOutput \<Rightarrow> nat \<Rightarrow> unit us" where
  "update_scheduled iter out mro a = getM (rid a) (\<lambda>i.
     bindM (fromM KeyError (req_id_to_index mro i)) (\<lambda>row.
     bindM (liftM (nth_or_raise (sampled_token_ids mro) row)) (\<lambda>generated.
     thenM (reject_drafts out a generated)
    (thenM (free_processed_inputs iter a)
    (thenM (case runner_spec_token_ids mro of
         None \<Rightarrow> retM ()
       | Some drafts \<Rightarrow> bindM (liftM (nth_or_raise drafts row)) (\<lambda>ts. mod_req a (\<lambda>r. r\<lparr>spec_token_ids := ts\<rparr>)))
           (bindM (append_tokens iter a [] generated) (\<lambda>(new_tokens, stopped).
            report_tokens mro a row new_tokens stopped)))))))"

definition update_request :: "set_order \<Rightarrow> SchedulerOutput \<Rightarrow> ModelRunnerOutput \<Rightarrow> nat \<Rightarrow> unit us" where
  "update_request iter out mro a = getM (rid a) (\<lambda>i.
     if (case dict_get (out_num_scheduled_tokens out) i of None \<Rightarrow> 0 | Some n \<Rightarrow> n) = 0
     then modM (\<lambda>s. s\<lparr>new_running := new_running s @ [a]\<rparr>)
     else update_scheduled iter out mro a)"

definition finish_update :: "SchedulerOutput \<Rightarrow> EngineCoreOutputs us" where
  "finish_update out =
     thenM (modM (\<lambda>s. s\<lparr>running := new_running s\<rparr>))
    (getM id (\<lambda>s. bindM (make_stats (spec_decoding_stats s)) (\<lambda>stats.
     retM \<lparr>eco_outputs = step_outputs s, eco_stats = stats,
       eco_finished_requests = (if include_finished_set s then Some (out_finished_req_ids out \<union> finished_req_ids s) else None)\<rparr>)))"

definition update_init :: "Scheduler \<Rightarrow> UpdateStep" where
  "update_init s = Scheduler.extend s \<lparr>new_running = [], step_outputs = [], spec_decoding_stats = None\<rparr>"

definition update_from_output :: "set_order \<Rightarrow> SchedulerOutput \<Rightarrow> ModelRunnerOutput \<Rightarrow> (Scheduler, EngineCoreOutputs) st" where
  "update_from_output iter out mro s =
     (case thenM (forM (running s) (update_request iter out mro)) (finish_update out) (update_init s) of
        (r, t) \<Rightarrow> (r, Scheduler.truncate t))"

subsection \<open>Inversion of the calls\<close>

lemma kvM_ok [ok_simps]:
  "kvM m s = (Inr x, t) \<longleftrightarrow> (\<exists>k. m (kv_cache_manager s) = (Inr x, k) \<and> t = s\<lparr>kv_cache_manager := k\<rparr>)"
  by (simp add: kvM_def zoomM_ok)

lemma encM_ok [ok_simps]:
  "encM m s = (Inr x, t) \<longleftrightarrow> (\<exists>e. m (encoder_cache_manager s) = (Inr x, e) \<and> t = s\<lparr>encoder_cache_manager := e\<rparr>)"
  by (simp add: encM_def zoomM_ok)

lemma reqM_ok [ok_simps]:
  "reqM a m s = (Inr x, t) \<longleftrightarrow> (\<exists>r. m (rq a s) = (Inr x, r) \<and> t = s\<lparr>reqs := (reqs s)[a := r]\<rparr>)"
  by (simp add: reqM_def zoomM_ok)

lemma mod_req_ok [ok_simps]: "mod_req a f s = (Inr x, t) \<longleftrightarrow> t = s\<lparr>reqs := (reqs s)[a := f (rq a s)]\<rparr>"
  by (auto simp: mod_req_def ok_simps)

lemma kvM_run: "kvM m s = (case m (kv_cache_manager s) of (r, k) \<Rightarrow> (r, s\<lparr>kv_cache_manager := k\<rparr>))"
  by (simp add: kvM_def zoomM_run)

lemma encM_run: "encM m s = (case m (encoder_cache_manager s) of (r, k) \<Rightarrow> (r, s\<lparr>encoder_cache_manager := k\<rparr>))"
  by (simp add: encM_def zoomM_run)

lemma mod_req_run: "mod_req a f s = (Inr (), s\<lparr>reqs := (reqs s)[a := f (rq a s)]\<rparr>)"
  by (simp add: mod_req_def reqM_def zoomM_run modM_run)

lemma record_event_ok [ok_simps]:
  "record_event a ty now s = (Inr x, t) \<longleftrightarrow> t = s\<lparr>req_events := add_event (log_stats s) a (ty, now) (req_events s)\<rparr>"
  by (auto simp: record_event_def ok_simps)

lemma encoder_part_ok:
  assumes "encoder_part r computed n s = (Inr (inputs, m, b), t)"
  shows "t = s \<and> (has_encoder_inputs r \<longrightarrow>
      encoder_inputs_loop (encoder_cache_manager s) r computed (enumerate 0 (mm_positions r)) [] n (encoder_budget s) = Inr (inputs, m, b)) \<and>
    (\<not> has_encoder_inputs r \<longrightarrow> inputs = [] \<and> m = n \<and> b = encoder_budget s)"
  using assms by (auto simp: encoder_part_def try_schedule_encoder_inputs_def ok_simps split: if_splits)

lemma enc_loop_ok:
  assumes "forM is (\<lambda>i. encM (enc_allocate r i)) s = (Inr (), t)"
  shows "forM is (enc_allocate r) (encoder_cache_manager s) = (Inr (), encoder_cache_manager t) \<and>
    t = s\<lparr>encoder_cache_manager := encoder_cache_manager t\<rparr>"
  using assms
proof (induction "is" arbitrary: s)
  case Nil
  then show ?case by (simp add: ok_simps)
next
  case (Cons i "is")
  then obtain e where e: "enc_allocate r i (encoder_cache_manager s) = (Inr (), e)"
    and rest: "forM is (\<lambda>i. encM (enc_allocate r i)) (s\<lparr>encoder_cache_manager := e\<rparr>) = (Inr (), t)" by (auto simp: ok_simps)
  from Cons.IH [OF rest] have "forM is (enc_allocate r) e = (Inr (), encoder_cache_manager t)"
    and "t = s\<lparr>encoder_cache_manager := encoder_cache_manager t\<rparr>" by simp_all
  with e show ?case by (auto simp: ok_simps)
qed

lemma take_encoder_inputs_ok:
  assumes "take_encoder_inputs a inputs b s = (Inr (), t)"
  obtains d e b' where "forM inputs (enc_allocate (rq a s)) (encoder_cache_manager s) = (Inr (), e)"
    and "t = s\<lparr>scheduled_encoder_inputs := d, encoder_cache_manager := e, encoder_budget := b'\<rparr>"
proof (cases "inputs = []")
  case True
  with assms have "t = s\<lparr>scheduled_encoder_inputs := scheduled_encoder_inputs s, encoder_cache_manager := encoder_cache_manager s,
      encoder_budget := encoder_budget s\<rparr>" by (simp add: take_encoder_inputs_def ok_simps)
  moreover from True have "forM inputs (enc_allocate (rq a s)) (encoder_cache_manager s) = (Inr (), encoder_cache_manager s)"
    by (simp add: ok_simps)
  ultimately show thesis using that by blast
next
  case False
  let ?u = "s\<lparr>scheduled_encoder_inputs := dict_set (rid a s) inputs (scheduled_encoder_inputs s)\<rparr>"
  from assms False obtain v where v: "forM inputs (\<lambda>i. encM (enc_allocate (rq a s) i)) ?u = (Inr (), v)"
    and t: "t = v\<lparr>encoder_budget := b\<rparr>" by (auto simp: take_encoder_inputs_def ok_simps)
  from enc_loop_ok [OF v] have "forM inputs (enc_allocate (rq a s)) (encoder_cache_manager s) = (Inr (), encoder_cache_manager v)"
    and "v = ?u\<lparr>encoder_cache_manager := encoder_cache_manager v\<rparr>" by simp_all
  then obtain e where "v = ?u\<lparr>encoder_cache_manager := e\<rparr>"
    and "forM inputs (enc_allocate (rq a s)) (encoder_cache_manager s) = (Inr (), e)" by blast
  then show thesis using that by (simp add: t)
qed

subsection \<open>A step ends\<close>

lemma plan_running_ok:
  assumes "plan_running a s = (Inr r, t)"
  shows "case r of None \<Rightarrow> t = s\<lparr>req_index := Suc (req_index s)\<rparr>
    | Some (n, inputs, b) \<Rightarrow> t = s \<and> rid a s \<notin> scheduled_req_ids s \<and>
        (\<exists>n0. n0 = limit_tokens (req_num_tokens_with_spec (rq a s) - num_computed_tokens (rq a s)) s \<and> 0 < n0 \<and>
          encoder_part (rq a s) (num_computed_tokens (rq a s)) n0 s = (Inr (inputs, n, b), s) \<and>
          (has_encoder_inputs (rq a s) \<longrightarrow> n \<noteq> 0))"
proof -
  have same: "u = s" if "encoder_part r' c n' s = (Inr (i, m, b'), u)" for r' c n' i m b' u
    using encoder_part_ok [OF that] by simp
  from assms show ?thesis
    by (auto simp: plan_running_def Let_def ok_simps split: if_splits option.splits dest: same)
qed

lemma preempt_last_ok:
  assumes "preempt_last now s = (Inr a, t)"
  shows "running s \<noteq> [] \<and> a = last (running s) \<and>
    (\<exists>k. km_free (rq a s) (kv_cache_manager s) = (Inr (), k) \<and>
      t = s\<lparr>running := butlast (running s), kv_cache_manager := k,
        reqs := (reqs s)[a := (rq a s)\<lparr>status := PREEMPTED, num_computed_tokens := 0\<rparr>],
        req_events := add_event (log_stats s) a (PREEMPTED_EVENT, now) (req_events s),
        waiting := a # waiting s, step_preempted := step_preempted s @ [a]\<rparr>)"
  using assms by (auto simp: preempt_last_def Let_def ok_simps)

lemma allocate_or_preempt_returns: "\<exists>r t. allocate_or_preempt F none_hash now a n s = Some (r, t)"
  unfolding allocate_or_preempt_def
proof (rule loopL_returns [where I = "\<lambda>s. True" and f = "\<lambda>s. length (running s)"])
  fix u :: ScheduleStep
  obtain r v where r: "preempt_round F none_hash now a n u = (r, v)" by (cases "preempt_round F none_hash now a n u")
  moreover have "length (running v) < length (running u)" if "r = Inr None"
  proof -
    from r that obtain k b where "preempt_last now (u\<lparr>kv_cache_manager := k\<rparr>) = (Inr b, v)"
      by (auto simp: preempt_round_def ok_simps split: option.splits if_splits)
    from preempt_last_ok [OF this] show ?thesis by auto
  qed
  ultimately show "\<exists>r v. liftL (preempt_round F none_hash now a n) u = Some (r, v) \<and>
      (r = Inr None \<longrightarrow> True \<and> length (running v) < length (running u))" by (simp add: liftL_def)
qed simp

text \<open>Preempting only shortens the queue; the rest of a round leaves it alone.\<close>

lemma allocate_or_preempt_shrinks:
  assumes "allocate_or_preempt F none_hash now a n s = Some (Inr r, t)"
  shows "length (running t) \<le> length (running s) \<and> req_index t = req_index s"
  using assms [unfolded allocate_or_preempt_def]
proof (rule loopL_inv [where I = "\<lambda>u. length (running u) \<le> length (running s) \<and> req_index u = req_index s"])
  fix u v y
  assume i: "length (running u) \<le> length (running s) \<and> req_index u = req_index s"
    and run: "liftL (preempt_round F none_hash now a n) u = Some (Inr (Some y), v)"
  show "length (running v) \<le> length (running s) \<and> req_index v = req_index s"
    using run i by (auto simp: preempt_round_def ok_simps split: option.splits if_splits dest!: preempt_last_ok)
next
  fix u v
  assume i: "length (running u) \<le> length (running s) \<and> req_index u = req_index s"
    and run: "liftL (preempt_round F none_hash now a n) u = Some (Inr None, v)"
  show "length (running v) \<le> length (running s) \<and> req_index v = req_index s"
    using run i by (auto simp: preempt_round_def ok_simps split: option.splits if_splits dest!: preempt_last_ok)
qed simp

text \<open>The draft tokens of a request that computes \<open>n\<close> tokens.\<close>

definition trim_drafts :: "int \<Rightarrow> Request \<Rightarrow> Request" where
  "trim_drafts n r = (let m = n + num_computed_tokens r - req_num_tokens r in
     if spec_token_ids r \<noteq> [] \<and> 0 < m then r\<lparr>spec_token_ids := take (nat m) (spec_token_ids r)\<rparr> else r)"

lemma trim_drafts_fields [simp]:
  "request_id (trim_drafts n r) = request_id r" "status (trim_drafts n r) = status r"
  "mm_positions (trim_drafts n r) = mm_positions r" "num_computed_tokens (trim_drafts n r) = num_computed_tokens r"
  "all_token_ids (trim_drafts n r) = all_token_ids r" "req_num_tokens (trim_drafts n r) = req_num_tokens r"
  by (simp_all add: trim_drafts_def Let_def req_num_tokens_def)

definition has_drafts :: "int \<Rightarrow> Request \<Rightarrow> bool" where
  "has_drafts n r \<longleftrightarrow> spec_token_ids r \<noteq> [] \<and> 0 < n + num_computed_tokens r - req_num_tokens r"

definition note_drafts :: "int \<Rightarrow> Request \<Rightarrow> (string, int list) dict \<Rightarrow> (string, int list) dict" where
  "note_drafts n r d = (if has_drafts n r then dict_set (request_id r) (spec_token_ids (trim_drafts n r)) d else d)"

lemma schedule_spec_tokens_ok:
  assumes "schedule_spec_tokens a n s = (Inr (), t)"
  shows "t = s\<lparr>reqs := (reqs s)[a := trim_drafts n (rq a s)],
    scheduled_spec_decode_tokens := note_drafts n (rq a s) (scheduled_spec_decode_tokens s)\<rparr>"
proof (cases "has_drafts n (rq a s)")
  case True
  with assms show ?thesis
    by (simp add: schedule_spec_tokens_def Let_def ok_simps trim_drafts_def note_drafts_def has_drafts_def)
next
  case False
  with assms have "t = s" by (auto simp: schedule_spec_tokens_def Let_def ok_simps has_drafts_def)
  moreover have "trim_drafts n (rq a s) = rq a s" using False by (auto simp: trim_drafts_def Let_def has_drafts_def)
  ultimately show ?thesis using False by (simp add: note_drafts_def)
qed

text \<open>The configuration and the tables a step does not touch.\<close>

definition same_config :: "'x Scheduler_scheme \<Rightarrow> 'y Scheduler_scheme \<Rightarrow> bool" where
  "same_config s t \<longleftrightarrow> max_num_running_reqs t = max_num_running_reqs s \<and> max_num_scheduled_tokens t = max_num_scheduled_tokens s \<and>
     sched_max_model_len t = sched_max_model_len s \<and> long_prefill_token_threshold t = long_prefill_token_threshold s \<and>
     max_loras t = max_loras s \<and> log_stats t = log_stats s \<and> include_finished_set t = include_finished_set s \<and>
     max_num_encoder_input_tokens t = max_num_encoder_input_tokens s"

lemma same_config_refl [simp]: "same_config s s"
  by (simp add: same_config_def)

lemma same_config_trans: "same_config s t \<Longrightarrow> same_config t u \<Longrightarrow> same_config s u"
  by (simp add: same_config_def)

lemma schedule_running_ok:
  assumes "schedule_running a n bs inputs b s = (Inr (), t)"
  shows "same_config s t \<and> kv_cache_manager t = kv_cache_manager s \<and> requests t = requests s \<and>
    running t = running s \<and> waiting t = waiting s \<and> req_index t = Suc (req_index s) \<and>
    reqs t = (reqs s)[a := trim_drafts n (rq a s)] \<and> scheduled_req_ids t = insert (rid a s) (scheduled_req_ids s) \<and>
    step_new t = step_new s \<and> step_resumed t = step_resumed s \<and> step_running t = step_running s @ [a] \<and>
    step_preempted t = step_preempted s \<and> skipped_waiting_requests t = skipped_waiting_requests s \<and>
    num_scheduled_tokens t = dict_set (rid a s) n (num_scheduled_tokens s) \<and> token_budget t = token_budget s - n \<and>
    finished_req_ids t = finished_req_ids s \<and>
    scheduled_spec_decode_tokens t = note_drafts n (rq a s) (scheduled_spec_decode_tokens s) \<and>
    forM inputs (enc_allocate (rq a t)) (encoder_cache_manager s) = (Inr (), encoder_cache_manager t)"
proof -
  let ?s1 = "s\<lparr>step_running := step_running s @ [a], scheduled_req_ids := insert (rid a s) (scheduled_req_ids s),
      structured_output_request_ids := (if use_structured_output (rq a s)
        then dict_set (rid a s) (req_index s) (structured_output_request_ids s) else structured_output_request_ids s),
      req_to_new_block_ids := dict_set (rid a s) bs (req_to_new_block_ids s),
      num_scheduled_tokens := dict_set (rid a s) n (num_scheduled_tokens s), token_budget := token_budget s - n,
      req_index := Suc (req_index s)\<rparr>"
  from assms obtain u where u: "schedule_spec_tokens a n ?s1 = (Inr (), u)" and t: "take_encoder_inputs a inputs b u = (Inr (), t)"
    unfolding schedule_running_def getM_ok thenM_ok modM_ok by blast
  have ueq: "u = ?s1\<lparr>reqs := (reqs ?s1)[a := trim_drafts n (rq a ?s1)],
      scheduled_spec_decode_tokens := note_drafts n (rq a ?s1) (scheduled_spec_decode_tokens ?s1)\<rparr>"
    by (rule schedule_spec_tokens_ok [OF u])
  from t obtain d1 e b' where f: "forM inputs (enc_allocate (rq a u)) (encoder_cache_manager u) = (Inr (), e)"
    and teq: "t = u\<lparr>scheduled_encoder_inputs := d1, encoder_cache_manager := e, encoder_budget := b'\<rparr>"
    by (rule take_encoder_inputs_ok)
  have "forM inputs (enc_allocate (rq a t)) (encoder_cache_manager s) = (Inr (), encoder_cache_manager t)"
    using f by (simp add: teq ueq)
  then show ?thesis by (simp add: teq ueq same_config_def)
qed

lemma running_round_parts:
  assumes "running_round F none_hash now s = Some (Inr r, t)"
  defines "a \<equiv> running s ! req_index s"
  shows "(r = Some () \<and> t = s \<and> \<not> (req_index s < length (running s) \<and> 0 < token_budget s)) \<or>
    (req_index s < length (running s) \<and> 0 < token_budget s \<and>
      ((r = None \<and> plan_running a s = (Inr None, t)) \<or>
       (\<exists>n inputs b v. plan_running a s = (Inr (Some (n, inputs, b)), s) \<and>
          ((r = Some () \<and> allocate_or_preempt F none_hash now a n s = Some (Inr None, t)) \<or>
           (\<exists>bs. r = None \<and> allocate_or_preempt F none_hash now a n s = Some (Inr (Some bs), v) \<and>
              schedule_running a n bs inputs b v = (Inr (), t))))))"
proof (cases "req_index s < length (running s) \<and> 0 < token_budget s")
  case False
  with assms(1) show ?thesis by (auto simp: running_round_def ok_simps)
next
  case True
  with assms(1) [folded a_def] obtain plan u where p: "plan_running a s = (Inr plan, u)"
    and rest: "(case plan of None \<Rightarrow> liftL (retM None)
       | Some (n, inputs, budget) \<Rightarrow> bindL (allocate_or_preempt F none_hash now a n) (\<lambda>new. case new of
             None \<Rightarrow> liftL (retM (Some ()))
           | Some bs \<Rightarrow> liftL (thenM (schedule_running a n bs inputs budget) (retM None)))) u = Some (Inr r, t)"
    unfolding running_round_def getL_ok id_apply Let_def a_def by (auto simp: bindL_ok liftL_ok)
  show ?thesis
  proof (cases plan)
    case None
    with p rest True show ?thesis by (simp add: ok_simps)
  next
    case (Some q)
    obtain n inputs b where q: "q = (n, inputs, b)" by (cases q)
    have "u = s" using plan_running_ok [OF p] Some q by simp
    with rest Some q obtain new v where v: "allocate_or_preempt F none_hash now a n s = Some (Inr new, v)"
      and t: "(case new of None \<Rightarrow> liftL (retM (Some ())) | Some bs \<Rightarrow> liftL (thenM (schedule_running a n bs inputs b) (retM None))) v = Some (Inr r, t)"
      by (auto simp: ok_simps)
    have p': "plan_running a s = (Inr (Some (n, inputs, b)), s)" using p Some q \<open>u = s\<close> by simp
    show ?thesis
    proof (cases new)
      case None
      with t have "r = Some ()" "t = v" by (simp_all add: ok_simps)
      with True p' v None show ?thesis by blast
    next
      case (Some bs)
      with t have "r = None" "schedule_running a n bs inputs b v = (Inr (), t)" by (simp_all add: ok_simps)
      with True p' v Some show ?thesis by blast
    qed
  qed
qed

lemma running_round_frame:
  assumes "running_round F none_hash now s = Some (Inr None, t)"
  shows "req_index s < length (running s) \<and> length (running t) \<le> length (running s) \<and> req_index t = Suc (req_index s)"
  using running_round_parts [OF assms]
proof (elim disjE conjE exE)
  assume "req_index s < length (running s)" "plan_running (running s ! req_index s) s = (Inr None, t)"
  then show ?thesis using plan_running_ok by fastforce
next
  fix n inputs b v bs
  assume "req_index s < length (running s)" "allocate_or_preempt F none_hash now (running s ! req_index s) n s = Some (Inr (Some bs), v)"
    and "schedule_running (running s ! req_index s) n bs inputs b v = (Inr (), t)"
  with allocate_or_preempt_shrinks schedule_running_ok show ?thesis by metis
qed simp_all

lemma admit_waiting_ok:
  assumes "admit_waiting now a hits bs c n inputs b s = (Inr (), t)" and "a < length (reqs s)"
  shows "same_config s t \<and> kv_cache_manager t = kv_cache_manager s \<and> requests t = requests s \<and>
    running t = running s @ [a] \<and> waiting t = tl (waiting s) \<and> req_index t = Suc (req_index s) \<and>
    reqs t = (reqs s)[a := (rq a s)\<lparr>status := RUNNING, num_computed_tokens := c\<rparr>] \<and>
    scheduled_req_ids t = insert (rid a s) (scheduled_req_ids s) \<and>
    (status (rq a s) = WAITING \<and> step_new t = step_new s @ [a] \<and> step_resumed t = step_resumed s \<or>
     status (rq a s) = PREEMPTED \<and> step_new t = step_new s \<and> step_resumed t = step_resumed s @ [a]) \<and>
    step_running t = step_running s \<and> step_preempted t = step_preempted s \<and>
    skipped_waiting_requests t = skipped_waiting_requests s \<and>
    num_scheduled_tokens t = dict_set (rid a s) n (num_scheduled_tokens s) \<and> token_budget t = token_budget s - n \<and>
    finished_req_ids t = finished_req_ids s \<and>
    scheduled_spec_decode_tokens t = scheduled_spec_decode_tokens s \<and>
    forM inputs (enc_allocate (rq a t)) (encoder_cache_manager s) = (Inr (), encoder_cache_manager t)"
proof -
  let ?s1 = "s\<lparr>waiting := tl (waiting s), structured_output_request_ids := (if use_structured_output (rq a s)
        then dict_set (rid a s) (req_index s) (structured_output_request_ids s) else structured_output_request_ids s),
      req_index := Suc (req_index s), running := running s @ [a], scheduled_req_ids := insert (rid a s) (scheduled_req_ids s),
      req_events := add_event (log_stats s) a (SCHEDULED_EVENT, now) (req_events s)\<rparr>"
  from assms(1) obtain u v where
    u: "(if status (rq a s) = WAITING then modM (\<lambda>s. s\<lparr>step_new := step_new s @ [a]\<rparr>)
        else if status (rq a s) = PREEMPTED then modM (\<lambda>s. s\<lparr>step_resumed := step_resumed s @ [a]\<rparr>) else raiseM RuntimeError) ?s1 = (Inr (), u)"
    and v: "v = u\<lparr>scheduled_loras := (case (max_loras u, lora_request (rq a s)) of
         (Some m, Some l) \<Rightarrow> insert l (scheduled_loras u) | _ \<Rightarrow> scheduled_loras u),
       req_to_new_block_ids := dict_set (rid a s) (hits @ bs) (req_to_new_block_ids u),
       num_scheduled_tokens := dict_set (rid a s) n (num_scheduled_tokens u), token_budget := token_budget u - n,
       reqs := (reqs u)[a := (rq a u)\<lparr>status := RUNNING, num_computed_tokens := c\<rparr>]\<rparr>"
    and t: "take_encoder_inputs a inputs b v = (Inr (), t)"
    unfolding admit_waiting_def getM_ok thenM_ok modM_ok record_event_ok mod_req_ok by simp blast
  from u obtain n1 n2 where ueq: "u = ?s1\<lparr>step_new := n1, step_resumed := n2\<rparr>"
    and cases: "status (rq a s) = WAITING \<and> n1 = step_new s @ [a] \<and> n2 = step_resumed s \<or>
      status (rq a s) = PREEMPTED \<and> n1 = step_new s \<and> n2 = step_resumed s @ [a]"
  proof (cases "status (rq a s) = WAITING")
    case True
    with u have "u = ?s1\<lparr>step_new := step_new s @ [a], step_resumed := step_resumed s\<rparr>" by (simp add: modM_ok)
    with True that show thesis by blast
  next
    case False
    with u have "status (rq a s) = PREEMPTED" by (simp add: raiseM_ok split: if_splits)
    with u have "u = ?s1\<lparr>step_new := step_new s, step_resumed := step_resumed s @ [a]\<rparr>" by (simp add: modM_ok)
    with \<open>status (rq a s) = PREEMPTED\<close> that show thesis by blast
  qed
  from t obtain d1 e b' where f: "forM inputs (enc_allocate (rq a v)) (encoder_cache_manager v) = (Inr (), e)"
    and teq: "t = v\<lparr>scheduled_encoder_inputs := d1, encoder_cache_manager := e, encoder_budget := b'\<rparr>"
    by (rule take_encoder_inputs_ok)
  have "forM inputs (enc_allocate (rq a t)) (encoder_cache_manager s) = (Inr (), encoder_cache_manager t)"
    using f by (simp add: teq v ueq)
  with cases show ?thesis by (simp add: teq v ueq same_config_def)
qed

text \<open>What one round of the second loop does: leave, skip the first request, or admit it.\<close>

definition fsm_done :: "nat \<Rightarrow> ScheduleStep \<Rightarrow> ScheduleStep" where
  "fsm_done a s = (if status (rq a s) = WAITING_FOR_FSM then s\<lparr>reqs := (reqs s)[a := (rq a s)\<lparr>status := WAITING\<rparr>]\<rparr> else s)"

definition must_skip :: "(Request \<Rightarrow> bool) \<Rightarrow> nat \<Rightarrow> ScheduleStep \<Rightarrow> bool" where
  "must_skip ready a s \<longleftrightarrow> status (rq a s) = WAITING_FOR_FSM \<and> \<not> ready (rq a s) \<or> exceeds_loras (rq a s) s"

lemma schedule_waiting_parts:
  assumes "schedule_waiting F none_hash now a s = (Inr r, t)"
  shows "\<exists>hits c k n0 n inputs b.
    get_computed_blocks F none_hash (rq a s) (kv_cache_manager s) = (Inr (hits, c), k) \<and>
    n0 = limit_tokens (req_num_tokens (rq a s) - c) s \<and> 0 < n0 \<and>
    encoder_part (rq a s) c n0 (s\<lparr>kv_cache_manager := k\<rparr>) = (Inr (inputs, n, b), s\<lparr>kv_cache_manager := k\<rparr>) \<and>
    ((r = Some () \<and> has_encoder_inputs (rq a s) \<and> n = 0 \<and> t = s\<lparr>kv_cache_manager := k\<rparr>) \<or>
     (\<not> (has_encoder_inputs (rq a s) \<and> n = 0) \<and>
      (\<exists>new k'. allocate_slots F none_hash (rq a s) n hits k = (Inr new, k') \<and>
        (case new of None \<Rightarrow> r = Some () \<and> t = s\<lparr>kv_cache_manager := k'\<rparr>
         | Some bs \<Rightarrow> r = None \<and> admit_waiting now a hits bs c n inputs b (s\<lparr>kv_cache_manager := k'\<rparr>) = (Inr (), t)))))"
proof -
  have lim: "limit_tokens m (s\<lparr>kv_cache_manager := k\<rparr>) = limit_tokens m s" for m k by (simp add: limit_tokens_def)
  from assms obtain hits c k inputs n b u where
    g: "get_computed_blocks F none_hash (rq a s) (kv_cache_manager s) = (Inr (hits, c), k)"
    and n0: "0 < limit_tokens (req_num_tokens (rq a s) - c) s"
    and e: "encoder_part (rq a s) c (limit_tokens (req_num_tokens (rq a s) - c) s) (s\<lparr>kv_cache_manager := k\<rparr>) = (Inr (inputs, n, b), u)"
    and rest': "(if has_encoder_inputs (rq a s) \<and> n = 0 then retM (Some ())
     else bindM (kvM (allocate_slots F none_hash (rq a s) n hits)) (\<lambda>new. case new of
       None \<Rightarrow> retM (Some ())
     | Some bs \<Rightarrow> thenM (admit_waiting now a hits bs c n inputs b) (retM None))) u = (Inr r, t)"
    unfolding schedule_waiting_def getM_ok bindM_ok kvM_ok Let_def id_apply
    by (auto simp: getM_ok bindM_ok thenM_ok assertM_ok Let_def lim)
  have u: "u = s\<lparr>kv_cache_manager := k\<rparr>" using encoder_part_ok [OF e] by simp
  have "(r = Some () \<and> has_encoder_inputs (rq a s) \<and> n = 0 \<and> t = s\<lparr>kv_cache_manager := k\<rparr>) \<or>
     (\<not> (has_encoder_inputs (rq a s) \<and> n = 0) \<and>
      (\<exists>new k'. allocate_slots F none_hash (rq a s) n hits k = (Inr new, k') \<and>
        (case new of None \<Rightarrow> r = Some () \<and> t = s\<lparr>kv_cache_manager := k'\<rparr>
         | Some bs \<Rightarrow> r = None \<and> admit_waiting now a hits bs c n inputs b (s\<lparr>kv_cache_manager := k'\<rparr>) = (Inr (), t))))"
  proof (cases "has_encoder_inputs (rq a s) \<and> n = 0")
    case True
    with rest' show ?thesis unfolding u by (simp add: retM_ok)
  next
    case False
    with rest' obtain new k' where al: "allocate_slots F none_hash (rq a s) n hits k = (Inr new, k')"
      and w: "(case new of None \<Rightarrow> retM (Some ())
       | Some bs \<Rightarrow> thenM (admit_waiting now a hits bs c n inputs b) (retM None)) (s\<lparr>kv_cache_manager := k'\<rparr>) = (Inr r, t)"
      unfolding u if_not_P [OF False] bindM_ok kvM_ok by auto
    from w have "case new of None \<Rightarrow> r = Some () \<and> t = s\<lparr>kv_cache_manager := k'\<rparr>
      | Some bs \<Rightarrow> r = None \<and> admit_waiting now a hits bs c n inputs b (s\<lparr>kv_cache_manager := k'\<rparr>) = (Inr (), t)"
      by (cases new) (auto simp: retM_ok thenM_ok)
    with False al show ?thesis by blast
  qed
  with g n0 e show ?thesis unfolding u by blast
qed

lemma waiting_round_parts:
  assumes "waiting_round F none_hash ready now s = (Inr r, t)"
  defines "a \<equiv> hd (waiting s)"
  shows "(r = Some () \<and> t = s \<and> (waiting s = [] \<or> token_budget s \<le> 0 \<or> int (length (running s)) = max_num_running_reqs s)) \<or>
    (waiting s \<noteq> [] \<and> 0 < token_budget s \<and> int (length (running s)) \<noteq> max_num_running_reqs s \<and>
      ((r = None \<and> must_skip ready a s \<and> (\<exists>u. (u = s \<or> u = fsm_done a s) \<and>
          t = u\<lparr>waiting := tl (waiting s), skipped_waiting_requests := a # skipped_waiting_requests s\<rparr>)) \<or>
       (\<not> must_skip ready a s \<and> schedule_waiting F none_hash now a (fsm_done a s) = (Inr r, t))))"
proof (cases "waiting s \<noteq> [] \<and> 0 < token_budget s \<and> int (length (running s)) \<noteq> max_num_running_reqs s")
  case False
  with assms(1) show ?thesis by (auto simp: waiting_round_def getM_ok retM_ok not_less split: if_splits)
next
  case True
  let ?r = "rq a s"
  have run: "(if status ?r = WAITING_FOR_FSM \<and> \<not> ready ?r then skip_waiting a
     else thenM (if status ?r = WAITING_FOR_FSM then mod_req a (\<lambda>r. r\<lparr>status := WAITING\<rparr>) else retM ())
       (if exceeds_loras ?r s then skip_waiting a else schedule_waiting F none_hash now a)) s = (Inr r, t)"
    using assms(1) True unfolding waiting_round_def getM_ok id_apply a_def Let_def by simp
  have skip: "skip_waiting a u = (Inr r, t) \<Longrightarrow> r = None \<and> t = u\<lparr>waiting := tl (waiting u), skipped_waiting_requests := a # skipped_waiting_requests u\<rparr>" for u
    by (auto simp: skip_waiting_def ok_simps)
  have fsm: "thenM (if status ?r = WAITING_FOR_FSM then mod_req a (\<lambda>r. r\<lparr>status := WAITING\<rparr>) else retM ()) m s = m (fsm_done a s)"
    for m :: "unit option ss"
    by (simp add: fsm_done_def thenM_run mod_req_run retM_run)
  show ?thesis
  proof (cases "status ?r = WAITING_FOR_FSM \<and> \<not> ready ?r")
    case wait: True
    with run skip [of s] True show ?thesis by (auto simp: must_skip_def)
  next
    case ready: False
    have run': "(if exceeds_loras ?r s then skip_waiting a else schedule_waiting F none_hash now a) (fsm_done a s) = (Inr r, t)"
      using run unfolding if_not_P [OF ready] fsm .
    show ?thesis
    proof (cases "exceeds_loras ?r s")
      case lora: True
      with run' skip [of "fsm_done a s"] have "r = None" "t = (fsm_done a s)\<lparr>waiting := tl (waiting s), skipped_waiting_requests := a # skipped_waiting_requests s\<rparr>"
        by (simp_all add: fsm_done_def)
      with lora True show ?thesis by (auto simp: must_skip_def)
    next
      case False
      with run' ready True show ?thesis by (simp add: must_skip_def)
    qed
  qed
qed

lemma waiting_round_frame:
  assumes "waiting_round F none_hash ready now s = (Inr None, t)"
  shows "length (waiting t) < length (waiting s)"
proof -
  let ?a = "hd (waiting s)"
  from waiting_round_parts [OF assms] have w: "waiting s \<noteq> []"
    and cases: "(\<exists>u. (u = s \<or> u = fsm_done ?a s) \<and>
          t = u\<lparr>waiting := tl (waiting s), skipped_waiting_requests := ?a # skipped_waiting_requests s\<rparr>) \<or>
       schedule_waiting F none_hash now ?a (fsm_done ?a s) = (Inr None, t)" by auto
  have "waiting t = tl (waiting s)"
    using cases
  proof
    assume "schedule_waiting F none_hash now ?a (fsm_done ?a s) = (Inr None, t)"
    from schedule_waiting_parts [OF this] obtain hits c n inputs b bs k where
      run: "admit_waiting now ?a hits bs c n inputs b (fsm_done ?a s\<lparr>kv_cache_manager := k\<rparr>) = (Inr (), t)"
      by (auto split: option.splits)
    then have "waiting t = tl (waiting (fsm_done ?a s))"
      by (auto simp: admit_waiting_def ok_simps split: if_splits elim!: take_encoder_inputs_ok)
    then show ?thesis by (simp add: fsm_done_def)
  qed auto
  with w show ?thesis by simp
qed

lemma running_loop_returns: "\<exists>r t. loopL (running_round F none_hash now) s = Some (r, t)"
proof (rule loopL_returns [where I = "\<lambda>s. True" and f = "\<lambda>s. length (running s) - req_index s"])
  fix u :: ScheduleStep
  have "\<exists>r v. running_round F none_hash now u = Some (r, v)"
  proof (cases "req_index u < length (running u) \<and> 0 < token_budget u")
    case False
    then have "running_round F none_hash now u = Some (Inr (Some ()), u)" by (auto simp: running_round_def run_simps)
    then show ?thesis by blast
  next
    case True
    let ?a = "running u ! req_index u"
    obtain q v where q: "plan_running ?a u = (q, v)" by (cases "plan_running ?a u")
    show ?thesis
    proof (cases q)
      case (Inl e)
      with True q show ?thesis by (auto simp: running_round_def run_simps Let_def)
    next
      case (Inr plan)
      show ?thesis
      proof (cases plan)
        case None
        with True q Inr show ?thesis by (auto simp: running_round_def run_simps Let_def)
      next
        case (Some p)
        obtain n inputs b where p: "p = (n, inputs, b)" by (cases p)
        obtain r w where w: "allocate_or_preempt F none_hash now ?a n v = Some (r, w)" using allocate_or_preempt_returns by blast
        with True q Inr Some p show ?thesis
          by (cases r) (auto simp: running_round_def bindL_run getL_run liftL_run Let_def split: option.split)
      qed
    qed
  qed
  then obtain r v where r: "running_round F none_hash now u = Some (r, v)" by blast
  with running_round_frame [of F none_hash now u v]
  show "\<exists>r v. running_round F none_hash now u = Some (r, v) \<and>
      (r = Inr None \<longrightarrow> True \<and> length (running v) - req_index v < length (running u) - req_index u)" by fastforce
qed simp

lemma waiting_loop_returns: "\<exists>r t. loopL (liftL (waiting_round F none_hash ready now)) s = Some (r, t)"
proof (rule loopL_returns [where I = "\<lambda>s. True" and f = "\<lambda>s. length (waiting s)"])
  fix u :: ScheduleStep
  obtain r v where "waiting_round F none_hash ready now u = (r, v)" by (cases "waiting_round F none_hash ready now u")
  with waiting_round_frame show "\<exists>r v. liftL (waiting_round F none_hash ready now) u = Some (r, v) \<and>
      (r = Inr None \<longrightarrow> True \<and> length (waiting v) < length (waiting u))" by (auto simp: liftL_def)
qed simp

lemma bindL_returns:
  assumes "\<exists>r t. m s = Some (r, t)" and "\<And>x u. \<exists>r t. k x u = Some (r, t)"
  shows "\<exists>r t. bindL m k s = Some (r, t)"
proof -
  from assms(1) obtain r t where "m s = Some (r, t)" by blast
  with assms(2) show ?thesis by (cases r) (auto simp: bindL_run)
qed

lemma schedule_requests_returns: "\<exists>r t. schedule_requests F none_hash ready now s = Some (r, t)"
  unfolding schedule_requests_def
  by (intro bindL_returns running_loop_returns) (simp_all add: liftL_def getL_def waiting_loop_returns [unfolded liftL_def])

text \<open>
  C4. Scheduling ends: whatever the state, the arguments and the answers of the managers, the loop over
  the running requests, the loop that preempts until a request fits and the loop over the waiting
  requests all stop, so \<open>schedule\<close> returns or raises.
\<close>

theorem schedule_ends: "\<exists>r t. schedule F none_hash ready now s = Some (r, t)"
proof -
  have "\<exists>r t. bindL (schedule_requests F none_hash ready now) (\<lambda>_. liftL schedule_output) (step_init s) = Some (r, t)"
    by (rule bindL_returns [OF schedule_requests_returns]) (simp add: liftL_def)
  then show ?thesis by (auto simp: schedule_def)
qed

end
