(* ===== verification/ScheduleInv.thy ===== *)
theory ScheduleInv
  imports SchedulerV1 "HOL-Library.Multiset"
begin

section \<open>What a scheduling step keeps\<close>

text \<open>
  The queues and the table of requests name the same requests, each once, with the status of their
  queue; a step picks requests that run, within its budget; nobody overtakes a request that was not skipped.
\<close>

subsection \<open>The table and the queues\<close>

definition table_ok :: "'x Scheduler_scheme \<Rightarrow> nat list \<Rightarrow> bool" where
  "table_ok s q \<longleftrightarrow> distinct q \<and> (\<forall>a \<in> set q. a < length (reqs s)) \<and> dict_ok (requests s) \<and>
     (\<forall>i a. dict_get (requests s) i = Some a \<longleftrightarrow> a \<in> set q \<and> rid a s = i)"

definition all_running :: "'x Scheduler_scheme \<Rightarrow> nat list \<Rightarrow> bool" where
  "all_running s q \<longleftrightarrow> (\<forall>a \<in> set q. status (rq a s) = RUNNING)"

definition all_waiting :: "'x Scheduler_scheme \<Rightarrow> nat list \<Rightarrow> bool" where
  "all_waiting s q \<longleftrightarrow> (\<forall>a \<in> set q. status (rq a s) \<in> {WAITING, WAITING_FOR_FSM, PREEMPTED})"

definition queues_ok :: "'x Scheduler_scheme \<Rightarrow> nat list \<Rightarrow> nat list \<Rightarrow> bool" where
  "queues_ok s run wait \<longleftrightarrow> table_ok s (run @ wait) \<and> all_running s run \<and> all_waiting s wait"

lemma rid_update: "request_id v = request_id (xs ! i) \<Longrightarrow> request_id ((xs[i := v]) ! a) = request_id (xs ! a)"
  by (cases "a = i"; cases "i < length xs") (auto simp: list_update_beyond)

lemma table_ok_upd:
  assumes "table_ok s q" and "reqs t = (reqs s)[a := r]" and "request_id r = rid a s" and "requests t = requests s"
    and "set q' = set q" and "distinct q'"
  shows "table_ok t q'"
  using assms by (simp add: table_ok_def rid_update)

lemma table_ok_same:
  assumes "table_ok s q" and "reqs t = reqs s" and "requests t = requests s" and "set q' = set q" and "distinct q'"
  shows "table_ok t q'"
  using assms by (simp add: table_ok_def)

lemma table_ok_inj: "table_ok s q \<Longrightarrow> a \<in> set q \<Longrightarrow> b \<in> set q \<Longrightarrow> rid a s = rid b s \<Longrightarrow> a = b"
  unfolding table_ok_def by (metis option.inject)

lemma all_running_upd:
  "all_running s q \<Longrightarrow> reqs t = (reqs s)[a := r] \<Longrightarrow> a \<notin> set q \<or> status r = RUNNING \<Longrightarrow> all_running t q"
  unfolding all_running_def by (metis nth_list_update_eq nth_list_update_neq list_update_beyond linorder_not_less)

lemma all_waiting_upd:
  "all_waiting s q \<Longrightarrow> reqs t = (reqs s)[a := r] \<Longrightarrow> a \<notin> set q \<or> status r \<in> {WAITING, WAITING_FOR_FSM, PREEMPTED} \<Longrightarrow> all_waiting t q"
  unfolding all_waiting_def by (metis nth_list_update_eq nth_list_update_neq list_update_beyond linorder_not_less)

text \<open>A request at the end of the first queue moves to the front of the second, or back.\<close>

lemma queues_preempt:
  assumes q: "queues_ok s (run @ [a]) wait" and "reqs t = (reqs s)[a := r]" and "requests t = requests s"
    and "request_id r = rid a s" and "status r = PREEMPTED"
  shows "queues_ok t run (a # wait)"
proof -
  have tab: "table_ok s ((run @ [a]) @ wait)" and run: "all_running s run" and wait: "all_waiting s wait"
    using q by (simp_all add: queues_ok_def all_running_def)
  have d: "distinct ((run @ [a]) @ wait)" and alen: "a < length (reqs s)" using tab by (simp_all add: table_ok_def)
  have "table_ok t (run @ a # wait)"
    by (rule table_ok_upd [OF tab assms(2,4,3)]) (use d in auto)
  moreover have "all_running t run" using all_running_upd [OF run assms(2)] d by simp
  moreover have "all_waiting t wait" using all_waiting_upd [OF wait assms(2)] assms(5) by simp
  moreover have "status (rq a t) = PREEMPTED" using assms(2,5) alen by simp
  ultimately show ?thesis by (simp add: queues_ok_def all_waiting_def)
qed

lemma queues_admit:
  assumes q: "queues_ok s run (w1 @ a # w2)" and "reqs t = (reqs s)[a := r]" and "requests t = requests s"
    and "request_id r = rid a s" and "status r = RUNNING"
  shows "queues_ok t (run @ [a]) (w1 @ w2)"
proof -
  have tab: "table_ok s (run @ w1 @ a # w2)" and run: "all_running s run" and wait: "all_waiting s (w1 @ w2)"
    using q by (simp_all add: queues_ok_def all_waiting_def)
  have d: "distinct (run @ w1 @ a # w2)" and alen: "a < length (reqs s)" using tab by (simp_all add: table_ok_def)
  have "table_ok t ((run @ [a]) @ w1 @ w2)"
    by (rule table_ok_upd [OF tab assms(2,4,3)]) (use d in auto)
  moreover have "all_running t run" using all_running_upd [OF run assms(2)] assms(5) by simp
  moreover have "all_waiting t (w1 @ w2)" using all_waiting_upd [OF wait assms(2)] d by simp
  moreover have "status (rq a t) = RUNNING" using assms(2,5) alen by simp
  ultimately show ?thesis by (simp add: queues_ok_def all_running_def)
qed

text \<open>An update of a request that keeps its id and suits its queue.\<close>

lemma queues_upd:
  assumes q: "queues_ok s run wait" and "reqs t = (reqs s)[a := r]" and "requests t = requests s"
    and "request_id r = rid a s" and "a \<in> set run \<longrightarrow> status r = RUNNING"
    and "a \<in> set wait \<longrightarrow> status r \<in> {WAITING, WAITING_FOR_FSM, PREEMPTED}"
  shows "queues_ok t run wait"
proof -
  have tab: "table_ok s (run @ wait)" and r: "all_running s run" and w: "all_waiting s wait" using q by (simp_all add: queues_ok_def)
  have "distinct (run @ wait)" using tab by (simp add: table_ok_def)
  then have "table_ok t (run @ wait)" by (intro table_ok_upd [OF tab assms(2,4,3)]) simp_all
  moreover have "all_running t run" using all_running_upd [OF r assms(2)] assms(5) by blast
  moreover have "all_waiting t wait" using all_waiting_upd [OF w assms(2)] assms(6) by blast
  ultimately show ?thesis by (simp add: queues_ok_def)
qed

lemma queues_same: "queues_ok s run wait \<Longrightarrow> reqs t = reqs s \<Longrightarrow> requests t = requests s \<Longrightarrow> queues_ok t run wait"
  by (simp add: queues_ok_def table_ok_def all_running_def all_waiting_def)

subsection \<open>The picks of a step\<close>

definition picked :: "ScheduleStep \<Rightarrow> nat list" where
  "picked s = step_new s @ step_resumed s @ step_running s"

text \<open>
  A picked request computes at least one token, and none beyond its tokens and the draft tokens that
  go with the step.
\<close>

definition pick_fits :: "Request \<Rightarrow> int \<Rightarrow> int list option \<Rightarrow> bool" where
  "pick_fits r n drafts \<longleftrightarrow> 0 < n \<and> (case drafts of
     None \<Rightarrow> num_computed_tokens r + n \<le> req_num_tokens r
   | Some d \<Rightarrow> d \<noteq> [] \<and> num_computed_tokens r + n = req_num_tokens r + int (length d))"

definition pick_ok :: "ScheduleStep \<Rightarrow> nat \<Rightarrow> bool" where
  "pick_ok s a \<longleftrightarrow> (\<exists>n. dict_get (num_scheduled_tokens s) (rid a s) = Some n \<and>
     pick_fits (rq a s) n (dict_get (scheduled_spec_decode_tokens s) (rid a s)))"

definition picks_ok :: "ScheduleStep \<Rightarrow> bool" where
  "picks_ok s \<longleftrightarrow> distinct (picked s) \<and> set (picked s) \<subseteq> set (running s) \<and> dict_ok (num_scheduled_tokens s) \<and>
     dict_keys (num_scheduled_tokens s) = (\<lambda>a. rid a s) ` set (picked s) \<and>
     dict_keys (scheduled_spec_decode_tokens s) \<subseteq> dict_keys (num_scheduled_tokens s) \<and>
     dict_keys (num_scheduled_tokens s) \<subseteq> scheduled_req_ids s \<and>
     sum_list (map snd (num_scheduled_tokens s)) + token_budget s = max_num_scheduled_tokens s \<and> 0 \<le> token_budget s \<and>
     (\<forall>a \<in> set (picked s). pick_ok s a)"

lemma picks_okD:
  assumes "picks_ok s"
  shows "distinct (picked s)" "set (picked s) \<subseteq> set (running s)" "dict_ok (num_scheduled_tokens s)"
    "dict_keys (num_scheduled_tokens s) = (\<lambda>a. rid a s) ` set (picked s)"
    "dict_keys (scheduled_spec_decode_tokens s) \<subseteq> dict_keys (num_scheduled_tokens s)"
    "dict_keys (num_scheduled_tokens s) \<subseteq> scheduled_req_ids s"
    "sum_list (map snd (num_scheduled_tokens s)) + token_budget s = max_num_scheduled_tokens s" "0 \<le> token_budget s"
    "\<And>a. a \<in> set (picked s) \<Longrightarrow> pick_ok s a"
  using assms unfolding picks_ok_def by - (elim conjE, (assumption | erule (1) bspec))+

lemma picks_ok_add:
  assumes s: "picks_ok s" and q: "table_ok s q" and run: "set (running s) \<subseteq> set q"
    and a: "a \<in> set q" "a \<notin> set (picked s)"
    and t: "mset (picked t) = add_mset a (mset (picked s))" "insert a (set (running s)) \<subseteq> set (running t)"
      "reqs t = (reqs s)[a := r]" "request_id r = rid a s"
      "num_scheduled_tokens t = dict_set (rid a s) n (num_scheduled_tokens s)" "token_budget t = token_budget s - n"
      "max_num_scheduled_tokens t = max_num_scheduled_tokens s" "scheduled_req_ids t = insert (rid a s) (scheduled_req_ids s)"
      "scheduled_spec_decode_tokens t = (case d of None \<Rightarrow> scheduled_spec_decode_tokens s
        | Some ts \<Rightarrow> dict_set (rid a s) ts (scheduled_spec_decode_tokens s))"
    and n: "n \<le> token_budget s" "pick_fits r n d"
  shows "picks_ok t"
proof -
  let ?k = "rid a s"
  have sub: "set (picked s) \<subseteq> set q" using s run by (auto simp: picks_ok_def)
  have alen: "a < length (reqs s)" using q a(1) by (simp add: table_ok_def)
  have rids: "rid b t = rid b s" for b using rid_update [of r "reqs s" a b] t(3,4) by simp
  have fresh: "?k \<notin> dict_keys (num_scheduled_tokens s)"
    using s a sub table_ok_inj [OF q a(1)] by (auto simp: picks_ok_def image_iff)
  have fresh': "?k \<notin> dict_keys (scheduled_spec_decode_tokens s)" using s fresh unfolding picks_ok_def by blast
  have num: "num_scheduled_tokens t = num_scheduled_tokens s @ [(?k, n)]"
    using fresh by (simp add: t(5) dict_set_new dict_keys_iff)
  have set: "set (picked t) = insert a (set (picked s))" using mset_eq_setD [of "picked t" "a # picked s"] t(1) by simp
  have dist: "distinct (picked t)"
    using mset_eq_imp_distinct_iff [of "picked t" "a # picked s"] t(1) s a(2) by (simp add: picks_ok_def)
  have spec: "dict_get (scheduled_spec_decode_tokens t) ?k = d"
    using fresh' by (cases d) (auto simp: t(9) dict_keys_iff)
  have spec': "dict_get (scheduled_spec_decode_tokens t) i = dict_get (scheduled_spec_decode_tokens s) i" if "i \<noteq> ?k" for i
    using that by (cases d) (simp_all add: t(9))
  have keys: "dict_keys (scheduled_spec_decode_tokens t) \<subseteq> insert ?k (dict_keys (scheduled_spec_decode_tokens s))"
    using spec' by (auto simp: dict_keys_dom dom_def)
  have "pick_ok t b" if "b \<in> set (picked t)" for b
  proof (cases "b = a")
    case True
    have "rq a t = r" using alen t(3) by simp
    moreover have "dict_get (num_scheduled_tokens t) ?k = Some n" by (simp add: t(5))
    ultimately show ?thesis unfolding True pick_ok_def rids using n(2) spec by simp
  next
    case False
    with that set have b: "b \<in> set (picked s)" by simp
    then have "b \<in> set q" using sub by blast
    then have "rid b s \<noteq> ?k" using table_ok_inj [OF q a(1), of b] False by metis
    moreover have "pick_ok s b" using s b by (simp add: picks_ok_def)
    moreover have "rq b t = rq b s" using False t(3) by simp
    moreover have "dict_get (num_scheduled_tokens t) (rid b s) = dict_get (num_scheduled_tokens s) (rid b s)"
      using \<open>rid b s \<noteq> ?k\<close> by (simp add: t(5))
    ultimately show ?thesis using spec' unfolding pick_ok_def rids by simp
  qed
  note pick = this
  have nums: "dict_keys (num_scheduled_tokens t) = insert ?k (dict_keys (num_scheduled_tokens s))" by (simp add: num)
  show ?thesis
    unfolding picks_ok_def
  proof (intro conjI)
    show "distinct (picked t)" by (rule dist)
    show "set (picked t) \<subseteq> set (running t)"
      unfolding set using picks_okD(2) [OF s] t(2) by (meson insert_mono order_trans)
    show "dict_ok (num_scheduled_tokens t)" using picks_okD(3) [OF s] by (simp add: t(5))
    show "dict_keys (num_scheduled_tokens t) = (\<lambda>a. rid a t) ` set (picked t)"
      unfolding nums set rids image_insert picks_okD(4) [OF s] ..
    show "dict_keys (scheduled_spec_decode_tokens t) \<subseteq> dict_keys (num_scheduled_tokens t)"
      unfolding nums by (rule order_trans [OF keys insert_mono [OF picks_okD(5) [OF s]]])
    show "dict_keys (num_scheduled_tokens t) \<subseteq> scheduled_req_ids t"
      unfolding nums t(8) by (rule insert_mono [OF picks_okD(6) [OF s]])
    show "sum_list (map snd (num_scheduled_tokens t)) + token_budget t = max_num_scheduled_tokens t"
      using s by (simp add: num t(6,7) picks_ok_def)
    show "0 \<le> token_budget t" using n(1) by (simp add: t(6))
    show "\<forall>b \<in> set (picked t). pick_ok t b" using pick by blast
  qed
qed

subsection \<open>Rounds\<close>

text \<open>Running requests outside the step have tokens left to compute.\<close>

definition tokens_ahead :: "'x Scheduler_scheme \<Rightarrow> bool" where
  "tokens_ahead s \<longleftrightarrow> (\<forall>a \<in> set (running s). rid a s \<notin> scheduled_req_ids s \<longrightarrow> num_computed_tokens (rq a s) < req_num_tokens (rq a s))"

text \<open>Only running requests hold blocks.\<close>

definition blocks_held :: "'x Scheduler_scheme \<Rightarrow> bool" where
  "blocks_held s \<longleftrightarrow> (\<forall>i. blocks_of (kv_cache_manager s) i \<noteq> [] \<longrightarrow> (\<exists>a \<in> set (running s). rid a s = i))"

lemma blocks_heldI:
  assumes "blocks_held s" and "\<And>i. blocks_of (kv_cache_manager t) i \<noteq> [] \<Longrightarrow> blocks_of (kv_cache_manager s) i \<noteq> [] \<or> (\<exists>a \<in> set (running t). rid a t = i)"
    and "set (running s) \<subseteq> set (running t)" and "\<And>a. a \<in> set (running s) \<Longrightarrow> rid a t = rid a s"
  shows "blocks_held t"
  unfolding blocks_held_def
proof (intro allI impI)
  fix i assume "blocks_of (kv_cache_manager t) i \<noteq> []"
  with assms(2) consider "\<exists>a \<in> set (running t). rid a t = i" | "blocks_of (kv_cache_manager s) i \<noteq> []" by blast
  then show "\<exists>a \<in> set (running t). rid a t = i"
  proof cases
    case 2
    with assms(1) obtain a where "a \<in> set (running s)" "rid a s = i" unfolding blocks_held_def by blast
    with assms(3,4) show ?thesis by blast
  qed
qed

lemma remove_skipped_none: "remove_skipped_blocks spec null [] n = Inr (removed, kept) \<Longrightarrow> kept = []"
  by (cases spec) (auto simp: remove_skipped_blocks_def Let_def gr0_conv_Suc elim: remove_skipped_loop.elims)

lemma km_alloc_blocks:
  assumes k: "km_reachable F nh k" and hits: "\<forall>b \<in> set hits. b < num_gpu_blocks k"
    and run: "allocate_slots F nh r n hits k = (Inr res, k')"
  shows "(\<forall>i. i \<noteq> request_id r \<longrightarrow> blocks_of k' i = blocks_of k i) \<and>
    (res = None \<and> blocks_of k (request_id r) = [] \<longrightarrow> blocks_of k' (request_id r) = [])"
proof -
  have inv: "km_inv (\<lambda>b. 0) k" using km_reachable_inv [OF k] .
  then obtain l where "pool_is k l" by (auto simp: km_inv_def)
  then have "\<forall>b \<in> set hits. b < length (q_blocks k)" using hits by (simp add: pool_is_def pool_core_def)
  from allocate_slots_parts [OF inv this run] obtain removed kept u m where p: "alloc_parts k r n hits res k' removed kept u m" by blast
  have "(if res = None then k' = u \<and> blocks_of k' (request_id r) = kept else \<forall>i. i \<noteq> request_id r \<longrightarrow> blocks_of k' i = blocks_of k i)"
    using p unfolding alloc_parts_def by (auto split: if_splits)
  moreover have "\<forall>i. i \<noteq> request_id r \<longrightarrow> blocks_of u i = blocks_of k i" using p unfolding alloc_parts_def by blast
  moreover have "kept = []" if "blocks_of k (request_id r) = []"
    using p that remove_skipped_none unfolding alloc_parts_def by metis
  ultimately show ?thesis by (auto split: if_splits)
qed

lemma km_free_blocks:
  assumes k: "km_reachable F nh k" and run: "km_free r k = (Inr (), k')"
  shows "blocks_of k' (request_id r) = [] \<and> (\<forall>i. i \<noteq> request_id r \<longrightarrow> blocks_of k' i = blocks_of k i)"
  using km_free_inv [OF km_reachable_inv [OF k], of r] run by auto

text \<open>What holds during a step that began in \<open>s0\<close>.\<close>

definition step_inv :: "hash_fn \<Rightarrow> int \<Rightarrow> Scheduler \<Rightarrow> ScheduleStep \<Rightarrow> bool" where
  "step_inv F none_hash s0 s \<longleftrightarrow> km_reachable F none_hash (kv_cache_manager s) \<and> same_config s0 s \<and> requests s = requests s0 \<and>
     finished_req_ids s = finished_req_ids s0 \<and>
     queues_ok s (running s) (rev (skipped_waiting_requests s) @ waiting s) \<and>
     int (length (running s)) \<le> max_num_running_reqs s \<and>
     set (running s @ skipped_waiting_requests s @ waiting s) = set (running s0 @ waiting s0) \<and>
     (skipped_waiting_requests s = [] \<longrightarrow> running s @ waiting s = running s0 @ waiting s0) \<and>
     picks_ok s \<and> (tokens_ahead s0 \<longrightarrow> tokens_ahead s) \<and> blocks_held s"

text \<open>During the first loop the picks stand before the index, and nothing has been skipped.\<close>

definition first_phase :: "ScheduleStep \<Rightarrow> bool" where
  "first_phase s \<longleftrightarrow> skipped_waiting_requests s = [] \<and> step_new s = [] \<and> step_resumed s = [] \<and>
     req_index s \<le> length (running s) \<and> set (step_running s) \<subseteq> set (take (req_index s) (running s))"

lemma table_ok_queues: "queues_ok s run wait \<Longrightarrow> table_ok s (run @ wait)"
  by (simp add: queues_ok_def)

lemma step_inv_table: "step_inv F nh s0 s \<Longrightarrow> table_ok s (running s @ rev (skipped_waiting_requests s) @ waiting s)"
  by (simp add: step_inv_def queues_ok_def)

lemma step_invI:
  assumes "km_reachable F nh (kv_cache_manager s)" and "same_config s0 s" and "requests s = requests s0"
    and "finished_req_ids s = finished_req_ids s0" and "queues_ok s (running s) (rev (skipped_waiting_requests s) @ waiting s)"
    and "int (length (running s)) \<le> max_num_running_reqs s"
    and "set (running s) \<union> set (skipped_waiting_requests s) \<union> set (waiting s) = set (running s0) \<union> set (waiting s0)"
    and "skipped_waiting_requests s = [] \<Longrightarrow> running s @ waiting s = running s0 @ waiting s0"
    and "picks_ok s" and "tokens_ahead s0 \<Longrightarrow> tokens_ahead s" and "blocks_held s"
  shows "step_inv F nh s0 s"
  using assms unfolding step_inv_def by (simp add: Un_assoc)

lemma step_invD:
  assumes "step_inv F nh s0 s"
  shows "km_reachable F nh (kv_cache_manager s)" "same_config s0 s" "requests s = requests s0"
    "finished_req_ids s = finished_req_ids s0" "queues_ok s (running s) (rev (skipped_waiting_requests s) @ waiting s)"
    "int (length (running s)) \<le> max_num_running_reqs s"
    "set (running s) \<union> set (skipped_waiting_requests s) \<union> set (waiting s) = set (running s0) \<union> set (waiting s0)"
    "skipped_waiting_requests s = [] \<Longrightarrow> running s @ waiting s = running s0 @ waiting s0"
    "picks_ok s" "tokens_ahead s0 \<Longrightarrow> tokens_ahead s" "blocks_held s"
  using assms unfolding step_inv_def by (simp_all add: Un_assoc)

text \<open>A change of the manager of the KV cache alone.\<close>

lemma step_inv_kv:
  assumes "step_inv F nh s0 s" and "km_reachable F nh k"
    and "\<And>i. blocks_of k i \<noteq> [] \<Longrightarrow> blocks_of (kv_cache_manager s) i \<noteq> [] \<or> (\<exists>a \<in> set (running s). rid a s = i)"
  shows "step_inv F nh s0 (s\<lparr>kv_cache_manager := k\<rparr>)"
proof -
  have "blocks_held (s\<lparr>kv_cache_manager := k\<rparr>)"
    by (rule blocks_heldI [OF step_invD(11) [OF assms(1)]]) (use assms(3) in auto)
  moreover
  have "picks_ok (s\<lparr>kv_cache_manager := k\<rparr>) = picks_ok s" by (simp add: picks_ok_def pick_ok_def picked_def)
  moreover have "queues_ok (s\<lparr>kv_cache_manager := k\<rparr>) run wait = queues_ok s run wait" for run wait
    by (simp add: queues_ok_def table_ok_def all_running_def all_waiting_def)
  ultimately show ?thesis using assms by (simp add: step_inv_def tokens_ahead_def same_config_def)
qed

lemma first_phase_kv: "first_phase (s\<lparr>kv_cache_manager := k\<rparr>) = first_phase s"
  by (simp add: first_phase_def)

text \<open>Preempting the last running request keeps the invariant, when it has not been picked.\<close>

lemma picks_ok_other:
  assumes s: "picks_ok s" and a: "a \<notin> set (picked s)" and t: "reqs t = (reqs s)[a := r]" "request_id r = rid a s"
    and run: "set (picked s) \<subseteq> set (running t)"
    and same: "picked t = picked s" "num_scheduled_tokens t = num_scheduled_tokens s" "token_budget t = token_budget s"
      "max_num_scheduled_tokens t = max_num_scheduled_tokens s" "scheduled_req_ids t = scheduled_req_ids s"
      "scheduled_spec_decode_tokens t = scheduled_spec_decode_tokens s"
  shows "picks_ok t"
proof -
  have rids: "rid b t = rid b s" for b using rid_update [of r "reqs s" a b] t by simp
  have "rq b t = rq b s" if "b \<in> set (picked s)" for b using that a t(1) by (metis nth_list_update_neq)
  then have "pick_ok t b = pick_ok s b" if "b \<in> set (picked s)" for b using that by (simp add: pick_ok_def rids same)
  moreover have "\<forall>b \<in> set (picked s). pick_ok s b" using s by (simp add: picks_ok_def)
  ultimately have "\<forall>b \<in> set (picked s). pick_ok t b" by blast
  with s run show ?thesis unfolding picks_ok_def rids same by blast
qed

lemma preempt_last_inv:
  assumes s: "step_inv F nh s0 s" "first_phase s" "req_index s < length (running s)" and run: "preempt_last now s = (Inr b, t)"
  shows "step_inv F nh s0 t \<and> first_phase t \<and> b = last (running s) \<and> running t = butlast (running s) \<and>
    req_index t = req_index s \<and> scheduled_req_ids t = scheduled_req_ids s \<and> token_budget t = token_budget s \<and>
    (\<forall>a. a \<noteq> b \<longrightarrow> rq a t = rq a s) \<and> (\<forall>a. rid a t = rid a s)"
proof -
  from preempt_last_ok [OF run] obtain k where ne: "running s \<noteq> []" and b: "b = last (running s)"
    and k: "km_free (rq b s) (kv_cache_manager s) = (Inr (), k)"
    and t: "t = s\<lparr>running := butlast (running s), kv_cache_manager := k,
        reqs := (reqs s)[b := (rq b s)\<lparr>status := PREEMPTED, num_computed_tokens := 0\<rparr>],
        req_events := add_event (log_stats s) b (PREEMPTED_EVENT, now) (req_events s),
        waiting := b # waiting s, step_preempted := step_preempted s @ [b]\<rparr>" by blast
  have split: "running s = butlast (running s) @ [b]" using ne b by simp
  have skip: "skipped_waiting_requests s = []" using s(2) by (simp add: first_phase_def)
  have reqs: "reqs t = (reqs s)[b := (rq b s)\<lparr>status := PREEMPTED, num_computed_tokens := 0\<rparr>]" by (simp add: t)
  have fields: "requests t = requests s" "running t = butlast (running s)" "waiting t = b # waiting s"
    "skipped_waiting_requests t = []" "picked t = picked s" "req_index t = req_index s" "same_config s t"
    "scheduled_req_ids t = scheduled_req_ids s" "step_new t = step_new s" "step_resumed t = step_resumed s"
    "step_running t = step_running s" "num_scheduled_tokens t = num_scheduled_tokens s" "token_budget t = token_budget s"
    "scheduled_spec_decode_tokens t = scheduled_spec_decode_tokens s" "max_num_scheduled_tokens t = max_num_scheduled_tokens s"
    "kv_cache_manager t = k" "finished_req_ids t = finished_req_ids s"
    using skip by (simp_all add: t picked_def same_config_def)
  have q: "queues_ok s (running s) (waiting s)" using s(1) skip by (simp add: step_inv_def)
  have d: "distinct (running s)" using q by (simp add: queues_ok_def table_ok_def)
  have qt: "queues_ok t (running t) (waiting t)"
    unfolding fields using q by (subst (asm) split) (rule queues_preempt [OF _ reqs fields(1)], simp_all)
  have take: "set (take (req_index s) (running s)) \<subseteq> set (butlast (running s))"
  proof -
    have "take (req_index s) (running s) = take (req_index s) (butlast (running s))"
      using s(3) by (simp add: butlast_conv_take)
    then show ?thesis by (simp add: set_take_subset)
  qed
  have pick: "set (picked s) \<subseteq> set (butlast (running s))" using s(2) take by (auto simp: first_phase_def picked_def)
  moreover have "b \<notin> set (butlast (running s))" using d split by (metis distinct.simps(2) distinct_append distinct1_rotate rotate1.simps(2) append_butlast_last_id b ne not_distinct_conv_prefix)
  ultimately have "b \<notin> set (picked s)" by blast
  then have picks: "picks_ok t"
    using s(1) pick fields by (intro picks_ok_other [OF _ _ reqs]) (simp_all add: step_inv_def)
  have other: "rq a t = rq a s" if "a \<noteq> b" for a using that by (simp add: reqs)
  have rids: "rid a t = rid a s" for a using rid_update [of _ "reqs s" b a] by (simp add: reqs)
  have ahead: "tokens_ahead t" if "tokens_ahead s"
    unfolding tokens_ahead_def fields rids
  proof (intro ballI impI)
    fix a assume a: "a \<in> set (butlast (running s))" "rid a s \<notin> scheduled_req_ids s"
    then have "rq a t = rq a s" "a \<in> set (running s)"
      using other \<open>b \<notin> set (butlast (running s))\<close> in_set_butlastD by metis+
    with that a(2) show "num_computed_tokens (rq a t) < req_num_tokens (rq a t)" by (simp add: tokens_ahead_def)
  qed
  have "first_phase t" using s(2,3) take by (auto simp: first_phase_def fields butlast_conv_take min_def)
  moreover have "step_inv F nh s0 t"
  proof (rule step_invI)
    have order: "running t @ waiting t = running s @ waiting s"
    proof -
      have "running t @ waiting t = (butlast (running s) @ [b]) @ waiting s" by (simp add: fields)
      then show ?thesis by (simp only: split [symmetric])
    qed
    show "km_reachable F nh (kv_cache_manager t)"
      unfolding fields by (rule km_reachable.freed [OF step_invD(1) [OF s(1)] k])
    show "same_config s0 t" by (rule same_config_trans [OF step_invD(2) [OF s(1)] fields(7)])
    show "requests t = requests s0" "finished_req_ids t = finished_req_ids s0" using step_invD(3,4) [OF s(1)] by (simp_all add: fields)
    show "queues_ok t (running t) (rev (skipped_waiting_requests t) @ waiting t)" using qt by (simp add: fields)
    show "int (length (running t)) \<le> max_num_running_reqs t"
      using step_invD(6) [OF s(1)] fields(7) unfolding fields(2) length_butlast same_config_def by linarith
    have "set (running t @ waiting t) = set (running s @ waiting s)" by (simp only: order)
    then show "set (running t) \<union> set (skipped_waiting_requests t) \<union> set (waiting t) = set (running s0) \<union> set (waiting s0)"
      using step_invD(7) [OF s(1)] by (simp add: fields(4) skip)
    show "running t @ waiting t = running s0 @ waiting s0" unfolding order by (rule step_invD(8) [OF s(1) skip])
    show "picks_ok t" by (rule picks)
    show "tokens_ahead t" if "tokens_ahead s0" by (rule ahead [OF step_invD(10) [OF s(1) that]])
    show "blocks_held t" unfolding blocks_held_def fields rids
    proof (intro allI impI)
      fix i assume i: "blocks_of k i \<noteq> []"
      with km_free_blocks [OF step_invD(1) [OF s(1)] k] have ib: "i \<noteq> rid b s" "blocks_of (kv_cache_manager s) i \<noteq> []" by metis+
      with step_invD(11) [OF s(1)] obtain a where a: "a \<in> set (running s)" "rid a s = i" unfolding blocks_held_def by blast
      then have "a \<in> set (butlast (running s) @ [b])" "a \<noteq> b" using ib(1) by (auto simp: split [symmetric])
      with a(2) show "\<exists>a \<in> set (butlast (running s)). rid a s = i" by auto
    qed
  qed
  ultimately show ?thesis using b fields other rids by blast
qed

lemma km_allocated: "km_reachable F nh k \<Longrightarrow> allocate_slots F nh r n [] k = (Inr res, k') \<Longrightarrow> km_reachable F nh k'"
  by (rule km_reachable.allocated [where hits = "[]"]) simp_all

text \<open>
  Preempting until the request at \<open>a\<close> fits: the invariant is kept, the request stays at its index and
  is as it was, unless it was preempted itself.
\<close>

lemma allocate_or_preempt_inv:
  assumes run: "allocate_or_preempt F nh now a n s = Some (Inr res, t)" and s: "step_inv F nh s0 s" "first_phase s"
    and i: "req_index s < length (running s)" "running s ! req_index s = a"
  shows "step_inv F nh s0 t \<and> first_phase t \<and>
    (res \<noteq> None \<longrightarrow> req_index t < length (running t) \<and> running t ! req_index t = a \<and> rq a t = rq a s \<and> 
      scheduled_req_ids t = scheduled_req_ids s \<and> token_budget t = token_budget s)"
proof -
  define P where "P = (\<lambda>u. step_inv F nh s0 u \<and> first_phase u \<and> req_index u < length (running u) \<and> running u ! req_index u = a \<and>
    rq a u = rq a s \<and> scheduled_req_ids u = scheduled_req_ids s \<and> token_budget u = token_budget s)"
  define Q where "Q = (\<lambda>(res :: nat list option) t. step_inv F nh s0 t \<and> first_phase t \<and>
    (res \<noteq> None \<longrightarrow> req_index t < length (running t) \<and> running t ! req_index t = a \<and> rq a t = rq a s \<and>
      scheduled_req_ids t = scheduled_req_ids s \<and> token_budget t = token_budget s))"
  have round: "case r of None \<Rightarrow> P v | Some y \<Rightarrow> Q y v"
    if "P u" and r: "preempt_round F nh now a n u = (Inr r, v)" for u r v
  proof -
    from r obtain new k where al: "allocate_slots F nh (rq a u) n [] (kv_cache_manager u) = (Inr new, k)"
      and rest: "(case new of Some bs \<Rightarrow> retM (Some (Some bs))
        | None \<Rightarrow> bindM (preempt_last now) (\<lambda>b. retM (if b = a then Some None else None))) (u\<lparr>kv_cache_manager := k\<rparr>) = (Inr r, v)"
      by (auto simp: preempt_round_def getM_ok bindM_ok kvM_ok)
    let ?w = "u\<lparr>kv_cache_manager := k\<rparr>"
    have u: "step_inv F nh s0 u" "first_phase u" using that by (simp_all add: P_def)
    have w: "step_inv F nh s0 ?w" "first_phase ?w"
    proof -
      have "a \<in> set (running u)" using that nth_mem by (fastforce simp: P_def)
      moreover have "blocks_of (kv_cache_manager u) i \<noteq> [] \<or> i = rid a u" if "blocks_of k i \<noteq> []" for i
        using km_alloc_blocks [OF step_invD(1) [OF u(1)] _ al, THEN conjunct1] that by force
      ultimately show "step_inv F nh s0 ?w" by (intro step_inv_kv [OF u(1) km_allocated [OF step_invD(1) [OF u(1)] al]]) blast
      show "first_phase ?w" using u(2) by (simp add: first_phase_kv)
    qed
    have wf: "req_index ?w < length (running ?w)" "running ?w ! req_index ?w = a" "rq a ?w = rq a s"
      "scheduled_req_ids ?w = scheduled_req_ids s" "token_budget ?w = token_budget s" using that by (simp_all add: P_def)
    show ?thesis
    proof (cases new)
      case (Some bs)
      with rest have "r = Some (Some bs)" "v = ?w" by (simp_all add: retM_ok)
      with w wf show ?thesis by (simp add: Q_def)
    next
      case None
      with rest obtain b where b: "preempt_last now ?w = (Inr b, v)" and r: "r = (if b = a then Some None else None)"
        by (auto simp: bindM_ok retM_ok)
      note p = preempt_last_inv [OF w wf(1) b]
      show ?thesis
      proof (cases "b = a")
        case True
        with p r show ?thesis by (simp add: Q_def)
      next
        case False
        have "running ?w ! req_index ?w \<noteq> last (running ?w)" using False p wf(2) by simp
        then have "req_index ?w \<noteq> length (running ?w) - 1" by (metis last_conv_nth length_0_conv less_zeroE wf(1))
        with wf(1) have lt: "req_index ?w < length (butlast (running ?w))" unfolding length_butlast by linarith
        moreover have "butlast (running ?w) ! req_index ?w = a" using lt wf(2) by (simp add: nth_butlast)
        ultimately have "P v" using p False wf unfolding P_def by simp
        with False r show ?thesis by simp
      qed
    qed
  qed
  have "Q res t"
    using run [unfolded allocate_or_preempt_def]
  proof (rule loopL_inv [where I = P])
    show "P s" using s i by (simp add: P_def)
    show "P v" if "P u" "liftL (preempt_round F nh now a n) u = Some (Inr None, v)" for u v
      using round [OF that(1), of None v] that(2) by (simp add: liftL_def)
    show "Q y v" if "P u" "liftL (preempt_round F nh now a n) u = Some (Inr (Some y), v)" for u v y
      using round [OF that(1), of "Some y" v] that(2) by (simp add: liftL_def)
  qed
  then show ?thesis by (simp add: Q_def)
qed

text \<open>The encoder inputs only lower the number of tokens.\<close>

lemma encoder_inputs_loop_tokens:
  "encoder_inputs_loop e r c ps ins n b = Inr (inputs, m, b') \<Longrightarrow> 0 < n \<Longrightarrow> 0 \<le> m \<and> m \<le> n"
  by (induction e r c ps ins n b rule: encoder_inputs_loop.induct)
    (auto split: if_splits sum.splits)

lemma encoder_part_tokens:
  assumes "encoder_part r c n s = (Inr (inputs, m, b), t)" and "0 < n"
  shows "0 \<le> m \<and> m \<le> n \<and> (\<not> has_encoder_inputs r \<longrightarrow> m = n)"
  using encoder_part_ok [OF assms(1)] encoder_inputs_loop_tokens [of _ r c _ "[]" n _ inputs m b] assms(2)
  by (cases "has_encoder_inputs r") auto

lemma limit_tokens_le: "limit_tokens n s \<le> token_budget s" "limit_tokens n s \<le> n \<or> limit_tokens n s \<le> 0"
  by (auto simp: limit_tokens_def)

text \<open>Draft tokens and the tokens of a pick.\<close>

lemma trim_drafts_fits:
  assumes "0 < n" and "num_computed_tokens r + n \<le> req_num_tokens_with_spec r"
  shows "pick_fits (trim_drafts n r) n (if has_drafts n r then Some (spec_token_ids (trim_drafts n r)) else None)"
  using assms by (auto simp: pick_fits_def trim_drafts_def has_drafts_def Let_def req_num_tokens_def req_num_tokens_with_spec_def)

text \<open>The first loop.\<close>

lemma schedule_running_inv:
  assumes s: "step_inv F nh s0 s" "first_phase s" and i: "req_index s < length (running s)" "running s ! req_index s = a"
    and new: "rid a s \<notin> scheduled_req_ids s" and n: "0 < n" "n \<le> token_budget s"
      "num_computed_tokens (rq a s) + n \<le> req_num_tokens_with_spec (rq a s)"
    and run: "schedule_running a n bs inputs b s = (Inr (), t)"
  shows "step_inv F nh s0 t \<and> first_phase t"
proof -
  note t = schedule_running_ok [OF run]
  have skip: "skipped_waiting_requests s = []" "step_new s = []" "step_resumed s = []" using s(2) by (simp_all add: first_phase_def)
  have a: "a \<in> set (running s)" using i nth_mem by blast
  have q: "queues_ok s (running s) (waiting s)" using step_invD(5) [OF s(1)] skip(1) by simp
  have tab: "table_ok s (running s @ waiting s)" using q by (simp add: queues_ok_def)
  have reqs: "reqs t = (reqs s)[a := trim_drafts n (rq a s)]" using t by blast
  have rids: "rid b t = rid b s" for b using rid_update [of _ "reqs s" a b] by (simp add: reqs)
  have fields: "running t = running s" "waiting t = waiting s" "skipped_waiting_requests t = []" "step_new t = []" "step_resumed t = []"
    "step_running t = step_running s @ [a]" "req_index t = Suc (req_index s)" "requests t = requests s"
    "scheduled_req_ids t = insert (rid a s) (scheduled_req_ids s)" "same_config s t" "kv_cache_manager t = kv_cache_manager s"
    "finished_req_ids t = finished_req_ids s"
    using t skip by simp_all
  have fresh: "a \<notin> set (picked s)"
  proof
    assume "a \<in> set (picked s)"
    then have "rid a s \<in> dict_keys (num_scheduled_tokens s)" unfolding picks_okD(4) [OF step_invD(9) [OF s(1)]] by (rule imageI)
    with picks_okD(6) [OF step_invD(9) [OF s(1)]] new show False by blast
  qed
  have "picks_ok t"
  proof (rule picks_ok_add [OF step_invD(9) [OF s(1)] tab, where a = a and n = n and r = "trim_drafts n (rq a s)"
      and d = "if has_drafts n (rq a s) then Some (spec_token_ids (trim_drafts n (rq a s))) else None"])
    show "mset (picked t) = add_mset a (mset (picked s))" using t skip by (simp add: picked_def)
    show "scheduled_spec_decode_tokens t = (case if has_drafts n (rq a s) then Some (spec_token_ids (trim_drafts n (rq a s))) else None of
        None \<Rightarrow> scheduled_spec_decode_tokens s | Some ts \<Rightarrow> dict_set (rid a s) ts (scheduled_spec_decode_tokens s))"
      using t by (simp add: note_drafts_def)
    show "pick_fits (trim_drafts n (rq a s)) n (if has_drafts n (rq a s) then Some (spec_token_ids (trim_drafts n (rq a s))) else None)"
      using n(1,3) by (rule trim_drafts_fits)
  qed (use t a fresh n(2) fields(10) in \<open>auto simp: same_config_def\<close>)
  moreover have "tokens_ahead t" if "tokens_ahead s"
    unfolding tokens_ahead_def fields rids
  proof (intro ballI impI)
    fix b assume b: "b \<in> set (running s)" "rid b s \<notin> insert (rid a s) (scheduled_req_ids s)"
    then have "rq b t = rq b s" by (cases "b = a") (simp_all add: reqs)
    with that b show "num_computed_tokens (rq b t) < req_num_tokens (rq b t)" by (simp add: tokens_ahead_def)
  qed
  moreover have "queues_ok t (running t) (rev (skipped_waiting_requests t) @ waiting t)"
    unfolding fields using q
  proof (simp, elim queues_upd [OF _ reqs fields(8)])
    have "status (rq a s) = RUNNING" using q a by (simp add: queues_ok_def all_running_def)
    then show "a \<in> set (running s) \<longrightarrow> status (trim_drafts n (rq a s)) = RUNNING" by simp
    have "a \<notin> set (waiting s)" using tab a by (auto simp: table_ok_def)
    then show "a \<in> set (waiting s) \<longrightarrow> status (trim_drafts n (rq a s)) \<in> {WAITING, WAITING_FOR_FSM, PREEMPTED}" by simp
  qed simp
  moreover have "max_num_running_reqs t = max_num_running_reqs s" using fields(10) by (simp add: same_config_def)
  moreover have "blocks_held t" by (rule blocks_heldI [OF step_invD(11) [OF s(1)]]) (use fields rids in auto)
  ultimately have "step_inv F nh s0 t"
    using step_invD [OF s(1)] same_config_trans [OF step_invD(2) [OF s(1)] fields(10)] skip
    by (intro step_invI) (simp_all add: fields)
  moreover have "first_phase t"
    using s(2) i by (auto simp: first_phase_def fields take_Suc_conv_app_nth)
  ultimately show ?thesis by simp
qed

lemma running_round_inv:
  assumes run: "running_round F nh now s = Some (Inr r, t)" and s: "step_inv F nh s0 s" "first_phase s"
  shows "step_inv F nh s0 t \<and> first_phase t"
  using running_round_parts [OF run]
proof (elim disjE conjE exE)
  assume "t = s"
  with s show ?thesis by simp
next
  assume i: "req_index s < length (running s)" and p: "plan_running (running s ! req_index s) s = (Inr None, t)"
  then have t: "t = s\<lparr>req_index := Suc (req_index s)\<rparr>" using plan_running_ok [OF p] by simp
  have "picks_ok t = picks_ok s" by (simp add: t picks_ok_def pick_ok_def picked_def)
  moreover have "queues_ok t run wait = queues_ok s run wait" for run wait
    by (simp add: t queues_ok_def table_ok_def all_running_def all_waiting_def)
  moreover have "blocks_held t = blocks_held s" by (simp add: t blocks_held_def)
  ultimately have "step_inv F nh s0 t" using s(1) by (simp add: t step_inv_def tokens_ahead_def same_config_def)
  moreover have "set (take (req_index s) (running s)) \<subseteq> set (take (Suc (req_index s)) (running s))"
    by (rule set_take_subset_set_take) simp
  then have "first_phase t" using s(2) i unfolding first_phase_def t by auto
  ultimately show ?thesis by simp
next
  fix n inputs b
  assume i: "req_index s < length (running s)" and "allocate_or_preempt F nh now (running s ! req_index s) n s = Some (Inr None, t)"
  with allocate_or_preempt_inv [OF _ s] show ?thesis by blast
next
  fix n inputs b v bs
  let ?a = "running s ! req_index s"
  assume i: "req_index s < length (running s)" and p: "plan_running ?a s = (Inr (Some (n, inputs, b)), s)"
    and al: "allocate_or_preempt F nh now ?a n s = Some (Inr (Some bs), v)" and go: "schedule_running ?a n bs inputs b v = (Inr (), t)"
  from plan_running_ok [OF p] obtain n0 where n0: "n0 = limit_tokens (req_num_tokens_with_spec (rq ?a s) - num_computed_tokens (rq ?a s)) s"
    "0 < n0" and e: "encoder_part (rq ?a s) (num_computed_tokens (rq ?a s)) n0 s = (Inr (inputs, n, b), s)"
    and nz: "has_encoder_inputs (rq ?a s) \<longrightarrow> n \<noteq> 0" and new: "rid ?a s \<notin> scheduled_req_ids s" by auto
  from encoder_part_tokens [OF e n0(2)] nz n0(2) have n: "0 < n" "n \<le> n0" by auto
  moreover have "n0 \<le> token_budget s" "n0 \<le> req_num_tokens_with_spec (rq ?a s) - num_computed_tokens (rq ?a s)"
    using limit_tokens_le [of "req_num_tokens_with_spec (rq ?a s) - num_computed_tokens (rq ?a s)" s] n0 by linarith+
  moreover note v = allocate_or_preempt_inv [OF al s i refl]
  ultimately show ?thesis using new
    by (intro schedule_running_inv [OF _ _ _ _ _ _ _ _ go]) auto
qed

text \<open>The second loop.\<close>

lemma step_inv_upd:
  assumes s: "step_inv F nh s0 s" and a: "a \<in> set (waiting s)" and r: "request_id r = rid a s"
    "status r \<in> {WAITING, WAITING_FOR_FSM, PREEMPTED}"
  shows "step_inv F nh s0 (s\<lparr>reqs := (reqs s)[a := r]\<rparr>)"
proof -
  let ?t = "s\<lparr>reqs := (reqs s)[a := r]\<rparr>"
  have tab: "table_ok s (running s @ rev (skipped_waiting_requests s) @ waiting s)" by (rule step_inv_table [OF s])
  have arun: "a \<notin> set (running s)" using tab a by (auto simp: table_ok_def)
  have apick: "a \<notin> set (picked s)" using arun picks_okD(2) [OF step_invD(9) [OF s]] by blast
  have rids: "rid b ?t = rid b s" for b using rid_update [of r "reqs s" a b] r(1) by simp
  have "queues_ok ?t (running s) (rev (skipped_waiting_requests s) @ waiting s)"
    by (rule queues_upd [OF step_invD(5) [OF s], where a = a and r = r]) (use r arun in simp_all)
  moreover have "picks_ok ?t"
    by (rule picks_ok_other [OF step_invD(9) [OF s] apick, where r = r])
      (use r picks_okD(2) [OF step_invD(9) [OF s]] in \<open>simp_all add: picked_def\<close>)
  moreover have "tokens_ahead ?t" if "tokens_ahead s"
    unfolding tokens_ahead_def rids
  proof (intro ballI impI)
    fix b assume b: "b \<in> set (running ?t)" "rid b s \<notin> scheduled_req_ids ?t"
    then have "rq b ?t = rq b s" using arun by (cases "b = a") simp_all
    with that b show "num_computed_tokens (rq b ?t) < req_num_tokens (rq b ?t)" by (simp add: tokens_ahead_def)
  qed
  moreover have "same_config s ?t" by (simp add: same_config_def)
  moreover have "blocks_held ?t" unfolding blocks_held_def rids using step_invD(11) [OF s] by (simp add: blocks_held_def)
  ultimately show ?thesis using step_invD [OF s] same_config_trans [OF step_invD(2) [OF s]]
    by (intro step_invI) simp_all
qed

lemma step_inv_fsm:
  assumes "step_inv F nh s0 s" and "a \<in> set (waiting s)"
  shows "step_inv F nh s0 (fsm_done a s)"
  using assms by (auto simp: fsm_done_def intro: step_inv_upd)

lemma step_inv_skip:
  assumes s: "step_inv F nh s0 s" and w: "waiting s \<noteq> []"
  shows "step_inv F nh s0 (s\<lparr>waiting := tl (waiting s), skipped_waiting_requests := hd (waiting s) # skipped_waiting_requests s\<rparr>)"
    (is "step_inv F nh s0 ?t")
proof -
  have same: "rev (skipped_waiting_requests ?t) @ waiting ?t = rev (skipped_waiting_requests s) @ waiting s" using w by simp
  have q: "queues_ok ?t (running s) (rev (skipped_waiting_requests s) @ waiting s)"
    by (rule queues_same [OF step_invD(5) [OF s]]) simp_all
  have members: "set (skipped_waiting_requests ?t) \<union> set (waiting ?t) = set (skipped_waiting_requests s) \<union> set (waiting s)"
    using arg_cong [OF same, of set] by (simp only: set_append set_rev)
  show ?thesis
  proof (rule step_invI)
    show "queues_ok ?t (running ?t) (rev (skipped_waiting_requests ?t) @ waiting ?t)" unfolding same using q by simp
    show "same_config s0 ?t" by (rule same_config_trans [OF step_invD(2) [OF s]]) (simp add: same_config_def)
    have "picks_ok ?t = picks_ok s" by (simp add: picks_ok_def pick_ok_def picked_def)
    then show "picks_ok ?t" using step_invD(9) [OF s] by simp
    show "tokens_ahead ?t" if "tokens_ahead s0" using step_invD(10) [OF s that] by (simp add: tokens_ahead_def)
    show "blocks_held ?t" using step_invD(11) [OF s] by (simp add: blocks_held_def)
    show "set (running ?t) \<union> set (skipped_waiting_requests ?t) \<union> set (waiting ?t) = set (running s0) \<union> set (waiting s0)"
      unfolding Un_assoc members using step_invD(7) [OF s] by (simp add: Un_assoc)
  qed (use step_invD [OF s] in simp_all)
qed

lemma km_lookup:
  assumes k: "km_reachable F nh k" and run: "get_computed_blocks F nh r k = (Inr (hits, c), k')"
  shows "km_reachable F nh k' \<and> (\<forall>b \<in> set hits. b < num_gpu_blocks k') \<and> (\<forall>i. blocks_of k' i = blocks_of k i)"
proof -
  have k': "km_reachable F nh k'" by (rule km_reachable.looked_up [OF k run])
  obtain l where "pool_is k l" using km_reachable_inv [OF k] by (auto simp: km_inv_def)
  from get_computed_blocks_frame [OF this run] have "lookup_frame k k'" "\<forall>b \<in> set hits. b < length (q_blocks k)" by simp_all
  moreover obtain l' where "pool_is k' l'" using km_reachable_inv [OF k'] by (auto simp: km_inv_def)
  ultimately show ?thesis using k' by (auto simp: lookup_frame_def same_pool_fields pool_is_def pool_core_def)
qed

lemma admit_waiting_inv:
  assumes s: "step_inv F nh s0 s" and w: "waiting s = a # rest" and room: "int (length (running s)) \<noteq> max_num_running_reqs s"
    and n: "0 < n" "n \<le> token_budget s" "c + n \<le> req_num_tokens (rq a s)"
    and k: "km_reachable F nh k" "\<And>i. i \<noteq> rid a s \<Longrightarrow> blocks_of k i = blocks_of (kv_cache_manager s) i"
    and run: "admit_waiting now a hits bs c n inputs b (s\<lparr>kv_cache_manager := k\<rparr>) = (Inr (), t)"
  shows "step_inv F nh s0 t"
proof -
  have q: "queues_ok s (running s) (rev (skipped_waiting_requests s) @ a # rest)" using step_invD(5) [OF s] w by simp
  have tab: "table_ok s (running s @ rev (skipped_waiting_requests s) @ a # rest)" using q by (simp add: queues_ok_def)
  have alen: "a < length (reqs s)" using tab by (simp add: table_ok_def)
  have arun: "a \<notin> set (running s)" using tab by (auto simp: table_ok_def)
  have apick: "a \<notin> set (picked s)" using arun picks_okD(2) [OF step_invD(9) [OF s]] by blast
  let ?r = "(rq a s)\<lparr>status := RUNNING, num_computed_tokens := c\<rparr>"
  have "a < length (reqs (s\<lparr>kv_cache_manager := k\<rparr>))" using alen by simp
  note t = admit_waiting_ok [OF run this, simplified]
  have reqs: "reqs t = (reqs s)[a := ?r]" using t by simp
  have rids: "rid b t = rid b s" for b using rid_update [of ?r "reqs s" a b] by (simp add: reqs)
  have fields: "running t = running s @ [a]" "waiting t = rest" "skipped_waiting_requests t = skipped_waiting_requests s"
    "requests t = requests s" "same_config s t" "kv_cache_manager t = k" "finished_req_ids t = finished_req_ids s"
    "scheduled_req_ids t = insert (rid a s) (scheduled_req_ids s)"
    using t w by (simp_all add: same_config_def)
  have "blocks_held t"
  proof (rule blocks_heldI [OF step_invD(11) [OF s]])
    fix i assume "blocks_of (kv_cache_manager t) i \<noteq> []"
    then show "blocks_of (kv_cache_manager s) i \<noteq> [] \<or> (\<exists>a \<in> set (running t). rid a t = i)"
      using k(2) by (cases "i = rid a s") (simp_all add: fields rids)
  qed (use rids in \<open>auto simp: fields\<close>)
  moreover have "picks_ok t"
  proof (rule picks_ok_add [OF step_invD(9) [OF s] tab _ _ apick, where n = n and r = ?r and d = None])
    show "mset (picked t) = add_mset a (mset (picked s))" using t by (auto simp: picked_def)
    show "pick_fits ?r n None" using n by (simp add: pick_fits_def req_num_tokens_def)
  qed (use t n(2) fields(5) in \<open>auto simp: same_config_def\<close>)
  moreover have "tokens_ahead t" if "tokens_ahead s"
    unfolding tokens_ahead_def fields rids
  proof (intro ballI impI)
    fix b assume b: "b \<in> set (running s @ [a])" "rid b s \<notin> insert (rid a s) (scheduled_req_ids s)"
    then have "b \<noteq> a" by blast
    with b have "rq b t = rq b s" "b \<in> set (running s)" by (simp_all add: reqs)
    with that b show "num_computed_tokens (rq b t) < req_num_tokens (rq b t)" by (simp add: tokens_ahead_def)
  qed
  moreover have "queues_ok t (running t) (rev (skipped_waiting_requests t) @ waiting t)"
    unfolding fields by (rule queues_admit [OF q reqs fields(4)]) simp_all
  moreover have "int (length (running t)) \<le> max_num_running_reqs t"
    using step_invD(6) [OF s] room fields(5) by (simp add: fields(1) same_config_def)
  moreover have "set (running t) \<union> set (skipped_waiting_requests t) \<union> set (waiting t) = set (running s0) \<union> set (waiting s0)"
    using step_invD(7) [OF s] w by (simp add: fields)
  moreover have "running t @ waiting t = running s0 @ waiting s0" if "skipped_waiting_requests t = []"
    using step_invD(8) [OF s] that w by (simp add: fields)
  ultimately show ?thesis using step_invD [OF s] same_config_trans [OF step_invD(2) [OF s] fields(5)] k(1)
    by (intro step_invI) (simp_all add: fields)
qed

lemma waiting_holds_none:
  assumes s: "step_inv F nh s0 s" and w: "waiting s = a # rest"
  shows "blocks_of (kv_cache_manager s) (rid a s) = []"
proof (rule ccontr)
  assume "blocks_of (kv_cache_manager s) (rid a s) \<noteq> []"
  with step_invD(11) [OF s] obtain b where b: "b \<in> set (running s)" "rid b s = rid a s" unfolding blocks_held_def by blast
  have tab: "table_ok s (running s @ rev (skipped_waiting_requests s) @ waiting s)" by (rule step_inv_table [OF s])
  with b w have "b = a" by (intro table_ok_inj [OF tab]) auto
  with b(1) w tab show False by (auto simp: table_ok_def)
qed

lemma waiting_round_inv:
  assumes run: "waiting_round F nh ready now s = (Inr r, t)" and s: "step_inv F nh s0 s"
  shows "step_inv F nh s0 t"
proof -
  let ?a = "hd (waiting s)"
  consider "t = s" | "waiting s \<noteq> []" "\<exists>u. (u = s \<or> u = fsm_done ?a s) \<and>
          t = u\<lparr>waiting := tl (waiting s), skipped_waiting_requests := ?a # skipped_waiting_requests s\<rparr>"
    | "waiting s \<noteq> []" "int (length (running s)) \<noteq> max_num_running_reqs s" "schedule_waiting F nh now ?a (fsm_done ?a s) = (Inr r, t)"
    using waiting_round_parts [OF run] by blast
  then show ?thesis
  proof cases
    case 1
    with s show ?thesis by simp
  next
    case 2
    then have "?a \<in> set (waiting s)" by simp
    then have "step_inv F nh s0 (fsm_done ?a s)" by (rule step_inv_fsm [OF s])
    with 2 s step_inv_skip [of F nh s0 s] step_inv_skip [of F nh s0 "fsm_done ?a s"] show ?thesis
      by (auto simp: fsm_done_def split: if_splits)
  next
    case 3
    let ?u = "fsm_done ?a s"
    have uf: "waiting ?u = ?a # tl (waiting s)" "running ?u = running s" "max_num_running_reqs ?u = max_num_running_reqs s"
      "token_budget ?u = token_budget s" using 3(1) by (simp_all add: fsm_done_def)
    have u: "step_inv F nh s0 ?u" using 3(1) by (intro step_inv_fsm [OF s]) simp
    from schedule_waiting_parts [OF 3(3)] obtain hits c k n0 n inputs b where
      g: "get_computed_blocks F nh (rq ?a ?u) (kv_cache_manager ?u) = (Inr (hits, c), k)"
      and n0: "n0 = limit_tokens (req_num_tokens (rq ?a ?u) - c) ?u" "0 < n0"
      and e: "encoder_part (rq ?a ?u) c n0 (?u\<lparr>kv_cache_manager := k\<rparr>) = (Inr (inputs, n, b), ?u\<lparr>kv_cache_manager := k\<rparr>)"
      and rest: "(r = Some () \<and> has_encoder_inputs (rq ?a ?u) \<and> n = 0 \<and> t = ?u\<lparr>kv_cache_manager := k\<rparr>) \<or>
       (\<not> (has_encoder_inputs (rq ?a ?u) \<and> n = 0) \<and>
        (\<exists>new k'. allocate_slots F nh (rq ?a ?u) n hits k = (Inr new, k') \<and>
          (case new of None \<Rightarrow> r = Some () \<and> t = ?u\<lparr>kv_cache_manager := k'\<rparr>
           | Some bs \<Rightarrow> r = None \<and> admit_waiting now ?a hits bs c n inputs b (?u\<lparr>kv_cache_manager := k'\<rparr>) = (Inr (), t))))" by blast
    note look = km_lookup [OF step_invD(1) [OF u] g]
    from rest show ?thesis
    proof (elim disjE conjE exE)
      assume "t = ?u\<lparr>kv_cache_manager := k\<rparr>"
      with step_inv_kv [OF u, of k] look show ?thesis by simp
    next
      fix new k'
      assume nz: "\<not> (has_encoder_inputs (rq ?a ?u) \<and> n = 0)" and al: "allocate_slots F nh (rq ?a ?u) n hits k = (Inr new, k')"
        and w: "case new of None \<Rightarrow> r = Some () \<and> t = ?u\<lparr>kv_cache_manager := k'\<rparr>
           | Some bs \<Rightarrow> r = None \<and> admit_waiting now ?a hits bs c n inputs b (?u\<lparr>kv_cache_manager := k'\<rparr>) = (Inr (), t)"
      have k': "km_reachable F nh k'" using look by (intro km_reachable.allocated [OF _ _ al]) simp_all
      have other: "blocks_of k' i = blocks_of (kv_cache_manager ?u) i" if "i \<noteq> rid ?a ?u" for i
        using km_alloc_blocks [OF _ _ al] look that by metis
      show ?thesis
      proof (cases new)
        case None
        have "blocks_of k' (rid ?a ?u) = []"
          using km_alloc_blocks [OF _ _ al] look None waiting_holds_none [OF u uf(1)] by metis
        then have "step_inv F nh s0 (?u\<lparr>kv_cache_manager := k'\<rparr>)"
          using other by (intro step_inv_kv [OF u k']) metis
        with w None show ?thesis by simp
      next
        case (Some bs)
        from encoder_part_tokens [OF e n0(2)] nz n0(2) have n: "0 < n" "n \<le> n0" by auto
        have lim: "n0 \<le> token_budget ?u" "n0 \<le> req_num_tokens (rq ?a ?u) - c"
          using limit_tokens_le [of "req_num_tokens (rq ?a ?u) - c" ?u] n0 by linarith+
        have go: "admit_waiting now ?a hits bs c n inputs b (?u\<lparr>kv_cache_manager := k'\<rparr>) = (Inr (), t)" using w Some by simp
        show ?thesis
          by (rule admit_waiting_inv [OF u uf(1) _ n(1) _ _ k' other go]) (use uf 3(2) n lim in simp_all)
      qed
    qed
  qed
qed

subsection \<open>The whole step\<close>

text \<open>
  \<open>sched_inv\<close>: the invariant of the scheduler between calls.
\<close>

definition sched_inv :: "hash_fn \<Rightarrow> int \<Rightarrow> 'x Scheduler_scheme \<Rightarrow> bool" where
  "sched_inv F none_hash s \<longleftrightarrow> km_reachable F none_hash (kv_cache_manager s) \<and> queues_ok s (running s) (waiting s) \<and>
     int (length (running s)) \<le> max_num_running_reqs s \<and> 0 \<le> max_num_scheduled_tokens s \<and> blocks_held s"

lemma step_init_inv:
  assumes s: "sched_inv F nh s"
  shows "step_inv F nh s (step_init s) \<and> first_phase (step_init s)"
proof -
  let ?t = "step_init s"
  have f: "kv_cache_manager ?t = kv_cache_manager s" "requests ?t = requests s" "running ?t = running s" "waiting ?t = waiting s"
    "reqs ?t = reqs s" "finished_req_ids ?t = finished_req_ids s" "max_num_running_reqs ?t = max_num_running_reqs s"
    "scheduled_req_ids ?t = scheduled_req_ids s" "same_config s ?t" "skipped_waiting_requests ?t = []"
    by (simp_all add: step_init_def Scheduler.extend_def same_config_def)
  have "queues_ok s (running s) (waiting s)" using s by (simp add: sched_inv_def)
  then have q: "queues_ok ?t (running s) (waiting s)"
    unfolding queues_ok_def table_ok_def all_running_def all_waiting_def f .
  have p: "picks_ok ?t" using s by (simp add: picks_ok_def picked_def step_init_def Scheduler.extend_def sched_inv_def dict_ok_def)
  have "step_inv F nh s ?t"
  proof (rule step_invI)
    show "queues_ok ?t (running ?t) (rev (skipped_waiting_requests ?t) @ waiting ?t)" unfolding f using q by simp
    show "tokens_ahead ?t" if "tokens_ahead s" using that unfolding tokens_ahead_def f .
    show "blocks_held ?t" using s unfolding sched_inv_def blocks_held_def f by blast
  qed (use s p in \<open>simp_all add: f sched_inv_def\<close>)
  then show ?thesis by (simp add: first_phase_def step_init_def Scheduler.extend_def)
qed

lemma record_loras_ok:
  assumes "record_loras s = (Inr (), t)"
  obtains l where "t = s\<lparr>scheduled_loras := l\<rparr>"
proof (cases "max_loras s")
  case None
  with assms have "t = s\<lparr>scheduled_loras := scheduled_loras s\<rparr>" by (simp add: record_loras_def ok_simps)
  with that show thesis .
next
  case (Some m)
  with assms that show thesis by (auto simp: record_loras_def Let_def ok_simps)
qed

lemma step_inv_loras: "step_inv F nh s0 (s\<lparr>scheduled_loras := l\<rparr>) = step_inv F nh s0 s"
  by (simp add: step_inv_def picks_ok_def pick_ok_def picked_def queues_ok_def table_ok_def all_running_def all_waiting_def
      tokens_ahead_def same_config_def blocks_held_def)

text \<open>The skipped requests return to the front; the queues and the picks are as the loops left them.\<close>

lemma schedule_requests_inv:
  assumes run: "schedule_requests F nh ready now (step_init s0) = Some (Inr (), t)" and s0: "sched_inv F nh s0"
  shows "queues_ok t (running t) (waiting t) \<and> km_reachable F nh (kv_cache_manager t) \<and> picks_ok t \<and> same_config s0 t \<and>
    requests t = requests s0 \<and> finished_req_ids t = finished_req_ids s0 \<and> int (length (running t)) \<le> max_num_running_reqs t \<and>
    set (running t @ waiting t) = set (running s0 @ waiting s0) \<and>
    (skipped_waiting_requests t = [] \<longrightarrow> running t @ waiting t = running s0 @ waiting s0) \<and>
    (tokens_ahead s0 \<longrightarrow> tokens_ahead t) \<and> blocks_held t"
proof -
  from run obtain u v w where u: "loopL (running_round F nh now) (step_init s0) = Some (Inr (), u)"
    and v: "record_loras u = (Inr (), v)"
    and w: "(if step_preempted v = [] then loopL (liftL (waiting_round F nh ready now)) else liftL (retM ())) v = Some (Inr (), w)"
    and t: "t = w\<lparr>waiting := rev (skipped_waiting_requests w) @ waiting w\<rparr>"
    by (auto simp: schedule_requests_def ok_simps)
  note init = step_init_inv [OF s0]
  have "step_inv F nh s0 u"
    by (rule loopL_inv [OF u, where I = "\<lambda>s. step_inv F nh s0 s \<and> first_phase s"]) (use init running_round_inv in blast)+
  then have iv: "step_inv F nh s0 v" using v by (auto elim: record_loras_ok simp: step_inv_loras)
  have iw: "step_inv F nh s0 w"
  proof (cases "step_preempted v = []")
    case True
    with w have loop: "loopL (liftL (waiting_round F nh ready now)) v = Some (Inr (), w)" by simp
    show ?thesis
      by (rule loopL_inv [OF loop, where I = "step_inv F nh s0" and Q = "\<lambda>_. step_inv F nh s0"])
        (use iv waiting_round_inv in \<open>auto simp: liftL_def\<close>)
  next
    case False
    with w iv show ?thesis by (simp add: ok_simps)
  qed
  have "picks_ok t = picks_ok w" by (simp add: t picks_ok_def pick_ok_def picked_def)
  moreover have "queues_ok t (running w) (rev (skipped_waiting_requests w) @ waiting w)"
    using queues_same [OF step_invD(5) [OF iw], of t] by (simp add: t)
  moreover have "tokens_ahead t = tokens_ahead w" by (simp add: t tokens_ahead_def)
  moreover have "blocks_held t = blocks_held w" by (simp add: t blocks_held_def)
  moreover have "same_config w t" by (simp add: t same_config_def)
  ultimately show ?thesis using step_invD [OF iw] same_config_trans [OF step_invD(2) [OF iw]]
    by (simp add: t Un_assoc)
qed

text \<open>The assertions at the end of \<open>schedule\<close> hold.\<close>

lemma picks_constraints:
  assumes "picks_ok t" and "int (length (running t)) \<le> max_num_running_reqs t"
  shows "constraints_hold t"
proof -
  have "length (picked t) \<le> length (running t)"
    using picks_okD(1,2) [OF assms(1)] by (metis card_mono distinct_card card_length finite_set le_trans)
  then show ?thesis using picks_okD(7,8) [OF assms(1)] assms(2) by (simp add: constraints_hold_def picked_def)
qed

end
