(* ===== verification/ScheduleSteps.thy ===== *)
theory ScheduleSteps
  imports ScheduleInv
begin

section \<open>The scheduler between calls\<close>

text \<open>
  The invariant of the scheduler is kept by every operation, so it holds in every state that calls which
  returned can reach.
\<close>

subsection \<open>The output of a step\<close>

text \<open>How far the loop over \<open>num_scheduled_tokens\<close> advances the request at \<open>a\<close>.\<close>

definition advance_of :: "'x Scheduler_scheme \<Rightarrow> (string, int) dict \<Rightarrow> nat \<Rightarrow> int" where
  "advance_of s ps a = sum_list (map snd (filter (\<lambda>p. dict_get (requests s) (fst p) = Some a) ps))"

lemma advance_computed_ok: "advance_computed p s = (Inr (), t) \<Longrightarrow> \<exists>b. dict_get (requests s) (fst p) = Some b \<and>
    t = s\<lparr>reqs := (reqs s)[b := (rq b s)\<lparr>num_computed_tokens := num_computed_tokens (rq b s) + snd p\<rparr>]\<rparr>"
  by (auto simp: advance_computed_def ok_simps)

lemma advance_loop:
  assumes "forM ps advance_computed s = (Inr (), t)"
  shows "\<exists>rs. t = s\<lparr>reqs := rs\<rparr> \<and> length rs = length (reqs s) \<and>
    (\<forall>a < length (reqs s). rs ! a = (rq a s)\<lparr>num_computed_tokens := num_computed_tokens (rq a s) + advance_of s ps a\<rparr>)"
  using assms
proof (induction ps arbitrary: s)
  case Nil
  then show ?case by (intro exI [of _ "reqs s"]) (simp add: advance_of_def ok_simps)
next
  case (Cons p ps)
  from Cons.prems obtain b where b: "dict_get (requests s) (fst p) = Some b"
    and rest: "forM ps advance_computed (s\<lparr>reqs := (reqs s)[b := (rq b s)\<lparr>num_computed_tokens := num_computed_tokens (rq b s) + snd p\<rparr>]\<rparr>) = (Inr (), t)"
    using advance_computed_ok by (fastforce simp: thenM_ok)
  from Cons.IH [OF rest] obtain rs where rs: "t = s\<lparr>reqs := rs\<rparr>" "length rs = length (reqs s)"
    "\<forall>a < length (reqs s). rs ! a = ((reqs s)[b := (rq b s)\<lparr>num_computed_tokens := num_computed_tokens (rq b s) + snd p\<rparr>] ! a)
      \<lparr>num_computed_tokens := num_computed_tokens ((reqs s)[b := (rq b s)\<lparr>num_computed_tokens := num_computed_tokens (rq b s) + snd p\<rparr>] ! a)
        + advance_of s ps a\<rparr>" by (auto simp: advance_of_def)
  have "rs ! a = (rq a s)\<lparr>num_computed_tokens := num_computed_tokens (rq a s) + advance_of s (p # ps) a\<rparr>" if "a < length (reqs s)" for a
    using rs(3) that b by (cases "a = b") (simp_all add: advance_of_def)
  with rs(1,2) show ?case by blast
qed

lemma advance_of_key:
  assumes "table_ok s q" and "dict_ok ps" and "a \<in> set q"
  shows "advance_of s ps a = (case dict_get ps (rid a s) of None \<Rightarrow> 0 | Some n \<Rightarrow> n)"
proof -
  have iff: "dict_get (requests s) i = Some a \<longleftrightarrow> i = rid a s" for i using assms(1,3) by (auto simp: table_ok_def)
  show ?thesis
    using assms(2) unfolding advance_of_def iff
  proof (induction ps)
    case (Cons p ps)
    show ?case
    proof (cases "fst p = rid a s")
      case True
      with Cons.prems have "dict_get ps (rid a s) = None" by (auto simp: dict_ok_def map_of_eq_None_iff)
      with True Cons show ?thesis by (auto simp: dict_ok_def)
    next
      case False
      with Cons show ?thesis by (auto simp: dict_ok_def)
    qed
  qed simp
qed

text \<open>The data of the requests are read off the state, which only caches them.\<close>

lemma new_request_data_ok: "new_request_data a s = (Inr d, t) \<Longrightarrow> t = s"
  by (auto simp: new_request_data_def ok_simps Let_def)

lemma cached_request_data_ok:
  "cached_request_data b a s = (Inr d, t) \<Longrightarrow> \<exists>c. t = s\<lparr>cached_reqs_data := c\<rparr>"
  by (auto simp: cached_request_data_def make_cached_request_data_def ok_simps Let_def)

lemma mapM_new_data: "mapM l new_request_data s = (Inr ds, t) \<Longrightarrow> t = s"
  by (induction l arbitrary: s ds) (auto simp: ok_simps dest!: new_request_data_ok)

lemma mapM_cached_data: "mapM l (cached_request_data b) s = (Inr ds, t) \<Longrightarrow> \<exists>c. t = s\<lparr>cached_reqs_data := c\<rparr>"
proof (induction l arbitrary: s ds)
  case Nil
  then have "t = s\<lparr>cached_reqs_data := cached_reqs_data s\<rparr>" by (simp add: ok_simps)
  then show ?case ..
next
  case (Cons a l)
  then show ?case by (force simp: ok_simps dest!: cached_request_data_ok)
qed

lemma get_freed_ids_ok: "get_freed_ids e = (Inr ids, e') \<Longrightarrow> ids = freed e \<and> e' = e\<lparr>freed := []\<rparr>"
  by (auto simp: get_freed_ids_def ok_simps)

lemma schedule_output_ok:
  assumes "schedule_output s = (Inr out, t)"
  obtains k c rs where
    "constraints_hold s"
    "k = kv_cache_manager s \<or> (\<exists>a n m. get_num_common_prefix_blocks (rq a s) n (kv_cache_manager s) = (Inr m, k))"
    "t = s\<lparr>kv_cache_manager := k, cached_reqs_data := c, encoder_cache_manager := (encoder_cache_manager s)\<lparr>freed := []\<rparr>,
       reqs := rs, finished_req_ids := {}\<rparr>"
    "length rs = length (reqs s)"
    "\<forall>a < length (reqs s). rs ! a = (rq a s)\<lparr>num_computed_tokens := num_computed_tokens (rq a s) + advance_of s (num_scheduled_tokens s) a\<rparr>"
    "out_num_scheduled_tokens out = num_scheduled_tokens s"
    "total_num_scheduled_tokens out = sum_list (map snd (num_scheduled_tokens s))"
    "out_spec_decode_tokens out = scheduled_spec_decode_tokens s" "out_finished_req_ids out = finished_req_ids s"
    "free_encoder_input_ids out = freed (encoder_cache_manager s)" "out_encoder_inputs out = scheduled_encoder_inputs s"
proof -
  from assms obtain common s1 s2 s3 s4 e s6 ids ds1 ds2 ds3 where c: "constraints_hold s"
    and s1: "(case running s of [] \<Rightarrow> retM 0
            | a # q \<Rightarrow> kvM (get_num_common_prefix_blocks (rq a s) (int (length (running s))))) s = (Inr common, s1)"
    and s2: "mapM (step_new s) new_request_data s1 = (Inr ds1, s2)"
    and s3: "mapM (step_resumed s) (cached_request_data True) s2 = (Inr ds2, s3)"
    and s4: "mapM (step_running s) (cached_request_data False) s3 = (Inr ds3, s4)"
    and e: "get_freed_ids (encoder_cache_manager s4) = (Inr ids, e)"
    and s6: "forM (num_scheduled_tokens s) advance_computed (s4\<lparr>encoder_cache_manager := e\<rparr>) = (Inr (), s6)"
    and t: "t = s6\<lparr>finished_req_ids := {}\<rparr>"
    and out: "out = \<lparr>scheduled_new_reqs = ds1, scheduled_cached_reqs = ds2 @ ds3,
              out_num_scheduled_tokens = num_scheduled_tokens s,
              total_num_scheduled_tokens = sum_list (map snd (num_scheduled_tokens s)),
              out_spec_decode_tokens = scheduled_spec_decode_tokens s, out_encoder_inputs = scheduled_encoder_inputs s,
              num_common_prefix_blocks = common, out_finished_req_ids = finished_req_ids s,
              free_encoder_input_ids = ids,
              out_structured_output_request_ids = structured_output_request_ids s\<rparr>"
    unfolding schedule_output_def getM_ok thenM_ok bindM_ok assertM_ok encM_ok modM_ok retM_ok id_apply by (elim exE conjE) blast
  obtain k where k: "s1 = s\<lparr>kv_cache_manager := k\<rparr>"
    "k = kv_cache_manager s \<or> (\<exists>a n m. get_num_common_prefix_blocks (rq a s) n (kv_cache_manager s) = (Inr m, k))"
  proof (cases "running s")
    case Nil
    with s1 have "s1 = s\<lparr>kv_cache_manager := kv_cache_manager s\<rparr>" by (simp add: retM_ok)
    with that show thesis by blast
  next
    case (Cons a q)
    with s1 that show thesis by (auto simp: kvM_ok)
  qed
  have "s2 = s1" using mapM_new_data [OF s2] .
  moreover obtain c1 where "s3 = s2\<lparr>cached_reqs_data := c1\<rparr>" using mapM_cached_data [OF s3] by blast
  moreover obtain c2 where "s4 = s3\<lparr>cached_reqs_data := c2\<rparr>" using mapM_cached_data [OF s4] by blast
  ultimately have s4: "s4 = s\<lparr>kv_cache_manager := k, cached_reqs_data := c2\<rparr>" by (simp add: k)
  have e': "ids = freed (encoder_cache_manager s)" "e = (encoder_cache_manager s)\<lparr>freed := []\<rparr>"
    using get_freed_ids_ok [OF e] by (simp_all add: s4)
  from advance_loop [OF s6] obtain rs where rs: "s6 = s4\<lparr>encoder_cache_manager := e, reqs := rs\<rparr>" "length rs = length (reqs s)"
    "\<forall>a < length (reqs s). rs ! a = (rq a s)\<lparr>num_computed_tokens := num_computed_tokens (rq a s) + advance_of s (num_scheduled_tokens s) a\<rparr>"
    by (auto simp: s4 advance_of_def)
  show thesis
    by (rule that [OF c k(2) _ rs(2,3)]) (simp_all add: t rs(1) s4 e' out)
qed

text \<open>What a step that returned leaves, in terms of the state the loops left.\<close>

lemma schedule_parts:
  assumes "schedule F none_hash ready now s = Some (Inr out, t)"
  obtains w u where "schedule_requests F none_hash ready now (step_init s) = Some (Inr (), w)"
    and "schedule_output w = (Inr out, u)" and "t = Scheduler.truncate u"
  using assms by (auto simp: schedule_def bindL_run liftL_run split: option.splits prod.splits sum.splits)

lemma truncate_fields [simp]:
  "max_num_running_reqs (Scheduler.truncate u) = max_num_running_reqs u"
  "max_num_scheduled_tokens (Scheduler.truncate u) = max_num_scheduled_tokens u"
  "max_loras (Scheduler.truncate u) = max_loras u"
  "kv_cache_manager (Scheduler.truncate u) = kv_cache_manager u"
  "encoder_cache_manager (Scheduler.truncate u) = encoder_cache_manager u"
  "reqs (Scheduler.truncate u) = reqs u" "requests (Scheduler.truncate u) = requests u"
  "waiting (Scheduler.truncate u) = waiting u" "running (Scheduler.truncate u) = running u"
  "scheduled_req_ids (Scheduler.truncate u) = scheduled_req_ids u" "finished_req_ids (Scheduler.truncate u) = finished_req_ids u"
  "include_finished_set (Scheduler.truncate u) = include_finished_set u"
  "log_stats (Scheduler.truncate u) = log_stats u" "sched_max_model_len (Scheduler.truncate u) = sched_max_model_len u"
  by (simp_all add: Scheduler.truncate_def)

lemma table_ok_mset:
  assumes "table_ok s q" and "table_ok t q'" and "set q = set q'"
  shows "mset q = mset q'"
  using assms set_eq_iff_mset_eq_distinct [of q q'] by (simp add: table_ok_def)

lemma prefix_counted_blocks: "get_num_common_prefix_blocks r n k = (Inr m, k') \<Longrightarrow> blocks_of k' i = blocks_of k i"
  by (auto simp: get_num_common_prefix_blocks_def ok_simps get_req_blocks_run split: option.splits if_splits)

lemma schedule_result:
  assumes run: "schedule F nh ready now s = Some (Inr out, t)" and s: "sched_inv F nh s"
  obtains w where "picks_ok w" "constraints_hold w" "same_config s w" "tokens_ahead s \<Longrightarrow> tokens_ahead w"
    "queues_ok w (running t) (waiting t)" "running w = running t" "length (reqs t) = length (reqs w)"
    "\<And>a. a \<in> set (running t) \<union> set (waiting t) \<Longrightarrow> rq a t = (rq a w)\<lparr>num_computed_tokens := num_computed_tokens (rq a w) +
       (case dict_get (out_num_scheduled_tokens out) (rid a w) of None \<Rightarrow> 0 | Some n \<Rightarrow> n)\<rparr>"
    "scheduled_req_ids t = scheduled_req_ids w"
    "out_num_scheduled_tokens out = num_scheduled_tokens w" "out_spec_decode_tokens out = scheduled_spec_decode_tokens w"
    "out_finished_req_ids out = finished_req_ids s" "finished_req_ids t = {}"
    "total_num_scheduled_tokens out = sum_list (map snd (num_scheduled_tokens w))"
    "max_num_running_reqs t = max_num_running_reqs s" "max_num_scheduled_tokens t = max_num_scheduled_tokens s"
    "set (running t @ waiting t) = set (running s @ waiting s)"
    "skipped_waiting_requests w = [] \<Longrightarrow> running t @ waiting t = running s @ waiting s"
    "sched_inv F nh t"
proof -
  from run obtain w u where w: "schedule_requests F nh ready now (step_init s) = Some (Inr (), w)"
    and u: "schedule_output w = (Inr out, u)" and t: "t = Scheduler.truncate u" by (rule schedule_parts)
  from schedule_requests_inv [OF w s] have q: "queues_ok w (running w) (waiting w)" and km: "km_reachable F nh (kv_cache_manager w)"
    and p: "picks_ok w" and cfg: "same_config s w" and req: "requests w = requests s" and fin: "finished_req_ids w = finished_req_ids s"
    and le: "int (length (running w)) \<le> max_num_running_reqs w" and set: "set (running w @ waiting w) = set (running s @ waiting s)"
    and order: "skipped_waiting_requests w = [] \<Longrightarrow> running w @ waiting w = running s @ waiting s"
    and ahead: "tokens_ahead s \<Longrightarrow> tokens_ahead w" and held: "blocks_held w" by blast+
  from u obtain k c rs where c: "constraints_hold w"
    and k: "k = kv_cache_manager w \<or> (\<exists>a n m. get_num_common_prefix_blocks (rq a w) n (kv_cache_manager w) = (Inr m, k))"
    and ueq: "u = w\<lparr>kv_cache_manager := k, cached_reqs_data := c, encoder_cache_manager := (encoder_cache_manager w)\<lparr>freed := []\<rparr>,
       reqs := rs, finished_req_ids := {}\<rparr>" and len: "length rs = length (reqs w)"
    and rs: "\<forall>a < length (reqs w). rs ! a = (rq a w)\<lparr>num_computed_tokens := num_computed_tokens (rq a w) + advance_of w (num_scheduled_tokens w) a\<rparr>"
    and out: "out_num_scheduled_tokens out = num_scheduled_tokens w"
    "total_num_scheduled_tokens out = sum_list (map snd (num_scheduled_tokens w))"
    "out_spec_decode_tokens out = scheduled_spec_decode_tokens w" "out_finished_req_ids out = finished_req_ids w"
    by (rule schedule_output_ok)
  have tab: "table_ok w (running w @ waiting w)" using q by (rule table_ok_queues)
  have same: "rq a t = (rq a w)\<lparr>num_computed_tokens := num_computed_tokens (rq a w) +
       (case dict_get (out_num_scheduled_tokens out) (rid a w) of None \<Rightarrow> 0 | Some n \<Rightarrow> n)\<rparr>" if "a \<in> set (running w) \<union> set (waiting w)" for a
  proof -
    have "a < length (reqs w)" using tab that by (auto simp: table_ok_def)
    moreover have "advance_of w (num_scheduled_tokens w) a = (case dict_get (num_scheduled_tokens w) (rid a w) of None \<Rightarrow> 0 | Some n \<Rightarrow> n)"
      using that by (intro advance_of_key [OF tab picks_okD(3) [OF p]]) simp
    ultimately show ?thesis using rs by (simp add: t ueq out)
  qed
  have fields: "running t = running w" "waiting t = waiting w" "requests t = requests w" "reqs t = rs" by (simp_all add: t ueq)
  have bk: "blocks_of k i = blocks_of (kv_cache_manager w) i" for i using k prefix_counted_blocks by metis
  have "blocks_held t"
  proof (rule blocks_heldI [OF held])
    show "rid a t = rid a w" if "a \<in> set (running w)" for a using same that by simp
  qed (simp_all add: t ueq bk)
  moreover have "km_reachable F nh k" using k km km_reachable.prefix_counted by blast
  moreover have "queues_ok t (running w) (waiting w)"
  proof -
    have "rid a t = rid a w" "status (rq a t) = status (rq a w)" if "a \<in> set (running w) \<union> set (waiting w)" for a using same [OF that] by simp_all
    with q len show ?thesis unfolding queues_ok_def table_ok_def all_running_def all_waiting_def fields by auto
  qed
  ultimately have "sched_inv F nh t" using le s cfg by (simp add: sched_inv_def t ueq same_config_def)
  show thesis
  proof (rule that [of w])
    show "rq a t = (rq a w)\<lparr>num_computed_tokens := num_computed_tokens (rq a w) +
       (case dict_get (out_num_scheduled_tokens out) (rid a w) of None \<Rightarrow> 0 | Some n \<Rightarrow> n)\<rparr>"
      if "a \<in> set (running t) \<union> set (waiting t)" for a using that by (intro same) (simp add: fields)
    show "tokens_ahead w" if "tokens_ahead s" using that by (rule ahead)
    show "running t @ waiting t = running s @ waiting s" if "skipped_waiting_requests w = []" using order [OF that] by (simp add: fields)
    show "sched_inv F nh t" by fact
  qed (use p c cfg q out fin set len in \<open>simp_all add: fields t ueq same_config_def\<close>)
qed

subsection \<open>Requests leave\<close>

lemma free_request_ok:
  assumes "free_request iter a s = (Inr (), t)" and km: "km_reachable F nh (kv_cache_manager s)"
  obtains k e c where "req_is_finished (rq a s)" "km_reachable F nh k"
    "blocks_of k (rid a s) = []" "\<forall>i. i \<noteq> rid a s \<longrightarrow> blocks_of k i = blocks_of (kv_cache_manager s) i"
    "t = s\<lparr>kv_cache_manager := k, encoder_cache_manager := e, cached_reqs_data := c,
       requests := dict_del (rid a s) (requests s), finished_req_ids := insert (rid a s) (finished_req_ids s)\<rparr>"
proof -
  from assms(1) obtain k1 k e where fin: "req_is_finished (rq a s)" and k1: "km_free (rq a s) (kv_cache_manager s) = (Inr (), k1)"
    and k: "free_block_hashes (rq a s) k1 = (Inr (), k)"
    and t: "t = s\<lparr>kv_cache_manager := k, encoder_cache_manager := e, cached_reqs_data := dict_del (rid a s) (cached_reqs_data s),
       requests := dict_del (rid a s) (requests s), finished_req_ids := insert (rid a s) (finished_req_ids s)\<rparr>"
    by (auto simp: free_request_def ok_simps)
  have b: "blocks_of k i = blocks_of k1 i" for i using k by (simp add: free_block_hashes_def modM_ok)
  from km_free_blocks [OF km k1] have "blocks_of k (rid a s) = []" "\<forall>i. i \<noteq> rid a s \<longrightarrow> blocks_of k i = blocks_of (kv_cache_manager s) i"
    unfolding b by simp_all
  moreover have "km_reachable F nh k" by (rule km_reachable.hashes_dropped [OF km_reachable.freed [OF km k1] k])
  ultimately show thesis using fin t that by blast
qed

lemma table_ok_del:
  assumes "table_ok s q" and "a \<in> set q" and "reqs t = (reqs s)[a := r]" and "request_id r = rid a s"
    and "requests t = dict_del (rid a s) (requests s)" and "set q' = set q - {a}" and "distinct q'"
  shows "table_ok t q'"
proof -
  have rids: "rid b t = rid b s" for b using rid_update [of r "reqs s" a b] assms(3,4) by simp
  have "dict_get (requests t) i = Some b \<longleftrightarrow> b \<in> set q' \<and> rid b t = i" for i b
    using assms(1,2,5,6) table_ok_inj [OF assms(1) _ assms(2)] unfolding rids by (auto simp: table_ok_def)
  then show ?thesis using assms by (auto simp: table_ok_def)
qed

lemma queues_leave:
  assumes q: "queues_ok s run wait" and a: "a \<in> set run \<union> set wait"
    and t: "reqs t = (reqs s)[a := r]" "request_id r = rid a s" "requests t = dict_del (rid a s) (requests s)"
    and new: "set run' = set run - {a}" "set wait' = set wait - {a}" "distinct (run' @ wait')"
  shows "queues_ok t run' wait'"
proof -
  have tab: "table_ok s (run @ wait)" using q by (rule table_ok_queues)
  have "table_ok t (run' @ wait')" by (rule table_ok_del [OF tab _ t(1-3)]) (use a new in auto)
  moreover have "rq b t = rq b s" if "b \<in> set run' \<union> set wait'" for b using that new t(1) by (cases "b = a") auto
  ultimately show ?thesis using q new unfolding queues_ok_def all_running_def all_waiting_def by auto
qed

text \<open>What is left of the invariant when the request at \<open>a\<close> leaves.\<close>

lemma held_leave:
  assumes h: "blocks_held s" and tab: "table_ok s q" and sub: "set (running s) \<subseteq> set q" and a: "a \<in> set q"
    and k: "blocks_of (kv_cache_manager t) (rid a s) = []"
      "\<And>i. i \<noteq> rid a s \<Longrightarrow> blocks_of (kv_cache_manager t) i = blocks_of (kv_cache_manager s) i"
    and t: "set (running s) - {a} \<subseteq> set (running t)" "\<And>b. rid b t = rid b s"
  shows "blocks_held t"
  unfolding blocks_held_def t(2)
proof (intro allI impI)
  fix i assume i: "blocks_of (kv_cache_manager t) i \<noteq> []"
  then have "i \<noteq> rid a s" "blocks_of (kv_cache_manager s) i \<noteq> []" using k by metis+
  with h obtain b where b: "b \<in> set (running s)" "rid b s = i" unfolding blocks_held_def by blast
  with \<open>i \<noteq> rid a s\<close> have "b \<noteq> a" by blast
  with b t(1) show "\<exists>b \<in> set (running t). rid b s = i" by blast
qed

subsection \<open>Every call keeps the invariant\<close>

lemma sched_invI:
  assumes "km_reachable F nh (kv_cache_manager s)" and "queues_ok s (running s) (waiting s)"
    and "int (length (running s)) \<le> max_num_running_reqs s" and "0 \<le> max_num_scheduled_tokens s" and "blocks_held s"
  shows "sched_inv F nh s"
  using assms by (simp add: sched_inv_def)

lemma sched_invD:
  assumes "sched_inv F nh s"
  shows "km_reachable F nh (kv_cache_manager s)" "queues_ok s (running s) (waiting s)"
    "int (length (running s)) \<le> max_num_running_reqs s" "0 \<le> max_num_scheduled_tokens s" "blocks_held s"
  using assms by (simp_all add: sched_inv_def)

lemma add_request_run:
  "add_request r now s = (Inr (), s\<lparr>reqs := reqs s @ [r], waiting := waiting s @ [length (reqs s)],
     requests := dict_set (request_id r) (length (reqs s)) (requests s),
     req_events := add_event (log_stats s) (length (reqs s)) (QUEUED_EVENT, now) (req_events s)\<rparr>)"
  by (simp add: add_request_def record_event_def getM_run thenM_run modM_run)

lemma add_request_inv:
  assumes run: "add_request r now s = (Inr (), t)" and s: "sched_inv F nh s"
    and new: "dict_get (requests s) (request_id r) = None" and st: "status r \<in> {WAITING, WAITING_FOR_FSM}"
  shows "sched_inv F nh t"
proof -
  let ?a = "length (reqs s)"
  have t: "reqs t = reqs s @ [r]" "waiting t = waiting s @ [?a]" "requests t = dict_set (request_id r) ?a (requests s)"
    "running t = running s" "kv_cache_manager t = kv_cache_manager s" "max_num_running_reqs t = max_num_running_reqs s"
    "max_num_scheduled_tokens t = max_num_scheduled_tokens s"
    using run by (auto simp: add_request_run)
  note q = sched_invD(2) [OF s]
  have tab: "table_ok s (running s @ waiting s)" using q by (rule table_ok_queues)
  then have lt: "b < ?a" if "b \<in> set (running s @ waiting s)" for b using that unfolding table_ok_def by blast
  have rqs: "rq b t = rq b s" if "b \<in> set (running s) \<union> set (waiting s)" for b
    using lt [of b] that by (simp add: t nth_append)
  have ra: "rq ?a t = r" by (simp add: t)
  have fresh: "?a \<notin> set (running s @ waiting s)" using lt by blast
  have "table_ok t (running s @ waiting s @ [?a])"
  proof -
    have "rid b s \<noteq> request_id r" if "b \<in> set (running s @ waiting s)" for b
      using tab that new unfolding table_ok_def by (metis option.distinct(1))
    then have "dict_get (requests t) i = Some b \<longleftrightarrow> b \<in> set (running s @ waiting s @ [?a]) \<and> rid b t = i" for i b
      using tab rqs ra fresh unfolding t(3) dict_get_set table_ok_def by (cases "b = ?a") (auto split: if_splits)
    then show ?thesis using tab fresh lt by (auto simp: table_ok_def t less_Suc_eq)
  qed
  then have "queues_ok t (running t) (waiting t)"
    using q rqs ra st unfolding queues_ok_def all_running_def all_waiting_def t(2,4) by auto
  moreover have "blocks_held t" by (rule blocks_heldI [OF sched_invD(5) [OF s]]) (use rqs in \<open>simp_all add: t\<close>)
  ultimately show ?thesis using sched_invD [OF s] by (intro sched_invI) (simp_all add: t)
qed

lemma mod_req_rids: "request_id (f (rq a s)) = rid a s \<Longrightarrow> rid b (s\<lparr>reqs := (reqs s)[a := f (rq a s)]\<rparr>) = rid b s"
  using rid_update [of "f (rq a s)" "reqs s" a b] by simp

lemma finish_one_inv:
  assumes run: "finish_one iter st i s = (Inr (), t)" and s: "sched_inv F nh s"
  shows "sched_inv F nh t"
proof (cases "dict_get (requests s) i")
  case None
  with run s show ?thesis by (simp add: finish_one_def getM_ok retM_ok)
next
  case (Some a)
  note q = sched_invD(2) [OF s]
  have tab: "table_ok s (running s @ waiting s)" using q by (rule table_ok_queues)
  then have a: "a \<in> set (running s @ waiting s)" "rid a s = i" using Some unfolding table_ok_def by blast+
  have alen: "a < length (reqs s)" and dist: "distinct (running s @ waiting s)" using tab a(1) by (simp_all add: table_ok_def)
  let ?r = "(rq a s)\<lparr>status := st\<rparr>"
  from run Some obtain u v where
    u: "(if status (rq a s) = RUNNING then
                thenM (guardM (a \<notin> set (running s)) ValueError)
                      (modM (\<lambda>s. s\<lparr>running := remove1 a (running s), scheduled_req_ids := scheduled_req_ids s - {rid a s}\<rparr>))
              else
                thenM (guardM (a \<notin> set (waiting s)) ValueError)
                      (modM (\<lambda>s. s\<lparr>waiting := remove1 a (waiting s)\<rparr>))) s = (Inr (), u)"
    and v: "v = u\<lparr>reqs := (reqs u)[a := (rq a u)\<lparr>status := st\<rparr>]\<rparr>" and t: "free_request iter a v = (Inr (), t)"
    unfolding finish_one_def getM_ok Some option.case id_apply thenM_ok mod_req_ok by blast
  have ueq: "running u = remove1 a (running s) \<and> waiting u = remove1 a (waiting s) \<and> reqs u = reqs s \<and> requests u = requests s \<and>
    kv_cache_manager u = kv_cache_manager s \<and> max_num_running_reqs u = max_num_running_reqs s \<and>
    max_num_scheduled_tokens u = max_num_scheduled_tokens s"
  proof (cases "status (rq a s) = RUNNING")
    case True
    with u have "a \<in> set (running s)" by (simp add: ok_simps)
    with dist have "remove1 a (waiting s) = waiting s" by (intro remove1_idem) auto
    with u True show ?thesis by (auto simp: ok_simps)
  next
    case False
    with u have "a \<in> set (waiting s)" by (simp add: ok_simps)
    with dist have "remove1 a (running s) = running s" by (intro remove1_idem) auto
    with u False show ?thesis by (auto simp: ok_simps)
  qed
  have vf: "reqs v = (reqs s)[a := ?r]" "running v = remove1 a (running s)" "waiting v = remove1 a (waiting s)"
    "requests v = requests s" "kv_cache_manager v = kv_cache_manager s"
    using ueq by (simp_all add: v)
  have rids: "rid b v = rid b s" for b unfolding vf(1) by (rule rid_update) simp
  have kv: "km_reachable F nh (kv_cache_manager v)" using sched_invD(1) [OF s] by (simp add: vf)
  from t kv obtain k e c where "req_is_finished (rq a v)" and k: "km_reachable F nh k" "blocks_of k (rid a v) = []"
      "\<forall>i. i \<noteq> rid a v \<longrightarrow> blocks_of k i = blocks_of (kv_cache_manager v) i"
    and teq: "t = v\<lparr>kv_cache_manager := k, encoder_cache_manager := e, cached_reqs_data := c,
       requests := dict_del (rid a v) (requests v), finished_req_ids := insert (rid a v) (finished_req_ids v)\<rparr>"
    by (rule free_request_ok)
  have tf: "reqs t = (reqs s)[a := ?r]" "running t = remove1 a (running s)" "waiting t = remove1 a (waiting s)"
    "requests t = dict_del (rid a s) (requests s)" "kv_cache_manager t = k"
    "max_num_running_reqs t = max_num_running_reqs s" "max_num_scheduled_tokens t = max_num_scheduled_tokens s"
    using vf rids ueq by (simp_all add: teq v)
  have "queues_ok t (running t) (waiting t)"
    unfolding tf(2,3) by (rule queues_leave [OF q _ tf(1) _ tf(4)]) (use a(1) dist in \<open>auto simp: notin_set_remove1\<close>)
  moreover have "blocks_held t"
  proof (rule held_leave [OF sched_invD(5) [OF s] tab _ a(1)])
    show "rid b t = rid b s" for b unfolding tf(1) by (rule rid_update) simp
    show "blocks_of (kv_cache_manager t) i = blocks_of (kv_cache_manager s) i" if "i \<noteq> rid a s" for i
      using k(3) [unfolded rids vf(5)] that by (simp add: tf)
  qed (use k(2) dist in \<open>auto simp: tf rids\<close>)
  moreover have "length (running t) \<le> length (running s)" by (simp add: tf length_remove1)
  ultimately show ?thesis using sched_invD [OF s] k(1) by (intro sched_invI) (simp_all add: tf)
qed

lemma finish_requests_inv:
  assumes run: "finish_requests iter ids st s = (Inr (), t)" and s: "sched_inv F nh s"
  shows "sched_inv F nh t"
proof -
  from run have "forM ids (finish_one iter st) s = (Inr (), t)" by (simp add: finish_requests_def thenM_ok assertM_ok)
  then show ?thesis by (rule forM_inv [where I = "sched_inv F nh"]) (use s finish_one_inv in auto)
qed

text \<open>
  Processing the outcome of a step: \<open>upd_inv\<close> holds before the request at the head of \<open>rest\<close> is
  processed; those kept so far are in \<open>new_running\<close>.
\<close>

definition upd_inv :: "hash_fn \<Rightarrow> int \<Rightarrow> Scheduler \<Rightarrow> nat list \<Rightarrow> UpdateStep \<Rightarrow> bool" where
  "upd_inv F none_hash s0 rest s \<longleftrightarrow> km_reachable F none_hash (kv_cache_manager s) \<and> queues_ok s (new_running s @ rest) (waiting s) \<and>
     (\<forall>i. blocks_of (kv_cache_manager s) i \<noteq> [] \<longrightarrow> (\<exists>a \<in> set (new_running s @ rest). rid a s = i)) \<and>
     length (new_running s) + length rest \<le> length (running s0) \<and>
     max_num_running_reqs s = max_num_running_reqs s0 \<and> max_num_scheduled_tokens s = max_num_scheduled_tokens s0"

text \<open>A change of the request at the head, and of fields the invariant does not mention.\<close>

definition upd_frame :: "nat \<Rightarrow> UpdateStep \<Rightarrow> UpdateStep \<Rightarrow> bool" where
  "upd_frame a s t \<longleftrightarrow> (\<exists>r. reqs t = (reqs s)[a := r] \<and> request_id r = rid a s \<and> status r = status (rq a s)) \<and>
     kv_cache_manager t = kv_cache_manager s \<and> requests t = requests s \<and> waiting t = waiting s \<and> new_running t = new_running s \<and>
     max_num_running_reqs t = max_num_running_reqs s \<and> max_num_scheduled_tokens t = max_num_scheduled_tokens s"

lemma upd_frameI:
  assumes "reqs t = (reqs s)[a := r]" "request_id r = rid a s" "status r = status (rq a s)"
    "kv_cache_manager t = kv_cache_manager s" "requests t = requests s" "waiting t = waiting s" "new_running t = new_running s"
    "max_num_running_reqs t = max_num_running_reqs s" "max_num_scheduled_tokens t = max_num_scheduled_tokens s"
  shows "upd_frame a s t"
  using assms by (auto simp: upd_frame_def)

lemma upd_frame_same:
  assumes "reqs t = reqs s" "kv_cache_manager t = kv_cache_manager s" "requests t = requests s" "waiting t = waiting s"
    "new_running t = new_running s" "max_num_running_reqs t = max_num_running_reqs s"
    "max_num_scheduled_tokens t = max_num_scheduled_tokens s"
  shows "upd_frame a s t"
  using assms by (intro upd_frameI [where r = "rq a s"]) simp_all

lemma upd_frame_rid: "upd_frame a s t \<Longrightarrow> rid b t = rid b s"
  unfolding upd_frame_def using rid_update by metis

lemma upd_frame_trans:
  assumes st: "upd_frame a s t" and tu: "upd_frame a t u"
  shows "upd_frame a s u"
proof -
  from st obtain r where r: "reqs t = (reqs s)[a := r]" "request_id r = rid a s" "status r = status (rq a s)" unfolding upd_frame_def by blast
  from tu obtain q where q: "reqs u = (reqs t)[a := q]" "request_id q = rid a t" "status q = status (rq a t)" unfolding upd_frame_def by blast
  have "status (rq a t) = status (rq a s)" using r by (cases "a < length (reqs s)") (simp_all add: list_update_beyond)
  then have "reqs u = (reqs s)[a := q]" "request_id q = rid a s" "status q = status (rq a s)"
    using r q upd_frame_rid [OF st] by simp_all
  then show ?thesis using st tu by (intro upd_frameI [where r = q]) (simp_all add: upd_frame_def)
qed

lemma upd_frame_inv:
  assumes s: "upd_inv F nh s0 (a # rest) s" and f: "upd_frame a s t"
  shows "upd_inv F nh s0 (a # rest) t"
proof -
  from f obtain r where r: "reqs t = (reqs s)[a := r]" "request_id r = rid a s" "status r = status (rq a s)" unfolding upd_frame_def by blast
  have q: "queues_ok s (new_running s @ a # rest) (waiting s)" using s by (simp add: upd_inv_def)
  then have "status (rq a s) = RUNNING" and "a \<notin> set (waiting s)" by (auto simp: queues_ok_def all_running_def table_ok_def)
  then have "queues_ok t (new_running s @ a # rest) (waiting s)"
    using f r by (intro queues_upd [OF q r(1)]) (auto simp: upd_frame_def)
  then show ?thesis using s f upd_frame_rid [OF f] unfolding upd_inv_def by (simp add: upd_frame_def)
qed

lemma mod_req_frame:
  assumes "request_id (f (rq a s)) = rid a s" and "status (f (rq a s)) = status (rq a s)"
  shows "upd_frame a s (s\<lparr>reqs := (reqs s)[a := f (rq a s)]\<rparr>)"
  using assms by (intro upd_frameI [where r = "f (rq a s)"]) simp_all

lemma reject_drafts_frame:
  assumes "reject_drafts out a generated s = (Inr (), t)"
  shows "upd_frame a s t"
proof -
  have "upd_frame a s (s\<lparr>reqs := (reqs s)[a := (rq a s)\<lparr>num_computed_tokens := n\<rparr>], spec_decoding_stats := d\<rparr>)" for n d
    by (rule upd_frameI [where r = "(rq a s)\<lparr>num_computed_tokens := n\<rparr>"]) simp_all
  moreover have "upd_frame a s s" by (rule upd_frame_same) simp_all
  ultimately show ?thesis using assms
    by (auto simp: reject_drafts_def getM_ok retM_ok thenM_ok mod_req_ok modM_ok Let_def split: option.splits if_splits)
qed

lemma free_processed_input_ok: "free_processed_input a i s = (Inr (), t) \<Longrightarrow> \<exists>e. t = s\<lparr>encoder_cache_manager := e\<rparr>"
proof -
  assume "free_processed_input a i s = (Inr (), t)"
  then have "t = s\<lparr>encoder_cache_manager := encoder_cache_manager s\<rparr> \<or> (\<exists>e. t = s\<lparr>encoder_cache_manager := e\<rparr>)"
    by (auto simp: free_processed_input_def ok_simps split: if_splits)
  then show ?thesis by blast
qed

lemma free_processed_inputs_frame:
  assumes "free_processed_inputs iter a s = (Inr (), t)"
  shows "upd_frame a s t"
proof -
  from assms have "forM (iter (get_cached_input_ids (encoder_cache_manager s) (rq a s))) (free_processed_input a) s = (Inr (), t)"
    by (simp add: free_processed_inputs_def getM_ok)
  then show ?thesis
  proof (rule forM_inv [where I = "upd_frame a s"])
    show "upd_frame a s s" by (rule upd_frame_same) simp_all
    show "upd_frame a s v" if u: "upd_frame a s u" and v: "free_processed_input a x u = (Inr (), v)" for x u v
    proof -
      obtain e where "v = u\<lparr>encoder_cache_manager := e\<rparr>" using free_processed_input_ok [OF v] by blast
      then have "upd_frame a u v" by (intro upd_frame_same) simp_all
      with u show ?thesis by (rule upd_frame_trans)
    qed
  qed
qed

lemma check_stop_ok:
  "check_stop m r = (Inr b, q) \<Longrightarrow> request_id q = request_id r \<and> (if b then req_is_finished q else q = r)"
  by (auto simp: check_stop_def ok_simps req_is_finished_def req_status_is_finished_def less_RequestStatus_def split: if_splits)

lemma append_one_ok:
  assumes "thenM (reqM a (append_output_token_ids [x])) (getM sched_max_model_len (\<lambda>m. bindM (reqM a (check_stop m)) k)) s = (Inr y, t)"
  obtains b r where "k b (s\<lparr>reqs := (reqs s)[a := r]\<rparr>) = (Inr y, t)" "request_id r = rid a s" "\<not> b \<longrightarrow> status r = status (rq a s)"
proof (cases "a < length (reqs s)")
  case True
  let ?r = "(rq a s)\<lparr>output_token_ids := output_token_ids (rq a s) @ [x], all_token_ids := all_token_ids (rq a s) @ [x]\<rparr>"
  from assms True obtain b q where c: "check_stop (sched_max_model_len s) ?r = (Inr b, q)"
    and k: "k b (s\<lparr>reqs := (reqs s)[a := q]\<rparr>) = (Inr y, t)"
    by (auto simp: thenM_ok reqM_ok append_output_token_ids_def modM_ok getM_ok bindM_ok)
  with check_stop_ok [OF c] show thesis by (intro that [OF k]) (auto split: if_splits)
next
  case False
  from assms False obtain b q where c: "check_stop (sched_max_model_len s) (rq a s) = (Inr b, q)"
    and k: "k b (s\<lparr>reqs := (reqs s)[a := q]\<rparr>) = (Inr y, t)"
    by (auto simp: thenM_ok reqM_ok append_output_token_ids_def modM_ok getM_ok bindM_ok list_update_beyond)
  with check_stop_ok [OF c] show thesis by (intro that [OF k]) (auto split: if_splits)
qed

text \<open>The tokens of a request that goes on, or its tokens and its release.\<close>

definition finished_frame :: "nat \<Rightarrow> UpdateStep \<Rightarrow> UpdateStep \<Rightarrow> bool" where
  "finished_frame a s u \<longleftrightarrow> (\<exists>r. reqs u = (reqs s)[a := r] \<and> request_id r = rid a s) \<and>
     kv_cache_manager u = kv_cache_manager s \<and> requests u = requests s \<and> waiting u = waiting s \<and> new_running u = new_running s \<and>
     max_num_running_reqs u = max_num_running_reqs s \<and> max_num_scheduled_tokens u = max_num_scheduled_tokens s"

lemma finished_frame_after:
  assumes "upd_frame a s t" and "finished_frame a t u"
  shows "finished_frame a s u"
  using assms upd_frame_rid [OF assms(1)] unfolding finished_frame_def by (auto simp: upd_frame_def)

lemma append_tokens_ok:
  "append_tokens iter a taken ts s = (Inr (new, stopped), t) \<Longrightarrow>
    (\<not> stopped \<and> upd_frame a s t) \<or> (stopped \<and> (\<exists>u. finished_frame a s u \<and> free_request iter a u = (Inr (), t)))"
proof (induction ts arbitrary: taken s)
  case Nil
  then have "\<not> stopped" "t = s" by (simp_all add: retM_ok)
  moreover have "upd_frame a s s" by (rule upd_frame_same) simp_all
  ultimately show ?case by simp
next
  case (Cons x ts)
  from Cons.prems obtain b r where
    k: "(if b then thenM (free_request iter a) (retM (taken @ [x], True)) else append_tokens iter a (taken @ [x]) ts)
       (s\<lparr>reqs := (reqs s)[a := r]\<rparr>) = (Inr (new, stopped), t)"
    and r: "request_id r = rid a s" "\<not> b \<longrightarrow> status r = status (rq a s)"
    unfolding append_tokens.simps by (rule append_one_ok)
  show ?case
  proof (cases b)
    case True
    with k have "stopped" "free_request iter a (s\<lparr>reqs := (reqs s)[a := r]\<rparr>) = (Inr (), t)" by (auto simp: thenM_ok retM_ok)
    moreover have "finished_frame a s (s\<lparr>reqs := (reqs s)[a := r]\<rparr>)" using r(1) by (auto simp: finished_frame_def)
    ultimately show ?thesis by blast
  next
    case False
    have f: "upd_frame a s (s\<lparr>reqs := (reqs s)[a := r]\<rparr>)" using r False by (intro upd_frameI [where r = r]) simp_all
    from k False have "append_tokens iter a (taken @ [x]) ts (s\<lparr>reqs := (reqs s)[a := r]\<rparr>) = (Inr (new, stopped), t)" by simp
    from Cons.IH [OF this] show ?thesis using upd_frame_trans [OF f] finished_frame_after [OF f] by blast
  qed
qed

lemma take_events_ok:
  assumes "take_events a s = (Inr ev, t)"
  shows "\<exists>e. t = s\<lparr>req_events := e\<rparr>"
proof (cases "req_events s a = []")
  case True
  with assms have "t = s\<lparr>req_events := req_events s\<rparr>" by (simp add: take_events_def getM_ok retM_ok)
  then show ?thesis by blast
next
  case False
  with assms show ?thesis by (simp add: take_events_def getM_ok thenM_ok modM_ok retM_ok) blast
qed

lemma emit_output_ok:
  assumes "emit_output mro a row new s = (Inr (), t)"
  shows "\<exists>e out. t = s\<lparr>req_events := e, step_outputs := out\<rparr>"
proof (cases "new = []")
  case True
  with assms have "t = s\<lparr>req_events := req_events s, step_outputs := step_outputs s\<rparr>"
    by (simp add: emit_output_def getM_ok assertM_ok)
  then show ?thesis by blast
next
  case False
  with assms obtain ev u x where u: "take_events a s = (Inr ev, u)" and t: "t = u\<lparr>step_outputs := x\<rparr>"
    by (simp add: emit_output_def getM_ok bindM_ok modM_ok) blast
  obtain e where "u = s\<lparr>req_events := e\<rparr>" using take_events_ok [OF u] by blast
  with t have "t = s\<lparr>req_events := e, step_outputs := x\<rparr>" by simp
  then show ?thesis by blast
qed

text \<open>What follows a request's tokens leaves its object alone.\<close>

lemma upd_inv_kept:
  assumes s: "upd_inv F nh s0 (a # rest) s" and t: "upd_frame a s t"
  shows "upd_inv F nh s0 rest (t\<lparr>new_running := new_running t @ [a]\<rparr>)"
proof -
  have i: "upd_inv F nh s0 (a # rest) t" using s t by (rule upd_frame_inv)
  let ?t = "t\<lparr>new_running := new_running t @ [a]\<rparr>"
  have "queues_ok ?t run wait = queues_ok t run wait" for run wait
    by (simp add: queues_ok_def table_ok_def all_running_def all_waiting_def)
  with i show ?thesis unfolding upd_inv_def by simp
qed

lemma upd_inv_left:
  assumes s: "upd_inv F nh s0 (a # rest) s" and u: "finished_frame a s u" and f: "free_request iter a u = (Inr (), v)"
    and t: "upd_frame b v t" "reqs t = reqs v"
  shows "upd_inv F nh s0 rest t"
proof -
  have q: "queues_ok s (new_running s @ a # rest) (waiting s)" using s by (simp add: upd_inv_def)
  have tab: "table_ok s ((new_running s @ a # rest) @ waiting s)" using q by (rule table_ok_queues)
  have dist: "distinct ((new_running s @ a # rest) @ waiting s)" using tab by (simp add: table_ok_def)
  from u obtain r where r: "reqs u = (reqs s)[a := r]" "request_id r = rid a s" by (auto simp: finished_frame_def)
  have ruid: "rid b u = rid b s" for b unfolding r(1) by (rule rid_update [OF r(2)])
  have "km_reachable F nh (kv_cache_manager u)" using s u by (simp add: upd_inv_def finished_frame_def)
  with f obtain k e c where "req_is_finished (rq a u)" and k: "km_reachable F nh k" "blocks_of k (rid a u) = []"
      "\<forall>i. i \<noteq> rid a u \<longrightarrow> blocks_of k i = blocks_of (kv_cache_manager u) i"
    and v: "v = u\<lparr>kv_cache_manager := k, encoder_cache_manager := e, cached_reqs_data := c,
       requests := dict_del (rid a u) (requests u), finished_req_ids := insert (rid a u) (finished_req_ids u)\<rparr>"
    by (rule free_request_ok)
  have tf: "reqs t = (reqs s)[a := r]" "requests t = dict_del (rid a s) (requests s)" "waiting t = waiting s"
    "new_running t = new_running s" "kv_cache_manager t = k" "max_num_running_reqs t = max_num_running_reqs s"
    "max_num_scheduled_tokens t = max_num_scheduled_tokens s"
    using t u ruid r(1) by (simp_all add: upd_frame_def v finished_frame_def)
  have rids: "rid b t = rid b s" for b unfolding tf(1) by (rule rid_update [OF r(2)])
  have "queues_ok t (new_running s @ rest) (waiting s)"
    by (rule queues_leave [OF q _ tf(1) r(2) tf(2)]) (use dist in auto)
  moreover have "\<exists>b \<in> set (new_running s @ rest). rid b t = i" if i: "blocks_of k i \<noteq> []" for i
  proof -
    have ne: "i \<noteq> rid a s" using i k(2) by (auto simp: ruid)
    then have "blocks_of (kv_cache_manager s) i \<noteq> []" using i k(3) u by (simp add: ruid finished_frame_def)
    with s obtain b where "b \<in> set (new_running s @ a # rest)" "rid b s = i" unfolding upd_inv_def by blast
    with ne show ?thesis by (auto simp: rids)
  qed
  moreover have "length (new_running s) + length rest \<le> length (running s0)" using s by (simp add: upd_inv_def)
  ultimately show ?thesis using s k(1) by (simp add: upd_inv_def tf)
qed

lemma update_scheduled_inv:
  assumes run: "update_scheduled iter out mro a s = (Inr (), t)" and s: "upd_inv F nh s0 (a # rest) s"
  shows "upd_inv F nh s0 rest t"
proof -
  from run obtain row generated s1 s2 s3 s4 new stopped where
    s1: "reject_drafts out a generated s = (Inr (), s1)" and s2: "free_processed_inputs iter a s1 = (Inr (), s2)"
    and s3: "(case runner_spec_token_ids mro of None \<Rightarrow> retM ()
       | Some drafts \<Rightarrow> bindM (liftM (nth_or_raise drafts row)) (\<lambda>ts. mod_req a (\<lambda>r. r\<lparr>spec_token_ids := ts\<rparr>))) s2 = (Inr (), s3)"
    and s4: "append_tokens iter a [] generated s3 = (Inr (new, stopped), s4)"
    and tail: "report_tokens mro a row new stopped s4 = (Inr (), t)"
    unfolding update_scheduled_def getM_ok bindM_ok thenM_ok fromM_ok liftM_ok split_paired_Ex prod.case by blast
  from tail obtain s5 s6 where
    s5: "s5 = (if new \<noteq> [] \<and> use_structured_output (rq a s4) then s4\<lparr>grammar_tokens := grammar_tokens s4 @ [(rid a s4, new)]\<rparr> else s4)"
    and s6: "emit_output mro a row new s5 = (Inr (), s6)"
    and t: "(if stopped then retM () else modM (\<lambda>s. s\<lparr>new_running := new_running s @ [a]\<rparr>))
      (s6\<lparr>scheduled_req_ids := scheduled_req_ids s6 - {rid a s4}\<rparr>) = (Inr (), t)"
    unfolding report_tokens_def thenM_ok modM_ok getM_ok guardM_ok by blast
  have f1: "upd_frame a s s1" by (rule reject_drafts_frame [OF s1])
  have f2: "upd_frame a s1 s2" by (rule free_processed_inputs_frame [OF s2])
  have f3: "upd_frame a s2 s3"
  proof -
    have "upd_frame a s2 (s2\<lparr>reqs := (reqs s2)[a := (rq a s2)\<lparr>spec_token_ids := ts\<rparr>]\<rparr>)" for ts by (rule mod_req_frame) simp_all
    moreover have "upd_frame a s2 s2" by (rule upd_frame_same) simp_all
    ultimately show ?thesis using s3 by (auto simp: retM_ok bindM_ok liftM_ok mod_req_ok split: option.splits)
  qed
  have f: "upd_frame a s s3" by (rule upd_frame_trans [OF upd_frame_trans [OF f1 f2] f3])
  obtain e outs where o: "s6 = s5\<lparr>req_events := e, step_outputs := outs\<rparr>" using emit_output_ok [OF s6] by blast
  have late: "upd_frame b s4 (s6\<lparr>scheduled_req_ids := ids\<rparr>)" "reqs (s6\<lparr>scheduled_req_ids := ids\<rparr>) = reqs s4" for b ids
    by (intro upd_frame_same) (simp_all add: o s5)
  show ?thesis
  proof (cases stopped)
    case True
    with append_tokens_ok [OF s4] obtain u where u: "finished_frame a s3 u" "free_request iter a u = (Inr (), s4)" by blast
    have "t = s6\<lparr>scheduled_req_ids := scheduled_req_ids s6 - {rid a s4}\<rparr>" using t True by (simp add: retM_ok)
    then show ?thesis using late by (auto intro: upd_inv_left [OF s finished_frame_after [OF f u(1)] u(2)])
  next
    case False
    with append_tokens_ok [OF s4] have "upd_frame a s s4" using upd_frame_trans [OF f] by blast
    then have "upd_frame a s (s6\<lparr>scheduled_req_ids := scheduled_req_ids s6 - {rid a s4}\<rparr>)" using late(1) by (rule upd_frame_trans)
    from upd_inv_kept [OF s this] show ?thesis using t False by (simp add: modM_ok)
  qed
qed

lemma update_request_inv:
  assumes run: "update_request iter out mro a s = (Inr (), t)" and s: "upd_inv F nh s0 (a # rest) s"
  shows "upd_inv F nh s0 rest t"
proof (cases "(case dict_get (out_num_scheduled_tokens out) (rid a s) of None \<Rightarrow> 0 | Some n \<Rightarrow> n) = 0")
  case True
  with run have "t = s\<lparr>new_running := new_running s @ [a]\<rparr>" by (simp add: update_request_def getM_ok modM_ok)
  moreover have "upd_frame a s s" by (rule upd_frame_same) simp_all
  ultimately show ?thesis using upd_inv_kept [OF s] by simp
next
  case False
  with run have "update_scheduled iter out mro a s = (Inr (), t)" by (simp add: update_request_def getM_ok)
  then show ?thesis using s by (rule update_scheduled_inv)
qed

lemma update_loop_inv:
  "forM l (update_request iter out mro) s = (Inr (), t) \<Longrightarrow> upd_inv F nh s0 l s \<Longrightarrow> upd_inv F nh s0 [] t"
  by (induction l arbitrary: s) (auto simp: retM_ok thenM_ok dest: update_request_inv)

lemma update_from_output_inv:
  assumes run: "update_from_output iter out mro s = (Inr eco, t)" and s: "sched_inv F nh s"
  shows "sched_inv F nh t"
proof -
  from run obtain u v where u: "forM (running s) (update_request iter out mro) (update_init s) = (Inr (), u)"
    and v: "finish_update out u = (Inr eco, v)" and t: "t = Scheduler.truncate v"
    by (auto simp: update_from_output_def thenM_ok split: prod.splits)
  have "upd_inv F nh s (running s) (update_init s)"
    using s by (simp add: upd_inv_def sched_inv_def update_init_def Scheduler.extend_def blocks_held_def
        queues_ok_def table_ok_def all_running_def all_waiting_def)
  from update_loop_inv [OF u this] have i: "upd_inv F nh s [] u" .
  from v obtain k where k: "k = kv_cache_manager u \<or> (\<exists>st. make_prefix_cache_stats (kv_cache_manager u) = (Inr st, k))"
    and veq: "v = u\<lparr>running := new_running u, kv_cache_manager := k\<rparr>"
  proof (cases "log_stats u")
    case True
    with v obtain st k where "make_prefix_cache_stats (kv_cache_manager u) = (Inr st, k)"
      and "v = u\<lparr>running := new_running u, kv_cache_manager := k\<rparr>" by (auto simp: finish_update_def make_stats_def ok_simps)
    then show thesis using that [of k] by blast
  next
    case False
    with v have "v = u\<lparr>running := new_running u, kv_cache_manager := kv_cache_manager u\<rparr>"
      by (auto simp: finish_update_def make_stats_def ok_simps split: if_splits)
    then show thesis using that [of "kv_cache_manager u"] by simp
  qed
  have "km_reachable F nh k" using i k km_reachable.stats_taken unfolding upd_inv_def by blast
  moreover have bk: "blocks_of k b = blocks_of (kv_cache_manager u) b" for b
    using k by (auto simp: make_prefix_cache_stats_def ok_simps)
  ultimately show ?thesis using i s
    by (intro sched_invI) (auto simp: t veq upd_inv_def sched_inv_def blocks_held_def
        queues_ok_def table_ok_def all_running_def all_waiting_def)
qed

lemma km_reset_blocks:
  assumes k: "km_reachable F nh k" and run: "km_reset_prefix_cache k = (Inr ok, k')"
  shows "blocks_of k' i = blocks_of k i"
proof -
  from run obtain u ok' where u: "pool_reset_prefix_cache k = (Inr ok', u)" "lookup_frame u k'"
    by (auto simp: km_reset_prefix_cache_def ok_simps lookup_frame_refl lookup_frame_upd split: if_splits)
  obtain l where "pool_is k l" using km_reachable_inv [OF k] by (auto simp: km_inv_def)
  from pool_reset_pool [OF this u(1)] have "req_to_blocks u = req_to_blocks k" using more_fields(5) by blast
  then show ?thesis using u(2) by (simp add: lookup_frame_def)
qed

lemma sched_reset_inv:
  assumes run: "sched_reset_prefix_cache s = (Inr ok, t)" and s: "sched_inv F nh s"
  shows "sched_inv F nh t"
proof -
  from run obtain k where k: "km_reset_prefix_cache (kv_cache_manager s) = (Inr ok, k)" and t: "t = s\<lparr>kv_cache_manager := k\<rparr>"
    by (auto simp: sched_reset_prefix_cache_def kvM_ok)
  have "km_reachable F nh k" by (rule km_reachable.cache_reset [OF sched_invD(1) [OF s] k])
  moreover have "blocks_of k i = blocks_of (kv_cache_manager s) i" for i using km_reset_blocks [OF sched_invD(1) [OF s] k] by simp
  ultimately show ?thesis using s by (simp add: t sched_inv_def blocks_held_def queues_ok_def table_ok_def all_running_def all_waiting_def)
qed

subsection \<open>Histories\<close>

text \<open>
  \<open>sched_reachable F none_hash s\<close>: a scheduler was built and reached \<open>s\<close> by calls that returned. A
  request comes in as \<open>Request.__init__\<close> leaves it, under an id that is not in use; what the model
  runner answers, and to which step, is arbitrary.
\<close>

inductive sched_reachable :: "hash_fn \<Rightarrow> int \<Rightarrow> Scheduler \<Rightarrow> bool" for F none_hash where
  built: "0 \<le> max_seqs \<Longrightarrow> 0 \<le> max_batched \<Longrightarrow>
    scheduler_init max_seqs max_batched max_len threshold loras logging fin groups num_blocks caching budget s = (Inr (), t)
    \<Longrightarrow> sched_reachable F none_hash t"
| added: "sched_reachable F none_hash s \<Longrightarrow> request_init i prompt n hashes positions sp eos lora = Inr r
    \<Longrightarrow> dict_get (requests s) i = None \<Longrightarrow> add_request r now s = (Inr (), t) \<Longrightarrow> sched_reachable F none_hash t"
| scheduled: "sched_reachable F none_hash s \<Longrightarrow> schedule F none_hash ready now s = Some (Inr out, t)
    \<Longrightarrow> sched_reachable F none_hash t"
| updated: "sched_reachable F none_hash s \<Longrightarrow> update_from_output iter out mro s = (Inr eco, t) \<Longrightarrow> sched_reachable F none_hash t"
| finished: "sched_reachable F none_hash s \<Longrightarrow> finish_requests iter ids st s = (Inr (), t) \<Longrightarrow> sched_reachable F none_hash t"
| reset: "sched_reachable F none_hash s \<Longrightarrow> sched_reset_prefix_cache s = (Inr ok, t) \<Longrightarrow> sched_reachable F none_hash t"

lemma scheduler_init_inv:
  assumes init: "scheduler_init max_seqs max_batched max_len threshold loras logging fin groups num_blocks caching budget s = (Inr (), t)"
    and nonneg: "0 \<le> max_seqs" "0 \<le> max_batched"
  shows "sched_inv F nh t"
proof -
  from init obtain k where k: "manager_init groups num_blocks max_len caching 64 (kv_cache_manager s) = (Inr (), k)"
    and t: "kv_cache_manager t = k" "requests t = []" "waiting t = []" "running t = []" "max_num_running_reqs t = max_seqs"
      "max_num_scheduled_tokens t = max_batched"
    by (auto simp: scheduler_init_def thenM_ok modM_ok kvM_ok)
  have "km_reachable F nh k" by (rule km_reachable.built [OF k])
  moreover have "req_to_blocks k = []" using k by (auto simp: manager_init_def Let_def ok_simps)
  ultimately show ?thesis using nonneg
    by (intro sched_invI) (simp_all add: t queues_ok_def table_ok_def all_running_def all_waiting_def blocks_held_def)
qed

lemma request_init_fields:
  "request_init i prompt n hashes positions sp eos lora = Inr r \<Longrightarrow> request_id r = i \<and> status r \<in> {WAITING, WAITING_FOR_FSM}"
  by (auto simp: request_init_def split: option.splits if_splits)

lemma sched_reachable_inv:
  assumes "sched_reachable F nh s"
  shows "sched_inv F nh s"
  using assms
proof (induction rule: sched_reachable.induct)
  case (added s i prompt n hashes positions sp eos lora r now t)
  with request_init_fields [OF added.hyps(2)] add_request_inv [OF added.hyps(4)] show ?case by simp
next
  case (scheduled s ready now out t)
  show ?case by (rule schedule_result [OF scheduled.hyps(2) scheduled.IH])
qed (blast intro: scheduler_init_inv update_from_output_inv finish_requests_inv sched_reset_inv)+

end
