(* ===== verification/ScheduleOrder.thy ===== *)
theory ScheduleOrder
  imports ScheduleSteps
begin

section \<open>The order of a scheduling step\<close>

text \<open>
  Preempted requests go back to the head of the waiting queue in the order in which they ran; the
  waiting requests that are admitted leave the others in their order.
\<close>

subsection \<open>Interleavings\<close>

lemma snoc_shuffles: "zs \<in> shuffles xs ys \<Longrightarrow> zs @ [a] \<in> shuffles (xs @ [a]) ys"
proof (induction zs arbitrary: xs ys)
  case Nil
  then show ?case by simp
next
  case (Cons z zs)
  from Cons.prems consider "xs \<noteq> []" "hd xs = z" "zs \<in> shuffles (tl xs) ys" | "ys \<noteq> []" "hd ys = z" "zs \<in> shuffles xs (tl ys)"
    by (auto simp: Cons_in_shuffles_iff)
  then show ?case
  proof cases
    case 1
    with Cons.IH [OF 1(3)] show ?thesis by (cases xs) (auto simp: Cons_in_shuffles_iff)
  next
    case 2
    with Cons.IH [OF 2(3)] show ?thesis by (auto simp: Cons_in_shuffles_iff)
  qed
qed

lemma append_shuffles: "zs \<in> shuffles xs ys \<Longrightarrow> zs @ l \<in> shuffles xs (ys @ l)"
proof (induction l arbitrary: zs ys)
  case (Cons a l)
  have "zs @ [a] \<in> shuffles xs (ys @ [a])" using snoc_shuffles [of zs ys xs a] Cons.prems by (simp add: shuffles_commutes)
  from Cons.IH [OF this] show ?case by simp
qed simp

subsection \<open>The first loop\<close>

text \<open>What the loop over the running requests leaves alone, and what each preemption counts.\<close>

definition shrunk :: "ScheduleStep \<Rightarrow> ScheduleStep \<Rightarrow> bool" where
  "shrunk s t \<longleftrightarrow> set (running t) \<subseteq> set (running s) \<and> (\<forall>a. a \<notin> set (running s) \<longrightarrow> rq a t = rq a s) \<and>
     length (running t) + length (step_preempted t) = length (running s) + length (step_preempted s)"

lemma shrunk_refl: "shrunk s s"
  by (simp add: shrunk_def)

lemma shrunk_trans: "shrunk s t \<Longrightarrow> shrunk t u \<Longrightarrow> shrunk s u"
  unfolding shrunk_def by (metis add_left_cancel subset_iff)

lemma preempt_last_shrunk:
  assumes "preempt_last now s = (Inr b, t)"
  shows "shrunk s t"
proof -
  from preempt_last_ok [OF assms] obtain k where ne: "running s \<noteq> []" and b: "b = last (running s)"
    and t: "running t = butlast (running s)" "reqs t = (reqs s)[b := (rq b s)\<lparr>status := PREEMPTED, num_computed_tokens := 0\<rparr>]"
      "step_preempted t = step_preempted s @ [b]" by auto
  have "b \<in> set (running s)" using ne b by simp
  then have "rq a t = rq a s" if "a \<notin> set (running s)" for a using that t(2) by (metis nth_list_update_neq)
  moreover have "Suc (length (butlast (running s))) = length (running s)" using ne by simp
  ultimately show ?thesis by (auto simp: shrunk_def t(1,3) dest: in_set_butlastD)
qed

lemma allocate_or_preempt_shrunk:
  assumes "allocate_or_preempt F nh now a n s = Some (Inr res, t)"
  shows "shrunk s t"
proof -
  have round: "shrunk s v" if u: "shrunk s u" and r: "preempt_round F nh now a n u = (Inr r, v)" for r u v
  proof -
    from r obtain new k where rest: "(case new of Some bs \<Rightarrow> retM (Some (Some bs))
        | None \<Rightarrow> bindM (preempt_last now) (\<lambda>b. retM (if b = a then Some None else None))) (u\<lparr>kv_cache_manager := k\<rparr>) = (Inr r, v)"
      by (auto simp: preempt_round_def getM_ok bindM_ok kvM_ok)
    have w: "shrunk s (u\<lparr>kv_cache_manager := k\<rparr>)" using u by (simp add: shrunk_def)
    show ?thesis
    proof (cases new)
      case None
      with rest obtain b where "preempt_last now (u\<lparr>kv_cache_manager := k\<rparr>) = (Inr b, v)" by (auto simp: bindM_ok retM_ok)
      with w show ?thesis using preempt_last_shrunk shrunk_trans by blast
    next
      case (Some bs)
      with rest w show ?thesis by (simp add: retM_ok)
    qed
  qed
  from assms [unfolded allocate_or_preempt_def] show ?thesis
  proof (rule loopL_inv [where I = "shrunk s" and Q = "\<lambda>_. shrunk s"])
    show "shrunk s s" by (rule shrunk_refl)
  qed (use round in \<open>auto simp: liftL_def\<close>)
qed

lemma running_round_shrunk:
  assumes run: "running_round F nh now s = Some (Inr r, t)"
  shows "shrunk s t"
  using running_round_parts [OF run]
proof (elim disjE conjE exE)
  assume "plan_running (running s ! req_index s) s = (Inr None, t)"
  then have "t = s\<lparr>req_index := Suc (req_index s)\<rparr>" using plan_running_ok by fastforce
  then show ?thesis by (simp add: shrunk_def)
next
  fix n inputs b v bs
  let ?a = "running s ! req_index s"
  assume i: "req_index s < length (running s)" and al: "allocate_or_preempt F nh now ?a n s = Some (Inr (Some bs), v)"
    and go: "schedule_running ?a n bs inputs b v = (Inr (), t)"
  have a: "?a \<in> set (running s)" using i by simp
  have v: "shrunk s v" by (rule allocate_or_preempt_shrunk [OF al])
  have "reqs t = (reqs v)[?a := trim_drafts n (rq ?a v)]" "running t = running v" "step_preempted t = step_preempted v"
    using schedule_running_ok [OF go] by blast+
  then show ?thesis using v a unfolding shrunk_def by (metis nth_list_update_neq)
qed (use allocate_or_preempt_shrunk shrunk_refl in auto)

lemma running_loop_shrunk:
  assumes "loopL (running_round F nh now) s = Some (Inr (), t)"
  shows "shrunk s t"
  using assms
proof (rule loopL_inv [where I = "shrunk s" and Q = "\<lambda>_. shrunk s"])
  show "shrunk s s" by (rule shrunk_refl)
qed (use running_round_shrunk shrunk_trans in blast)+

subsection \<open>The second loop\<close>

text \<open>
  Since \<open>u\<close>, the requests \<open>new\<close> have been admitted and others skipped, each in the order of the queue;
  those that have not been looked at are as they were.
\<close>

definition admits :: "ScheduleStep \<Rightarrow> nat list \<Rightarrow> ScheduleStep \<Rightarrow> bool" where
  "admits u new s \<longleftrightarrow> running s = running u @ new \<and> step_preempted s = step_preempted u \<and>
     (\<exists>l. waiting u = l @ waiting s \<and> l \<in> shuffles new (rev (skipped_waiting_requests s)))"

definition untouched :: "ScheduleStep \<Rightarrow> ScheduleStep \<Rightarrow> bool" where
  "untouched u s \<longleftrightarrow> (\<forall>a \<in> set (waiting s). rq a s = rq a u) \<and> max_loras s = max_loras u"

definition none_skipped :: "(Request \<Rightarrow> bool) \<Rightarrow> 'x Scheduler_scheme \<Rightarrow> bool" where
  "none_skipped ready s \<longleftrightarrow> max_loras s = None \<and> (\<forall>a \<in> set (waiting s). status (rq a s) = WAITING_FOR_FSM \<longrightarrow> ready (rq a s))"

lemma admits_skip:
  assumes s: "admits u new s" and w: "waiting s = a # rest"
    and t: "running t = running s" "step_preempted t = step_preempted s" "waiting t = rest"
      "skipped_waiting_requests t = a # skipped_waiting_requests s"
  shows "admits u new t"
proof -
  from s obtain l where l: "waiting u = l @ waiting s" "l \<in> shuffles new (rev (skipped_waiting_requests s))" unfolding admits_def by blast
  then have "waiting u = (l @ [a]) @ waiting t" "l @ [a] \<in> shuffles new (rev (skipped_waiting_requests t))"
    using append_shuffles [OF l(2), of "[a]"] by (simp_all add: t w)
  with s show ?thesis unfolding admits_def t(1,2) by blast
qed

lemma admits_admit:
  assumes s: "admits u new s" and w: "waiting s = a # rest"
    and t: "running t = running s @ [a]" "step_preempted t = step_preempted s" "waiting t = rest"
      "skipped_waiting_requests t = skipped_waiting_requests s"
  shows "admits u (new @ [a]) t"
proof -
  from s obtain l where l: "waiting u = l @ waiting s" "l \<in> shuffles new (rev (skipped_waiting_requests s))" unfolding admits_def by blast
  then have "waiting u = (l @ [a]) @ waiting t" "l @ [a] \<in> shuffles (new @ [a]) (rev (skipped_waiting_requests t))"
    using snoc_shuffles [OF l(2), of a] by (simp_all add: t w)
  moreover have "running t = running u @ new @ [a]" using s t(1) by (simp add: admits_def)
  ultimately show ?thesis using s unfolding admits_def t(2) by blast
qed

lemma untouched_tl:
  assumes s: "untouched u s" and w: "waiting s = a # rest" and d: "a \<notin> set rest"
    and t: "waiting t = rest" "\<And>b. b \<noteq> a \<Longrightarrow> rq b t = rq b s" "max_loras t = max_loras s"
  shows "untouched u t"
  using s d t unfolding untouched_def w by (metis list.set_intros(2))

lemma fsm_done_fields:
  "running (fsm_done a s) = running s" "waiting (fsm_done a s) = waiting s" "max_loras (fsm_done a s) = max_loras s"
  "skipped_waiting_requests (fsm_done a s) = skipped_waiting_requests s" "step_preempted (fsm_done a s) = step_preempted s"
  "length (reqs (fsm_done a s)) = length (reqs s)" "b \<noteq> a \<Longrightarrow> rq b (fsm_done a s) = rq b s"
  by (simp_all add: fsm_done_def)

lemma must_skip_some:
  assumes "must_skip ready (hd (waiting s)) s" and "waiting s \<noteq> []" and "admits u new s" and "untouched u s"
  shows "\<not> none_skipped ready u"
proof -
  let ?a = "hd (waiting s)"
  have "?a \<in> set (waiting u)" "rq ?a s = rq ?a u" "max_loras s = max_loras u"
    using assms(2-4) hd_in_set [OF assms(2)] by (auto simp: admits_def untouched_def)
  with assms(1) show ?thesis by (auto simp: none_skipped_def must_skip_def exceeds_loras_def split: option.splits)
qed

lemma waiting_round_admits:
  assumes run: "waiting_round F nh ready now s = (Inr r, t)" and inv: "step_inv F nh s0 s"
    and s: "admits u new s" "untouched u s"
  shows "\<exists>new'. admits u new' t \<and> (r = None \<longrightarrow> untouched u t) \<and>
    (none_skipped ready u \<longrightarrow> skipped_waiting_requests s = [] \<longrightarrow> skipped_waiting_requests t = [])"
proof -
  define a rest where "a = hd (waiting s)" and "rest = tl (waiting s)"
  have tab: "table_ok s (running s @ rev (skipped_waiting_requests s) @ waiting s)" by (rule step_inv_table [OF inv])
  have w: "waiting s = a # rest" and d: "a \<notin> set rest" and alen: "a < length (reqs s)" if "waiting s \<noteq> []"
  proof -
    show w: "waiting s = a # rest" using that by (simp add: a_def rest_def)
    show "a \<notin> set rest" "a < length (reqs s)" using tab unfolding table_ok_def w by simp_all
  qed
  consider (same) "t = s" "r \<noteq> None" | (skip) "waiting s \<noteq> []" "must_skip ready a s" "\<exists>v. (v = s \<or> v = fsm_done a s) \<and>
          t = v\<lparr>waiting := tl (waiting s), skipped_waiting_requests := a # skipped_waiting_requests s\<rparr>"
    | (go) "waiting s \<noteq> []" "schedule_waiting F nh now a (fsm_done a s) = (Inr r, t)"
    using waiting_round_parts [OF run, folded a_def] by fastforce
  then show ?thesis
  proof cases
    case same
    with s show ?thesis by blast
  next
    case skip
    then obtain v where v: "v = s \<or> v = fsm_done a s"
      and t: "t = v\<lparr>waiting := rest, skipped_waiting_requests := a # skipped_waiting_requests s\<rparr>" by (auto simp: rest_def)
    have "admits u new t" by (rule admits_skip [OF s(1) w [OF skip(1)]]) (use v fsm_done_fields in \<open>auto simp: t\<close>)
    moreover have "untouched u t" by (rule untouched_tl [OF s(2) w [OF skip(1)] d [OF skip(1)]]) (use v fsm_done_fields in \<open>auto simp: t\<close>)
    moreover have "\<not> none_skipped ready u" using must_skip_some [OF _ skip(1) s] skip(2) by (simp add: a_def)
    ultimately show ?thesis by blast
  next
    case go
    consider (leave) k where "t = fsm_done a s\<lparr>kv_cache_manager := k\<rparr>" "r \<noteq> None"
      | (admitted) k hits bs c n inputs b where "admit_waiting now a hits bs c n inputs b (fsm_done a s\<lparr>kv_cache_manager := k\<rparr>) = (Inr (), t)"
      using schedule_waiting_parts [OF go(2)] by (elim exE conjE disjE) (auto split: option.splits)
    then show ?thesis
    proof cases
      case t: leave
      have "admits u new t" using s(1) by (simp add: t admits_def fsm_done_fields)
      moreover have "skipped_waiting_requests t = skipped_waiting_requests s" by (simp add: t fsm_done_fields)
      ultimately show ?thesis using t(2) by auto
    next
      case admitted
      have "a < length (reqs (fsm_done a s\<lparr>kv_cache_manager := k\<rparr>))" using alen [OF go(1)] by (simp add: fsm_done_fields)
      note t = admit_waiting_ok [OF admitted this]
      have "admits u (new @ [a]) t" by (rule admits_admit [OF s(1) w [OF go(1)]]) (use t in \<open>auto simp: fsm_done_fields rest_def\<close>)
      moreover have "untouched u t"
        by (rule untouched_tl [OF s(2) w [OF go(1)] d [OF go(1)]]) (use t in \<open>auto simp: fsm_done_fields rest_def same_config_def\<close>)
      moreover have "skipped_waiting_requests t = skipped_waiting_requests s" using t by (simp add: fsm_done_fields)
      ultimately show ?thesis by auto
    qed
  qed
qed

subsection \<open>A whole step\<close>

lemma waiting_loop_admits:
  assumes run: "loopL (liftL (waiting_round F nh ready now)) u = Some (Inr (), w)" and u: "step_inv F nh s0 u" "skipped_waiting_requests u = []"
  shows "step_inv F nh s0 w \<and> (\<exists>new. admits u new w) \<and> (none_skipped ready u \<longrightarrow> skipped_waiting_requests w = [])"
proof -
  let ?skip = "\<lambda>s. none_skipped ready u \<longrightarrow> skipped_waiting_requests s = []"
  define I where "I = (\<lambda>s. step_inv F nh s0 s \<and> (\<exists>new. admits u new s) \<and> untouched u s \<and> ?skip s)"
  define Q where "Q = (\<lambda>(x :: unit) s. step_inv F nh s0 s \<and> (\<exists>new. admits u new s) \<and> ?skip s)"
  have round: "case r of None \<Rightarrow> I t | Some x \<Rightarrow> Q x t" if I: "I s" and r: "waiting_round F nh ready now s = (Inr r, t)" for r s t
  proof -
    from I obtain new where s: "admits u new s" "untouched u s" "step_inv F nh s0 s" "?skip s" unfolding I_def by blast
    from waiting_round_admits [OF r s(3,1,2)] obtain new' where t: "admits u new' t" "r = None \<longrightarrow> untouched u t" "?skip t"
      using s(4) by blast
    have "step_inv F nh s0 t" using r s(3) by (rule waiting_round_inv)
    with t show ?thesis by (cases r) (auto simp: I_def Q_def)
  qed
  have "I u" using u by (auto simp: I_def untouched_def admits_def)
  from run this have "Q () w"
  proof (rule loopL_inv)
    show "I v" if "I s" "liftL (waiting_round F nh ready now) s = Some (Inr None, v)" for s v
      using round [OF that(1), of None v] that(2) by (simp add: liftL_def)
    show "Q y v" if "I s" "liftL (waiting_round F nh ready now) s = Some (Inr (Some y), v)" for s v y
      using round [OF that(1), of "Some y" v] that(2) by (simp add: liftL_def)
  qed
  then show ?thesis by (simp add: Q_def)
qed

lemma none_skipped_shrunk:
  assumes s: "none_skipped ready s" and u: "shrunk s u" "waiting u = waiting s" "max_loras u = max_loras s"
    and d: "set (running s) \<inter> set (waiting s) = {}"
  shows "none_skipped ready u"
proof -
  have "rq a u = rq a s" if "a \<in> set (waiting s)" for a using that u(1) d unfolding shrunk_def by blast
  with s u(2,3) show ?thesis by (simp add: none_skipped_def)
qed

lemma schedule_requests_order:
  assumes run: "schedule_requests F nh ready now (step_init s0) = Some (Inr (), t)" and s0: "sched_inv F nh s0"
  shows "(\<exists>kept preempted. running s0 = kept @ preempted \<and> preempted \<noteq> [] \<and> running t = kept \<and> waiting t = preempted @ waiting s0) \<or>
    (\<exists>new. running t = running s0 @ new \<and> waiting s0 \<in> shuffles new (waiting t) \<and> (none_skipped ready s0 \<longrightarrow> waiting s0 = new @ waiting t))"
proof -
  from run obtain u v w where u: "loopL (running_round F nh now) (step_init s0) = Some (Inr (), u)"
    and v: "record_loras u = (Inr (), v)"
    and w: "(if step_preempted v = [] then loopL (liftL (waiting_round F nh ready now)) else liftL (retM ())) v = Some (Inr (), w)"
    and t: "t = w\<lparr>waiting := rev (skipped_waiting_requests w) @ waiting w\<rparr>"
    by (auto simp: schedule_requests_def ok_simps)
  note init = step_init_inv [OF s0]
  have f: "running (step_init s0) = running s0" "waiting (step_init s0) = waiting s0" "step_preempted (step_init s0) = []"
    "max_loras (step_init s0) = max_loras s0" "reqs (step_init s0) = reqs s0"
    by (simp_all add: step_init_def Scheduler.extend_def)
  have iu: "step_inv F nh s0 u \<and> first_phase u"
    by (rule loopL_inv [OF u, where I = "\<lambda>s. step_inv F nh s0 s \<and> first_phase s"]) (use init running_round_inv in blast)+
  have sh: "shrunk (step_init s0) u" by (rule running_loop_shrunk [OF u])
  obtain l where vl: "v = u\<lparr>scheduled_loras := l\<rparr>" using v by (rule record_loras_ok)
  have iv: "step_inv F nh s0 v" using iu by (simp add: vl step_inv_loras)
  have skip: "skipped_waiting_requests v = []" using iu by (simp add: vl first_phase_def)
  have order: "running v @ waiting v = running s0 @ waiting s0" using step_invD(8) [OF iv skip] .
  have shv: "shrunk (step_init s0) v" using sh by (simp add: vl shrunk_def)
  then have len: "length (running v) + length (step_preempted v) = length (running s0)" by (simp add: shrunk_def f)
  show ?thesis
  proof (cases "step_preempted v = []")
    case True
    with len have eq: "running v = running s0" "waiting v = waiting s0" using order append_eq_append_conv by auto
    from w True have "loopL (liftL (waiting_round F nh ready now)) v = Some (Inr (), w)" by simp
    from waiting_loop_admits [OF this iv skip] obtain new where ad: "admits v new w"
      and none: "none_skipped ready v \<longrightarrow> skipped_waiting_requests w = []" by blast
    from ad obtain l where l: "waiting s0 = l @ waiting w" "l \<in> shuffles new (rev (skipped_waiting_requests w))"
      unfolding admits_def eq by blast
    have "waiting s0 \<in> shuffles new (waiting t)" using append_shuffles [OF l(2), of "waiting w"] l(1) by (simp add: t)
    moreover have "waiting s0 = new @ waiting t" if "none_skipped ready s0"
    proof -
      have "table_ok s0 (running s0 @ waiting s0)" using sched_invD(2) [OF s0] by (rule table_ok_queues)
      then have "set (running s0) \<inter> set (waiting s0) = {}" by (simp add: table_ok_def)
      then have "none_skipped ready v"
      proof (intro none_skipped_shrunk [OF _ shv])
        show "none_skipped ready (step_init s0)" using that by (simp add: none_skipped_def f)
        show "max_loras v = max_loras (step_init s0)" using step_invD(2) [OF iv] by (simp add: f same_config_def)
      qed (simp_all add: f eq)
      with none have "skipped_waiting_requests w = []" by blast
      with l show ?thesis by (simp add: t)
    qed
    moreover have "running t = running s0 @ new" using ad by (simp add: admits_def t eq)
    ultimately show ?thesis by blast
  next
    case False
    with w have "w = v" by (simp add: liftL_def retM_run)
    then have t': "running t = running v" "waiting t = waiting v" by (simp_all add: t skip)
    have lt: "length (running v) < length (running s0)" using len False by (cases "step_preempted v") simp_all
    then have n: "length (running v) \<le> length (running s0)" by simp
    let ?p = "drop (length (running v)) (running s0)"
    have "take (length (running v)) (running s0) = running v"
      using arg_cong [OF order, of "take (length (running v))"] n by simp
    then have split: "running s0 = running v @ ?p" using append_take_drop_id [of "length (running v)" "running s0"] by (simp only:)
    have wait: "waiting v = ?p @ waiting s0" using arg_cong [OF order, of "drop (length (running v))"] n by simp
    have "?p \<noteq> []" using lt by simp
    then show ?thesis by (intro disjI1 exI conjI) (rule split, assumption, rule t'(1), rule trans [OF t'(2) wait])
  qed
qed

lemma schedule_order:
  assumes run: "schedule F nh ready now s = Some (Inr out, t)" and s: "sched_inv F nh s"
  shows "(\<exists>kept preempted. running s = kept @ preempted \<and> preempted \<noteq> [] \<and> running t = kept \<and> waiting t = preempted @ waiting s) \<or>
    (\<exists>new. running t = running s @ new \<and> waiting s \<in> shuffles new (waiting t) \<and> (none_skipped ready s \<longrightarrow> waiting s = new @ waiting t))"
proof -
  from run obtain w u where w: "schedule_requests F nh ready now (step_init s) = Some (Inr (), w)"
    and u: "schedule_output w = (Inr out, u)" and t: "t = Scheduler.truncate u" by (rule schedule_parts)
  from u have "running u = running w" "waiting u = waiting w" by (auto elim: schedule_output_ok)
  then have "running t = running w" "waiting t = waiting w" by (simp_all add: t)
  with schedule_requests_order [OF w s] show ?thesis by (simp only:)
qed

end
