(* ===== verification/SchedulerSpec.thy ===== *)
theory SchedulerSpec
  imports ScheduleOrder
begin

section \<open>What the scheduler guarantees\<close>

text \<open>
  The properties of \<open>Scheduler\<close>, over every history of calls (\<open>sched_reachable\<close>), and examples of
  histories that show that their hypotheses can hold.
\<close>

subsection \<open>An example: two requests and a budget of six tokens\<close>

definition blank_scheduler :: Scheduler where
  "blank_scheduler = \<lparr>max_num_running_reqs = 0, max_num_scheduled_tokens = 0, sched_max_model_len = 0,
     long_prefill_token_threshold = 0, max_loras = None, log_stats = False, include_finished_set = False,
     max_num_encoder_input_tokens = 0, kv_cache_manager = blank_manager, encoder_cache_manager = enc_init 0,
     reqs = [], req_events = (\<lambda>a. []), requests = [], waiting = [], running = [], scheduled_req_ids = {},
     finished_req_ids = {}, cached_reqs_data = [], grammar_tokens = []\<rparr>"

definition ex_params :: ReqSamplingParams where
  "ex_params = \<lparr>sp_max_tokens = Some 4, sp_ignore_eos = False, sp_stop_token_ids = None, sp_logprobs = None,
     sp_prompt_logprobs = None, sp_guided_decoding = False\<rparr>"

definition ex_req :: "string \<Rightarrow> int list \<Rightarrow> Request" where
  "ex_req i prompt = (case request_init i prompt 0 [] [] ex_params (Some 2) None of Inr r \<Rightarrow> r | Inl e \<Rightarrow> ex_request [])"

definition ex_sched0 :: Scheduler where
  "ex_sched0 = snd (scheduler_init 2 6 8 0 None False False [FullAttentionSpec ex_attention] 6 True (0, 0) blank_scheduler)"

definition ex_sched1 :: Scheduler where
  "ex_sched1 = snd (add_request (ex_req ''b'' [5, 6, 8, 9]) 0 (snd (add_request (ex_req ''a'' [5, 6, 7, 4]) 0 ex_sched0)))"

definition ex_sched2 :: Scheduler where
  "ex_sched2 = snd (the (schedule ex_hash_fn 7 (\<lambda>r. True) 0 ex_sched1))"

definition ex_sched_out :: SchedulerOutput where
  "ex_sched_out = (case fst (the (schedule ex_hash_fn 7 (\<lambda>r. True) 0 ex_sched1)) of Inr out \<Rightarrow> out | Inl e \<Rightarrow> undefined)"

text \<open>The runner samples token 9 for the first request and the end-of-sequence token 2 for the second.\<close>

definition ex_sampled :: ModelRunnerOutput where
  "ex_sampled = \<lparr>req_id_to_index = [''a'' \<mapsto> 0, ''b'' \<mapsto> 1], sampled_token_ids = [[9], [2]], runner_spec_token_ids = None,
     has_logprobs = False, prompt_logprobs_dict = (\<lambda>i. None)\<rparr>"

definition ex_sched3 :: Scheduler where
  "ex_sched3 = snd (update_from_output sorted_list_of_set ex_sched_out ex_sampled ex_sched2)"

definition ex_sched4 :: Scheduler where
  "ex_sched4 = snd (finish_requests sorted_list_of_set [''a''] FINISHED_ABORTED ex_sched3)"

lemma ex_sched0_run:
  "scheduler_init 2 6 8 0 None False False [FullAttentionSpec ex_attention] 6 True (0, 0) blank_scheduler = (Inr (), ex_sched0)"
proof -
  have "fst (scheduler_init 2 6 8 0 None False False [FullAttentionSpec ex_attention] 6 True (0, 0) blank_scheduler) = Inr ()" by code_simp
  then show ?thesis by (simp add: ex_sched0_def prod_eq_iff)
qed

lemma ex_sched0_reachable: "sched_reachable ex_hash_fn 7 ex_sched0"
  by (rule sched_reachable.built [OF _ _ ex_sched0_run]) simp_all

lemma scheduler_init_fields:
  "scheduler_init max_seqs max_batched max_len threshold loras logging fin groups num_blocks caching budget s = (Inr (), t) \<Longrightarrow>
     running t = [] \<and> waiting t = [] \<and> reqs t = [] \<and> requests t = [] \<and> max_loras t = loras"
  by (auto simp: scheduler_init_def thenM_ok modM_ok kvM_ok)

lemma ex_sched0_fields: "running ex_sched0 = []" "waiting ex_sched0 = []" "reqs ex_sched0 = []" "requests ex_sched0 = []" "max_loras ex_sched0 = None"
  using scheduler_init_fields [OF ex_sched0_run] by simp_all

lemma ex_req_init: "request_init i prompt 0 [] [] ex_params (Some 2) None = Inr (ex_req i prompt)"
  by (simp add: ex_req_def request_init_def ex_params_def)

lemma ex_sched1_reachable: "sched_reachable ex_hash_fn 7 ex_sched1"
proof -
  let ?s = "snd (add_request (ex_req ''a'' [5, 6, 7, 4]) 0 ex_sched0)"
  have "sched_reachable ex_hash_fn 7 ?s"
    by (rule sched_reachable.added [OF ex_sched0_reachable ex_req_init]) (simp_all add: ex_sched0_fields add_request_run)
  moreover have "dict_get (requests ?s) ''b'' = None"
    by (simp add: add_request_run ex_sched0_fields ex_req_def request_init_def ex_params_def)
  ultimately show ?thesis unfolding ex_sched1_def
    by (rule sched_reachable.added [OF _ ex_req_init]) (simp add: add_request_run)
qed

text \<open>The second request shares the first block of the first one; together they compute six tokens.\<close>

lemma ex_sched1_fields: "running ex_sched1 = []" "waiting ex_sched1 = [0, 1]" "max_loras ex_sched1 = None"
    "status (rq 0 ex_sched1) = WAITING" "status (rq 1 ex_sched1) = WAITING"
  by (simp_all add: ex_sched1_def add_request_run ex_sched0_fields ex_req_def request_init_def ex_params_def)

definition ex_scheduled :: "SchedulerOutput \<Rightarrow> Scheduler \<Rightarrow> bool" where
  "ex_scheduled out t \<longleftrightarrow> running t = [0, 1] \<and> waiting t = [] \<and> map num_computed_tokens (reqs t) = [4, 4] \<and>
     requests t = [(''a'', 0), (''b'', 1)] \<and> req_to_blocks (kv_cache_manager t) = [(''a'', [1, 2, 3, 4]), (''b'', [1, 5])] \<and>
     out_num_scheduled_tokens out = [(''a'', 4), (''b'', 2)] \<and> total_num_scheduled_tokens out = 6"

definition ex_updated :: "EngineCoreOutputs \<Rightarrow> Scheduler \<Rightarrow> bool" where
  "ex_updated eco u \<longleftrightarrow> running u = [0] \<and> requests u = [(''a'', 0)] \<and> map output_token_ids (reqs u) = [[9], [2]] \<and>
     req_to_blocks (kv_cache_manager u) = [(''a'', [1, 2, 3, 4])] \<and> map eo_new_token_ids (eco_outputs eco) = [[9], [2]]"

definition ex_run :: "exn + SchedulerOutput \<Rightarrow> Scheduler \<Rightarrow> bool" where
  "ex_run r t \<longleftrightarrow> (case r of Inl e \<Rightarrow> False | Inr out \<Rightarrow> ex_scheduled out t \<and>
     (case update_from_output sorted_list_of_set out ex_sampled t of (q, u) \<Rightarrow> case q of Inl e \<Rightarrow> False | Inr eco \<Rightarrow> ex_updated eco u \<and>
       (case finish_requests sorted_list_of_set [''a''] FINISHED_ABORTED u of (p, v) \<Rightarrow> p = Inr () \<and> running v = [])))"

lemma ex_sched_eval: "case schedule ex_hash_fn 7 (\<lambda>r. True) 0 ex_sched1 of None \<Rightarrow> False | Some (r, t) \<Rightarrow> ex_run r t"
  by code_simp

lemma ex_sched_parts:
  "\<exists>out t u v eco. schedule ex_hash_fn 7 (\<lambda>r. True) 0 ex_sched1 = Some (Inr out, t) \<and> ex_scheduled out t \<and>
     update_from_output sorted_list_of_set out ex_sampled t = (Inr eco, u) \<and> ex_updated eco u \<and>
     finish_requests sorted_list_of_set [''a''] FINISHED_ABORTED u = (Inr (), v) \<and> running v = []"
proof -
  from ex_sched_eval obtain r t where "schedule ex_hash_fn 7 (\<lambda>r. True) 0 ex_sched1 = Some (r, t)" "ex_run r t"
    by (auto split: option.splits)
  then show ?thesis unfolding ex_run_def by (cases r) (auto split: prod.splits sum.splits)
qed

lemma ex_sched2_run: "schedule ex_hash_fn 7 (\<lambda>r. True) 0 ex_sched1 = Some (Inr ex_sched_out, ex_sched2)"
  and ex_sched2_fields: "running ex_sched2 = [0, 1]" "waiting ex_sched2 = []" "map num_computed_tokens (reqs ex_sched2) = [4, 4]"
    "requests ex_sched2 = [(''a'', 0), (''b'', 1)]" "req_to_blocks (kv_cache_manager ex_sched2) = [(''a'', [1, 2, 3, 4]), (''b'', [1, 5])]"
    "out_num_scheduled_tokens ex_sched_out = [(''a'', 4), (''b'', 2)]" "total_num_scheduled_tokens ex_sched_out = 6"
  and ex_sched3_run: "\<exists>eco. update_from_output sorted_list_of_set ex_sched_out ex_sampled ex_sched2 = (Inr eco, ex_sched3)"
  and ex_sched4_run: "finish_requests sorted_list_of_set [''a''] FINISHED_ABORTED ex_sched3 = (Inr (), ex_sched4)"
  and ex_sched3_fields: "running ex_sched3 = [0]" "map output_token_ids (reqs ex_sched3) = [[9], [2]]" "running ex_sched4 = []"
  using ex_sched_parts by (auto simp: ex_scheduled_def ex_updated_def ex_sched_out_def ex_sched2_def ex_sched3_def ex_sched4_def)

lemma ex_sched2_reachable: "sched_reachable ex_hash_fn 7 ex_sched2"
  by (rule sched_reachable.scheduled [OF ex_sched1_reachable ex_sched2_run])

lemma ex_sched3_reachable: "sched_reachable ex_hash_fn 7 ex_sched3"
  using ex_sched3_run sched_reachable.updated [OF ex_sched2_reachable] by blast

lemma ex_sched4_reachable: "sched_reachable ex_hash_fn 7 ex_sched4"
  by (rule sched_reachable.finished [OF ex_sched3_reachable ex_sched4_run])

subsection \<open>No request is lost, and no block\<close>

text \<open>
  C1. Requests are conserved. After any history of calls a request is in exactly one place: the table
  \<open>requests\<close> names exactly the requests of the two queues, each of which stands there once, a running
  one with status \<open>RUNNING\<close> and a waiting one with a status of waiting, and no more run than may run.
\<close>

theorem requests_conserved:
  assumes "sched_reachable F none_hash s"
  shows "distinct (running s @ waiting s) \<and>
    (\<forall>i a. dict_get (requests s) i = Some a \<longleftrightarrow> a \<in> set (running s @ waiting s) \<and> rid a s = i) \<and>
    (\<forall>a \<in> set (running s). status (rq a s) = RUNNING) \<and>
    (\<forall>a \<in> set (waiting s). status (rq a s) \<in> {WAITING, WAITING_FOR_FSM, PREEMPTED}) \<and>
    int (length (running s)) \<le> max_num_running_reqs s"
  using sched_invD(2,3) [OF sched_reachable_inv [OF assms]]
  unfolding queues_ok_def table_ok_def all_running_def all_waiting_def by blast

lemma ex_b_id: "rid 1 ex_sched2 = ''b''"
proof -
  have "table_ok ex_sched2 (running ex_sched2 @ waiting ex_sched2)"
    using sched_invD(2) [OF sched_reachable_inv [OF ex_sched2_reachable]] by (rule table_ok_queues)
  moreover have "dict_get (requests ex_sched2) ''b'' = Some 1" by (simp add: ex_sched2_fields)
  ultimately show ?thesis unfolding table_ok_def by blast
qed

lemma requests_conserved_witness:
  "distinct (running ex_sched2 @ waiting ex_sched2) \<and> running ex_sched2 = [0, 1] \<and> status (rq 1 ex_sched2) = RUNNING \<and> rid 1 ex_sched2 = ''b''"
proof -
  note c = requests_conserved [OF ex_sched2_reachable, unfolded ex_sched2_fields]
  have "dict_get [(''a'', 0), (''b'', 1)] ''b'' = Some (1 :: nat)" by simp
  with c [THEN conjunct2, THEN conjunct1, THEN spec, THEN spec] have "rid 1 ex_sched2 = ''b''" by blast
  moreover have "status (rq 1 ex_sched2) = RUNNING" using c [THEN conjunct2, THEN conjunct2, THEN conjunct1] by simp
  ultimately show ?thesis using c [THEN conjunct1] by (simp add: ex_sched2_fields)
qed

text \<open>An empty table of requests leaves every block but the null block free.\<close>

lemma km_all_free:
  assumes "km_reachable F nh k" and "\<forall>i. blocks_of k i = []"
  shows "get_num_free_blocks k = int (num_gpu_blocks k) - 1"
proof -
  from km_reachable_inv [OF assms(1)] have i: "km_inv (\<lambda>b. 0) k" .
  then obtain l where l: "pool_is k l" by (auto simp: km_inv_def)
  have "b \<notin> set bs" if "dict_get (req_to_blocks k) r = Some bs" for r bs b using assms(2) [rule_format, of r] that by simp
  then have "total_refs (req_to_blocks k) b = 0" for b using i total_refs_zero by (auto simp: km_inv_def)
  then have "idle_blocks k = {0<..<length (q_blocks k)}" using i by (auto simp: idle_blocks_def km_inv_def)
  moreover have "queue_is k l" "set l = idle_blocks k" "num_gpu_blocks k = length (q_blocks k)" "0 < length (q_blocks k)"
    using l by (simp_all add: pool_is_def pool_core_def)
  ultimately have "distinct l" "set l = {0<..<length (q_blocks k)}" "num_free_blocks k = int (length l)"
    by (simp_all add: queue_is_def)
  then have "num_free_blocks k = int (card {0<..<length (q_blocks k)})" by (metis distinct_card)
  with \<open>num_gpu_blocks k = _\<close> \<open>0 < length (q_blocks k)\<close> show ?thesis by (simp add: get_num_free_blocks_def of_nat_diff Suc_le_eq)
qed

text \<open>
  C2. No block leaks. After any history of calls only running requests hold blocks of the KV cache, so
  preempted and finished requests have returned theirs; when no request runs, every block but the null
  block is free.
\<close>

theorem blocks_returned:
  assumes "sched_reachable F none_hash s"
  shows "(\<forall>i bs. dict_get (req_to_blocks (kv_cache_manager s)) i = Some bs \<and> bs \<noteq> [] \<longrightarrow> (\<exists>a \<in> set (running s). rid a s = i)) \<and>
    (running s = [] \<longrightarrow> get_num_free_blocks (kv_cache_manager s) = int (num_gpu_blocks (kv_cache_manager s)) - 1)"
proof -
  note inv = sched_reachable_inv [OF assms]
  have "(\<exists>a \<in> set (running s). rid a s = i)" if "dict_get (req_to_blocks (kv_cache_manager s)) i = Some bs" "bs \<noteq> []" for i bs
    using sched_invD(5) [OF inv] that unfolding blocks_held_def by force
  moreover have "\<forall>i. blocks_of (kv_cache_manager s) i = []" if "running s = []"
    using sched_invD(5) [OF inv] that unfolding blocks_held_def by force
  ultimately show ?thesis using km_all_free [OF sched_invD(1) [OF inv]] by blast
qed

lemma blocks_returned_witness:
  "running ex_sched4 = [] \<and> get_num_free_blocks (kv_cache_manager ex_sched4) = int (num_gpu_blocks (kv_cache_manager ex_sched4)) - 1"
  using blocks_returned [OF ex_sched4_reachable] ex_sched3_fields(3) by blast

subsection \<open>Order and budget of a step\<close>

text \<open>
  C3. First come, first served. A step either preempts, then a suffix of the running requests moves in
  its order to the head of the waiting queue and nobody is admitted; or it admits: the requests that
  join the end of the running queue and those that still wait, each in their order, make up the waiting
  queue before. If there is no limit on adapters and no waiting request needs a grammar that is not
  compiled, those admitted are the first of the waiting queue: nobody is overtaken.
\<close>

theorem first_come_first_served:
  assumes "sched_reachable F none_hash s" and "schedule F none_hash ready now s = Some (Inr out, t)"
  shows "(\<exists>kept preempted. running s = kept @ preempted \<and> preempted \<noteq> [] \<and> running t = kept \<and> waiting t = preempted @ waiting s) \<or>
    (\<exists>new. running t = running s @ new \<and> waiting s \<in> shuffles new (waiting t) \<and>
      (max_loras s = None \<and> (\<forall>a \<in> set (waiting s). status (rq a s) = WAITING_FOR_FSM \<longrightarrow> ready (rq a s)) \<longrightarrow>
        waiting s = new @ waiting t))"
  using schedule_order [OF assms(2) sched_reachable_inv [OF assms(1)]] by (simp only: none_skipped_def)

lemma first_come_first_served_witness:
  "running ex_sched2 = running ex_sched1 @ [0, 1] \<and> waiting ex_sched1 = [0, 1] @ waiting ex_sched2"
proof -
  note f = ex_sched1_fields
  from first_come_first_served [OF ex_sched1_reachable ex_sched2_run, unfolded f ex_sched2_fields]
  obtain new where new: "[0, 1] = [] @ new" "[0, 1] = new @ []" by (force simp: f)
  then show ?thesis by (simp add: f ex_sched2_fields)
qed

text \<open>
  C5. A step stays within its budget. The tokens it schedules add up to the announced total, which does
  not exceed the limit; each request that is scheduled runs, gets at least one token, and afterwards has
  computed no more than its tokens and the draft tokens that go with the step.
\<close>

theorem step_within_budget:
  assumes "sched_reachable F none_hash s" and "schedule F none_hash ready now s = Some (Inr out, t)"
  shows "total_num_scheduled_tokens out = sum_list (map snd (out_num_scheduled_tokens out)) \<and>
    total_num_scheduled_tokens out \<le> max_num_scheduled_tokens s \<and>
    (\<forall>i n. dict_get (out_num_scheduled_tokens out) i = Some n \<longrightarrow> 0 < n \<and>
      (\<exists>a \<in> set (running t). rid a t = i \<and> num_computed_tokens (rq a t) \<le> req_num_tokens (rq a t) +
        int (length (case dict_get (out_spec_decode_tokens out) i of None \<Rightarrow> [] | Some drafts \<Rightarrow> drafts))))"
proof -
  note s = sched_reachable_inv [OF assms(1)]
  from assms(2) s obtain w where w: "picks_ok w" "running w = running t" "same_config s w"
    and rq: "\<And>a. a \<in> set (running t) \<union> set (waiting t) \<Longrightarrow> rq a t = (rq a w)\<lparr>num_computed_tokens := num_computed_tokens (rq a w) +
       (case dict_get (out_num_scheduled_tokens out) (rid a w) of None \<Rightarrow> 0 | Some n \<Rightarrow> n)\<rparr>"
    and out: "out_num_scheduled_tokens out = num_scheduled_tokens w" "out_spec_decode_tokens out = scheduled_spec_decode_tokens w"
      "total_num_scheduled_tokens out = sum_list (map snd (num_scheduled_tokens w))"
    by (rule schedule_result) blast
  have "0 < n \<and> (\<exists>a \<in> set (running t). rid a t = i \<and> num_computed_tokens (rq a t) \<le> req_num_tokens (rq a t) +
        int (length (case dict_get (out_spec_decode_tokens out) i of None \<Rightarrow> [] | Some drafts \<Rightarrow> drafts)))"
    if n: "dict_get (out_num_scheduled_tokens out) i = Some n" for i n
  proof -
    have "i \<in> dict_keys (num_scheduled_tokens w)" using n by (simp add: dict_keys_iff out)
    then obtain a where a: "a \<in> set (picked w)" "rid a w = i" using picks_okD(4) [OF w(1)] by auto
    then have run: "a \<in> set (running t)" using picks_okD(2) [OF w(1)] w(2) by auto
    from picks_okD(9) [OF w(1) a(1)] n have "pick_fits (rq a w) n (dict_get (scheduled_spec_decode_tokens w) i)"
      by (simp add: pick_ok_def a(2) out)
    with rq [of a] run n a(2) have "0 < n" "rid a t = i" "num_computed_tokens (rq a t) \<le> req_num_tokens (rq a t) +
        int (length (case dict_get (out_spec_decode_tokens out) i of None \<Rightarrow> [] | Some drafts \<Rightarrow> drafts))"
      by (auto simp: pick_fits_def out req_num_tokens_def split: option.splits)
    with run show ?thesis by blast
  qed
  then show ?thesis using picks_okD(7,8) [OF w(1)] w(3) out by (simp add: same_config_def)
qed

lemma step_within_budget_witness:
  "total_num_scheduled_tokens ex_sched_out \<le> max_num_scheduled_tokens ex_sched1 \<and> total_num_scheduled_tokens ex_sched_out = 6 \<and>
   (\<exists>a \<in> set (running ex_sched2). rid a ex_sched2 = ''b'')"
proof -
  note b = step_within_budget [OF ex_sched1_reachable ex_sched2_run]
  have "dict_get (out_num_scheduled_tokens ex_sched_out) ''b'' = Some 2" by (simp add: ex_sched2_fields)
  with b have "\<exists>a \<in> set (running ex_sched2). rid a ex_sched2 = ''b''" by blast
  with b show ?thesis by (simp add: ex_sched2_fields)
qed

subsection \<open>Encoder inputs\<close>

text \<open>Every token of the range \<open>[c, c + m)\<close> that lies in one of the first \<open>k\<close> inputs finds that input cached or among \<open>ins\<close>.\<close>

definition covers :: "EncoderCacheManager \<Rightarrow> Request \<Rightarrow> PlaceholderRange list \<Rightarrow> nat list \<Rightarrow> int \<Rightarrow> int \<Rightarrow> nat \<Rightarrow> bool" where
  "covers e r ms ins c m k \<longleftrightarrow> (\<forall>i j. i < k \<and> c \<le> j \<and> j < c + m \<and> ph_offset (ms ! i) \<le> j \<and> j < ph_offset (ms ! i) + ph_length (ms ! i) \<longrightarrow>
     has_cache e r i \<or> i \<in> set ins)"

lemma covers_less: "covers e r ms ins c n k \<Longrightarrow> m \<le> n \<Longrightarrow> covers e r ms ins c m k"
  unfolding covers_def by (meson add_left_mono order_less_le_trans)

lemma covers_Suc:
  assumes "covers e r ms ins c n k" and "set ins \<subseteq> set ins'" and "ph_offset (ms ! k) + ph_length (ms ! k) \<le> c \<or> has_cache e r k \<or> k \<in> set ins'"
  shows "covers e r ms ins' c n (Suc k)"
  unfolding covers_def
proof (intro allI impI, elim conjE)
  fix i j assume ij: "i < Suc k" "c \<le> j" "j < c + n" "ph_offset (ms ! i) \<le> j" "j < ph_offset (ms ! i) + ph_length (ms ! i)"
  show "has_cache e r i \<or> i \<in> set ins'"
  proof (cases "i = k")
    case True
    with ij assms(3) show ?thesis by auto
  next
    case False
    with ij have "i < k" by simp
    with ij(2-5) assms(1,2) show ?thesis unfolding covers_def by blast
  qed
qed

lemma covers_rest:
  assumes "covers e r ms ins c m k" and "sorted (map ph_offset ms)" and "k < length ms" and "m \<le> 0 \<or> c + m \<le> ph_offset (ms ! k)"
  shows "covers e r ms ins c m (length ms)"
  unfolding covers_def
proof (intro allI impI, elim conjE)
  fix i j assume ij: "i < length ms" "c \<le> j" "j < c + m" "ph_offset (ms ! i) \<le> j" "j < ph_offset (ms ! i) + ph_length (ms ! i)"
  show "has_cache e r i \<or> i \<in> set ins"
  proof (cases "i < k")
    case True
    with assms(1) ij show ?thesis unfolding covers_def by blast
  next
    case False
    with assms(2) ij(1) have "ph_offset (ms ! k) \<le> ph_offset (ms ! i)" by (simp add: sorted_iff_nth_mono)
    with assms(4) ij show ?thesis by linarith
  qed
qed

lemma encoder_loop_covers:
  assumes "encoder_inputs_loop e r c (enumerate k (drop k ms)) acc n b = Inr (ins, m, b')" and "k \<le> length ms"
    and n: "0 < n" and sort: "sorted (map ph_offset ms)" and "covers e r ms acc c n k"
  shows "covers e r ms ins c m (length ms)"
  using assms(1,2,5)
proof (induction "length ms - k" arbitrary: k acc b)
  case 0
  then show ?case by simp
next
  case (Suc l)
  then have k: "k < length ms" by simp
  let ?p = "ms ! k"
  have step: "enumerate k (drop k ms) = (k, ?p) # enumerate (Suc k) (drop (Suc k) ms)" using k by (simp add: Cons_nth_drop_Suc [symmetric])
  note run = Suc.prems(1) [unfolded step encoder_inputs_loop.simps]
  have l: "l = length ms - Suc k" "Suc k \<le> length ms" using Suc.hyps(2) k by simp_all
  consider (out) "c + n \<le> ph_offset ?p"
    | (past) "\<not> c + n \<le> ph_offset ?p" "ph_offset ?p + ph_length ?p \<le> c \<or> has_cache e r k"
    | (full) fits where "\<not> c + n \<le> ph_offset ?p" "\<not> (ph_offset ?p + ph_length ?p \<le> c \<or> has_cache e r k)"
        "enc_can_allocate e r k = Inr fits" "\<not> fits \<or> b < ph_length ?p"
    | (fits) fits where "\<not> c + n \<le> ph_offset ?p" "\<not> (ph_offset ?p + ph_length ?p \<le> c \<or> has_cache e r k)"
        "enc_can_allocate e r k = Inr fits" "\<not> (\<not> fits \<or> b < ph_length ?p)"
    using run by (auto split: if_splits sum.splits)
  then show ?case
  proof cases
    case out
    with run Suc.prems(3) show ?thesis by (auto intro: covers_rest [OF _ sort k])
  next
    case past
    with run have "encoder_inputs_loop e r c (enumerate (Suc k) (drop (Suc k) ms)) acc n b = Inr (ins, m, b')" by (auto split: if_splits)
    from Suc.hyps(1) [OF l(1) this l(2)] covers_Suc [OF Suc.prems(3) subset_refl] past(2) show ?thesis by blast
  next
    case full
    with run have "ins = acc" "m = (if c < ph_offset ?p then ph_offset ?p - c else 0)" by auto
    with full(1) n covers_less [OF Suc.prems(3), of m] show ?thesis by (auto intro!: covers_rest [OF _ sort k] split: if_splits)
  next
    case fits
    with run have "encoder_inputs_loop e r c (enumerate (Suc k) (drop (Suc k) ms)) (acc @ [k]) n (b - ph_length ?p) = Inr (ins, m, b')" by auto
    moreover have "covers e r ms (acc @ [k]) c n (Suc k)" by (rule covers_Suc [OF Suc.prems(3)]) auto
    ultimately show ?thesis using Suc.hyps(1) [OF l(1) _ l(2)] by blast
  qed
qed

lemma encoder_loop_budget:
  assumes "encoder_inputs_loop e r c (enumerate k (drop k (mm_positions r))) acc n b = Inr (ins, m, b')" and "k \<le> length (mm_positions r)"
  shows "\<exists>new. ins = acc @ new \<and> b' = b - (\<Sum>i \<leftarrow> new. input_length r i) \<and> (0 \<le> b \<longrightarrow> 0 \<le> b') \<and>
    (\<forall>i \<in> set new. \<not> has_cache e r i \<and> input_length r i \<le> num_free_slots e)"
  using assms
proof (induction "length (mm_positions r) - k" arbitrary: k acc b)
  case 0
  then show ?case by simp
next
  case (Suc l)
  then have k: "k < length (mm_positions r)" by simp
  let ?p = "mm_positions r ! k"
  have step: "enumerate k (drop k (mm_positions r)) = (k, ?p) # enumerate (Suc k) (drop (Suc k) (mm_positions r))"
    using k by (simp add: Cons_nth_drop_Suc [symmetric])
  note run = Suc.prems(1) [unfolded step encoder_inputs_loop.simps]
  have l: "l = length (mm_positions r) - Suc k" "Suc k \<le> length (mm_positions r)" using Suc.hyps(2) k by simp_all
  have can: "enc_can_allocate e r k = Inr (ph_length ?p \<le> num_free_slots e)" using k by (simp add: enc_can_allocate_def get_num_encoder_tokens_def)
  consider (stop) "ins = acc" "b' = b"
    | (past) "encoder_inputs_loop e r c (enumerate (Suc k) (drop (Suc k) (mm_positions r))) acc n b = Inr (ins, m, b')"
    | (fits) "encoder_inputs_loop e r c (enumerate (Suc k) (drop (Suc k) (mm_positions r))) (acc @ [k]) n (b - ph_length ?p) = Inr (ins, m, b')"
        "ph_length ?p \<le> num_free_slots e" "\<not> has_cache e r k" "ph_length ?p \<le> b"
    using run by (auto simp: can split: if_splits)
  then show ?case
  proof cases
    case past
    from Suc.hyps(1) [OF l(1) this l(2)] show ?thesis .
  next
    case fits
    from Suc.hyps(1) [OF l(1) fits(1) l(2)] obtain new where new: "ins = (acc @ [k]) @ new"
      "b' = b - ph_length ?p - (\<Sum>i \<leftarrow> new. input_length r i)" "0 \<le> b - ph_length ?p \<longrightarrow> 0 \<le> b'"
      "\<forall>i \<in> set new. \<not> has_cache e r i \<and> input_length r i \<le> num_free_slots e" by blast
    then show ?thesis using fits(2-4) by (intro exI [of _ "k # new"]) (simp add: input_length_def [of r k])
  qed simp
qed

text \<open>
  C7. The encoder inputs of a step. \<open>_try_schedule_encoder_inputs\<close> reads the state only. For a request
  whose inputs stand in the order of their positions it cuts the tokens of the step so that every token
  inside an encoder input finds the input's output cached or scheduled now; the inputs it schedules are
  not cached, each fits the free slots, and together they are paid from the budget, which stays
  nonnegative.
\<close>

theorem encoder_inputs_available:
  assumes "try_schedule_encoder_inputs r c n b s = (Inr (ins, m, b'), t)" and "0 < n" and "sorted (map ph_offset (mm_positions r))"
  shows "t = s \<and> 0 \<le> m \<and> m \<le> n \<and>
    (\<forall>i j. i < length (mm_positions r) \<and> c \<le> j \<and> j < c + m \<and> ph_offset (mm_positions r ! i) \<le> j \<and>
        j < ph_offset (mm_positions r ! i) + ph_length (mm_positions r ! i) \<longrightarrow>
      has_cache (encoder_cache_manager s) r i \<or> i \<in> set ins) \<and>
    (\<forall>i \<in> set ins. \<not> has_cache (encoder_cache_manager s) r i \<and> ph_length (mm_positions r ! i) \<le> num_free_slots (encoder_cache_manager s)) \<and>
    b' = b - (\<Sum>i \<leftarrow> ins. ph_length (mm_positions r ! i)) \<and> (0 \<le> b \<longrightarrow> 0 \<le> b')"
proof -
  from assms(1) have run: "encoder_inputs_loop (encoder_cache_manager s) r c (enumerate 0 (drop 0 (mm_positions r))) [] n b = Inr (ins, m, b')"
    and "t = s" by (simp_all add: try_schedule_encoder_inputs_def thenM_ok assertM_ok getM_ok liftM_ok)
  moreover have "covers (encoder_cache_manager s) r (mm_positions r) ins c m (length (mm_positions r))"
    by (rule encoder_loop_covers [OF run _ assms(2,3)]) (simp_all add: covers_def)
  moreover have "0 \<le> m \<and> m \<le> n" using encoder_inputs_loop_tokens [OF run assms(2)] .
  moreover note encoder_loop_budget [OF run]
  moreover have "input_length r = (\<lambda>i. ph_length (mm_positions r ! i))" by (simp add: fun_eq_iff input_length_def)
  ultimately show ?thesis by (auto simp: covers_def)
qed

text \<open>Two images of three tokens; a cache of five slots, of which one is taken, and a budget of eight tokens.\<close>

definition ex_images :: Request where
  "ex_images = (ex_req ''m'' [1, 2, 3, 4, 5, 6, 7, 8])\<lparr>mm_positions := [\<lparr>ph_offset = 0, ph_length = 3\<rparr>, \<lparr>ph_offset = 4, ph_length = 3\<rparr>],
     mm_hashes := [Some ''x'', Some ''y''], num_encoder_inputs := 2, has_encoder_inputs := True\<rparr>"

definition ex_encoder :: Scheduler where
  "ex_encoder = blank_scheduler\<lparr>encoder_cache_manager := (enc_init 5)\<lparr>num_free_slots := 4\<rparr>\<rparr>"

lemma ex_images_run: "try_schedule_encoder_inputs ex_images 0 8 8 ex_encoder = (Inr ([0, 1], 8, 2), ex_encoder)"
proof -
  have "encoder_inputs_loop (encoder_cache_manager ex_encoder) ex_images 0 (enumerate 0 (mm_positions ex_images)) [] 8 8 = Inr ([0, 1], 8, 2)"
    by code_simp
  moreover have "mm_positions ex_images \<noteq> []" by (simp add: ex_images_def)
  ultimately show ?thesis by (simp add: try_schedule_encoder_inputs_def thenM_run assertM_run getM_run liftM_run)
qed

lemma encoder_inputs_available_witness:
  "0 \<le> (8 :: int) \<and> \<not> has_cache (encoder_cache_manager ex_encoder) ex_images 1 \<and>
   (2 :: int) = 8 - (\<Sum>i \<leftarrow> [0, 1]. ph_length (mm_positions ex_images ! i))"
proof -
  have "sorted (map ph_offset (mm_positions ex_images))" by (simp add: ex_images_def)
  from encoder_inputs_available [OF ex_images_run _ this] show ?thesis by simp
qed

text \<open>
  An example. Inputs scheduled in one step can overcommit the encoder cache: each is checked against the slots
  that are free before the step, and their sum is not. With four free slots and two inputs of three
  tokens both are scheduled, and allocating them leaves minus two free slots.
\<close>

theorem encoder_cache_overcommit:
  "fst (try_schedule_encoder_inputs ex_images 0 8 8 ex_encoder) = Inr ([0, 1], 8, 2) \<and>
   (case forM [0, 1] (enc_allocate ex_images) (encoder_cache_manager ex_encoder) of (r, e) \<Rightarrow> r = Inr () \<and> num_free_slots e = - 2)"
proof
  show "fst (try_schedule_encoder_inputs ex_images 0 8 8 ex_encoder) = Inr ([0, 1], 8, 2)" by (simp add: ex_images_run)
  show "case forM [0, 1] (enc_allocate ex_images) (encoder_cache_manager ex_encoder) of (r, e) \<Rightarrow> r = Inr () \<and> num_free_slots e = - 2" by code_simp
qed

subsection \<open>Tokens until a request stops\<close>

lemma free_request_frame:
  assumes "free_request iter a s = (Inr (), t)"
  shows "req_is_finished (rq a s) \<and> reqs t = reqs s \<and> requests t = dict_del (rid a s) (requests s) \<and>
    finished_req_ids t = insert (rid a s) (finished_req_ids s)"
  using assms by (auto simp: free_request_def ok_simps)

lemma check_stop_tokens:
  assumes "check_stop m r = (Inr b, q)"
  shows "output_token_ids q = output_token_ids r \<and> all_token_ids q = all_token_ids r \<and> request_id q = request_id r \<and> max_tokens q = max_tokens r \<and>
    (if b then req_is_finished q else q = r \<and> req_num_tokens r < m \<and> req_num_output_tokens r < max_tokens r)"
  using assms check_stop_ok [OF assms] by (auto simp: check_stop_def ok_simps split: if_splits)

text \<open>What appending \<open>ts\<close> to the request at \<open>a\<close> in \<open>s\<close> has come to in \<open>t\<close>, when the first \<open>new\<close> were taken.\<close>

definition tokens_taken :: "nat \<Rightarrow> int list \<Rightarrow> 'x Scheduler_scheme \<Rightarrow> int list \<Rightarrow> bool \<Rightarrow> 'x Scheduler_scheme \<Rightarrow> bool" where
  "tokens_taken a ts s new stopped t \<longleftrightarrow> (\<exists>rest. ts = new @ rest \<and> output_token_ids (rq a t) = output_token_ids (rq a s) @ new \<and>
    all_token_ids (rq a t) = all_token_ids (rq a s) @ new \<and>
    (if stopped then new \<noteq> [] \<and> req_is_finished (rq a t) \<and> dict_get (requests t) (rid a s) = None \<and> rid a s \<in> finished_req_ids t
     else rest = [] \<and> status (rq a t) = status (rq a s) \<and> requests t = requests s \<and>
       (ts = [] \<or> (req_num_tokens (rq a t) < sched_max_model_len s \<and> req_num_output_tokens (rq a t) < max_tokens (rq a s)))))"

lemma append_tokens_taken:
  "append_tokens iter a taken ts s = (Inr (new, stopped), t) \<Longrightarrow> a < length (reqs s)
    \<Longrightarrow> \<exists>dn. new = taken @ dn \<and> tokens_taken a ts s dn stopped t"
proof (induction ts arbitrary: taken s)
  case Nil
  then show ?case by (simp add: retM_ok tokens_taken_def)
next
  case (Cons x ts)
  let ?r = "(rq a s)\<lparr>output_token_ids := output_token_ids (rq a s) @ [x], all_token_ids := all_token_ids (rq a s) @ [x]\<rparr>"
  from Cons.prems obtain b q where c: "check_stop (sched_max_model_len s) ?r = (Inr b, q)"
    and k: "(if b then thenM (free_request iter a) (retM (taken @ [x], True)) else append_tokens iter a (taken @ [x]) ts)
      (s\<lparr>reqs := (reqs s)[a := q]\<rparr>) = (Inr (new, stopped), t)"
    by (auto simp: thenM_ok reqM_ok append_output_token_ids_def modM_ok getM_ok bindM_ok)
  note q = check_stop_tokens [OF c]
  show ?case
  proof (cases b)
    case True
    with k have "new = taken @ [x]" "stopped" and f: "free_request iter a (s\<lparr>reqs := (reqs s)[a := q]\<rparr>) = (Inr (), t)"
      by (auto simp: thenM_ok retM_ok)
    with q free_request_frame [OF f] True Cons.prems(2) show ?thesis by (intro exI [of _ "[x]"]) (simp add: tokens_taken_def)
  next
    case False
    let ?s = "s\<lparr>reqs := (reqs s)[a := q]\<rparr>"
    have run: "append_tokens iter a (taken @ [x]) ts ?s = (Inr (new, stopped), t)" using k False by simp
    have len: "a < length (reqs ?s)" using Cons.prems(2) by simp
    from Cons.IH [OF run len] obtain dn rest where d: "new = (taken @ [x]) @ dn" "ts = dn @ rest"
      "output_token_ids (rq a t) = output_token_ids (rq a ?s) @ dn" "all_token_ids (rq a t) = all_token_ids (rq a ?s) @ dn"
      "if stopped then dn \<noteq> [] \<and> req_is_finished (rq a t) \<and> dict_get (requests t) (rid a ?s) = None \<and> rid a ?s \<in> finished_req_ids t
       else rest = [] \<and> status (rq a t) = status (rq a ?s) \<and> requests t = requests ?s \<and>
       (ts = [] \<or> (req_num_tokens (rq a t) < sched_max_model_len ?s \<and> req_num_output_tokens (rq a t) < max_tokens (rq a ?s)))"
      unfolding tokens_taken_def by blast
    have "rq a ?s = ?r" using q False Cons.prems(2) by simp
    with d q False show ?thesis unfolding tokens_taken_def
      by (intro exI [of _ "x # dn"] conjI exI [of _ rest])
        (auto simp: req_num_tokens_def req_num_output_tokens_def split: if_splits)
  qed
qed


text \<open>The end-of-sequence token 2 stops the first request of the example; the token after it is dropped.\<close>

definition ex_stopped :: Scheduler where
  "ex_stopped = snd (append_tokens sorted_list_of_set 0 [] [9, 2, 5] ex_sched1)"

lemma ex_stopped_run: "append_tokens sorted_list_of_set 0 [] [9, 2, 5] ex_sched1 = (Inr ([9, 2], True), ex_stopped)"
proof -
  have "fst (append_tokens sorted_list_of_set 0 [] [9, 2, 5] ex_sched1) = Inr ([9, 2], True)" by code_simp
  then show ?thesis unfolding ex_stopped_def by (metis prod.collapse)
qed


end
