(* ===== verification/Spec2Isabelle.thy ===== *)
theory Spec2Isabelle
  imports Prelude EvictorV2 CpuKvCache BlockCommon BlockSource NaiveBlock PrefixBlock PrefixCache
    CpuGpuBlock SequenceBlocks CacheNamespace Sequences BlockManager
    FreeQueue KVRequest KVBlockPool KVCacheManager PartialLoops EncoderCache SchedulerV1 ScheduleInv
    ScheduleSteps ScheduleOrder SchedulerSpec
begin

text \<open>
  A model of the part of the serving engine that decides which request runs and where its keys and
  values live: the block managers and their allocators under \<open>src/vllm/core\<close>, the sequences they
  serve (\<open>src/vllm/sequence.py\<close>), and the KV-cache manager under \<open>src/vllm/v1/core\<close>.

  \<^bold>\<open>How to read it.\<close> A Python object is a record; a method is a function from the record to an outcome
  and the record it leaves, in the monad of \<open>Prelude\<close>: \<open>Inl e\<close> when the method raises \<open>e\<close>, \<open>Inr x\<close>
  when it returns \<open>x\<close>. The state survives an exception. Objects that several others point to live in
  a heap (a list indexed by addresses). A dictionary whose order matters is an association list with
  distinct keys, another one a map. Python's integers are \<open>int\<close>, or \<open>nat\<close> where the code only counts.
  Definitions have the names of the code, with a prefix where two classes share one: \<open>lru_\<close>, \<open>fa_\<close>
  (evictors), \<open>ck_\<close> (CPU cache), \<open>rc_\<close>, \<open>bl_\<close>, \<open>bp_\<close>, \<open>cm_\<close> (shared parts), \<open>na_\<close>, \<open>pa_\<close>, \<open>cg_\<close> (naive,
  prefix-caching and two-device allocator), \<open>tb_\<close>, \<open>bm_\<close> (block table, block manager), \<open>sd_\<close>
  (sequence data), \<open>fq_\<close>, \<open>pool_\<close>, \<open>km_\<close> (free queue, pool and manager of the V1 core).

  \<^bold>\<open>The first core\<close> (\<open>src/vllm/core\<close>).
  \<^item> \<open>EvictorV2\<close> (\<open>evictor_v2.py\<close>): the table scanned for the least recently used block and the heap
    ordered by frequency. Both are instances of the locale of an evictor; eviction takes a block of
    least priority, the lazily invalidated heap stays within its bound, draining returns every block.
  \<^item> \<open>CpuKvCache\<close> (\<open>block/cpu_kv_content_cache.py\<close> and the copy loops of \<open>worker/worker.py\<close>): which
    content lies in which slot of the CPU tier, step by step. For every history of calls the content
    delivered by a load is the content it is named for.
  \<^item> \<open>BlockCommon\<close>, \<open>BlockSource\<close> (\<open>block/common.py\<close>, \<open>block/interfaces.py\<close>): reference counters,
    copy on write, the pool of block objects, block lists, the hit rate; the contract of an allocator
    as a block table uses it, a locale.
  \<^item> \<open>NaiveBlock\<close> (\<open>block/naive_block.py\<close>): every id is free or counted; a fork shares, an append to a
    shared block copies.
  \<^item> \<open>PrefixBlock\<close>, \<open>PrefixCache\<close> (\<open>block/prefix_caching_block.py\<close>): content-addressed blocks, the
    evictor as the third home of an id, the trackers of sequences. The second theory holds what
    callers rely on: same content, same id; a released block is found again.
  \<^item> \<open>CpuGpuBlock\<close> (\<open>block/cpu_gpu_block_allocator.py\<close>): one allocator per device over one heap.
  \<^item> \<open>SequenceBlocks\<close> (\<open>block/block_table.py\<close>): the blocks of a sequence; it uses an allocator only
    through the contract of \<open>BlockSource\<close>.
  \<^item> \<open>CacheNamespace\<close> (\<open>block_manager_v2.py\<close>): the digest of what cached blocks depend on besides
    their tokens. The bytes fed to the digest determine the input.
  \<^item> \<open>Sequences\<close> (\<open>src/vllm/sequence.py\<close>): token lists with their caches, deltas and streamed text.
  \<^item> \<open>BlockManager\<close> (\<open>block_manager_v2.py\<close>, \<open>block/utils.py\<close>, \<open>interfaces.py\<close>): admission, allocation,
    swapping and freeing of whole sequences; it drives everything above.

  \<^bold>\<open>The V1 core\<close> (\<open>src/vllm/v1\<close>).
  \<^item> \<open>FreeQueue\<close> (\<open>core/kv_cache_utils.py\<close>): the free list threaded through the blocks refines a list
    (the locale \<open>free_queue\<close>, interpreted by the linked operations).
  \<^item> \<open>KVRequest\<close> (\<open>request.py\<close>, \<open>core/kv_cache_utils.py\<close>, \<open>core/sched/utils.py\<close>): requests, when they
    stop, and the chain of hashes that names their full blocks.
  \<^item> \<open>KVBlockPool\<close> (\<open>core/block_pool.py\<close>): blocks, their users and the table of cached ones.
  \<^item> \<open>KVCacheManager\<close> (\<open>core/kv_cache_manager.py\<close>, \<open>core/specialized_manager.py\<close>): the blocks of
    each request, lookups for full and sliding-window attention. In every reachable state the counts
    are the uses.

  \<^bold>\<open>Groups of lemmas.\<close> Each component has an invariant (\<open>na_ok\<close>, \<open>pa_ok\<close>, \<open>ck_inv\<close>, \<open>pool_is\<close>,
  \<open>km_inv\<close>, ...), a lemma per operation that it keeps it, a frame that says what the operation leaves
  alone, and lemmas on its results; \<open>ok_simps\<close> inverts a run that returned, \<open>run_simps\<close> evaluates one,
  \<open>inv_intros\<close> goes through the structure of a method. The properties stand at the end of their
  component, each after a text that says what it states.

  \<^bold>\<open>Parameters.\<close> What is not in the repository is an argument: \<open>H\<close> and \<open>F\<close> (Python's \<open>hash\<close>, or
  SHA-256, of a block), \<open>D\<close> (the digest of a namespace), \<open>R\<close> (Python's \<open>repr\<close> of a value), \<open>rnd\<close> (the
  operating system's random bytes), \<open>none_hash\<close> (the seed of the chain of hashes). Where a property needs
  that a hash does not collide it says so, and its witness gives a function for which it holds.

  \<^bold>\<open>Bounds.\<close> The chain of a block and its content hash are followed with fuel, one more than the
  number of objects; a chain without a cycle is shorter. The walk of the free list is a partial
  function that is proved to return. Block sizes are positive. Floats are rationals.

  \<^bold>\<open>Not modelled.\<close> The first core's scheduler (\<open>core/scheduler.py\<close>) and its older block manager
  (\<open>core/block_manager_v1.py\<close>), the cache trace printed when an environment variable asks for it, the
  abstract interfaces, the choice of the cache's size from the memory of a device. Engines, executors
  and workers are process and device glue around this core; model execution, attention and sampling
  are tensor programs over libraries that are not in the repository; entry points and parsers are
  HTTP servers and text formats; the SDK and kernels are vendored or in other languages.
\<close>

end
